(* ===== verification/Apr_Prelude.thy ===== *)
theory Apr_Prelude
  imports Main "HOL-Library.Word" "HOL-Library.List_Lexorder" "HOL-Library.Multiset"
begin

text \<open>
  The vocabulary every component of the development shares: bytes and C strings, the status
  codes of \<^verbatim>\<open>apr_errno.h\<close>, the parts of the C library the sources call (\<open>tolower\<close>, \<open>strcasecmp\<close>,
  \<open>strlen\<close>, \<open>memcpy\<close>), the memory model (a store of blocks of slots), and the generic lemmas about
  them. A C string is the list of its bytes before the terminating NUL; \<open>cstr\<close> says that a list is
  one. Characters are signed, as on the x86 compilers the library is built with.
\<close>

unbundle bit_operations_syntax

named_theorems cstr_simps \<open>facts that discharge the well-formedness of C strings\<close>
named_theorems store_simps \<open>reading and writing the blocks of a store\<close>

section \<open>Bytes and C strings\<close>

type_synonym byte = "8 word"
type_synonym u32 = "32 word"
type_synonym cstring = "byte list"

definition cstr :: "byte list \<Rightarrow> bool" where
  "cstr s \<longleftrightarrow> 0 \<notin> set s"

lemma cstr_Nil [simp, cstr_simps]: "cstr []"
  by (simp add: cstr_def)

lemma cstr_Cons [simp, cstr_simps]: "cstr (c # s) \<longleftrightarrow> c \<noteq> 0 \<and> cstr s"
  by (auto simp: cstr_def)

lemma cstr_append [simp, cstr_simps]: "cstr (s @ t) \<longleftrightarrow> cstr s \<and> cstr t"
  by (auto simp: cstr_def)

text \<open>A property of bytes that a list of all 256 of them satisfies holds for every byte.\<close>

lemma byte_exhaust: "c \<in> set (map word_of_int [0..255])" for c :: byte
proof -
  have "uint c \<in> {0..255}" using unsigned_less [of c, where 'a = int] by simp
  then show ?thesis by (auto intro!: image_eqI [where x = "uint c"])
qed

lemma byte_all: "list_all P (map word_of_int [0..255]) \<Longrightarrow> P c" for c :: byte
  using byte_exhaust [of c] unfolding list_all_iff by blast

text \<open>The status codes the modelled functions return.\<close>

datatype apr_status_t =
    APR_SUCCESS
  | APR_NOTFOUND
  | APR_BADCH
  | APR_EINVAL
  | APR_ERANGE
  | APR_EABOVEROOT
  | APR_EABSOLUTE
  | APR_ERELATIVE
  | APR_ENAMETOOLONG
  | APR_EOF
  | APR_ENOTENOUGHENTROPY
  | APR_BADARG

section \<open>The C library functions the sources call\<close>

text \<open>\<open>tolower\<close> in the C locale.\<close>

definition tolower :: "byte \<Rightarrow> byte" where
  "tolower c = (if 65 \<le> c \<and> c \<le> 90 then c + 32 else c)"

lemma upper_all:
  assumes "list_all P (map word_of_nat [65..<91])" "65 \<le> c" "c \<le> 90"
  shows "P (c :: byte)"
proof -
  have "65 \<le> unat c" "unat c \<le> 90" using assms(2,3) by (simp_all add: word_le_nat_alt)
  then have "c \<in> set (map word_of_nat [65..<91])" 
    unfolding set_map set_upt by (intro image_eqI [where x = "unat c"]) simp_all
  with assms(1) show ?thesis unfolding list_all_iff by blast
qed

lemma tolower_eq_iff:
  "tolower x = tolower y \<longleftrightarrow>
     x = y \<or> (65 \<le> x \<and> x \<le> 90 \<and> y = x + 32) \<or> (65 \<le> y \<and> y \<le> 90 \<and> x = y + 32)"
proof -
  have "tolower (c + 32) = c + 32" if "65 \<le> c" "c \<le> 90" for c
    by (rule upper_all [OF _ that]) code_simp
  moreover have "tolower c = c + 32 \<and> 65 \<le> c \<and> c \<le> 90 \<or> tolower c = c" for c
    by (simp add: tolower_def)
  ultimately show ?thesis
    by (metis add_right_cancel tolower_def)
qed

lemma tolower_eq_induct:
  assumes "tolower x = tolower y" and "\<And>c. 65 \<le> c \<Longrightarrow> c \<le> 90 \<Longrightarrow> f c = f (c + 32)"
  shows "f x = f y"
  using assms by (auto simp: tolower_eq_iff)

lemma tolower_eq_hash: "tolower x = tolower y \<Longrightarrow> 0x1f AND x = 0x1f AND y"
proof (erule tolower_eq_induct)
  fix c :: byte assume that: "65 \<le> c" "c \<le> 90"
  show "0x1f AND c = 0x1f AND (c + 32)"
    by (rule upper_all [OF _ that]) code_simp
qed
text \<open>
  \<open>strcasecmp\<close>: the difference of the first two bytes that differ after \<open>tolower\<close>, the terminating
  NUL counting as a byte.
\<close>

fun strcasecmp :: "cstring \<Rightarrow> cstring \<Rightarrow> int" where
  "strcasecmp [] [] = 0"
| "strcasecmp [] (b # bs) = - uint (tolower b)"
| "strcasecmp (a # as) [] = uint (tolower a)"
| "strcasecmp (a # as) (b # bs) =
     (if tolower a = tolower b then strcasecmp as bs else uint (tolower a) - uint (tolower b))"

text \<open>The normal form of a key under \<open>strcasecmp\<close>.\<close>

definition fold_case :: "cstring \<Rightarrow> cstring" where
  "fold_case s = map tolower s"

lemma tolower_0_iff [simp]: "tolower c = 0 \<longleftrightarrow> c = 0"
  by (rule byte_all [where P = "\<lambda>c. tolower c = 0 \<longleftrightarrow> c = 0"]) code_simp

lemma uint_tolower_pos: "c \<noteq> 0 \<Longrightarrow> 0 < uint (tolower c)"
  using tolower_0_iff [of c] by (metis linorder_neqE_linordered_idom uint_lt_0 unsigned_eq_0_iff)

lemma strcasecmp_eq_0_iff:
  "cstr s \<Longrightarrow> cstr t \<Longrightarrow> strcasecmp s t = 0 \<longleftrightarrow> fold_case s = fold_case t"
  by (induction s t rule: strcasecmp.induct)
    (auto simp: fold_case_def word_uint_eq_iff [symmetric] dest: uint_tolower_pos)

lemma strcasecmp_gt_0_iff:
  "cstr s \<Longrightarrow> cstr t \<Longrightarrow> 0 < strcasecmp s t \<longleftrightarrow> fold_case t < fold_case s"
  by (induction s t rule: strcasecmp.induct)
    (auto simp: fold_case_def word_less_def uint_tolower_pos)

lemma strcasecmp_refl [simp]: "strcasecmp s s = 0"
  by (induction s) auto

section \<open>Memory\<close>

text \<open>
  A block of memory is a list of slots, one per array element. A slot holds indeterminate bytes
  (fresh from \<open>apr_palloc\<close>), all-zero bytes (\<open>apr_pcalloc\<close>, \<open>memset\<close>) or a stored element. A store is
  the list of the blocks handed out so far, a block's address being its position.
\<close>

datatype 'a slot = Undef | Zero | Val 'a

type_synonym 'a block = "'a slot list"
type_synonym 'a store = "'a block list"
type_synonym ptr = "nat \<times> nat"

text \<open>Reading a slot that holds no element is indeterminate.\<close>

primrec (nonexhaustive) rd :: "'a slot \<Rightarrow> 'a" where
  "rd (Val x) = x"

definition new_block :: "'a store \<Rightarrow> 'a slot \<Rightarrow> nat \<Rightarrow> nat \<times> 'a store" where
  "new_block st s n = (length st, st @ [replicate n s])"

definition memcpy :: "'b list \<Rightarrow> nat \<Rightarrow> 'b list \<Rightarrow> nat \<Rightarrow> 'b list" where
  "memcpy dst off src n = take off dst @ take n src @ drop (off + n) dst"

definition memset :: "'b list \<Rightarrow> nat \<Rightarrow> 'b \<Rightarrow> nat \<Rightarrow> 'b list" where
  "memset dst off x n = memcpy dst off (replicate n x) n"

definition store_at :: "'a store \<Rightarrow> ptr \<Rightarrow> 'a \<Rightarrow> 'a store" where
  "store_at st p v = st[fst p := (st ! fst p)[snd p := Val v]]"

lemma length_memcpy [simp, store_simps]:
  "off + n \<le> length dst \<Longrightarrow> n \<le> length src \<Longrightarrow> length (memcpy dst off src n) = length dst"
  by (simp add: memcpy_def)

lemma length_memset [simp, store_simps]:
  "off + n \<le> length dst \<Longrightarrow> length (memset dst off x n) = length dst"
  by (simp add: memset_def)

lemma memcpy_0 [simp, store_simps]: "memcpy dst off src 0 = dst"
  by (simp add: memcpy_def)

lemma take_memcpy_all [simp, store_simps]:
  "off \<le> length dst \<Longrightarrow> n \<le> length src \<Longrightarrow>
     take (off + n) (memcpy dst off src n) = take off dst @ take n src"
  by (simp add: memcpy_def)

lemma take_memcpy_le [simp, store_simps]:
  "m \<le> off \<Longrightarrow> off \<le> length dst \<Longrightarrow> take m (memcpy dst off src n) = take m dst"
  by (simp add: memcpy_def min_def)

lemma take_memcpy_0 [simp, store_simps]:
  "m \<le> n \<Longrightarrow> n \<le> length src \<Longrightarrow> take m (memcpy dst 0 src n) = take m src"
  by (simp add: memcpy_def min_def)

lemma take_memset_le [simp, store_simps]:
  "m \<le> off \<Longrightarrow> off \<le> length dst \<Longrightarrow> take m (memset dst off x n) = take m dst"
  by (simp add: memset_def)

lemma length_store_at [simp, store_simps]: "length (store_at st p v) = length st"
  by (simp add: store_at_def)

lemma store_at_other [simp, store_simps]: "b \<noteq> fst p \<Longrightarrow> store_at st p v ! b = st ! b"
  by (simp add: store_at_def)

lemma store_at_same [store_simps]:
  "fst p < length st \<Longrightarrow> store_at st p v ! fst p = (st ! fst p)[snd p := Val v]"
  by (simp add: store_at_def)

lemma length_store_at_block [simp, store_simps]:
  "length (store_at st p v ! b) = length (st ! b)"
  by (cases "b = fst p"; cases "fst p < length st") (auto simp: store_at_def list_update_beyond)

section \<open>Tags that filter a comparison\<close>

text \<open>
  The tables compare a cheap tag of two keys before the keys themselves. All they need is that equal
  keys have equal tags.
\<close>

locale key_filter =
  fixes same :: "'k \<Rightarrow> 'k \<Rightarrow> bool" and tag :: "'k \<Rightarrow> 'c"
  assumes same_tag: "same a b \<Longrightarrow> tag a = tag b"
begin

lemma filtered_same: "tag a = tag b \<and> same a b \<longleftrightarrow> same a b"
  using same_tag by blast

lemma find_filtered: "find (\<lambda>x. tag (f x) = tag k \<and> same (f x) k) xs = find (\<lambda>x. same (f x) k) xs"
  by (simp add: filtered_same)

lemma different_tag: "tag a \<noteq> tag b \<Longrightarrow> \<not> same a b"
  using same_tag by blast

end

section \<open>Keyed maps\<close>

text \<open>
  The contract of the tables and the hashes towards their clients: after any sequence of updates and
  deletions a lookup returns what a finite map over the normalised keys returns.
\<close>

datatype ('k, 'v) map_op = Put 'k 'v | Del 'k

fun op_key :: "('k, 'v) map_op \<Rightarrow> 'k" where
  "op_key (Put k v) = k"
| "op_key (Del k) = k"

fun run_op :: "('s \<Rightarrow> 'k \<Rightarrow> 'v \<Rightarrow> 's) \<Rightarrow> ('s \<Rightarrow> 'k \<Rightarrow> 's) \<Rightarrow> 's \<Rightarrow> ('k, 'v) map_op \<Rightarrow> 's" where
  "run_op upd del s (Put k v) = upd s k v"
| "run_op upd del s (Del k) = del s k"

definition map_run :: "('k \<Rightarrow> 'n) \<Rightarrow> ('n \<rightharpoonup> 'v) \<Rightarrow> ('k, 'v) map_op list \<Rightarrow> ('n \<rightharpoonup> 'v)" where
  "map_run norm =
     foldl (run_op (\<lambda>m k v. m(norm k \<mapsto> v)) (\<lambda>m k. m(norm k := None)))"

text \<open>
  A store may be bounded: \<open>inv n s\<close> says that \<open>s\<close> is well formed and that \<open>n\<close> more updates keep it so.
\<close>

locale kv_store =
  fixes inv :: "nat \<Rightarrow> 's \<Rightarrow> bool" and ok :: "'k \<Rightarrow> bool" and norm :: "'k \<Rightarrow> 'n"
    and lookup :: "'s \<Rightarrow> 'k \<Rightarrow> 'v option"
    and upd :: "'s \<Rightarrow> 'k \<Rightarrow> 'v \<Rightarrow> 's" and del :: "'s \<Rightarrow> 'k \<Rightarrow> 's"
  assumes room_upd: "inv (Suc n) s \<Longrightarrow> ok k \<Longrightarrow> inv n (upd s k v)"
    and room_del: "inv (Suc n) s \<Longrightarrow> ok k \<Longrightarrow> inv n (del s k)"
    and find_upd: "inv (Suc n) s \<Longrightarrow> ok k \<Longrightarrow> ok k' \<Longrightarrow>
      lookup (upd s k v) k' = (if norm k' = norm k then Some v else lookup s k')"
    and find_del: "inv (Suc n) s \<Longrightarrow> ok k \<Longrightarrow> ok k' \<Longrightarrow>
      lookup (del s k) k' = (if norm k' = norm k then None else lookup s k')"
begin

lemma room_run:
  "inv (length ops + n) s \<Longrightarrow> \<forall>op \<in> set ops. ok (op_key op) \<Longrightarrow> inv n (foldl (run_op upd del) s ops)"
proof (induction ops arbitrary: s)
  case (Cons op ops)
  then show ?case by (cases op) (auto simp: room_upd room_del)
qed simp

lemma find_run:
  assumes "inv (length ops) s" "\<forall>op \<in> set ops. ok (op_key op)" "\<And>k. ok k \<Longrightarrow> lookup s k = m (norm k)" "ok k"
  shows "lookup (foldl (run_op upd del) s ops) k = map_run norm m ops (norm k)"
  using assms(1-3)
proof (induction ops arbitrary: s m)
  case Nil
  with assms(4) show ?case by (simp add: map_run_def)
next
  case (Cons op ops)
  let ?m = "run_op (\<lambda>m k v. m(norm k \<mapsto> v)) (\<lambda>m k. m(norm k := None)) m op"
  have "lookup (run_op upd del s op) k = ?m (norm k)" if "ok k" for k
    using Cons.prems that by (cases op) (auto simp: find_upd find_del)
  moreover have "inv (length ops) (run_op upd del s op)"
    using Cons.prems by (cases op) (auto simp: room_upd room_del)
  ultimately show ?case
    using Cons.IH [of "run_op upd del s op" ?m] Cons.prems(2) by (simp add: map_run_def)
qed

end

text \<open>An unbounded store, as the tables are.\<close>

locale kv_map =
  fixes inv :: "'s \<Rightarrow> bool" and ok :: "'k \<Rightarrow> bool" and norm :: "'k \<Rightarrow> 'n"
    and lookup :: "'s \<Rightarrow> 'k \<Rightarrow> 'v option"
    and upd :: "'s \<Rightarrow> 'k \<Rightarrow> 'v \<Rightarrow> 's" and del :: "'s \<Rightarrow> 'k \<Rightarrow> 's"
  assumes inv_upd: "inv s \<Longrightarrow> ok k \<Longrightarrow> inv (upd s k v)"
    and inv_del: "inv s \<Longrightarrow> ok k \<Longrightarrow> inv (del s k)"
    and lookup_upd: "inv s \<Longrightarrow> ok k \<Longrightarrow> ok k' \<Longrightarrow>
      lookup (upd s k v) k' = (if norm k' = norm k then Some v else lookup s k')"
    and lookup_del: "inv s \<Longrightarrow> ok k \<Longrightarrow> ok k' \<Longrightarrow>
      lookup (del s k) k' = (if norm k' = norm k then None else lookup s k')"

sublocale kv_map \<subseteq> unbounded: kv_store "\<lambda>n. inv" ok norm lookup upd del
  by unfold_locales (simp_all add: inv_upd inv_del lookup_upd lookup_del)

context kv_map
begin

lemma inv_run: "inv s \<Longrightarrow> \<forall>op \<in> set ops. ok (op_key op) \<Longrightarrow> inv (foldl (run_op upd del) s ops)"
  by (rule unbounded.room_run)

lemma lookup_run:
  "inv s \<Longrightarrow> \<forall>op \<in> set ops. ok (op_key op) \<Longrightarrow> (\<And>k. ok k \<Longrightarrow> lookup s k = m (norm k)) \<Longrightarrow> ok k \<Longrightarrow>
     lookup (foldl (run_op upd del) s ops) k = map_run norm m ops (norm k)"
  by (rule unbounded.find_run)

end

end
