(* ===== verification/Apr_Array.thy ===== *)
theory Apr_Array
  imports Apr_Prelude
begin

text \<open>
  The array functions of \<^verbatim>\<open>tables/apr_tables.c\<close>. A header is a record whose \<open>elts\<close> is the address
  of a block of the store, so that headers that share their elements (\<open>apr_array_copy_hdr\<close>) do so
  here as well. One slot stands for the \<open>elt_size\<close> bytes of an element. The theory gives the view of
  an array as the list of its active slots, the well-formedness of a header, what every operation
  does to the view and to the rest of the store, and the locale of growing sequences that the push
  operations implement.
\<close>

section \<open>The operations\<close>

record apr_array_header_t =
  pool :: nat
  elts :: nat
  nelts :: nat
  nalloc :: nat

definition make_array_core ::
    "'a store \<Rightarrow> nat \<Rightarrow> int \<Rightarrow> bool \<Rightarrow> 'a store \<times> apr_array_header_t" where
  "make_array_core st p n clear =
     (let n' = (if n < 1 then 1 else n);
          (a, st') = (if clear then new_block st Zero (nat n') else new_block st Undef (nat n'))
      in (st', \<lparr>pool = p, elts = a, nelts = 0, nalloc = nat n'\<rparr>))"

definition apr_is_empty_array :: "apr_array_header_t option \<Rightarrow> bool" where
  "apr_is_empty_array a = (case a of None \<Rightarrow> True | Some h \<Rightarrow> nelts h = 0)"

definition apr_array_make :: "'a store \<Rightarrow> nat \<Rightarrow> int \<Rightarrow> 'a store \<times> apr_array_header_t" where
  "apr_array_make st p n = make_array_core st p n True"

definition apr_array_clear :: "apr_array_header_t \<Rightarrow> apr_array_header_t" where
  "apr_array_clear arr = arr\<lparr>nelts := 0\<rparr>"

text \<open>The pointer returned by a pop is \<open>None\<close> for NULL.\<close>

definition apr_array_pop ::
    "apr_array_header_t option \<Rightarrow> apr_array_header_t option \<times> ptr option" where
  "apr_array_pop arr =
     (case arr of
        None \<Rightarrow> (None, None)
      | Some a \<Rightarrow>
          if apr_is_empty_array arr then (arr, None)
          else (let a' = a\<lparr>nelts := nelts a - 1\<rparr> in (Some a', Some (elts a', nelts a'))))"

definition apr_array_push ::
    "'a store \<Rightarrow> apr_array_header_t \<Rightarrow> 'a store \<times> apr_array_header_t \<times> ptr" where
  "apr_array_push st arr =
     (let (st1, arr1) =
        (if nelts arr = nalloc arr then
           (let new_size = (if nalloc arr \<le> 0 then 1 else nalloc arr * 2);
                (new_data, st1) = new_block st Undef new_size;
                blk = memcpy (st1 ! new_data) 0 (st ! elts arr) (nalloc arr);
                blk' = memset blk (nalloc arr) Zero (new_size - nalloc arr)
            in (st1[new_data := blk'], arr\<lparr>elts := new_data, nalloc := new_size\<rparr>))
         else (st, arr));
        arr2 = arr1\<lparr>nelts := nelts arr1 + 1\<rparr>
      in (st1, arr2, (elts arr2, nelts arr2 - 1)))"

definition apr_array_push_noclear ::
    "'a store \<Rightarrow> apr_array_header_t \<Rightarrow> 'a store \<times> apr_array_header_t \<times> ptr" where
  "apr_array_push_noclear st arr =
     (let (st1, arr1) =
        (if nelts arr = nalloc arr then
           (let new_size = (if nalloc arr \<le> 0 then 1 else nalloc arr * 2);
                (new_data, st1) = new_block st Undef new_size;
                blk = memcpy (st1 ! new_data) 0 (st ! elts arr) (nalloc arr)
            in (st1[new_data := blk], arr\<lparr>elts := new_data, nalloc := new_size\<rparr>))
         else (st, arr));
        arr2 = arr1\<lparr>nelts := nelts arr1 + 1\<rparr>
      in (st1, arr2, (elts arr2, nelts arr2 - 1)))"

text \<open>
  The doubling loop of \<open>apr_array_cat\<close>. It starts from a size of at least one; the guard
  \<open>0 < new_size\<close> only serves the termination proof.
\<close>

function cat_new_size :: "nat \<Rightarrow> nat \<Rightarrow> nat" where
  "cat_new_size need new_size =
     (if 0 < new_size \<and> new_size < need then cat_new_size need (new_size * 2) else new_size)"
  by pat_completeness auto
termination
  by (relation "measure (\<lambda>(need, new_size). need - new_size)") auto

declare cat_new_size.simps [simp del]

definition apr_array_cat ::
    "'a store \<Rightarrow> apr_array_header_t \<Rightarrow> apr_array_header_t \<Rightarrow> 'a store \<times> apr_array_header_t" where
  "apr_array_cat st dst src =
     (let (st1, dst1) =
        (if nelts dst + nelts src > nalloc dst then
           (let new_size = cat_new_size (nelts dst + nelts src)
                             (if nalloc dst \<le> 0 then 1 else nalloc dst * 2);
                (new_data, st1) = new_block st Zero new_size;
                blk = memcpy (st1 ! new_data) 0 (st ! elts dst) (nalloc dst)
            in (st1[new_data := blk], dst\<lparr>elts := new_data, nalloc := new_size\<rparr>))
         else (st, dst))
      in (st1[elts dst1 := memcpy (st1 ! elts dst1) (nelts dst1) (st1 ! elts src) (nelts src)],
          dst1\<lparr>nelts := nelts dst1 + nelts src\<rparr>))"

definition apr_array_copy ::
    "'a store \<Rightarrow> nat \<Rightarrow> apr_array_header_t \<Rightarrow> 'a store \<times> apr_array_header_t" where
  "apr_array_copy st p arr =
     (let (st1, res) = make_array_core st p (int (nalloc arr)) False;
          blk = memcpy (st1 ! elts res) 0 (st1 ! elts arr) (nelts arr);
          res1 = res\<lparr>nelts := nelts arr\<rparr>;
          blk' = memset blk (nelts res1) Zero (nalloc res1 - nelts res1)
      in (st1[elts res1 := blk'], res1))"

definition copy_array_hdr_core ::
    "apr_array_header_t \<Rightarrow> apr_array_header_t \<Rightarrow> apr_array_header_t" where
  "copy_array_hdr_core res arr = res\<lparr>elts := elts arr, nelts := nelts arr, nalloc := nelts arr\<rparr>"

text \<open>The fresh header of \<open>apr_array_copy_hdr\<close> holds indeterminate fields; all of them are set.\<close>

definition apr_array_copy_hdr :: "nat \<Rightarrow> apr_array_header_t \<Rightarrow> apr_array_header_t" where
  "apr_array_copy_hdr p arr =
     copy_array_hdr_core \<lparr>pool = p, elts = 0, nelts = 0, nalloc = 0\<rparr> arr"

definition apr_array_append ::
    "'a store \<Rightarrow> nat \<Rightarrow> apr_array_header_t \<Rightarrow> apr_array_header_t \<Rightarrow>
       'a store \<times> apr_array_header_t" where
  "apr_array_append st p first second = apr_array_cat st (apr_array_copy_hdr p first) second"

text \<open>
  \<open>apr_array_pstrcat\<close> works on an array of \<open>char *\<close>: a zero slot is a NULL pointer. Its two passes
  are the two recursive functions below, on the remaining active slots; the result is the string
  written, with its NUL, and the number of bytes that were allocated for it.
\<close>

primrec (nonexhaustive) strp :: "cstring slot \<Rightarrow> cstring option" where
  "strp Zero = None"
| "strp (Val s) = Some s"

fun pstrcat_len :: "byte \<Rightarrow> cstring slot list \<Rightarrow> nat" where
  "pstrcat_len sep [] = 0"
| "pstrcat_len sep [s] = (case strp s of None \<Rightarrow> 0 | Some x \<Rightarrow> length x)"
| "pstrcat_len sep (s # ss) =
     (case strp s of None \<Rightarrow> 0 | Some x \<Rightarrow> length x) + (if sep \<noteq> 0 then 1 else 0) + pstrcat_len sep ss"

fun pstrcat_copy :: "byte \<Rightarrow> cstring slot list \<Rightarrow> byte list" where
  "pstrcat_copy sep [] = []"
| "pstrcat_copy sep [s] = (case strp s of None \<Rightarrow> [] | Some x \<Rightarrow> x)"
| "pstrcat_copy sep (s # ss) =
     (case strp s of None \<Rightarrow> [] | Some x \<Rightarrow> x) @ (if sep \<noteq> 0 then [sep] else []) @ pstrcat_copy sep ss"

definition apr_array_pstrcat ::
    "cstring store \<Rightarrow> apr_array_header_t \<Rightarrow> byte \<Rightarrow> nat \<times> byte list" where
  "apr_array_pstrcat st arr sep =
     (if nelts arr \<le> 0 then (1, [0])
      else (let ss = take (nelts arr) (st ! elts arr)
            in (pstrcat_len sep ss + 1, pstrcat_copy sep ss @ [0])))"

section \<open>The view of an array and its well-formedness\<close>

definition arr_view :: "'a store \<Rightarrow> apr_array_header_t \<Rightarrow> 'a slot list" where
  "arr_view st a = take (nelts a) (st ! elts a)"

definition arr_wf :: "'a store \<Rightarrow> apr_array_header_t \<Rightarrow> bool" where
  "arr_wf st a \<longleftrightarrow>
     elts a < length st \<and> nelts a \<le> nalloc a \<and> nalloc a \<le> length (st ! elts a)"

text \<open>Every block of the first store is in the second one, unchanged.\<close>

definition store_extends :: "'a store \<Rightarrow> 'a store \<Rightarrow> bool" where
  "store_extends st st' \<longleftrightarrow> length st \<le> length st' \<and> (\<forall>b < length st. st' ! b = st ! b)"

lemma store_extends_refl [simp]: "store_extends st st"
  by (simp add: store_extends_def)

lemma store_extends_trans:
  "store_extends st st' \<Longrightarrow> store_extends st' st'' \<Longrightarrow> store_extends st st''"
  by (auto simp: store_extends_def)

lemma store_extends_new [simp]: "store_extends st (st @ bs)"
  by (simp add: store_extends_def nth_append)

lemma store_extends_arr_wf: "store_extends st st' \<Longrightarrow> arr_wf st a \<Longrightarrow> arr_wf st' a"
  by (auto simp: store_extends_def arr_wf_def)

lemma store_extends_arr_view: "store_extends st st' \<Longrightarrow> arr_wf st a \<Longrightarrow> arr_view st' a = arr_view st a"
  by (auto simp: store_extends_def arr_wf_def arr_view_def)

lemma length_arr_view [simp]: "arr_wf st a \<Longrightarrow> length (arr_view st a) = nelts a"
  by (auto simp: arr_wf_def arr_view_def)

lemma cat_new_size_ge: "0 < sz \<Longrightarrow> need \<le> cat_new_size need sz \<and> sz \<le> cat_new_size need sz"
proof (induction need sz rule: cat_new_size.induct)
  case (1 need sz)
  show ?case
  proof (cases "sz < need")
    case True
    with 1 have "need \<le> cat_new_size need (sz * 2) \<and> sz * 2 \<le> cat_new_size need (sz * 2)" by simp
    with True 1(2) show ?thesis by (simp add: cat_new_size.simps [of need sz])
  next
    case False
    then show ?thesis by (simp add: cat_new_size.simps [of need sz])
  qed
qed

section \<open>Pushing\<close>

text \<open>What a push does, for both of its variants: the growth step differs in the unused slots only.\<close>

definition push_spec ::
    "'a store \<Rightarrow> apr_array_header_t \<Rightarrow> 'a store \<Rightarrow> apr_array_header_t \<Rightarrow> ptr \<Rightarrow> bool" where
  "push_spec st arr st' arr' p \<longleftrightarrow>
     arr_wf st' arr' \<and> store_extends st st' \<and> p = (elts arr', nelts arr) \<and>
     pool arr' = pool arr \<and> nelts arr' = Suc (nelts arr) \<and> nalloc arr \<le> nalloc arr' \<and>
     take (nelts arr) (st' ! elts arr') = arr_view st arr \<and>
     (if nelts arr < nalloc arr then st' = st \<and> elts arr' = elts arr else elts arr' = length st)"

lemma apr_array_push_spec:
  "arr_wf st arr \<Longrightarrow> apr_array_push st arr = (st', arr', p) \<Longrightarrow> push_spec st arr st' arr' p"
  by (auto simp: apr_array_push_def new_block_def arr_wf_def arr_view_def push_spec_def
      store_extends_def nth_append min_def Let_def split: if_splits)

lemma apr_array_push_noclear_spec:
  "arr_wf st arr \<Longrightarrow> apr_array_push_noclear st arr = (st', arr', p) \<Longrightarrow> push_spec st arr st' arr' p"
  by (auto simp: apr_array_push_noclear_def new_block_def arr_wf_def arr_view_def push_spec_def
      store_extends_def nth_append min_def Let_def split: if_splits)

text \<open>A push followed by the caller's store through the returned pointer.\<close>

definition push_val ::
    "('a store \<Rightarrow> apr_array_header_t \<Rightarrow> 'a store \<times> apr_array_header_t \<times> ptr) \<Rightarrow>
       'a store \<times> apr_array_header_t \<Rightarrow> 'a \<Rightarrow> 'a store \<times> apr_array_header_t" where
  "push_val push s v = (case push (fst s) (snd s) of (st', arr', p) \<Rightarrow> (store_at st' p v, arr'))"

lemma arr_wf_store_at: "arr_wf st a \<Longrightarrow> arr_wf (store_at st p v) a"
  by (simp add: arr_wf_def)

lemma push_spec_view:
  assumes "push_spec st arr st' arr' p"
  shows "arr_view (store_at st' p v) arr' = arr_view st arr @ [Val v]"
proof -
  from assms have l: "elts arr' < length st'" "nelts arr < length (st' ! elts arr')"
    by (auto simp: push_spec_def arr_wf_def)
  with assms show ?thesis
    by (simp add: push_spec_def arr_view_def store_at_def take_Suc_conv_app_nth)
qed

text \<open>
  A push leaves every other header's view alone as long as that header does not share the written
  slot: it has other elements, or it ends at or before the pushing array's old end.
\<close>

lemma push_spec_frame:
  assumes "push_spec st arr st' arr' p" "arr_wf st c"
    and "elts c \<noteq> elts arr \<or> nelts c \<le> nelts arr \<or> nelts arr = nalloc arr"
  shows "arr_view (store_at st' p v) c = arr_view st c"
proof (cases "elts c = elts arr'")
  case True
  with assms have "nelts c \<le> nelts arr" "elts arr' < length st'" "st' = st"
    by (auto simp: push_spec_def arr_wf_def split: if_splits)
  with assms True show ?thesis
    by (simp add: push_spec_def arr_view_def store_at_def)
next
  case False
  with assms show ?thesis
    by (auto simp: push_spec_def arr_view_def store_extends_def arr_wf_def)
qed

section \<open>Growing sequences\<close>

text \<open>
  The contract the clients of an array rely on: storing through the pointer of a push appends one
  element to the view.
\<close>

locale growing_sequence =
  fixes inv :: "'s \<Rightarrow> bool" and view :: "'s \<Rightarrow> 'x list" and append1 :: "'s \<Rightarrow> 'y \<Rightarrow> 's"
    and inj :: "'y \<Rightarrow> 'x"
  assumes inv_append1: "inv s \<Longrightarrow> inv (append1 s y)"
    and view_append1: "inv s \<Longrightarrow> view (append1 s y) = view s @ [inj y]"
begin

lemma inv_foldl: "inv s \<Longrightarrow> inv (foldl append1 s ys)"
  by (induction ys arbitrary: s) (auto simp: inv_append1)

lemma view_foldl: "inv s \<Longrightarrow> view (foldl append1 s ys) = view s @ map inj ys"
  by (induction ys arbitrary: s) (auto simp: inv_append1 view_append1)

lemma length_view_foldl: "inv s \<Longrightarrow> length (view (foldl append1 s ys)) = length (view s) + length ys"
  by (simp add: view_foldl)

end

lemma push_val_wf:
  assumes "\<And>st arr st' arr' p. arr_wf st arr \<Longrightarrow> push st arr = (st', arr', p) \<Longrightarrow> push_spec st arr st' arr' p"
    and "arr_wf (fst s) (snd s)"
  shows "arr_wf (fst (push_val push s v)) (snd (push_val push s v))"
  using assms(1) [OF assms(2)]
  by (auto simp: push_val_def push_spec_def arr_wf_store_at split: prod.splits)

lemma push_val_view:
  assumes "\<And>st arr st' arr' p. arr_wf st arr \<Longrightarrow> push st arr = (st', arr', p) \<Longrightarrow> push_spec st arr st' arr' p"
    and "arr_wf (fst s) (snd s)"
  shows "arr_view (fst (push_val push s v)) (snd (push_val push s v)) =
           arr_view (fst s) (snd s) @ [Val v]"
  using assms(1) [OF assms(2)] push_spec_view
  by (fastforce simp: push_val_def split: prod.splits)

interpretation push: growing_sequence "\<lambda>s. arr_wf (fst s) (snd s)" "\<lambda>s. arr_view (fst s) (snd s)"
  "push_val apr_array_push" Val
  by unfold_locales (simp_all add: push_val_wf push_val_view apr_array_push_spec)

interpretation push_noclear: growing_sequence "\<lambda>s. arr_wf (fst s) (snd s)"
  "\<lambda>s. arr_view (fst s) (snd s)" "push_val apr_array_push_noclear" Val
  by unfold_locales (simp_all add: push_val_wf push_val_view apr_array_push_noclear_spec)

section \<open>Making, concatenating, copying and appending\<close>

lemma make_array_core_spec:
  "make_array_core st p n clear = (st', a) \<Longrightarrow>
     arr_wf st' a \<and> store_extends st st' \<and> arr_view st' a = [] \<and> elts a = length st \<and>
     pool a = p \<and> nelts a = 0 \<and> nalloc a = nat (max 1 n) \<and> length (st' ! elts a) = nalloc a \<and>
     length st' = Suc (length st)"
  by (auto simp: make_array_core_def new_block_def arr_wf_def arr_view_def store_extends_def
      nth_append Let_def max_def split: if_splits)

lemma apr_array_cat_fits:
  assumes "nelts dst + nelts src \<le> nalloc dst"
  shows "apr_array_cat st dst src =
    (st[elts dst := memcpy (st ! elts dst) (nelts dst) (st ! elts src) (nelts src)],
     dst\<lparr>nelts := nelts dst + nelts src\<rparr>)"
  using assms by (simp add: apr_array_cat_def)

lemma apr_array_cat_grows:
  assumes "arr_wf st dst" "arr_wf st src" "nalloc dst < nelts dst + nelts src"
  obtains sz blk where "0 < sz" "nelts dst + nelts src \<le> sz" "length blk = sz"
    "take (nelts dst + nelts src) blk = arr_view st dst @ arr_view st src"
    "apr_array_cat st dst src =
       (st @ [blk], dst\<lparr>elts := length st, nalloc := sz, nelts := nelts dst + nelts src\<rparr>)"
proof
  let ?s0 = "if nalloc dst \<le> 0 then 1 else nalloc dst * 2"
  let ?sz = "cat_new_size (nelts dst + nelts src) ?s0"
  let ?blk = "memcpy (memcpy (replicate ?sz Zero) 0 (st ! elts dst) (nalloc dst)) (nelts dst)
                (st ! elts src) (nelts src)"
  have ge: "nelts dst + nelts src \<le> ?sz \<and> ?s0 \<le> ?sz" by (rule cat_new_size_ge) simp
  then show "0 < ?sz" "nelts dst + nelts src \<le> ?sz" by (auto split: if_splits)
  have wf: "nelts dst \<le> nalloc dst" "nalloc dst \<le> length (st ! elts dst)" "elts dst < length st"
    "nelts src \<le> length (st ! elts src)" "elts src < length st" "nalloc dst \<le> ?sz"
    using assms ge by (auto simp: arr_wf_def split: if_splits)
  then show "length ?blk = ?sz" using ge by simp
  show "take (nelts dst + nelts src) ?blk = arr_view st dst @ arr_view st src"
    using wf ge by (simp add: arr_view_def)
  show "apr_array_cat st dst src =
       (st @ [?blk], dst\<lparr>elts := length st, nalloc := ?sz, nelts := nelts dst + nelts src\<rparr>)"
    using assms wf by (simp add: apr_array_cat_def new_block_def nth_append Let_def)
qed

lemma apr_array_cat_wf:
  assumes "arr_wf st dst" "arr_wf st src" "apr_array_cat st dst src = (st', dst')"
  shows "arr_wf st' dst'"
proof (cases "nelts dst + nelts src \<le> nalloc dst")
  case True
  with assms show ?thesis
    by (auto simp: apr_array_cat_fits arr_wf_def)
next
  case False
  then have "nalloc dst < nelts dst + nelts src" by simp
  then show ?thesis
    by (rule apr_array_cat_grows [OF assms(1,2)]) (use assms(3) in \<open>auto simp: arr_wf_def\<close>)
qed

lemma apr_array_cat_view:
  assumes "arr_wf st dst" "arr_wf st src" "apr_array_cat st dst src = (st', dst')"
  shows "arr_view st' dst' = arr_view st dst @ arr_view st src"
proof (cases "nelts dst + nelts src \<le> nalloc dst")
  case True
  with assms show ?thesis
    by (auto simp: apr_array_cat_fits arr_wf_def arr_view_def)
next
  case False
  then have "nalloc dst < nelts dst + nelts src" by simp
  then show ?thesis
    by (rule apr_array_cat_grows [OF assms(1,2)]) (use assms(3) in \<open>auto simp: arr_view_def\<close>)
qed

text \<open>Where a concatenation puts its result, and which blocks it writes.\<close>

lemma apr_array_cat_frame:
  assumes "arr_wf st dst" "arr_wf st src" "apr_array_cat st dst src = (st', dst')"
  shows "length st \<le> length st' \<and> (\<forall>b < length st. b \<noteq> elts dst' \<longrightarrow> st' ! b = st ! b) \<and>
    take (nelts dst) (st' ! elts dst) = take (nelts dst) (st ! elts dst) \<and>
    pool dst' = pool dst \<and> nelts dst' = nelts dst + nelts src \<and>
    (elts dst' = elts dst \<or> elts dst' = length st)"
proof (cases "nelts dst + nelts src \<le> nalloc dst")
  case True
  with assms show ?thesis
    by (auto simp: apr_array_cat_fits arr_wf_def)
next
  case False
  then have "nalloc dst < nelts dst + nelts src" by simp
  then show ?thesis
    by (rule apr_array_cat_grows [OF assms(1,2)])
      (use assms in \<open>auto simp: nth_append arr_wf_def\<close>)
qed

lemma apr_array_copy_hdr_wf [simp]: "arr_wf st arr \<Longrightarrow> arr_wf st (apr_array_copy_hdr p arr)"
  by (auto simp: apr_array_copy_hdr_def copy_array_hdr_core_def arr_wf_def)

lemma apr_array_copy_hdr_view [simp]:
  "arr_view st (apr_array_copy_hdr p arr) = arr_view st arr"
  by (simp add: apr_array_copy_hdr_def copy_array_hdr_core_def arr_view_def)

lemma apr_array_append_extends:
  assumes "arr_wf st first" "arr_wf st second"
    and "apr_array_append st p first second = (st', res)"
  shows "store_extends st st'"
proof (cases "nelts second = 0")
  case True
  with assms(3) show ?thesis
    by (auto simp: apr_array_append_def apr_array_cat_fits apr_array_copy_hdr_def
        copy_array_hdr_core_def)
next
  case False
  let ?h = "apr_array_copy_hdr p first"
  from False have "nalloc ?h < nelts ?h + nelts second"
    by (simp add: apr_array_copy_hdr_def copy_array_hdr_core_def)
  then show ?thesis
    by (rule apr_array_cat_grows [OF apr_array_copy_hdr_wf [OF assms(1)] assms(2)])
      (use assms(3) in \<open>auto simp: apr_array_append_def\<close>)
qed

lemma apr_array_copy_spec:
  assumes "arr_wf st arr" "apr_array_copy st p arr = (st', res)"
  shows "arr_wf st' res \<and> store_extends st st' \<and> elts res = length st \<and>
    arr_view st' res = arr_view st arr \<and>
    drop (nelts res) (st' ! elts res) = replicate (nalloc res - nelts res) Zero"
proof -
  obtain st1 r where mk: "make_array_core st p (int (nalloc arr)) False = (st1, r)"
    by (cases "make_array_core st p (int (nalloc arr)) False")
  note r = make_array_core_spec [OF mk]
  have le: "nelts arr \<le> nalloc r" "nelts arr \<le> length (st ! elts arr)" "elts arr < length st"
    using assms(1) r by (auto simp: arr_wf_def)
  have same: "st1 ! elts arr = st ! elts arr" using r le by (auto simp: store_extends_def)
  have res: "res = r\<lparr>nelts := nelts arr\<rparr>"
    and st': "st' = st1[elts r := memset (memcpy (st1 ! elts r) 0 (st ! elts arr) (nelts arr))
                (nelts arr) Zero (nalloc r - nelts arr)]"
    using assms(2) mk by (auto simp: apr_array_copy_def Let_def same)
  show ?thesis
    using r le unfolding res st'
    by (auto simp: arr_wf_def arr_view_def store_extends_def memset_def memcpy_def)
qed

text \<open>The two passes of \<open>apr_array_pstrcat\<close> agree on the length.\<close>

lemma length_pstrcat_copy: "length (pstrcat_copy sep ss) = pstrcat_len sep ss"
  by (induction sep ss rule: pstrcat_copy.induct) (auto split: option.splits)

definition slot_str :: "cstring slot \<Rightarrow> byte list" where
  "slot_str s = (case strp s of None \<Rightarrow> [] | Some x \<Rightarrow> x)"

lemma pstrcat_copy_sep:
  "sep \<noteq> 0 \<Longrightarrow> ss \<noteq> [] \<Longrightarrow>
     pstrcat_copy sep ss @ [sep] = concat (map (\<lambda>s. slot_str s @ [sep]) ss)"
  by (induction sep ss rule: pstrcat_copy.induct) (auto simp: slot_str_def)

lemma pstrcat_copy_nosep: "pstrcat_copy 0 ss = concat (map slot_str ss)"
  by (induction "0 :: byte" ss rule: pstrcat_copy.induct) (auto simp: slot_str_def)

section \<open>Properties\<close>

text \<open>
  Appending two arrays (\<open>apr_array_append\<close>: a header copy followed by a concatenation) yields
  an array whose elements are those of the first followed by those of the second, and it writes no
  block that existed before: both arguments, and every array that shares their elements, are
  unchanged.
\<close>

theorem apr_array_append_correct:
  assumes "arr_wf st first" "arr_wf st second"
    and "apr_array_append st p first second = (st', res)"
  shows "arr_wf st' res \<and> arr_view st' res = arr_view st first @ arr_view st second \<and>
    store_extends st st'"
  using assms apr_array_cat_view [OF apr_array_copy_hdr_wf [OF assms(1)] assms(2), of p st' res]
    apr_array_cat_wf [OF apr_array_copy_hdr_wf [OF assms(1)] assms(2), of p st' res]
    apr_array_append_extends [OF assms]
  by (simp add: apr_array_append_def)

theorem apr_array_append_correct_witness:
  "let st = [[Val (1::nat), Val 2, Undef], [Val 3, Zero]];
       a = \<lparr>pool = 0, elts = 0, nelts = 2, nalloc = 3\<rparr>;
       b = \<lparr>pool = 0, elts = 1, nelts = 1, nalloc = 2\<rparr>;
       (st', res) = apr_array_append st 7 a b
   in arr_view st' res = [Val 1, Val 2, Val 3] \<and> st' ! 0 = st ! 0"
proof -
  let ?st = "[[Val (1::nat), Val 2, Undef], [Val 3, Zero]]"
  let ?a = "\<lparr>pool = 0, elts = 0, nelts = 2, nalloc = 3\<rparr>"
  let ?b = "\<lparr>pool = 0, elts = 1, nelts = 1, nalloc = 2\<rparr>"
  have "arr_wf ?st ?a" "arr_wf ?st ?b" by (simp_all add: arr_wf_def)
  from apr_array_append_correct [OF this, of 7] show ?thesis
    by (auto simp: arr_view_def store_extends_def Let_def split: prod.splits)
qed

text \<open>
  An array made by \<open>apr_array_make\<close> and then filled by \<open>apr_array_push\<close>, the caller storing
  through each returned pointer, holds exactly the stored values in order, whatever its initial size
  was and however often the pushes had to reallocate it.
\<close>

theorem apr_array_push_all:
  "let (st', a) = foldl (push_val apr_array_push) (apr_array_make st p n) vs
   in arr_wf st' a \<and> arr_view st' a = map Val vs"
proof -
  obtain st1 a1 where mk: "apr_array_make st p n = (st1, a1)" by (cases "apr_array_make st p n")
  then have "arr_wf st1 a1 \<and> arr_view st1 a1 = []"
    using make_array_core_spec [of st p n True] by (simp add: apr_array_make_def)
  then show ?thesis
    using push.inv_foldl [of "(st1, a1)" vs] push.view_foldl [of "(st1, a1)" vs] mk
    by (simp add: case_prod_beta)
qed

text \<open>
  A pop after a push undoes it: the popped header shows the elements the array had before the
  push, and the returned pointer designates the value that was pushed.
\<close>

theorem apr_array_push_pop:
  assumes "arr_wf st arr" "push_val apr_array_push (st, arr) v = (st', arr')"
    and "apr_array_pop (Some arr') = (Some arr'', Some q)"
  shows "arr_view st' arr'' = arr_view st arr \<and> st' ! fst q ! snd q = Val v"
proof -
  have v: "arr_view st' arr' = arr_view st arr @ [Val v]" and wf: "arr_wf st' arr'"
    using push.view_append1 [of "(st, arr)" v] push.inv_append1 [of "(st, arr)" v] assms(1,2)
    by simp_all
  then have n: "nelts arr' = Suc (nelts arr)"
    using assms(1) by (metis length_append_singleton length_arr_view)
  have pop: "arr'' = arr'\<lparr>nelts := nelts arr\<rparr>" "q = (elts arr', nelts arr)"
    using assms(3) n by (auto simp: apr_array_pop_def apr_is_empty_array_def Let_def)
  have "take (Suc (nelts arr)) (st' ! elts arr') = arr_view st arr @ [Val v]"
    using v n by (simp add: arr_view_def)
  moreover have "nelts arr < length (st' ! elts arr')" using wf n by (simp add: arr_wf_def)
  ultimately show ?thesis
    unfolding pop by (simp add: arr_view_def take_Suc_conv_app_nth)
qed

theorem apr_array_push_pop_witness:
  "let st = [[Val (1::nat)]]; arr = \<lparr>pool = 0, elts = 0, nelts = 1, nalloc = 1\<rparr>;
       (st', arr') = push_val apr_array_push (st, arr) 5
   in arr_view st' (arr'\<lparr>nelts := 1\<rparr>) = [Val 1] \<and> st' ! elts arr' ! 1 = Val 5"
proof -
  let ?st = "[[Val (1::nat)]]" and ?arr = "\<lparr>pool = 0, elts = 0, nelts = 1, nalloc = 1\<rparr>"
  let ?st' = "[[Val (1::nat)], [Val 1, Val 5]]" and ?arr' = "\<lparr>pool = 0, elts = 1, nelts = 2, nalloc = 2\<rparr>"
  have "arr_wf ?st ?arr" by (simp add: arr_wf_def)
  moreover have p: "push_val apr_array_push (?st, ?arr) 5 = (?st', ?arr')" by code_simp
  moreover have "apr_array_pop (Some ?arr') = (Some (?arr'\<lparr>nelts := 1\<rparr>), Some (1, 1))"
    by (simp add: apr_array_pop_def apr_is_empty_array_def)
  ultimately have "arr_view ?st' (?arr'\<lparr>nelts := 1\<rparr>) = arr_view ?st ?arr \<and> ?st' ! 1 ! 1 = Val 5"
    using apr_array_push_pop [of ?st ?arr 5 ?st' ?arr'] by simp
  then show ?thesis unfolding Let_def p by (simp add: arr_view_def)
qed



end
