(* ===== verification/Apr_Table.thy ===== *)
theory Apr_Table
  imports Apr_Array
begin

text \<open>
  The string tables of \<^verbatim>\<open>tables/apr_tables.c\<close>, without the sorting and the compression, which
  are in the theories that follow. A table is an array of entries (key, value, key checksum) in the
  store, with an index of 32 hash chains: for every value of \<open>TABLE_HASH\<close> a bit that says whether
  some key has it, and the positions of the first and the last entry that do. Strings are modelled by
  their contents, so \<open>apr_pstrdup\<close> is the identity on them; the entry array is in the store, where
  tables can share it. The index arrays of a table fresh from \<open>apr_palloc\<close> are indeterminate: the
  functions that allocate one take the contents of that memory as an argument.

  The theory shows that the index and the checksum never change what a lookup finds, that every
  operation keeps the table invariant, and that each refines a plain list operation.
\<close>

section \<open>Keys\<close>

record apr_table_entry_t =
  key :: "cstring option"
  val :: "cstring option"
  key_checksum :: u32

text \<open>The byte at an offset of a NUL-terminated key.\<close>

definition kbyte :: "cstring \<Rightarrow> nat \<Rightarrow> byte" where
  "kbyte k i = (if i < length k then k ! i else 0)"

definition TABLE_HASH_SIZE :: nat where
  "TABLE_HASH_SIZE = 32"

definition TABLE_HASH :: "cstring \<Rightarrow> nat" where
  "TABLE_HASH k = unat (0x1f AND kbyte k 0)"

text \<open>A \<open>char\<close> is signed: its conversion to \<open>apr_uint32_t\<close> extends the sign.\<close>

definition char_to_u32 :: "byte \<Rightarrow> u32" where
  "char_to_u32 c = scast c"

definition CASE_MASK :: u32 where
  "CASE_MASK = 0xdfdfdfdf"

definition COMPUTE_KEY_CHECKSUM :: "cstring \<Rightarrow> u32" where
  "COMPUTE_KEY_CHECKSUM k =
     (let c0 = char_to_u32 (kbyte k 0);
          s0 = push_bit 8 c0;
          (c1, s1) = (if c0 \<noteq> 0 then let c = char_to_u32 (kbyte k 1) in (c, s0 OR c) else (c0, s0));
          s1' = push_bit 8 s1;
          (c2, s2) = (if c1 \<noteq> 0 then let c = char_to_u32 (kbyte k 2) in (c, s1' OR c) else (c1, s1'));
          s2' = push_bit 8 s2;
          (c3, s3) = (if c2 \<noteq> 0 then let c = char_to_u32 (kbyte k 3) in (c, s2' OR c) else (c2, s2'))
      in s3 AND CASE_MASK)"

section \<open>The table and its operations\<close>

record apr_table_t =
  arr :: apr_array_header_t
  index_initialized :: u32
  index_first :: "nat \<Rightarrow> nat"
  index_last :: "nat \<Rightarrow> nat"

type_synonym tstore = "apr_table_entry_t store"

definition TABLE_INDEX_IS_INITIALIZED :: "apr_table_t \<Rightarrow> nat \<Rightarrow> bool" where
  "TABLE_INDEX_IS_INITIALIZED t i \<longleftrightarrow> index_initialized t AND push_bit i 1 \<noteq> 0"

definition TABLE_SET_INDEX_INITIALIZED :: "apr_table_t \<Rightarrow> nat \<Rightarrow> apr_table_t" where
  "TABLE_SET_INDEX_INITIALIZED t i = t\<lparr>index_initialized := index_initialized t OR push_bit i 1\<rparr>"

definition apr_pstrdup :: "cstring option \<Rightarrow> cstring option" where
  "apr_pstrdup s = s"

definition apr_table_elts :: "apr_table_t \<Rightarrow> apr_array_header_t" where
  "apr_table_elts t = arr t"

definition apr_is_empty_table :: "apr_table_t option \<Rightarrow> bool" where
  "apr_is_empty_table t = (case t of None \<Rightarrow> True | Some x \<Rightarrow> nelts (arr x) = 0)"

text \<open>\<open>mf\<close> and \<open>ml\<close> are what the fresh memory of the two index arrays holds.\<close>

definition apr_table_make ::
    "(nat \<Rightarrow> nat) \<Rightarrow> (nat \<Rightarrow> nat) \<Rightarrow> tstore \<Rightarrow> nat \<Rightarrow> int \<Rightarrow> tstore \<times> apr_table_t" where
  "apr_table_make mf ml st p n =
     (let (st', h) = make_array_core st p n False
      in (st', \<lparr>arr = h, index_initialized = 0, index_first = mf, index_last = ml\<rparr>))"

definition apr_table_copy :: "tstore \<Rightarrow> nat \<Rightarrow> apr_table_t \<Rightarrow> tstore \<times> apr_table_t" where
  "apr_table_copy st p t =
     (let (st1, h) = make_array_core st p (int (nalloc (arr t))) False;
          blk = memcpy (st1 ! elts h) 0 (st1 ! elts (arr t)) (nelts (arr t))
      in (st1[elts h := blk],
          \<lparr>arr = h\<lparr>nelts := nelts (arr t)\<rparr>, index_initialized = index_initialized t,
           index_first = index_first t, index_last = index_last t\<rparr>))"

text \<open>The loop of \<open>table_reindex\<close>, from position \<open>i\<close>.\<close>

function reindex_from :: "apr_table_entry_t block \<Rightarrow> nat \<Rightarrow> apr_table_t \<Rightarrow> apr_table_t" where
  "reindex_from blk i t =
     (if i < nelts (arr t) then
        (let h = TABLE_HASH (the (key (rd (blk ! i))));
             t1 = t\<lparr>index_last := (index_last t)(h := i)\<rparr>;
             t2 = (if \<not> TABLE_INDEX_IS_INITIALIZED t1 h
                   then TABLE_SET_INDEX_INITIALIZED (t1\<lparr>index_first := (index_first t1)(h := i)\<rparr>) h
                   else t1)
         in reindex_from blk (i + 1) t2)
      else t)"
  by pat_completeness auto
termination
  by (relation "measure (\<lambda>(blk, i, t). nelts (arr t) - i)")
    (auto simp: TABLE_SET_INDEX_INITIALIZED_def Let_def)

declare reindex_from.simps [simp del]

definition table_reindex :: "tstore \<Rightarrow> apr_table_t \<Rightarrow> apr_table_t" where
  "table_reindex st t = reindex_from (st ! elts (arr t)) 0 (t\<lparr>index_initialized := 0\<rparr>)"

definition apr_table_clear :: "apr_table_t \<Rightarrow> apr_table_t" where
  "apr_table_clear t = t\<lparr>arr := (arr t)\<lparr>nelts := 0\<rparr>, index_initialized := 0\<rparr>"

text \<open>
  The test all the lookup loops make of an entry. A live entry has a key; for one without a key
  \<open>strcasecmp\<close> would be undefined, and the model's answer is "no match".
\<close>

definition slot_matches :: "u32 \<Rightarrow> cstring \<Rightarrow> apr_table_entry_t slot \<Rightarrow> bool" where
  "slot_matches checksum k s \<longleftrightarrow>
     checksum = key_checksum (rd s) \<and>
     (case key (rd s) of None \<Rightarrow> False | Some k' \<Rightarrow> strcasecmp k' k = 0)"

text \<open>The loop \<open>for (; next_elt <= end_elt; next_elt++)\<close> up to the first match.\<close>

function find_elt ::
    "apr_table_entry_t block \<Rightarrow> u32 \<Rightarrow> cstring \<Rightarrow> nat \<Rightarrow> nat \<Rightarrow> nat option" where
  "find_elt blk checksum k next_elt end_elt =
     (if next_elt \<le> end_elt then
        (if slot_matches checksum k (blk ! next_elt) then Some next_elt
         else find_elt blk checksum k (next_elt + 1) end_elt)
      else None)"
  by pat_completeness auto
termination
  by (relation "measure (\<lambda>(blk, c, k, n, e). Suc e - n)") auto

declare find_elt.simps [simp del]

definition apr_table_get :: "tstore \<Rightarrow> apr_table_t \<Rightarrow> cstring option \<Rightarrow> cstring option" where
  "apr_table_get st t k_arg =
     (case k_arg of
        None \<Rightarrow> None
      | Some k \<Rightarrow>
          let h = TABLE_HASH k in
          if \<not> TABLE_INDEX_IS_INITIALIZED t h then None
          else
            (let checksum = COMPUTE_KEY_CHECKSUM k; blk = st ! elts (arr t)
             in case find_elt blk checksum k (index_first t h) (index_last t h) of
                  None \<Rightarrow> None
                | Some i \<Rightarrow> val (rd (blk ! i))))"

text \<open>The code at the label \<open>add_new_elt\<close>; \<open>dup\<close> is \<open>apr_pstrdup\<close> or, in the \<open>n\<close> variants, absent.\<close>

definition add_new_elt ::
    "(cstring option \<Rightarrow> cstring option) \<Rightarrow> tstore \<Rightarrow> apr_table_t \<Rightarrow> nat \<Rightarrow> u32 \<Rightarrow> cstring \<Rightarrow>
       cstring option \<Rightarrow> tstore \<times> apr_table_t" where
  "add_new_elt dup st t h checksum k v =
     (let t1 = t\<lparr>index_last := (index_last t)(h := nelts (arr t))\<rparr>;
          (st1, arr1, p) = apr_array_push_noclear st (arr t1);
          e = \<lparr>key = dup (Some k), val = dup v, key_checksum = checksum\<rparr>
      in (store_at st1 p e, t1\<lparr>arr := arr1\<rparr>))"

text \<open>
  The inner loop of \<open>apr_table_set\<close> that removes the other instances of the key. Its result is the
  block, \<open>next_elt\<close>, \<open>dst_elt\<close>, the new \<open>nelts\<close> and \<open>must_reindex\<close>.
\<close>

function set_remove ::
    "apr_table_entry_t block \<Rightarrow> u32 \<Rightarrow> cstring \<Rightarrow> nat \<Rightarrow> nat \<Rightarrow> nat option \<Rightarrow> nat \<Rightarrow> bool \<Rightarrow>
       apr_table_entry_t block \<times> nat \<times> nat option \<times> nat \<times> bool" where
  "set_remove blk checksum k next_elt end_elt dst_elt n must_reindex =
     (if next_elt \<le> end_elt then
        (if slot_matches checksum k (blk ! next_elt) then
           set_remove blk checksum k (next_elt + 1) end_elt
             (if dst_elt = None then Some next_elt else dst_elt) (n - 1) must_reindex
         else
           (case dst_elt of
              Some d \<Rightarrow>
                set_remove (blk[d := blk ! next_elt]) checksum k (next_elt + 1) end_elt (Some (d + 1)) n True
            | None \<Rightarrow> set_remove blk checksum k (next_elt + 1) end_elt None n must_reindex))
      else (blk, next_elt, dst_elt, n, must_reindex))"
  by pat_completeness auto
termination
  by (relation "measure (\<lambda>(blk, c, k, nx, e, d, n, m). Suc e - nx)") auto

declare set_remove.simps [simp del]

text \<open>The loop that shifts over the remainder of the table.\<close>

function shift_rest :: "'b list \<Rightarrow> nat \<Rightarrow> nat \<Rightarrow> nat \<Rightarrow> 'b list" where
  "shift_rest blk next_elt table_end d =
     (if next_elt < table_end
      then shift_rest (blk[d := blk ! next_elt]) (next_elt + 1) table_end (d + 1)
      else blk)"
  by pat_completeness auto
termination
  by (relation "measure (\<lambda>(blk, nx, e, d). e - nx)") auto

declare shift_rest.simps [simp del]

definition table_set ::
    "(cstring option \<Rightarrow> cstring option) \<Rightarrow> tstore \<Rightarrow> apr_table_t \<Rightarrow> cstring \<Rightarrow> cstring option \<Rightarrow>
       tstore \<times> apr_table_t" where
  "table_set dup st t k v =
     (let checksum = COMPUTE_KEY_CHECKSUM k;
          h = TABLE_HASH k
      in
      if \<not> TABLE_INDEX_IS_INITIALIZED t h then
        (let t1 = TABLE_SET_INDEX_INITIALIZED (t\<lparr>index_first := (index_first t)(h := nelts (arr t))\<rparr>) h
         in add_new_elt dup st t1 h checksum k v)
      else
        (let blk = st ! elts (arr t);
             end_elt = index_last t h;
             table_end = nelts (arr t)
         in
         case find_elt blk checksum k (index_first t h) end_elt of
           None \<Rightarrow> add_new_elt dup st t h checksum k v
         | Some i \<Rightarrow>
             (let blk1 = blk[i := Val ((rd (blk ! i))\<lparr>val := dup v\<rparr>)];
                  (blk2, next_elt, dst_elt, n, must_reindex) =
                    set_remove blk1 checksum k (i + 1) end_elt None (nelts (arr t)) False;
                  (blk3, must_reindex') =
                    (case dst_elt of
                       Some d \<Rightarrow> (shift_rest blk2 next_elt table_end d, True)
                     | None \<Rightarrow> (blk2, must_reindex));
                  st' = st[elts (arr t) := blk3];
                  t' = t\<lparr>arr := (arr t)\<lparr>nelts := n\<rparr>\<rparr>
              in (st', if must_reindex' then table_reindex st' t' else t'))))"

definition apr_table_set ::
    "tstore \<Rightarrow> apr_table_t \<Rightarrow> cstring \<Rightarrow> cstring option \<Rightarrow> tstore \<times> apr_table_t" where
  "apr_table_set = table_set apr_pstrdup"

definition apr_table_setn ::
    "tstore \<Rightarrow> apr_table_t \<Rightarrow> cstring \<Rightarrow> cstring option \<Rightarrow> tstore \<times> apr_table_t" where
  "apr_table_setn = table_set (\<lambda>s. s)"

text \<open>The inner loop of \<open>apr_table_unset\<close>: the block, \<open>next_elt\<close>, \<open>dst_elt\<close> and \<open>nelts\<close>.\<close>

function unset_remove ::
    "apr_table_entry_t block \<Rightarrow> u32 \<Rightarrow> cstring \<Rightarrow> nat \<Rightarrow> nat \<Rightarrow> nat \<Rightarrow> nat \<Rightarrow>
       apr_table_entry_t block \<times> nat \<times> nat \<times> nat" where
  "unset_remove blk checksum k next_elt end_elt d n =
     (if next_elt \<le> end_elt then
        (if slot_matches checksum k (blk ! next_elt)
         then unset_remove blk checksum k (next_elt + 1) end_elt d (n - 1)
         else unset_remove (blk[d := blk ! next_elt]) checksum k (next_elt + 1) end_elt (d + 1) n)
      else (blk, next_elt, d, n))"
  by pat_completeness auto
termination
  by (relation "measure (\<lambda>(blk, c, k, nx, e, d, n). Suc e - nx)") auto

declare unset_remove.simps [simp del]

definition apr_table_unset :: "tstore \<Rightarrow> apr_table_t \<Rightarrow> cstring \<Rightarrow> tstore \<times> apr_table_t" where
  "apr_table_unset st t k =
     (let h = TABLE_HASH k in
      if \<not> TABLE_INDEX_IS_INITIALIZED t h then (st, t)
      else
        (let checksum = COMPUTE_KEY_CHECKSUM k;
             blk = st ! elts (arr t);
             end_elt = index_last t h
         in
         case find_elt blk checksum k (index_first t h) end_elt of
           None \<Rightarrow> (st, t)
         | Some i \<Rightarrow>
             (let table_end = nelts (arr t);
                  (blk1, next_elt, d, n) =
                    unset_remove blk checksum k (i + 1) end_elt i (nelts (arr t) - 1);
                  blk2 = shift_rest blk1 next_elt table_end d;
                  st' = st[elts (arr t) := blk2];
                  t' = t\<lparr>arr := (arr t)\<lparr>nelts := n\<rparr>\<rparr>
              in (st', table_reindex st' t'))))"

text \<open>\<open>apr_pstrcat\<close> concatenates its arguments up to the first NULL.\<close>

fun apr_pstrcat :: "cstring option list \<Rightarrow> cstring" where
  "apr_pstrcat [] = []"
| "apr_pstrcat (None # ss) = []"
| "apr_pstrcat (Some s # ss) = s @ apr_pstrcat ss"

definition table_merge ::
    "(cstring option \<Rightarrow> cstring option) \<Rightarrow> tstore \<Rightarrow> apr_table_t \<Rightarrow> cstring \<Rightarrow> cstring option \<Rightarrow>
       tstore \<times> apr_table_t" where
  "table_merge dup st t k v =
     (let checksum = COMPUTE_KEY_CHECKSUM k;
          h = TABLE_HASH k
      in
      if \<not> TABLE_INDEX_IS_INITIALIZED t h then
        (let t1 = TABLE_SET_INDEX_INITIALIZED (t\<lparr>index_first := (index_first t)(h := nelts (arr t))\<rparr>) h
         in add_new_elt dup st t1 h checksum k v)
      else
        (let blk = st ! elts (arr t) in
         case find_elt blk checksum k (index_first t h) (index_last t h) of
           None \<Rightarrow> add_new_elt dup st t h checksum k v
         | Some i \<Rightarrow>
             (let e = rd (blk ! i);
                  e' = e\<lparr>val := Some (apr_pstrcat [val e, Some [44, 32], v])\<rparr>
              in (st[elts (arr t) := blk[i := Val e']], t))))"

definition apr_table_merge ::
    "tstore \<Rightarrow> apr_table_t \<Rightarrow> cstring \<Rightarrow> cstring option \<Rightarrow> tstore \<times> apr_table_t" where
  "apr_table_merge = table_merge apr_pstrdup"

definition apr_table_mergen ::
    "tstore \<Rightarrow> apr_table_t \<Rightarrow> cstring \<Rightarrow> cstring option \<Rightarrow> tstore \<times> apr_table_t" where
  "apr_table_mergen = table_merge (\<lambda>s. s)"

definition table_add ::
    "(cstring option \<Rightarrow> cstring option) \<Rightarrow> tstore \<Rightarrow> apr_table_t \<Rightarrow> cstring \<Rightarrow> cstring option \<Rightarrow>
       tstore \<times> apr_table_t" where
  "table_add dup st t k v =
     (let h = TABLE_HASH k;
          t1 = t\<lparr>index_last := (index_last t)(h := nelts (arr t))\<rparr>;
          t2 = (if \<not> TABLE_INDEX_IS_INITIALIZED t1 h
                then TABLE_SET_INDEX_INITIALIZED (t1\<lparr>index_first := (index_first t1)(h := nelts (arr t1))\<rparr>) h
                else t1);
          checksum = COMPUTE_KEY_CHECKSUM k;
          (st1, arr1, p) = apr_array_push_noclear st (arr t2);
          e = \<lparr>key = dup (Some k), val = dup v, key_checksum = checksum\<rparr>
      in (store_at st1 p e, t2\<lparr>arr := arr1\<rparr>))"

definition apr_table_add ::
    "tstore \<Rightarrow> apr_table_t \<Rightarrow> cstring \<Rightarrow> cstring option \<Rightarrow> tstore \<times> apr_table_t" where
  "apr_table_add = table_add apr_pstrdup"

definition apr_table_addn ::
    "tstore \<Rightarrow> apr_table_t \<Rightarrow> cstring \<Rightarrow> cstring option \<Rightarrow> tstore \<times> apr_table_t" where
  "apr_table_addn = table_add (\<lambda>s. s)"

text \<open>The loop of \<open>apr_table_clone\<close> over the entries of the source table.\<close>

function clone_from ::
    "apr_table_t \<Rightarrow> nat \<Rightarrow> tstore \<Rightarrow> apr_table_t \<Rightarrow> tstore \<times> apr_table_t" where
  "clone_from t i st new =
     (if i < nelts (arr t) then
        (let e = rd (st ! elts (arr t) ! i);
             (st', new') = apr_table_add st new (the (key e)) (val e)
         in clone_from t (i + 1) st' new')
      else (st, new))"
  by pat_completeness auto
termination
  by (relation "measure (\<lambda>(t, i, st, new). nelts (arr t) - i)") auto

declare clone_from.simps [simp del]

definition apr_table_clone ::
    "(nat \<Rightarrow> nat) \<Rightarrow> (nat \<Rightarrow> nat) \<Rightarrow> tstore \<Rightarrow> nat \<Rightarrow> apr_table_t \<Rightarrow> tstore \<times> apr_table_t" where
  "apr_table_clone mf ml st p t =
     (let (st1, new) = apr_table_make mf ml st p (int (nelts (apr_table_elts t)))
      in clone_from t 0 st1 new)"

definition apr_table_overlay ::
    "(nat \<Rightarrow> nat) \<Rightarrow> (nat \<Rightarrow> nat) \<Rightarrow> tstore \<Rightarrow> nat \<Rightarrow> apr_table_t \<Rightarrow> apr_table_t \<Rightarrow>
       tstore \<times> apr_table_t" where
  "apr_table_overlay mf ml st p overlay base =
     (let h = copy_array_hdr_core \<lparr>pool = p, elts = 0, nelts = 0, nalloc = 0\<rparr> (arr overlay);
          (st', h') = apr_array_cat st h (arr base)
      in (st', table_reindex st'
                 \<lparr>arr = h', index_initialized = 0, index_first = mf, index_last = ml\<rparr>))"

section \<open>Hash and checksum respect \<open>strcasecmp\<close>\<close>

lemma char_to_u32_eq_0 [simp]: "char_to_u32 c = 0 \<longleftrightarrow> c = 0"
  by (rule byte_all [where P = "\<lambda>c. char_to_u32 c = 0 \<longleftrightarrow> c = 0"]) code_simp

lemma tolower_eq_masked:
  assumes "n \<in> {0, 8, 16, 24}" "tolower x = tolower y"
  shows "push_bit n (char_to_u32 x) AND CASE_MASK = push_bit n (char_to_u32 y) AND CASE_MASK"
  using assms(2)
proof (rule tolower_eq_induct [where f = "\<lambda>c. push_bit n (char_to_u32 c) AND CASE_MASK"])
  fix c :: byte assume c: "65 \<le> c" "c \<le> 90"
  have "push_bit 0 (char_to_u32 c) AND CASE_MASK = push_bit 0 (char_to_u32 (c + 32)) AND CASE_MASK"
    by (rule upper_all [OF _ c]) code_simp
  moreover have "push_bit 8 (char_to_u32 c) AND CASE_MASK = push_bit 8 (char_to_u32 (c + 32)) AND CASE_MASK"
    by (rule upper_all [OF _ c]) code_simp
  moreover have "push_bit 16 (char_to_u32 c) AND CASE_MASK = push_bit 16 (char_to_u32 (c + 32)) AND CASE_MASK"
    by (rule upper_all [OF _ c]) code_simp
  moreover have "push_bit 24 (char_to_u32 c) AND CASE_MASK = push_bit 24 (char_to_u32 (c + 32)) AND CASE_MASK"
    by (rule upper_all [OF _ c]) code_simp
  ultimately show "push_bit n (char_to_u32 c) AND CASE_MASK = push_bit n (char_to_u32 (c + 32)) AND CASE_MASK"
    using assms(1) by auto
qed

lemma fold_case_kbyte: "fold_case a = fold_case b \<Longrightarrow> tolower (kbyte a i) = tolower (kbyte b i)"
proof -
  assume eq: "fold_case a = fold_case b"
  then have "length a = length b" unfolding fold_case_def by (metis length_map)
  moreover have "tolower (a ! i) = tolower (b ! i)" if "i < length a" "i < length b"
    using arg_cong [OF eq, of "\<lambda>s. s ! i"] that by (simp add: fold_case_def)
  ultimately show ?thesis by (simp add: kbyte_def)
qed

lemma TABLE_HASH_cong: "fold_case a = fold_case b \<Longrightarrow> TABLE_HASH a = TABLE_HASH b"
  unfolding TABLE_HASH_def using tolower_eq_hash [OF fold_case_kbyte] by metis

lemma TABLE_HASH_less [simp]: "TABLE_HASH k < TABLE_HASH_SIZE"
proof -
  have "unat (0x1f AND kbyte k 0) \<le> unat (0x1f :: byte)"
    by (rule word_and_le2 [THEN word_le_nat_alt [THEN iffD1]])
  then show ?thesis by (simp add: TABLE_HASH_def TABLE_HASH_SIZE_def)
qed

lemma tolower_eq_0_cong: "tolower x = tolower y \<Longrightarrow> x = 0 \<longleftrightarrow> y = 0"
  by (metis tolower_0_iff)

text \<open>The checksum, as the disjunction of the masked contributions of the bytes it reads.\<close>

lemma COMPUTE_KEY_CHECKSUM_alt:
  "COMPUTE_KEY_CHECKSUM k =
     (let m = \<lambda>n c. push_bit n (char_to_u32 c) AND CASE_MASK in
      m 24 (kbyte k 0) OR
      (if kbyte k 0 = 0 then 0 else
         m 16 (kbyte k 1) OR
         (if kbyte k 1 = 0 then 0 else
            m 8 (kbyte k 2) OR (if kbyte k 2 = 0 then 0 else m 0 (kbyte k 3)))))"
  by (simp add: COMPUTE_KEY_CHECKSUM_def Let_def push_bit_or push_bit_push_bit
      and.commute [of _ CASE_MASK] bit.conj_disj_distrib or.assoc)

lemma COMPUTE_KEY_CHECKSUM_cong:
  assumes "fold_case a = fold_case b"
  shows "COMPUTE_KEY_CHECKSUM a = COMPUTE_KEY_CHECKSUM b"
proof -
  have eq: "tolower (kbyte a i) = tolower (kbyte b i)" for i by (rule fold_case_kbyte [OF assms])
  have m: "push_bit n (char_to_u32 (kbyte a i)) AND CASE_MASK = push_bit n (char_to_u32 (kbyte b i)) AND CASE_MASK"
    if "n \<in> {0, 8, 16, 24}" for n i by (rule tolower_eq_masked [OF that eq])
  show ?thesis
    unfolding COMPUTE_KEY_CHECKSUM_alt Let_def tolower_eq_0_cong [OF eq]
    using m [of 24 0] m [of 16 1] m [of 8 2] m [of 0 3] by simp
qed

interpretation checksum_filter: key_filter "\<lambda>a b. fold_case a = fold_case b" COMPUTE_KEY_CHECKSUM
  by unfold_locales (rule COMPUTE_KEY_CHECKSUM_cong)

interpretation hash_filter: key_filter "\<lambda>a b. fold_case a = fold_case b" TABLE_HASH
  by unfold_locales (rule TABLE_HASH_cong)

section \<open>The invariant\<close>

definition entry_ok :: "apr_table_entry_t \<Rightarrow> bool" where
  "entry_ok e \<longleftrightarrow> (\<exists>k. key e = Some k \<and> cstr k \<and> key_checksum e = COMPUTE_KEY_CHECKSUM k)"

definition has_key :: "cstring \<Rightarrow> apr_table_entry_t \<Rightarrow> bool" where
  "has_key k e \<longleftrightarrow> fold_case (the (key e)) = fold_case k"

definition ehash :: "apr_table_entry_t \<Rightarrow> nat" where
  "ehash e = TABLE_HASH (the (key e))"

text \<open>
  The index describes a list of entries: the bit of a hash value is set if and only if some entry has
  it, and then the two positions are those of the first and of the last such entry.
\<close>

definition index_ok :: "apr_table_t \<Rightarrow> apr_table_entry_t list \<Rightarrow> bool" where
  "index_ok t es \<longleftrightarrow>
     (\<forall>h < TABLE_HASH_SIZE.
        if TABLE_INDEX_IS_INITIALIZED t h
        then index_first t h < length es \<and> ehash (es ! index_first t h) = h \<and>
             (\<forall>i < index_first t h. ehash (es ! i) \<noteq> h) \<and>
             index_last t h < length es \<and> ehash (es ! index_last t h) = h \<and>
             (\<forall>i. index_last t h < i \<longrightarrow> i < length es \<longrightarrow> ehash (es ! i) \<noteq> h)
        else \<forall>e \<in> set es. ehash e \<noteq> h)"

definition entries :: "tstore \<Rightarrow> apr_table_t \<Rightarrow> apr_table_entry_t list" where
  "entries st t = map rd (arr_view st (arr t))"

definition table_inv :: "tstore \<Rightarrow> apr_table_t \<Rightarrow> bool" where
  "table_inv st t \<longleftrightarrow>
     arr_wf st (arr t) \<and> arr_view st (arr t) = map Val (entries st t) \<and>
     (\<forall>e \<in> set (entries st t). entry_ok e) \<and> index_ok t (entries st t)"

lemma rd_comp_Val [simp]: "rd \<circ> Val = (\<lambda>x. x)"
  by (simp add: fun_eq_iff)

lemma table_invI:
  assumes "arr_wf st (arr t)" "arr_view st (arr t) = map Val es" "\<forall>e \<in> set es. entry_ok e"
    and "index_ok t es"
  shows "table_inv st t \<and> entries st t = es"
  using assms by (simp add: table_inv_def entries_def)

lemma ehash_less [simp]: "ehash e < TABLE_HASH_SIZE"
  by (simp add: ehash_def)

lemma has_key_ehash: "has_key k e \<Longrightarrow> ehash e = TABLE_HASH k"
  unfolding has_key_def ehash_def by (rule TABLE_HASH_cong)

lemma slot_matches_iff:
  "entry_ok e \<Longrightarrow> cstr k \<Longrightarrow> slot_matches (COMPUTE_KEY_CHECKSUM k) k (Val e) \<longleftrightarrow> has_key k e"
  by (auto simp: slot_matches_def entry_ok_def has_key_def strcasecmp_eq_0_iff
      intro: COMPUTE_KEY_CHECKSUM_cong [OF sym])

subsection \<open>Index bits\<close>

lemma initialized_iff_bit: "TABLE_INDEX_IS_INITIALIZED t i \<longleftrightarrow> bit (index_initialized t) i"
  by (simp add: TABLE_INDEX_IS_INITIALIZED_def bit_iff_and_push_bit_not_eq_0)

lemma initialized_set [simp]:
  assumes "j < TABLE_HASH_SIZE"
  shows "TABLE_INDEX_IS_INITIALIZED (TABLE_SET_INDEX_INITIALIZED t i) j \<longleftrightarrow>
     j = i \<or> TABLE_INDEX_IS_INITIALIZED t j"
  using assms
  by (auto simp: initialized_iff_bit TABLE_SET_INDEX_INITIALIZED_def TABLE_HASH_SIZE_def
      bit_or_iff bit_exp_iff)

lemma initialized_update [simp]:
  "TABLE_INDEX_IS_INITIALIZED (t\<lparr>index_first := f\<rparr>) h = TABLE_INDEX_IS_INITIALIZED t h"
  "TABLE_INDEX_IS_INITIALIZED (t\<lparr>index_last := f\<rparr>) h = TABLE_INDEX_IS_INITIALIZED t h"
  "TABLE_INDEX_IS_INITIALIZED (t\<lparr>arr := a\<rparr>) h = TABLE_INDEX_IS_INITIALIZED t h"
  "TABLE_INDEX_IS_INITIALIZED (t\<lparr>index_initialized := 0\<rparr>) h = False"
  by (simp_all add: TABLE_INDEX_IS_INITIALIZED_def)

lemma set_initialized_fields [simp]:
  "arr (TABLE_SET_INDEX_INITIALIZED t h) = arr t"
  "index_first (TABLE_SET_INDEX_INITIALIZED t h) = index_first t"
  "index_last (TABLE_SET_INDEX_INITIALIZED t h) = index_last t"
  by (simp_all add: TABLE_SET_INDEX_INITIALIZED_def)

subsection \<open>Recording one more entry in the index\<close>

definition note_index :: "apr_table_t \<Rightarrow> nat \<Rightarrow> nat \<Rightarrow> apr_table_t" where
  "note_index t h n =
     (let t1 = t\<lparr>index_last := (index_last t)(h := n)\<rparr>
      in if \<not> TABLE_INDEX_IS_INITIALIZED t1 h
         then TABLE_SET_INDEX_INITIALIZED (t1\<lparr>index_first := (index_first t1)(h := n)\<rparr>) h
         else t1)"

lemma arr_note_index [simp]: "arr (note_index t h n) = arr t"
  by (simp add: note_index_def Let_def)

lemma index_ok_arr [simp]: "index_ok (t\<lparr>arr := a\<rparr>) es = index_ok t es"
  by (simp add: index_ok_def)

lemma index_ok_empty: "index_ok (t\<lparr>index_initialized := 0\<rparr>) []"
  by (simp add: index_ok_def)

lemma index_ok_snoc:
  assumes "index_ok t es"
  shows "index_ok (note_index t (ehash e) (length es)) (es @ [e])"
  unfolding index_ok_def
proof (intro allI impI)
  fix h assume h: "h < TABLE_HASH_SIZE"
  let ?t = "note_index t (ehash e) (length es)"
  show "if TABLE_INDEX_IS_INITIALIZED ?t h
        then index_first ?t h < length (es @ [e]) \<and> ehash ((es @ [e]) ! index_first ?t h) = h \<and>
             (\<forall>i < index_first ?t h. ehash ((es @ [e]) ! i) \<noteq> h) \<and>
             index_last ?t h < length (es @ [e]) \<and> ehash ((es @ [e]) ! index_last ?t h) = h \<and>
             (\<forall>i. index_last ?t h < i \<longrightarrow> i < length (es @ [e]) \<longrightarrow> ehash ((es @ [e]) ! i) \<noteq> h)
        else \<forall>e' \<in> set (es @ [e]). ehash e' \<noteq> h"
    using assms [unfolded index_ok_def, rule_format, OF h] h
    by (cases "h = ehash e"; cases "TABLE_INDEX_IS_INITIALIZED t h")
      (auto simp: note_index_def Let_def nth_append less_Suc_eq)
qed

lemma reindex_from_step:
  "i < nelts (arr t) \<Longrightarrow> blk ! i = Val e \<Longrightarrow>
     reindex_from blk i t = reindex_from blk (Suc i) (note_index t (ehash e) i)"
  by (simp add: reindex_from.simps [of blk i] note_index_def ehash_def Let_def)

lemma reindex_from_ok:
  assumes "nelts (arr t) = length es" "i \<le> length es" "take (length es) blk = map Val es"
    and "index_ok t (take i es)"
  shows "index_ok (reindex_from blk i t) es \<and> arr (reindex_from blk i t) = arr t"
  using assms
proof (induction "length es - i" arbitrary: i t)
  case 0
  then show ?case by (simp add: reindex_from.simps [of blk i])
next
  case (Suc d)
  then have i: "i < length es" by simp
  have bi: "blk ! i = Val (es ! i)"
    using i Suc.prems(3) by (metis length_map nth_map nth_take)
  have "index_ok (note_index t (ehash (es ! i)) i) (take (Suc i) es)"
    using index_ok_snoc [OF Suc.prems(4), of "es ! i"] i by (simp add: take_Suc_conv_app_nth)
  then show ?case
    using Suc.hyps(1) [of "Suc i" "note_index t (ehash (es ! i)) i"] Suc.hyps(2) Suc.prems i
    by (simp add: reindex_from_step [OF _ bi])
qed

lemma table_reindex_ok:
  assumes "arr_wf st (arr t)" "arr_view st (arr t) = map Val es"
  shows "index_ok (table_reindex st t) es \<and> arr (table_reindex st t) = arr t"
proof -
  have "nelts (arr t) = length es" using assms by (metis length_arr_view length_map)
  with assms(2) show ?thesis
    using reindex_from_ok [of "t\<lparr>index_initialized := 0\<rparr>" es 0 "st ! elts (arr t)"]
    by (simp add: table_reindex_def arr_view_def index_ok_empty)
qed

section \<open>The list operations that the table operations refine\<close>

definition new_entry :: "cstring \<Rightarrow> cstring option \<Rightarrow> apr_table_entry_t" where
  "new_entry k v = \<lparr>key = Some k, val = v, key_checksum = COMPUTE_KEY_CHECKSUM k\<rparr>"

definition tbl_get :: "apr_table_entry_t list \<Rightarrow> cstring \<Rightarrow> cstring option" where
  "tbl_get es k = (case find (has_key k) es of None \<Rightarrow> None | Some e \<Rightarrow> val e)"

fun tbl_set :: "cstring \<Rightarrow> cstring option \<Rightarrow> apr_table_entry_t list \<Rightarrow> apr_table_entry_t list" where
  "tbl_set k v [] = [new_entry k v]"
| "tbl_set k v (e # es) =
     (if has_key k e then e\<lparr>val := v\<rparr> # filter (\<lambda>e. \<not> has_key k e) es else e # tbl_set k v es)"

definition tbl_unset :: "cstring \<Rightarrow> apr_table_entry_t list \<Rightarrow> apr_table_entry_t list" where
  "tbl_unset k es = filter (\<lambda>e. \<not> has_key k e) es"

fun tbl_merge :: "cstring \<Rightarrow> cstring option \<Rightarrow> apr_table_entry_t list \<Rightarrow> apr_table_entry_t list" where
  "tbl_merge k v [] = [new_entry k v]"
| "tbl_merge k v (e # es) =
     (if has_key k e then e\<lparr>val := Some (apr_pstrcat [val e, Some [44, 32], v])\<rparr> # es
      else e # tbl_merge k v es)"

lemma entry_ok_new [simp]: "cstr k \<Longrightarrow> entry_ok (new_entry k v)"
  by (simp add: entry_ok_def new_entry_def)

lemma entry_ok_val [simp]: "entry_ok (e\<lparr>val := v\<rparr>) = entry_ok e"
  by (simp add: entry_ok_def)

lemma ehash_val [simp]: "ehash (e\<lparr>val := v\<rparr>) = ehash e"
  by (simp add: ehash_def)

lemma has_key_val [simp]: "has_key k (e\<lparr>val := v\<rparr>) = has_key k e"
  by (simp add: has_key_def)

lemma has_key_new [simp]: "has_key k (new_entry k' v) \<longleftrightarrow> fold_case k' = fold_case k"
  by (simp add: has_key_def new_entry_def)

lemma tbl_set_absent: "\<forall>e \<in> set es. \<not> has_key k e \<Longrightarrow> tbl_set k v es = es @ [new_entry k v]"
  by (induction es) auto

lemma tbl_set_present:
  "\<forall>e \<in> set xs. \<not> has_key k e \<Longrightarrow> has_key k e \<Longrightarrow>
     tbl_set k v (xs @ e # ys) = xs @ e\<lparr>val := v\<rparr> # filter (\<lambda>e. \<not> has_key k e) ys"
  by (induction xs) auto

lemma tbl_merge_absent: "\<forall>e \<in> set es. \<not> has_key k e \<Longrightarrow> tbl_merge k v es = es @ [new_entry k v]"
  by (induction es) auto

lemma tbl_merge_present:
  "\<forall>e \<in> set xs. \<not> has_key k e \<Longrightarrow> has_key k e \<Longrightarrow>
     tbl_merge k v (xs @ e # ys) = xs @ e\<lparr>val := Some (apr_pstrcat [val e, Some [44, 32], v])\<rparr> # ys"
  by (induction xs) auto

section \<open>Lookup through the index\<close>

lemma find_elt_Some:
  "find_elt blk c k nx e = Some i \<Longrightarrow>
     nx \<le> i \<and> i \<le> e \<and> slot_matches c k (blk ! i) \<and> (\<forall>j. nx \<le> j \<longrightarrow> j < i \<longrightarrow> \<not> slot_matches c k (blk ! j))"
proof (induction blk c k nx e rule: find_elt.induct)
  case (1 blk c k nx e)
  show ?case
  proof (cases "nx \<le> e \<and> \<not> slot_matches c k (blk ! nx)")
    case True
    with 1 have "Suc nx \<le> i \<and> i \<le> e \<and> slot_matches c k (blk ! i) \<and>
      (\<forall>j. Suc nx \<le> j \<longrightarrow> j < i \<longrightarrow> \<not> slot_matches c k (blk ! j))"
      by (simp add: find_elt.simps [of blk c k nx e])
    with True show ?thesis by (metis Suc_leD le_eq_less_or_eq Suc_leI)
  next
    case False
    with 1 show ?thesis by (auto simp: find_elt.simps [of blk c k nx e] split: if_splits)
  qed
qed

lemma find_elt_None:
  "find_elt blk c k nx e = None \<Longrightarrow> nx \<le> j \<Longrightarrow> j \<le> e \<Longrightarrow> \<not> slot_matches c k (blk ! j)"
proof (induction blk c k nx e rule: find_elt.induct)
  case (1 blk c k nx e)
  then have "\<not> slot_matches c k (blk ! nx)" "find_elt blk c k (Suc nx) e = None"
    by (auto simp: find_elt.simps [of blk c k nx e] split: if_splits)
  with 1 show ?case by (cases "j = nx") auto
qed

text \<open>What the search of a key in the table finds: the index and the loop together.\<close>

definition table_find :: "tstore \<Rightarrow> apr_table_t \<Rightarrow> cstring \<Rightarrow> nat option" where
  "table_find st t k =
     (if TABLE_INDEX_IS_INITIALIZED t (TABLE_HASH k)
      then find_elt (st ! elts (arr t)) (COMPUTE_KEY_CHECKSUM k) k
             (index_first t (TABLE_HASH k)) (index_last t (TABLE_HASH k))
      else None)"

lemma table_inv_block:
  assumes "table_inv st t" "i < length (entries st t)"
  shows "st ! elts (arr t) ! i = Val (entries st t ! i)"
proof -
  have v: "take (nelts (arr t)) (st ! elts (arr t)) = map Val (entries st t)"
    using assms(1) by (simp add: table_inv_def arr_view_def)
  have "i < nelts (arr t)" using assms by (simp add: table_inv_def entries_def)
  then have "st ! elts (arr t) ! i = take (nelts (arr t)) (st ! elts (arr t)) ! i" by simp
  with v assms(2) show ?thesis by simp
qed

lemma length_entries: "table_inv st t \<Longrightarrow> length (entries st t) = nelts (arr t)"
  by (simp add: table_inv_def entries_def)

lemma table_inv_matches:
  assumes "table_inv st t" "cstr k" "i < length (entries st t)"
  shows "slot_matches (COMPUTE_KEY_CHECKSUM k) k (st ! elts (arr t) ! i) \<longleftrightarrow> has_key k (entries st t ! i)"
  using assms by (simp add: table_inv_block slot_matches_iff table_inv_def)

lemma table_find_Some:
  assumes inv: "table_inv st t" and k: "cstr k" and f: "table_find st t k = Some i"
  shows "i < length (entries st t)" "has_key k (entries st t ! i)"
    "\<And>j. j < i \<Longrightarrow> \<not> has_key k (entries st t ! j)" "i \<le> index_last t (TABLE_HASH k)"
proof -
  let ?h = "TABLE_HASH k" and ?es = "entries st t"
  have ini: "TABLE_INDEX_IS_INITIALIZED t ?h" using f by (simp add: table_find_def split: if_splits)
  note s = find_elt_Some [OF f [unfolded table_find_def if_P [OF ini]]]
  have ix: "index_last t ?h < length ?es" "\<forall>i < index_first t ?h. ehash (?es ! i) \<noteq> ?h"
    using inv ini TABLE_HASH_less [of k] by (auto simp: table_inv_def index_ok_def)
  show i: "i < length ?es" and "i \<le> index_last t ?h" using s ix by auto
  show "has_key k (?es ! i)" using s table_inv_matches [OF inv k i] by simp
  fix j assume "j < i"
  then show "\<not> has_key k (?es ! j)"
    using s ix has_key_ehash table_inv_matches [OF inv k, of j] i
    by (cases "j < index_first t ?h") auto
qed

lemma table_find_None:
  assumes inv: "table_inv st t" and k: "cstr k" and f: "table_find st t k = None"
  shows "\<forall>e \<in> set (entries st t). \<not> has_key k e"
proof (cases "TABLE_INDEX_IS_INITIALIZED t (TABLE_HASH k)")
  case False
  then show ?thesis
    using inv TABLE_HASH_less [of k] has_key_ehash unfolding table_inv_def index_ok_def by metis
next
  case True
  let ?h = "TABLE_HASH k" and ?es = "entries st t"
  have ix: "\<forall>i < index_first t ?h. ehash (?es ! i) \<noteq> ?h"
    "\<forall>i. index_last t ?h < i \<longrightarrow> i < length ?es \<longrightarrow> ehash (?es ! i) \<noteq> ?h"
    using inv True TABLE_HASH_less [of k] by (auto simp: table_inv_def index_ok_def)
  have "\<not> has_key k (?es ! j)" if j: "j < length ?es" for j
  proof (cases "index_first t ?h \<le> j \<and> j \<le> index_last t ?h")
    case True': True
    then show ?thesis
      using find_elt_None [OF f [unfolded table_find_def if_P [OF True]], of j]
        table_inv_matches [OF inv k j] by simp
  next
    case False
    then show ?thesis using ix j has_key_ehash by (metis not_le)
  qed
  then show ?thesis by (auto simp: in_set_conv_nth)
qed

text \<open>The decomposition of the entries at the first match.\<close>

lemma table_find_split:
  assumes "table_inv st t" "cstr k" "table_find st t k = Some i"
  obtains xs e ys where "entries st t = xs @ e # ys" "length xs = i" "has_key k e"
    "\<forall>e \<in> set xs. \<not> has_key k e"
proof
  note f = table_find_Some [OF assms]
  show "entries st t = take i (entries st t) @ entries st t ! i # drop (Suc i) (entries st t)"
    using f(1) by (rule id_take_nth_drop)
  show "length (take i (entries st t)) = i" using f(1) by simp
  show "has_key k (entries st t ! i)" by (rule f(2))
  show "\<forall>e \<in> set (take i (entries st t)). \<not> has_key k e"
    using f(1,3) by (auto simp: in_set_conv_nth)
qed

lemma apr_table_get_find:
  "apr_table_get st t (Some k) =
     (case table_find st t k of None \<Rightarrow> None | Some i \<Rightarrow> val (rd (st ! elts (arr t) ! i)))"
  by (simp add: apr_table_get_def table_find_def Let_def)

lemma apr_table_get_refines:
  assumes "table_inv st t" "cstr k"
  shows "apr_table_get st t (Some k) = tbl_get (entries st t) k"
proof (cases "table_find st t k")
  case None
  then show ?thesis
    using table_find_None [OF assms None]
      find_None_iff [of "has_key k" "entries st t", THEN iffD2]
    by (simp add: apr_table_get_find tbl_get_def None)
next
  case (Some i)
  note f = table_find_Some [OF assms Some]
  have "find (has_key k) (entries st t) = Some (entries st t ! i)"
    using f by (auto simp: find_Some_iff)
  then show ?thesis
    using Some table_inv_block [OF assms(1) f(1)] by (simp add: apr_table_get_find tbl_get_def)
qed

section \<open>Changing a table\<close>

text \<open>
  What every operation on a table promises: from a table with the invariant it leads to one with the
  invariant whose entries are the given list, among the blocks of the store it may write that of the
  table only, and the table keeps its block or moves to a new one.
\<close>

definition table_step ::
    "tstore \<Rightarrow> apr_table_t \<Rightarrow> tstore \<times> apr_table_t \<Rightarrow> apr_table_entry_t list \<Rightarrow> bool" where
  "table_step st t r es \<longleftrightarrow>
     table_inv (fst r) (snd r) \<and> entries (fst r) (snd r) = es \<and> length st \<le> length (fst r) \<and>
     (\<forall>b < length st. b \<noteq> elts (arr t) \<longrightarrow> fst r ! b = st ! b) \<and>
     (elts (arr (snd r)) = elts (arr t) \<or> length st \<le> elts (arr (snd r)))"

lemma note_index_cases:
  "TABLE_INDEX_IS_INITIALIZED t h \<Longrightarrow> t\<lparr>index_last := (index_last t)(h := n)\<rparr> = note_index t h n"
  "\<not> TABLE_INDEX_IS_INITIALIZED t h \<Longrightarrow>
     (TABLE_SET_INDEX_INITIALIZED (t\<lparr>index_first := (index_first t)(h := n)\<rparr>) h)
       \<lparr>index_last := (index_last t)(h := n)\<rparr> = note_index t h n"
  by (simp_all add: note_index_def TABLE_SET_INDEX_INITIALIZED_def Let_def)

lemma append_entry_step:
  assumes "table_inv st t" "cstr k"
    and "apr_array_push_noclear st (arr t) = (st1, arr1, p)"
  shows "table_step st t
    (store_at st1 p (new_entry k v), (note_index t (TABLE_HASH k) (nelts (arr t)))\<lparr>arr := arr1\<rparr>)
    (entries st t @ [new_entry k v])"
proof -
  have wf: "arr_wf st (arr t)" and v: "arr_view st (arr t) = map Val (entries st t)"
    and ix: "index_ok t (entries st t)"
    using assms(1) by (simp_all add: table_inv_def)
  note ps = apr_array_push_noclear_spec [OF wf assms(3)]
  have "arr_wf (store_at st1 p (new_entry k v)) arr1"
    using ps by (simp add: push_spec_def arr_wf_store_at)
  moreover have "arr_view (store_at st1 p (new_entry k v)) arr1 = map Val (entries st t @ [new_entry k v])"
    using push_spec_view [OF ps] v by simp
  moreover have "index_ok (note_index t (TABLE_HASH k) (nelts (arr t))) (entries st t @ [new_entry k v])"
    using index_ok_snoc [OF ix, of "new_entry k v"] length_entries [OF assms(1)]
    by (simp add: ehash_def new_entry_def)
  moreover have "\<forall>b < length st. b \<noteq> elts (arr t) \<longrightarrow> store_at st1 p (new_entry k v) ! b = st ! b"
    "length st \<le> length st1" "elts arr1 = elts (arr t) \<or> length st \<le> elts arr1"
    using ps by (auto simp: push_spec_def store_extends_def split: if_splits)
  moreover have "\<forall>e \<in> set (entries st t @ [new_entry k v]). entry_ok e"
    using assms(1,2) by (auto simp: table_inv_def)
  ultimately show ?thesis
    using table_invI [of "store_at st1 p (new_entry k v)"
        "(note_index t (TABLE_HASH k) (nelts (arr t)))\<lparr>arr := arr1\<rparr>" "entries st t @ [new_entry k v]"]
    unfolding table_step_def by simp
qed

lemma add_new_elt_step:
  assumes "table_inv st t" "cstr k" "\<And>s. dup s = s"
  shows "table_step st t
    (add_new_elt dup st
      (if TABLE_INDEX_IS_INITIALIZED t (TABLE_HASH k) then t
       else TABLE_SET_INDEX_INITIALIZED
              (t\<lparr>index_first := (index_first t)(TABLE_HASH k := nelts (arr t))\<rparr>) (TABLE_HASH k))
      (TABLE_HASH k) (COMPUTE_KEY_CHECKSUM k) k v)
    (entries st t @ [new_entry k v])"
proof -
  obtain st1 arr1 p where ps: "apr_array_push_noclear st (arr t) = (st1, arr1, p)"
    by (cases "apr_array_push_noclear st (arr t)")
  show ?thesis
    using append_entry_step [OF assms(1,2) ps, of v]
    by (cases "TABLE_INDEX_IS_INITIALIZED t (TABLE_HASH k)")
      (simp_all add: add_new_elt_def ps assms(3) note_index_cases(2) new_entry_def Let_def
        flip: note_index_cases(1))
qed

lemma table_add_step:
  assumes "table_inv st t" "cstr k" "\<And>s. dup s = s"
  shows "table_step st t (table_add dup st t k v) (entries st t @ [new_entry k v])"
proof -
  obtain st1 arr1 p where ps: "apr_array_push_noclear st (arr t) = (st1, arr1, p)"
    by (cases "apr_array_push_noclear st (arr t)")
  show ?thesis
    using append_entry_step [OF assms(1,2) ps, of v]
    by (cases "TABLE_INDEX_IS_INITIALIZED t (TABLE_HASH k)")
      (simp_all add: table_add_def ps assms(3) note_index_def new_entry_def Let_def)
qed

subsection \<open>The removal loops\<close>

lemma shift_rest_done: "te \<le> nx \<Longrightarrow> shift_rest blk nx te d = blk"
  by (subst shift_rest.simps) simp

lemma set_remove_done: "e < nx \<Longrightarrow> set_remove blk c k nx e dst n mr = (blk, nx, dst, n, mr)"
  by (subst set_remove.simps) simp

lemma unset_remove_done: "e < nx \<Longrightarrow> unset_remove blk c k nx e d n = (blk, nx, d, n)"
  by (subst unset_remove.simps) simp

lemma shift_rest_spec:
  "d \<le> nx \<Longrightarrow> nx \<le> te \<Longrightarrow> te \<le> length blk \<Longrightarrow>
     length (shift_rest blk nx te d) = length blk \<and>
     take (d + (te - nx)) (shift_rest blk nx te d) = take d blk @ take (te - nx) (drop nx blk)"
proof (induction blk nx te d rule: shift_rest.induct)
  case (1 blk nx te d)
  show ?case
  proof (cases "nx < te")
    case True
    let ?b = "blk[d := blk ! nx]"
    have "take (Suc d + (te - Suc nx)) (shift_rest ?b (Suc nx) te (Suc d)) =
        take (Suc d) ?b @ take (te - Suc nx) (drop (Suc nx) ?b)"
      "length (shift_rest ?b (Suc nx) te (Suc d)) = length blk"
      using 1 True by auto
    moreover have "take (Suc d) ?b = take d blk @ [blk ! nx]"
      using 1 True by (simp add: take_Suc_conv_app_nth)
    moreover have "take (te - nx) (drop nx blk) = blk ! nx # take (te - Suc nx) (drop (Suc nx) blk)"
      using 1 True by (simp add: Cons_nth_drop_Suc [symmetric] Suc_diff_Suc [symmetric])
    ultimately show ?thesis
      using True 1(2) by (simp add: shift_rest.simps [of blk nx te d] Suc_diff_Suc)
  next
    case False
    with 1 show ?thesis by (simp add: shift_rest_done)
  qed
qed

lemma range_Cons:
  "nx \<le> e \<Longrightarrow> e < length blk \<Longrightarrow>
     take (Suc e - nx) (drop nx blk) = blk ! nx # take (e - nx) (drop (Suc nx) blk)"
  by (simp add: Cons_nth_drop_Suc [symmetric] Suc_diff_le)

definition dst_pos :: "nat option \<Rightarrow> nat \<Rightarrow> nat" where
  "dst_pos dst nx = (case dst of None \<Rightarrow> nx | Some d \<Rightarrow> d)"

lemma dst_pos_simps [simp]: "dst_pos None nx = nx" "dst_pos (Some d) nx = d"
  by (simp_all add: dst_pos_def)

lemma set_remove_spec:
  assumes "set_remove blk c k nx e dst n mr = (blk', nx', dst', n', mr')"
    and "nx \<le> Suc e" "e < length blk" "dst_pos dst nx \<le> nx"
  shows "nx' = Suc e \<and> length blk' = length blk \<and> dst_pos dst' nx' \<le> nx' \<and>
    take (dst_pos dst' nx') blk' = take (dst_pos dst nx) blk @
      filter (\<lambda>s. \<not> slot_matches c k s) (take (Suc e - nx) (drop nx blk)) \<and>
    drop nx' blk' = drop nx' blk \<and>
    n' = n - length (filter (slot_matches c k) (take (Suc e - nx) (drop nx blk))) \<and>
    (dst' = None \<longrightarrow> dst = None \<and> blk' = blk \<and> mr' = mr)"
  using assms
proof (induction blk c k nx e dst n mr rule: set_remove.induct)
  case (1 blk c k nx e dst n mr)
  note IH1 = "1.IH"(1) and IH3 = "1.IH"(2) and IH2 = "1.IH"(3)
  show ?case
  proof (cases "nx \<le> e")
    case False
    with "1.prems" have "nx = Suc e" by simp
    with "1.prems" show ?thesis by (auto simp: set_remove_done)
  next
    case le: True
    note rc = range_Cons [OF le "1.prems"(3)]
    show ?thesis
    proof (cases "slot_matches c k (blk ! nx)")
      case True
      from "1.prems" le True
      have r: "set_remove blk c k (nx + 1) e (if dst = None then Some nx else dst) (n - 1) mr =
          (blk', nx', dst', n', mr')"
        by (simp add: set_remove.simps [of blk c k nx e])
      have p: "dst_pos (if dst = None then Some nx else dst) (nx + 1) = dst_pos dst nx"
        by (cases dst) auto
      have l: "nx + 1 \<le> Suc e" "e < length blk"
        "dst_pos (if dst = None then Some nx else dst) (nx + 1) \<le> nx + 1"
        using "1.prems" le by (auto simp: dst_pos_def split: option.splits)
      show ?thesis
        using IH1 [OF le True r l] by (cases dst) (auto simp: rc True)
    next
      case False
      show ?thesis
      proof (cases dst)
        case None
        with "1.prems" le False
        have r: "set_remove blk c k (nx + 1) e None n mr = (blk', nx', dst', n', mr')"
          by (simp add: set_remove.simps [of blk c k nx e])
        have l: "nx + 1 \<le> Suc e" "e < length blk" "dst_pos None (nx + 1) \<le> nx + 1" "nx < length blk"
          using "1.prems" le by simp_all
        show ?thesis
          using IH3 [OF le False None r l(1-3)] l(4)
          by (auto simp: rc False None take_Suc_conv_app_nth)
      next
        case (Some d)
        let ?b = "blk[d := blk ! nx]"
        from "1.prems" le False Some
        have r: "set_remove ?b c k (nx + 1) e (Some (d + 1)) n True = (blk', nx', dst', n', mr')"
          by (simp add: set_remove.simps [of blk c k nx e])
        have d: "d \<le> nx" "d < length blk" using "1.prems" Some le by auto
        then have t: "take (Suc d) ?b = take d blk @ [blk ! nx]" "drop (Suc nx) ?b = drop (Suc nx) blk"
          by (simp_all add: take_Suc_conv_app_nth)
        have l: "nx + 1 \<le> Suc e" "e < length ?b" "dst_pos (Some (d + 1)) (nx + 1) \<le> nx + 1"
          using "1.prems" le d by simp_all
        have H: "nx' = Suc e \<and> length blk' = length ?b \<and> dst_pos dst' nx' \<le> nx' \<and>
          take (dst_pos dst' nx') blk' = take (Suc d) ?b @
            filter (\<lambda>s. \<not> slot_matches c k s) (take (e - nx) (drop (Suc nx) ?b)) \<and>
          drop nx' blk' = drop nx' ?b \<and>
          n' = n - length (filter (slot_matches c k) (take (e - nx) (drop (Suc nx) ?b))) \<and> dst' \<noteq> None"
          using IH2 [OF le False Some r l] by auto
        have "drop nx' ?b = drop nx' blk" using H d le by simp
        with H show ?thesis by (auto simp: rc False Some t)
      qed
    qed
  qed
qed

lemma unset_remove_eq:
  "unset_remove blk c k nx e d n = (blk', nx', d', n') \<Longrightarrow>
     \<exists>mr'. set_remove blk c k nx e (Some d) n mr = (blk', nx', Some d', n', mr')"
proof (induction blk c k nx e d n arbitrary: mr rule: unset_remove.induct)
  case (1 blk c k nx e d n)
  show ?case
  proof (cases "nx \<le> e")
    case True
    with 1 show ?thesis
      by (cases "slot_matches c k (blk ! nx)")
        (auto simp: unset_remove.simps [of blk c k nx e] set_remove.simps [of blk c k nx e])
  next
    case False
    with 1 show ?thesis by (simp add: set_remove_done unset_remove_done)
  qed
qed

text \<open>The removal loop together with the shift of the rest of the table.\<close>

lemma length_filter_not:
  "length (filter (\<lambda>x. \<not> P x) xs) + length (filter P xs) = length xs"
  by (induction xs) auto

lemma remove_and_shift:
  fixes P Q :: "apr_table_entry_t slot \<Rightarrow> bool"
  assumes r: "set_remove blk c k nx e dst n mr = (blk', nx', dst', n', mr')"
    and b: "nx \<le> Suc e" "e < N" "N \<le> length blk" "dst_pos dst nx \<le> nx"
    and rest: "\<forall>s \<in> set (take (N - Suc e) (drop (Suc e) blk)). \<not> slot_matches c k s"
  defines "rng \<equiv> take (N - nx) (drop nx blk)"
    and "kept \<equiv> filter (\<lambda>s. \<not> slot_matches c k s) (take (N - nx) (drop nx blk))"
    and "blk'' \<equiv> (case dst' of None \<Rightarrow> blk' | Some d \<Rightarrow> shift_rest blk' nx' N d)"
  shows "length blk'' = length blk \<and>
    take (dst_pos dst nx + length kept) blk'' = take (dst_pos dst nx) blk @ kept \<and>
    n' = n - length (filter (slot_matches c k) rng) \<and>
    (dst' = None \<longrightarrow> blk'' = blk \<and> length kept = length rng \<and> mr' = mr)"
proof -
  let ?head = "take (Suc e - nx) (drop nx blk)" and ?tail = "take (N - Suc e) (drop (Suc e) blk)"
  have el: "e < length blk" using b by simp
  note s = set_remove_spec [OF r b(1) el b(4)]
  have sp: "take (N - nx) (drop nx blk) = ?head @ ?tail"
  proof -
    have "N - nx = (Suc e - nx) + (N - Suc e)" using b by simp
    then have "take (N - nx) (drop nx blk) = ?head @ take (N - Suc e) (drop (Suc e - nx) (drop nx blk))"
      by (simp only: take_add)
    with b(1) show ?thesis by simp
  qed
  have kept: "kept = filter (\<lambda>s. \<not> slot_matches c k s) ?head @ ?tail"
    unfolding kept_def sp using rest by simp
  have cnt: "n' = n - length (filter (slot_matches c k) rng)"
    unfolding rng_def sp using rest s by simp
  have main: "length blk'' = length blk \<and>
    take (dst_pos dst nx + length kept) blk'' = take (dst_pos dst nx) blk @ kept \<and>
    (dst' = None \<longrightarrow> blk'' = blk \<and> length kept = length rng \<and> mr' = mr)"
  proof (cases dst')
    case None
    then have eq: "blk' = blk" "dst = None" "mr' = mr" using s by auto
    from s None eq have tk: "take (Suc e) blk = take nx blk @ filter (\<lambda>s. \<not> slot_matches c k s) ?head" by auto
    have "length (filter (\<lambda>s. \<not> slot_matches c k s) ?head) = length ?head"
      using arg_cong [OF tk, of length] b el by simp
    then have "\<forall>s \<in> set ?head. \<not> slot_matches c k s"
      using length_filter_less [of _ ?head "\<lambda>s. \<not> slot_matches c k s"] by auto
    then have "filter (\<lambda>s. \<not> slot_matches c k s) ?head = ?head" by (rule filter_True)
    then have k: "kept = rng" unfolding kept rng_def sp by simp
    have "take (nx + (N - nx)) blk = take nx blk @ rng" unfolding rng_def by (simp only: take_add)
    then show ?thesis
      using None eq k b unfolding blk''_def by (simp add: rng_def)
  next
    case (Some d)
    then have d: "d \<le> Suc e" "nx' = Suc e"
      "take d blk' = take (dst_pos dst nx) blk @ filter (\<lambda>s. \<not> slot_matches c k s) ?head"
      "drop (Suc e) blk' = drop (Suc e) blk" "length blk' = length blk"
      using s by auto
    have "d \<le> length blk'" using d el by simp
    then have dl: "d = dst_pos dst nx + length (filter (\<lambda>s. \<not> slot_matches c k s) ?head)"
      using arg_cong [OF d(3), of length] b by simp
    have "length ?tail = N - Suc e" using b by simp
    then have "dst_pos dst nx + length kept = d + (N - Suc e)" unfolding kept dl by simp
    moreover have "blk'' = shift_rest blk' (Suc e) N d" unfolding blk''_def using Some d by simp
    ultimately show ?thesis
      using shift_rest_spec [of d "Suc e" N blk'] d b Some unfolding kept by simp
  qed
  with cnt show ?thesis by blast
qed

subsection \<open>Setting, unsetting and merging\<close>

lemma index_ok_cong:
  assumes "map ehash es = map ehash es'"
  shows "index_ok t es \<longleftrightarrow> index_ok t es'"
proof -
  have l: "length es = length es'" using assms by (metis length_map)
  have n: "ehash (es ! i) = ehash (es' ! i)" if "i < length es'" for i
    using assms l that by (metis nth_map)
  have s: "(\<forall>e \<in> set es. ehash e \<noteq> h) = (\<forall>e \<in> set es'. ehash e \<noteq> h)" for h
    using assms by (metis (mono_tags) image_iff list.set_map)
  show ?thesis
    unfolding index_ok_def l using n s by (auto cong: conj_cong simp: less_trans)
qed

text \<open>The slots after the first match are the entries after it, and those past the index do not match.\<close>

lemma slots_after:
  assumes "take n blk = map Val (xs @ e' # ys)" "length xs = i"
  shows "take (n - Suc i) (drop (Suc i) blk) = map Val ys"
proof -
  have "take (n - Suc i) (drop (Suc i) blk) = drop (Suc i) (take n blk)" by (simp add: drop_take)
  with assms show ?thesis by simp
qed

lemma past_index:
  assumes inv: "table_inv st t" and k: "cstr k" and f: "table_find st t k = Some i"
    and es: "entries st t = xs @ e # ys" "length xs = i"
    and b: "take (nelts (arr t)) blk = map Val (xs @ e' # ys)"
  defines "l \<equiv> index_last t (TABLE_HASH k)"
  shows "\<forall>s \<in> set (take (nelts (arr t) - Suc l) (drop (Suc l) blk)).
    \<not> slot_matches (COMPUTE_KEY_CHECKSUM k) k s"
proof
  fix s assume "s \<in> set (take (nelts (arr t) - Suc l) (drop (Suc l) blk))"
  then obtain j where j: "s = take (nelts (arr t)) blk ! (Suc l + j)" "Suc l + j < nelts (arr t)"
    by (auto simp: in_set_conv_nth)
  have il: "i \<le> l" using table_find_Some(4) [OF inv k f] by (simp add: l_def)
  have n: "nelts (arr t) = length (entries st t)" using length_entries [OF inv] by simp
  have ini: "TABLE_INDEX_IS_INITIALIZED t (TABLE_HASH k)"
    using f by (simp add: table_find_def split: if_splits)
  then have "ehash (entries st t ! (Suc l + j)) \<noteq> TABLE_HASH k"
    using inv j(2) n TABLE_HASH_less [of k] by (auto simp: table_inv_def index_ok_def l_def)
  moreover have "s = Val (entries st t ! (Suc l + j))"
    using j il b n es by (simp add: nth_append nth_Cons')
  ultimately show "\<not> slot_matches (COMPUTE_KEY_CHECKSUM k) k s"
    using slot_matches_iff [OF _ k] has_key_ehash inv j(2) n
    by (metis nth_mem table_inv_def)
qed

lemma filter_slots:
  assumes "\<forall>e \<in> set ys. entry_ok e" "cstr k"
  shows "filter (slot_matches (COMPUTE_KEY_CHECKSUM k) k) (map Val ys) = map Val (filter (has_key k) ys)"
    "filter (\<lambda>s. \<not> slot_matches (COMPUTE_KEY_CHECKSUM k) k s) (map Val ys) =
       map Val (filter (\<lambda>e. \<not> has_key k e) ys)"
  using assms by (induction ys) (auto simp: slot_matches_iff)

text \<open>
  Rewriting the block of a table and its element count: the new list of entries comes with the
  invariant if its index is rebuilt, or if its keys are the old ones.
\<close>

lemma rewrite_block_step:
  assumes inv: "table_inv st t"
    and b: "length blk = length (st ! elts (arr t))" "n = length es" "n \<le> nelts (arr t)"
      "take n blk = map Val es" "\<forall>e \<in> set es. entry_ok e"
    and r: "re \<or> map ehash es = map ehash (entries st t)"
  defines "st' \<equiv> st[elts (arr t) := blk]" and "t' \<equiv> t\<lparr>arr := (arr t)\<lparr>nelts := n\<rparr>\<rparr>"
  shows "table_step st t (st', if re then table_reindex st' t' else t') es"
proof -
  have wf: "arr_wf st' (arr t')"
    using inv b by (auto simp: table_inv_def arr_wf_def st'_def t'_def)
  have v: "arr_view st' (arr t') = map Val es"
    using inv b by (simp add: table_inv_def arr_wf_def arr_view_def st'_def t'_def)
  have ix: "index_ok t' es" if "\<not> re"
    using r that inv index_ok_cong [of es "entries st t"]
    by (simp add: t'_def table_inv_def)
  let ?t = "if re then table_reindex st' t' else t'"
  have "arr ?t = arr t'" "index_ok ?t es"
    using table_reindex_ok [OF wf v] ix by simp_all
  then have "table_inv st' ?t \<and> entries st' ?t = es"
    using wf v b by (intro table_invI) simp_all
  with \<open>arr ?t = arr t'\<close> show ?thesis by (simp add: table_step_def st'_def t'_def)
qed


lemma removal_spec:
  assumes inv: "table_inv st t" and k: "cstr k" and f: "table_find st t k = Some i"
    and es: "entries st t = xs @ e # ys" "length xs = i"
    and b: "take (nelts (arr t)) blk1 = map Val (xs @ e' # ys)" "nelts (arr t) \<le> length blk1"
    and r: "set_remove blk1 (COMPUTE_KEY_CHECKSUM k) k (i + 1) (index_last t (TABLE_HASH k)) dst0 n0 mr0 =
      (blk2, nx, dst, n', mr)" and d: "dst0 = None \<or> dst0 = Some i"
  defines "blk3 \<equiv> (case dst of None \<Rightarrow> blk2 | Some d \<Rightarrow> shift_rest blk2 nx (nelts (arr t)) d)"
    and "new \<equiv> (if dst0 = None then xs @ [e'] else xs) @ filter (\<lambda>e. \<not> has_key k e) ys"
  shows "length blk3 = length blk1 \<and> take (length new) blk3 = map Val new \<and>
    n' = n0 - length (filter (has_key k) ys) \<and>
    (dst = None \<longrightarrow> filter (\<lambda>e. \<not> has_key k e) ys = ys \<and> mr = mr0)"
proof -
  let ?N = "nelts (arr t)" and ?l = "index_last t (TABLE_HASH k)"
    and ?kept = "filter (\<lambda>e. \<not> has_key k e) ys"
  have n: "?N = length (entries st t)" using length_entries [OF inv] by simp
  have l: "i \<le> ?l" "?l < ?N"
    using table_find_Some(4) [OF inv k f] inv f n TABLE_HASH_less [of k]
    by (auto simp: table_inv_def index_ok_def table_find_def split: if_splits)
  have ok: "\<forall>e \<in> set ys. entry_ok e" using inv es by (auto simp: table_inv_def)
  note after = slots_after [OF b(1) es(2)] and fs = filter_slots [OF ok k]
  have p: "dst_pos dst0 (i + 1) = length (if dst0 = None then xs @ [e'] else xs)"
    "dst_pos dst0 (i + 1) \<le> i + 1" "dst_pos dst0 (i + 1) \<le> ?N"
    using d es n by (auto simp: dst_pos_def)
  have "take (dst_pos dst0 (i + 1)) blk1 = take (dst_pos dst0 (i + 1)) (take ?N blk1)"
    using p by (simp add: min_def)
  then have t1: "take (dst_pos dst0 (i + 1)) blk1 = map Val (if dst0 = None then xs @ [e'] else xs)"
    unfolding b using d es by (auto simp: dst_pos_def)
  have R: "length blk3 = length blk1 \<and>
    take (dst_pos dst0 (i + 1) + length ?kept) blk3 = take (dst_pos dst0 (i + 1)) blk1 @ map Val ?kept \<and>
    n' = n0 - length (filter (has_key k) ys) \<and>
    (dst = None \<longrightarrow> length ?kept = length ys \<and> mr = mr0)"
    using remove_and_shift [OF r, of ?N] l b p past_index [OF inv k f es b(1)]
    unfolding blk3_def by (auto simp: after fs)
  moreover have "?kept = ys" if "length ?kept = length ys"
    using that length_filter_less [of _ ys "\<lambda>e. \<not> has_key k e"] by (metis filter_True less_irrefl)
  ultimately show ?thesis
    using d unfolding t1 new_def by (elim disjE) (auto simp: es(2))
qed

lemma table_set_found:
  assumes f: "table_find st t k = Some i" and E: "st ! elts (arr t) ! i = Val E"
    and r: "set_remove ((st ! elts (arr t))[i := Val (E\<lparr>val := dup v\<rparr>)])
      (COMPUTE_KEY_CHECKSUM k) k (i + 1) (index_last t (TABLE_HASH k)) None (nelts (arr t)) False =
      (blk2, nx, dst, n, mr)"
  defines "blk3 \<equiv> (case dst of None \<Rightarrow> blk2 | Some d \<Rightarrow> shift_rest blk2 nx (nelts (arr t)) d)"
    and "t' \<equiv> t\<lparr>arr := (arr t)\<lparr>nelts := n\<rparr>\<rparr>"
  shows "table_set dup st t k v =
    (st[elts (arr t) := blk3],
     if dst \<noteq> None \<or> mr then table_reindex (st[elts (arr t) := blk3]) t' else t')"
proof -
  have ini: "TABLE_INDEX_IS_INITIALIZED t (TABLE_HASH k)"
    using f by (simp add: table_find_def split: if_splits)
  with f r E show ?thesis
    by (simp add: table_set_def table_find_def blk3_def t'_def Let_def split: option.splits)
qed

lemma table_set_step:
  assumes inv: "table_inv st t" and k: "cstr k" and dup: "\<And>s. dup s = s"
  shows "table_step st t (table_set dup st t k v) (tbl_set k v (entries st t))"
proof (cases "table_find st t k")
  case None
  have "table_set dup st t k v =
    add_new_elt dup st
      (if TABLE_INDEX_IS_INITIALIZED t (TABLE_HASH k) then t
       else TABLE_SET_INDEX_INITIALIZED
              (t\<lparr>index_first := (index_first t)(TABLE_HASH k := nelts (arr t))\<rparr>) (TABLE_HASH k))
      (TABLE_HASH k) (COMPUTE_KEY_CHECKSUM k) k v"
    using None by (simp add: table_set_def table_find_def Let_def split: if_splits)
  then show ?thesis
    using add_new_elt_step [OF inv k dup] tbl_set_absent [OF table_find_None [OF inv k None]] by simp
next
  case (Some i)
  let ?blk = "st ! elts (arr t)" and ?N = "nelts (arr t)"
  obtain xs e ys where es: "entries st t = xs @ e # ys" "length xs = i" "has_key k e"
    "\<forall>e \<in> set xs. \<not> has_key k e" by (rule table_find_split [OF inv k Some])
  have e: "?blk ! i = Val e" using table_inv_block [OF inv, of i] es by (auto simp: nth_append)
  define blk1 where "blk1 = ?blk[i := Val (e\<lparr>val := v\<rparr>)]"
  have n: "?N = length (entries st t)" "?N \<le> length ?blk" "take ?N ?blk = map Val (entries st t)"
    using inv length_entries [OF inv] by (auto simp: table_inv_def arr_wf_def arr_view_def)
  then have b1: "take ?N blk1 = map Val (xs @ e\<lparr>val := v\<rparr> # ys)" "?N \<le> length blk1"
    using es by (auto simp: blk1_def take_update_swap list_update_append)
  obtain blk2 nx dst n' mr where
    r: "set_remove blk1 (COMPUTE_KEY_CHECKSUM k) k (i + 1) (index_last t (TABLE_HASH k)) None ?N False =
      (blk2, nx, dst, n', mr)" by (metis prod_cases5)
  let ?kept = "filter (\<lambda>e. \<not> has_key k e) ys"
  define blk3 where "blk3 = (case dst of None \<Rightarrow> blk2 | Some d \<Rightarrow> shift_rest blk2 nx ?N d)"
  note R = removal_spec [OF inv k Some es(1,2) b1 r disjI1 [OF refl], folded blk3_def]
  have nn: "n' = length (xs @ e\<lparr>val := v\<rparr> # ?kept)"
    using R n es length_filter_not [of "has_key k" ys] by simp
  have R': "length blk3 = length ?blk" "take n' blk3 = map Val (xs @ e\<lparr>val := v\<rparr> # ?kept)"
    "dst = None \<longrightarrow> ?kept = ys" using R unfolding nn by (auto simp: blk1_def)
  have eq: "table_set dup st t k v =
    (let st' = st[elts (arr t) := blk3]; t' = t\<lparr>arr := (arr t)\<lparr>nelts := n'\<rparr>\<rparr>
     in (st', if dst \<noteq> None \<or> mr then table_reindex st' t' else t'))"
    using table_set_found [OF Some e, of dup v] r by (simp add: dup blk1_def blk3_def Let_def)
  have "table_step st t (table_set dup st t k v) (xs @ e\<lparr>val := v\<rparr> # ?kept)"
    unfolding eq Let_def
    by (rule rewrite_block_step [OF inv R'(1) nn _ R'(2)]) (use nn R' n es inv in \<open>auto simp: table_inv_def\<close>)
  then show ?thesis using tbl_set_present [OF es(4,3), of v ys] es(1) by simp
qed

lemma table_step_refl: "table_inv st t \<Longrightarrow> table_step st t (st, t) (entries st t)"
  by (simp add: table_step_def)

lemma apr_table_unset_step:
  assumes inv: "table_inv st t" and k: "cstr k"
  shows "table_step st t (apr_table_unset st t k) (tbl_unset k (entries st t))"
proof (cases "table_find st t k")
  case None
  have "apr_table_unset st t k = (st, t)"
    using None by (simp add: apr_table_unset_def table_find_def Let_def split: if_splits)
  moreover have "tbl_unset k (entries st t) = entries st t"
    using table_find_None [OF inv k None] by (simp add: tbl_unset_def)
  ultimately show ?thesis using table_step_refl [OF inv] by simp
next
  case (Some i)
  let ?blk = "st ! elts (arr t)" and ?N = "nelts (arr t)"
  obtain xs e ys where es: "entries st t = xs @ e # ys" "length xs = i" "has_key k e"
    "\<forall>e \<in> set xs. \<not> has_key k e" by (rule table_find_split [OF inv k Some])
  have n: "?N = length (entries st t)" "take ?N ?blk = map Val (xs @ e # ys)" "?N \<le> length ?blk"
    using inv length_entries [OF inv] es by (auto simp: table_inv_def arr_wf_def arr_view_def)
  obtain blk1 nx d n' where
    u: "unset_remove ?blk (COMPUTE_KEY_CHECKSUM k) k (i + 1) (index_last t (TABLE_HASH k)) i (?N - 1) =
      (blk1, nx, d, n')" by (metis prod_cases4)
  from unset_remove_eq [OF u] obtain mr where
    r: "set_remove ?blk (COMPUTE_KEY_CHECKSUM k) k (i + 1) (index_last t (TABLE_HASH k)) (Some i)
      (?N - 1) False = (blk1, nx, Some d, n', mr)" by blast
  let ?kept = "filter (\<lambda>e. \<not> has_key k e) ys"
  define blk2 where "blk2 = shift_rest blk1 nx ?N d"
  have R: "length blk2 = length ?blk \<and> take (length (xs @ ?kept)) blk2 = map Val (xs @ ?kept) \<and>
    n' = ?N - 1 - length (filter (has_key k) ys)"
    using removal_spec [OF inv k Some es(1,2) n(2,3) r disjI2 [OF refl]] by (simp add: blk2_def)
  have nn: "n' = length (xs @ ?kept)"
    using R n es length_filter_not [of "has_key k" ys] by simp
  have R': "length blk2 = length ?blk" "take n' blk2 = map Val (xs @ ?kept)"
    using R unfolding nn by auto
  have ini: "TABLE_INDEX_IS_INITIALIZED t (TABLE_HASH k)"
    using Some by (simp add: table_find_def split: if_splits)
  have eq: "apr_table_unset st t k =
    (let st' = st[elts (arr t) := blk2]; t' = t\<lparr>arr := (arr t)\<lparr>nelts := n'\<rparr>\<rparr>
     in (st', if True then table_reindex st' t' else t'))"
    using Some u ini by (simp add: apr_table_unset_def table_find_def blk2_def Let_def)
  have "table_step st t (apr_table_unset st t k) (xs @ ?kept)"
    unfolding eq Let_def
    by (rule rewrite_block_step [OF inv R'(1) nn _ R'(2)])
      (use nn n es inv in \<open>auto simp: table_inv_def le_SucI\<close>)
  then show ?thesis using es by (simp add: tbl_unset_def)
qed

lemma table_merge_step:
  assumes inv: "table_inv st t" and k: "cstr k" and dup: "\<And>s. dup s = s"
  shows "table_step st t (table_merge dup st t k v) (tbl_merge k v (entries st t))"
proof (cases "table_find st t k")
  case None
  have "table_merge dup st t k v =
    add_new_elt dup st
      (if TABLE_INDEX_IS_INITIALIZED t (TABLE_HASH k) then t
       else TABLE_SET_INDEX_INITIALIZED
              (t\<lparr>index_first := (index_first t)(TABLE_HASH k := nelts (arr t))\<rparr>) (TABLE_HASH k))
      (TABLE_HASH k) (COMPUTE_KEY_CHECKSUM k) k v"
    using None by (simp add: table_merge_def table_find_def Let_def split: if_splits)
  then show ?thesis
    using add_new_elt_step [OF inv k dup] tbl_merge_absent [OF table_find_None [OF inv k None]] by simp
next
  case (Some i)
  let ?blk = "st ! elts (arr t)" and ?N = "nelts (arr t)"
  obtain xs e ys where es: "entries st t = xs @ e # ys" "length xs = i" "has_key k e"
    "\<forall>e \<in> set xs. \<not> has_key k e" by (rule table_find_split [OF inv k Some])
  let ?e = "e\<lparr>val := Some (apr_pstrcat [val e, Some [44, 32], v])\<rparr>"
  have e: "?blk ! i = Val e" using table_inv_block [OF inv, of i] es by (auto simp: nth_append)
  have n: "?N = length (xs @ ?e # ys)" "take ?N ?blk = map Val (entries st t)"
    using inv length_entries [OF inv] es by (auto simp: table_inv_def arr_wf_def arr_view_def)
  have ini: "TABLE_INDEX_IS_INITIALIZED t (TABLE_HASH k)"
    using Some by (simp add: table_find_def split: if_splits)
  have eq: "table_merge dup st t k v =
    (let st' = st[elts (arr t) := ?blk[i := Val ?e]]; t' = t\<lparr>arr := (arr t)\<lparr>nelts := ?N\<rparr>\<rparr>
     in (st', if False then table_reindex st' t' else t'))"
    using Some ini e by (simp add: table_merge_def table_find_def Let_def)
  have t: "take ?N (?blk[i := Val ?e]) = map Val (xs @ ?e # ys)"
    using n es by (auto simp: take_update_swap list_update_append)
  have "table_step st t (table_merge dup st t k v) (xs @ ?e # ys)"
    unfolding eq Let_def
    by (rule rewrite_block_step [OF inv _ n(1) _ t]) (use n es inv in \<open>auto simp: table_inv_def\<close>)
  then show ?thesis using tbl_merge_present [OF es(4,3), of v ys] es(1) by simp
qed

section \<open>Making, clearing, copying and overlaying tables\<close>

lemma apr_table_make_spec:
  assumes "apr_table_make mf ml st p n = (st', t)"
  shows "table_inv st' t \<and> entries st' t = [] \<and> store_extends st st' \<and> elts (arr t) = length st"
proof -
  obtain h where h: "make_array_core st p n False = (st', h)"
    "t = \<lparr>arr = h, index_initialized = 0, index_first = mf, index_last = ml\<rparr>"
    using assms by (auto simp: apr_table_make_def Let_def split: prod.splits)
  note m = make_array_core_spec [OF h(1)]
  have "index_ok t []" by (simp add: h(2) index_ok_def TABLE_INDEX_IS_INITIALIZED_def)
  then show ?thesis using m table_invI [of st' t "[]"] by (simp add: h(2))
qed

lemma apr_table_clear_step:
  assumes "table_inv st t"
  shows "table_step st t (st, apr_table_clear t) []"
  using assms table_invI [of st "apr_table_clear t" "[]"]
  by (auto simp: table_step_def apr_table_clear_def table_inv_def arr_wf_def arr_view_def
      index_ok_empty)

lemma apr_table_copy_spec:
  assumes inv: "table_inv st t" and r: "apr_table_copy st p t = (st', new)"
  shows "table_inv st' new \<and> entries st' new = entries st t \<and> store_extends st st' \<and>
    elts (arr new) = length st"
proof -
  obtain st1 h where mk: "make_array_core st p (int (nalloc (arr t))) False = (st1, h)"
    by (cases "make_array_core st p (int (nalloc (arr t))) False")
  note m = make_array_core_spec [OF mk]
  have wf: "nelts (arr t) \<le> nalloc h" "nelts (arr t) \<le> length (st ! elts (arr t))"
    "elts (arr t) < length st"
    using inv m by (auto simp: table_inv_def arr_wf_def)
  have same: "st1 ! elts (arr t) = st ! elts (arr t)" using m wf by (auto simp: store_extends_def)
  have st': "st' = st1[elts h := memcpy (st1 ! elts h) 0 (st ! elts (arr t)) (nelts (arr t))]"
    and new: "new = \<lparr>arr = h\<lparr>nelts := nelts (arr t)\<rparr>, index_initialized = index_initialized t,
           index_first = index_first t, index_last = index_last t\<rparr>"
    using r mk by (auto simp: apr_table_copy_def Let_def same)
  have h: "length (st1 ! elts h) = nalloc h" "elts h < length st1" using m by (auto simp: arr_wf_def)
  then have "length (memcpy (st1 ! elts h) 0 (st ! elts (arr t)) (nelts (arr t))) = nalloc h"
    using wf by simp
  then have "arr_wf st' (arr new)" using h wf(1) by (simp add: arr_wf_def st' new)
  moreover have "arr_view st' (arr new) = map Val (entries st t)"
    using h wf inv by (simp add: arr_view_def st' new table_inv_def)
  moreover have "store_extends st st'" using m by (simp add: st' store_extends_def)
  moreover have "index_ok new (entries st t)"
    using inv by (simp add: table_inv_def index_ok_def new TABLE_INDEX_IS_INITIALIZED_def)
  ultimately show ?thesis
    using table_invI [of st' new "entries st t"] inv m by (simp add: new table_inv_def [of st t])
qed

lemma table_inv_frame:
  assumes "table_inv st t" "length st \<le> length st'" "st' ! elts (arr t) = st ! elts (arr t)"
  shows "table_inv st' t" "entries st' t = entries st t"
  using assms by (auto simp: table_inv_def arr_wf_def arr_view_def entries_def)

lemma entry_ok_new_entry: "entry_ok e \<Longrightarrow> new_entry (the (key e)) (val e) = e"
  by (cases e) (auto simp: entry_ok_def new_entry_def)

lemma apr_table_add_step:
  "table_inv st t \<Longrightarrow> cstr k \<Longrightarrow>
     table_step st t (apr_table_add st t k v) (entries st t @ [new_entry k v])"
  unfolding apr_table_add_def by (rule table_add_step) (simp_all add: apr_pstrdup_def)

lemma clone_from_spec:
  assumes "table_inv st t" "table_inv st new" "elts (arr t) < length st0"
    and "length st0 \<le> elts (arr new)" "length st0 \<le> length st" "i \<le> nelts (arr t)"
    and "clone_from t i st new = (st', new')"
  shows "table_inv st' new' \<and> entries st' new' = entries st new @ drop i (entries st t) \<and>
    (\<forall>b < length st0. st' ! b = st ! b) \<and> length st \<le> length st'"
  using assms
proof (induction "nelts (arr t) - i" arbitrary: i st new)
  case 0
  then show ?case using length_entries [OF 0(2)] by (simp add: clone_from.simps [of t i])
next
  case (Suc d)
  then have i: "i < nelts (arr t)" "i < length (entries st t)" using length_entries by simp_all
  let ?e = "entries st t ! i"
  have e: "st ! elts (arr t) ! i = Val ?e" "entry_ok ?e"
    using table_inv_block [OF Suc.prems(1) i(2)] Suc.prems(1) i(2) by (auto simp: table_inv_def)
  obtain st1 new1 where a: "apr_table_add st new (the (key ?e)) (val ?e) = (st1, new1)" by fastforce
  have "table_step st new (st1, new1) (entries st new @ [?e])"
    using apr_table_add_step [OF Suc.prems(2), of "the (key ?e)" "val ?e"] e(2) a
      entry_ok_new_entry [OF e(2)] by (auto simp: entry_ok_def)
  then have s: "table_inv st1 new1" "entries st1 new1 = entries st new @ [?e]"
    "length st \<le> length st1" "\<forall>b < length st0. st1 ! b = st ! b" "length st0 \<le> elts (arr new1)"
    using Suc.prems(4,5) by (auto simp: table_step_def)
  have t1: "table_inv st1 t" "entries st1 t = entries st t"
    using table_inv_frame [OF Suc.prems(1) s(3)] s(4) Suc.prems(3) by simp_all
  have c: "clone_from t (Suc i) st1 new1 = (st', new')"
    using Suc.prems(7) i a e(1) by (simp add: clone_from.simps [of t i])
  have "table_inv st' new' \<and> entries st' new' = entries st1 new1 @ drop (Suc i) (entries st1 t) \<and>
    (\<forall>b < length st0. st' ! b = st1 ! b) \<and> length st1 \<le> length st'"
    using Suc.hyps(2) i s Suc.prems(5) by (intro Suc.hyps(1) [OF _ t1(1) s(1) Suc.prems(3) s(5) _ _ c]) auto
  then show ?case
    using s t1(2) i by (auto simp: Cons_nth_drop_Suc)
qed

lemma apr_table_clone_spec:
  assumes inv: "table_inv st t" and r: "apr_table_clone mf ml st p t = (st', new)"
  shows "table_inv st' new \<and> entries st' new = entries st t \<and> store_extends st st'"
proof -
  obtain st1 t1 where mk: "apr_table_make mf ml st p (int (nelts (arr t))) = (st1, t1)" by fastforce
  note m = apr_table_make_spec [OF mk]
  have lt: "elts (arr t) < length st" using inv by (simp add: table_inv_def arr_wf_def)
  have i1: "table_inv st1 t" "entries st1 t = entries st t"
    using table_inv_frame [OF inv, of st1] m lt by (auto simp: store_extends_def)
  have "clone_from t 0 st1 t1 = (st', new)"
    using r mk by (simp add: apr_table_clone_def apr_table_elts_def)
  then show ?thesis
    using clone_from_spec [OF i1(1) _ lt, of t1 0 st' new] m i1(2)
    by (auto simp: store_extends_def)
qed

lemma apr_table_overlay_cat:
  "apr_table_overlay mf ml st p overlay base =
     (case apr_array_append st p (arr overlay) (arr base) of (st', h') \<Rightarrow>
        (st', table_reindex st' \<lparr>arr = h', index_initialized = 0, index_first = mf, index_last = ml\<rparr>))"
  by (simp add: apr_table_overlay_def apr_array_append_def apr_array_copy_hdr_def Let_def)

lemma apr_table_overlay_spec:
  assumes o: "table_inv st overlay" and b: "table_inv st base"
    and r: "apr_table_overlay mf ml st p overlay base = (st', t)"
  shows "table_inv st' t \<and> entries st' t = entries st overlay @ entries st base \<and> store_extends st st'"
proof -
  obtain h where h: "apr_array_append st p (arr overlay) (arr base) = (st', h)"
    and t: "t = table_reindex st' \<lparr>arr = h, index_initialized = 0, index_first = mf, index_last = ml\<rparr>"
    using r by (auto simp: apr_table_overlay_cat split: prod.splits)
  have w: "arr_wf st (arr overlay)" "arr_wf st (arr base)"
    "arr_view st (arr overlay) = map Val (entries st overlay)"
    "arr_view st (arr base) = map Val (entries st base)"
    using o b by (simp_all add: table_inv_def)
  have hs: "arr_wf st' h" "arr_view st' h = map Val (entries st overlay @ entries st base)"
    "store_extends st st'"
    using apr_array_append_extends [OF w(1,2) h] h w
      apr_array_cat_wf [OF apr_array_copy_hdr_wf [OF w(1)] w(2)]
      apr_array_cat_view [OF apr_array_copy_hdr_wf [OF w(1)] w(2)]
    by (auto simp: apr_array_append_def)
  have ix: "index_ok t (entries st overlay @ entries st base)" "arr t = h"
    using table_reindex_ok [of st' "\<lparr>arr = h, index_initialized = 0, index_first = mf, index_last = ml\<rparr>"
        "entries st overlay @ entries st base"]
      hs(1,2) unfolding t by simp_all
  have "\<forall>e \<in> set (entries st overlay @ entries st base). entry_ok e"
    using o b by (auto simp: table_inv_def)
  then show ?thesis using hs ix table_invI [of st' t "entries st overlay @ entries st base"] by simp
qed

section \<open>Tables as maps\<close>

lemma apr_table_set_step:
  "table_inv st t \<Longrightarrow> cstr k \<Longrightarrow>
     table_step st t (apr_table_set st t k v) (tbl_set k v (entries st t))"
  unfolding apr_table_set_def by (rule table_set_step) (simp_all add: apr_pstrdup_def)

lemma apr_table_setn_step:
  "table_inv st t \<Longrightarrow> cstr k \<Longrightarrow>
     table_step st t (apr_table_setn st t k v) (tbl_set k v (entries st t))"
  unfolding apr_table_setn_def by (rule table_set_step) simp_all

lemma apr_table_merge_step:
  "table_inv st t \<Longrightarrow> cstr k \<Longrightarrow>
     table_step st t (apr_table_merge st t k v) (tbl_merge k v (entries st t))"
  unfolding apr_table_merge_def by (rule table_merge_step) (simp_all add: apr_pstrdup_def)

lemma apr_table_mergen_step:
  "table_inv st t \<Longrightarrow> cstr k \<Longrightarrow>
     table_step st t (apr_table_mergen st t k v) (tbl_merge k v (entries st t))"
  unfolding apr_table_mergen_def by (rule table_merge_step) simp_all

lemma apr_table_addn_step:
  "table_inv st t \<Longrightarrow> cstr k \<Longrightarrow>
     table_step st t (apr_table_addn st t k v) (entries st t @ [new_entry k v])"
  unfolding apr_table_addn_def by (rule table_add_step) simp_all

lemma tbl_get_Nil [simp]: "tbl_get [] k = None"
  by (simp add: tbl_get_def)

lemma tbl_get_Cons [simp]: "tbl_get (e # es) k = (if has_key k e then val e else tbl_get es k)"
  by (simp add: tbl_get_def)

lemma tbl_get_filter:
  "tbl_get (filter (\<lambda>e. \<not> has_key k e) es) k' = (if fold_case k' = fold_case k then None else tbl_get es k')"
  by (induction es) (auto simp: has_key_def)

lemma tbl_get_set: "tbl_get (tbl_set k v es) k' = (if fold_case k' = fold_case k then v else tbl_get es k')"
proof (induction es)
  case (Cons e es)
  then show ?case by (cases "has_key k e") (simp_all add: tbl_get_filter [unfolded has_key_def] has_key_def)
qed (simp add: has_key_def new_entry_def)

lemma tbl_get_unset:
  "tbl_get (tbl_unset k es) k' = (if fold_case k' = fold_case k then None else tbl_get es k')"
  by (simp add: tbl_unset_def tbl_get_filter)

interpretation table_map: kv_map "\<lambda>s. table_inv (fst s) (snd s)" cstr fold_case
  "\<lambda>s k. apr_table_get (fst s) (snd s) (Some k)"
  "\<lambda>s k v. apr_table_set (fst s) (snd s) k (Some v)" "\<lambda>s k. apr_table_unset (fst s) (snd s) k"
proof unfold_locales
  fix s :: "tstore \<times> apr_table_t" and k v
  assume i: "table_inv (fst s) (snd s)" and k: "cstr k"
  note set = apr_table_set_step [OF i k, of "Some v"] and un = apr_table_unset_step [OF i k]
  show iset: "table_inv (fst (apr_table_set (fst s) (snd s) k (Some v))) (snd (apr_table_set (fst s) (snd s) k (Some v)))"
    using set by (simp add: table_step_def)
  show iu: "table_inv (fst (apr_table_unset (fst s) (snd s) k)) (snd (apr_table_unset (fst s) (snd s) k))"
    using un by (simp add: table_step_def)
  fix k' assume k': "cstr k'"
  show "apr_table_get (fst (apr_table_set (fst s) (snd s) k (Some v))) (snd (apr_table_set (fst s) (snd s) k (Some v)))
      (Some k') = (if fold_case k' = fold_case k then Some v else apr_table_get (fst s) (snd s) (Some k'))"
    using set by (simp add: apr_table_get_refines [OF iset k'] apr_table_get_refines [OF i k']
        table_step_def tbl_get_set)
  show "apr_table_get (fst (apr_table_unset (fst s) (snd s) k)) (snd (apr_table_unset (fst s) (snd s) k))
      (Some k') = (if fold_case k' = fold_case k then None else apr_table_get (fst s) (snd s) (Some k'))"
    using un by (simp add: apr_table_get_refines [OF iu k'] apr_table_get_refines [OF i k']
        table_step_def tbl_get_unset)
qed

section \<open>Properties\<close>

text \<open>
  C1. The index of hash chains and the case-insensitive checksum change nothing of what a lookup
  finds: in every table with the invariant \<open>apr_table_get\<close> returns the value of the first entry whose
  key is equal to the given one under \<open>strcasecmp\<close>, and NULL if there is none.
\<close>

theorem apr_table_get_correct:
  assumes "table_inv st t" "cstr k"
  shows "apr_table_get st t (Some k) =
    (case find (\<lambda>e. strcasecmp (the (key e)) k = 0) (entries st t) of None \<Rightarrow> None | Some e \<Rightarrow> val e)"
proof -
  have "find (\<lambda>e. strcasecmp (the (key e)) k = 0) (entries st t) = find (has_key k) (entries st t)"
    using assms by (intro find_cong) (auto simp: table_inv_def entry_ok_def has_key_def strcasecmp_eq_0_iff)
  then show ?thesis using apr_table_get_refines [OF assms] by (simp add: tbl_get_def)
qed


text \<open>A small table for the witnesses: \<open>Ab: 1\<close>, \<open>c: 2\<close>, \<open>aB: 3\<close>.\<close>

definition example_table :: "tstore \<times> apr_table_t" where
  "example_table =
     (let (s0, t0) = apr_table_make (\<lambda>_. 0) (\<lambda>_. 0) [] 0 1;
          (s1, t1) = apr_table_add s0 t0 [65, 98] (Some [49]);
          (s2, t2) = apr_table_add s1 t1 [99] (Some [50])
      in apr_table_add s2 t2 [97, 66] (Some [51]))"

lemma example_table_inv:
  "table_inv (fst example_table) (snd example_table) \<and>
   entries (fst example_table) (snd example_table) =
     [new_entry [65, 98] (Some [49]), new_entry [99] (Some [50]), new_entry [97, 66] (Some [51])]"
proof -
  obtain s0 t0 where m: "apr_table_make (\<lambda>_. 0) (\<lambda>_. 0) [] 0 1 = (s0, t0)" by fastforce
  obtain s1 t1 where a1: "apr_table_add s0 t0 [65, 98] (Some [49]) = (s1, t1)" by fastforce
  obtain s2 t2 where a2: "apr_table_add s1 t1 [99] (Some [50]) = (s2, t2)" by fastforce
  have i0: "table_inv s0 t0 \<and> entries s0 t0 = []" using apr_table_make_spec [OF m] by simp
  have i1: "table_inv s1 t1 \<and> entries s1 t1 = [new_entry [65, 98] (Some [49])]"
    using apr_table_add_step [of s0 t0 "[65, 98]" "Some [49]"] i0 a1 by (simp add: table_step_def)
  have i2: "table_inv s2 t2 \<and> entries s2 t2 = [new_entry [65, 98] (Some [49]), new_entry [99] (Some [50])]"
    using apr_table_add_step [of s1 t1 "[99]" "Some [50]"] i1 a2 by (simp add: table_step_def)
  then show ?thesis
    using apr_table_add_step [of s2 t2 "[97, 66]" "Some [51]"] m a1 a2
    by (simp add: table_step_def example_table_def)
qed

theorem apr_table_get_correct_witness:
  "apr_table_get (fst example_table) (snd example_table) (Some [97, 98]) = Some [49]"
  using apr_table_get_correct [of "fst example_table" "snd example_table" "[97, 98]"] example_table_inv
  by (simp add: new_entry_def tolower_def)

text \<open>
  C6. \<open>apr_table_set\<close> and \<open>apr_table_setn\<close> keep the table invariant, replace the value of the first
  entry with the key, remove every later entry with the key and keep the order of the others, or
  append a new entry when the key is absent; the removal, the shift and the decision whether to
  rebuild the index are right in every case, and no block but the table's own is written.
\<close>

theorem apr_table_set_correct:
  assumes "table_inv st t" "cstr k"
  shows "table_step st t (apr_table_set st t k v) (tbl_set k v (entries st t)) \<and>
    apr_table_setn st t k v = apr_table_set st t k v"
  using apr_table_set_step [OF assms]
  by (simp add: apr_table_set_def apr_table_setn_def apr_pstrdup_def [abs_def])

theorem apr_table_set_correct_witness:
  "(let (s, t) = apr_table_set (fst example_table) (snd example_table) [97, 98] (Some [57])
    in table_inv s t \<and> entries s t = [new_entry [65, 98] (Some [57]), new_entry [99] (Some [50])])"
  using apr_table_set_correct [of "fst example_table" "snd example_table" "[97, 98]" "Some [57]"]
    example_table_inv
  by (simp add: table_step_def case_prod_beta)
    (simp add: new_entry_def has_key_def fold_case_def tolower_def)

text \<open>
  C20. \<open>apr_table_unset\<close> removes exactly the entries whose key is equal to the given one, keeps the
  order of the others, and rebuilds the index so that the invariant holds again.
\<close>

theorem apr_table_unset_correct:
  assumes "table_inv st t" "cstr k"
  shows "table_step st t (apr_table_unset st t k) (filter (\<lambda>e. \<not> has_key k e) (entries st t))"
  using apr_table_unset_step [OF assms] by (simp add: tbl_unset_def)

theorem apr_table_unset_correct_witness:
  "(let (s, t) = apr_table_unset (fst example_table) (snd example_table) [97, 98]
    in table_inv s t \<and> entries s t = [new_entry [99] (Some [50])])"
  using apr_table_unset_correct [of "fst example_table" "snd example_table" "[97, 98]"]
    example_table_inv
  by (simp add: table_step_def case_prod_beta)
    (simp add: new_entry_def has_key_def fold_case_def tolower_def)

text \<open>
  C35. \<open>apr_table_merge\<close> and \<open>apr_table_mergen\<close> concatenate the new value, after a comma and a space,
  to the value of the first entry with the key and leave later ones alone, or append a new entry;
  \<open>apr_table_add\<close> and \<open>apr_table_addn\<close> always append one. All keep the invariant.
\<close>

theorem apr_table_merge_add_correct:
  assumes "table_inv st t" "cstr k"
  shows "table_step st t (apr_table_merge st t k v) (tbl_merge k v (entries st t)) \<and>
    table_step st t (apr_table_mergen st t k v) (tbl_merge k v (entries st t)) \<and>
    table_step st t (apr_table_add st t k v) (entries st t @ [new_entry k v]) \<and>
    table_step st t (apr_table_addn st t k v) (entries st t @ [new_entry k v])"
  using apr_table_merge_step [OF assms] apr_table_mergen_step [OF assms]
    apr_table_add_step [OF assms] apr_table_addn_step [OF assms] by blast

theorem apr_table_merge_add_correct_witness:
  "(let (s, t) = apr_table_merge (fst example_table) (snd example_table) [97, 98] (Some [57])
    in map val (entries s t) = [Some [49, 44, 32, 57], Some [50], Some [51]])"
  using apr_table_merge_add_correct [of "fst example_table" "snd example_table" "[97, 98]" "Some [57]"]
    example_table_inv
  by (simp add: table_step_def case_prod_beta)
    (simp add: new_entry_def has_key_def fold_case_def tolower_def)

text \<open>
  C18. A table is a map from case-insensitive keys: start from \<open>apr_table_make\<close>, run any sequence of
  \<open>apr_table_set\<close> and \<open>apr_table_unset\<close>, and \<open>apr_table_get\<close> returns for every key what the same
  sequence of updates of a finite map over the lower-cased keys gives.
\<close>

theorem apr_table_is_map:
  assumes "\<forall>op \<in> set ops. cstr (op_key op)" "cstr k"
  shows "(let (st', t) = foldl (run_op (\<lambda>s k v. apr_table_set (fst s) (snd s) k (Some v))
                          (\<lambda>s k. apr_table_unset (fst s) (snd s) k)) (apr_table_make mf ml st p n) ops
          in apr_table_get st' t (Some k)) = map_run fold_case Map.empty ops (fold_case k)"
proof -
  obtain s0 t0 where mk: "apr_table_make mf ml st p n = (s0, t0)" by fastforce
  have i: "table_inv s0 t0" "entries s0 t0 = []" using apr_table_make_spec [OF mk] by simp_all
  then have "apr_table_get s0 t0 (Some k) = None" if "cstr k" for k
    using apr_table_get_refines [OF i(1) that] by simp
  then show ?thesis
    using table_map.lookup_run [of "(s0, t0)" ops Map.empty k] assms i(1)
    by (simp add: mk case_prod_beta)
qed

theorem apr_table_is_map_witness:
  "(let (st', t) = foldl (run_op (\<lambda>s k v. apr_table_set (fst s) (snd s) k (Some v))
                      (\<lambda>s k. apr_table_unset (fst s) (snd s) k)) (apr_table_make (\<lambda>_. 7) (\<lambda>_. 9) [] 0 0)
                      [Put [65] [1], Put [66] [2], Put [97] [3], Del [98]]
    in apr_table_get st' t (Some [65])) = Some [3]"
  using apr_table_is_map [of "[Put [65] [1], Put [66] [2], Put [97] [3], Del [98]]" "[65]"]
  by (simp add: map_run_def fold_case_def tolower_def)

text \<open>
  \<open>apr_table_copy\<close> and \<open>apr_table_clone\<close> give a table with the invariant and with the entries of
  the original, in blocks of its own: every existing block is unchanged, so the original is.
\<close>

theorem apr_table_copy_clone_correct:
  assumes "table_inv st t" "apr_table_copy st p t = (st1, t1)" "apr_table_clone mf ml st p t = (st2, t2)"
  shows "table_inv st1 t1 \<and> entries st1 t1 = entries st t \<and> store_extends st st1 \<and>
    table_inv st2 t2 \<and> entries st2 t2 = entries st t \<and> store_extends st st2"
  using apr_table_copy_spec [OF assms(1,2)] apr_table_clone_spec [OF assms(1,3)] by blast

theorem apr_table_copy_clone_correct_witness:
  "(let (s1, t1) = apr_table_copy (fst example_table) 0 (snd example_table);
        (s2, t2) = apr_table_clone (\<lambda>_. 5) (\<lambda>_. 6) (fst example_table) 0 (snd example_table)
    in entries s1 t1 = entries s2 t2)"
proof -
  obtain s1 t1 where 1: "apr_table_copy (fst example_table) 0 (snd example_table) = (s1, t1)" by fastforce
  obtain s2 t2 where 2: "apr_table_clone (\<lambda>_. 5) (\<lambda>_. 6) (fst example_table) 0 (snd example_table) = (s2, t2)"
    by fastforce
  show ?thesis using apr_table_copy_clone_correct [OF _ 1 2] example_table_inv by (simp add: 1 2)
qed

text \<open>
  \<open>apr_table_overlay\<close> gives a table with the invariant in which a key that the overlay has is
  looked up as in the overlay and any other key as in the base, and writes no existing block.
\<close>

theorem apr_table_overlay_correct:
  assumes "table_inv st overlay" "table_inv st base" "cstr k"
    and "apr_table_overlay mf ml st p overlay base = (st', t)"
  shows "table_inv st' t \<and> store_extends st st' \<and>
    apr_table_get st' t (Some k) =
      (if \<exists>e \<in> set (entries st overlay). has_key k e then apr_table_get st overlay (Some k)
       else apr_table_get st base (Some k))"
proof -
  have "tbl_get (xs @ ys) k = (if \<exists>e \<in> set xs. has_key k e then tbl_get xs k else tbl_get ys k)" for xs ys
    by (induction xs) auto
  then show ?thesis
    using apr_table_overlay_spec [OF assms(1,2,4)] assms(1-3) by (simp add: apr_table_get_refines)
qed

theorem apr_table_overlay_correct_witness:
  "(let (s, t) = apr_table_overlay (\<lambda>_. 3) (\<lambda>_. 4) (fst example_table) 0 (snd example_table) (snd example_table)
    in apr_table_get s t (Some [67])) = Some [50]"
proof -
  obtain s t where o: "apr_table_overlay (\<lambda>_. 3) (\<lambda>_. 4) (fst example_table) 0 (snd example_table)
    (snd example_table) = (s, t)" by fastforce
  have "apr_table_get (fst example_table) (snd example_table) (Some [67]) = Some [50]"
    using apr_table_get_refines [of "fst example_table" "snd example_table" "[67]"] example_table_inv
    by (simp add: new_entry_def has_key_def fold_case_def tolower_def)
  then show ?thesis
    using apr_table_overlay_correct [OF _ _ _ o, of "[67]"] example_table_inv by (simp add: o)
qed

text \<open>
  With an empty base the overlaid table shares the entry array of the overlay: setting a key of the
  result that is present changes what the overlay itself returns.
\<close>

theorem apr_table_overlay_aliases:
  "(let (s0, base) = apr_table_make (\<lambda>_. 0) (\<lambda>_. 0) (fst example_table) 0 1;
        (s1, t) = apr_table_overlay (\<lambda>_. 0) (\<lambda>_. 0) s0 0 (snd example_table) base;
        (s2, t') = apr_table_set s1 t [99] (Some [57])
    in (apr_table_get s1 (snd example_table) (Some [99]),
        apr_table_get s2 (snd example_table) (Some [99]))) = (Some [50], Some [57])"
  by code_simp

end
