(* ===== verification/Apr_Table_Sort.thy ===== *)
theory Apr_Table_Sort
  imports Apr_Table
begin

text \<open>
  The bottom-up merge sort \<open>table_mergesort\<close> of \<^verbatim>\<open>tables/apr_tables.c\<close>. The arrays \<open>values\<close> and
  \<open>values_tmp\<close> hold pointers to the entries of a table; here a pointer is the position of the entry
  in the table's block. The loops are translated one by one; \<open>gt\<close> is the test
  \<open>strcasecmp(x->key, y->key) > 0\<close>. The theory shows that every pass does on the blocks of the array
  what a merge of lists does, and that the result is the stable sort of the pointers by lower-cased
  key.
\<close>

section \<open>The loops\<close>

text \<open>The first pass: sort pairs of elements.\<close>

function sort_pairs :: "('p \<Rightarrow> 'p \<Rightarrow> bool) \<Rightarrow> 'p list \<Rightarrow> nat \<Rightarrow> nat \<Rightarrow> 'p list" where
  "sort_pairs gt values n i =
     (if i + 1 < n then
        (let values' = (if gt (values ! i) (values ! (i + 1))
                        then values[i := values ! (i + 1), i + 1 := values ! i] else values)
         in sort_pairs gt values' n (i + 2))
      else values)"
  by pat_completeness auto
termination
  by (relation "measure (\<lambda>(gt, values, n, i). n - i)") auto

declare sort_pairs.simps [simp del]

text \<open>The loops \<open>for (; start < end; start++) *dst++ = values[start];\<close>\<close>

function copy_block :: "'p list \<Rightarrow> nat \<Rightarrow> nat \<Rightarrow> 'p list \<Rightarrow> nat \<Rightarrow> 'p list \<times> nat" where
  "copy_block values start blk_end tmp dst =
     (if start < blk_end then copy_block values (start + 1) blk_end (tmp[dst := values ! start]) (dst + 1)
      else (tmp, dst))"
  by pat_completeness auto
termination
  by (relation "measure (\<lambda>(values, start, blk_end, tmp, dst). blk_end - start)") auto

declare copy_block.simps [simp del]

text \<open>
  The merge of two blocks. The loop in the source leaves a block when its start equals its end; the
  starts never pass the ends, and the model tests \<open>\<ge>\<close> so that it is total.
\<close>

function merge_blocks ::
    "('p \<Rightarrow> 'p \<Rightarrow> bool) \<Rightarrow> 'p list \<Rightarrow> nat \<Rightarrow> nat \<Rightarrow> nat \<Rightarrow> nat \<Rightarrow> 'p list \<Rightarrow> nat \<Rightarrow> 'p list \<times> nat" where
  "merge_blocks gt values block1_start block1_end block2_start block2_end tmp dst =
     (if block1_end \<le> block1_start then copy_block values block2_start block2_end tmp dst
      else if block2_end \<le> block2_start then copy_block values block1_start block1_end tmp dst
      else if gt (values ! block1_start) (values ! block2_start)
      then merge_blocks gt values block1_start block1_end (block2_start + 1) block2_end
             (tmp[dst := values ! block2_start]) (dst + 1)
      else merge_blocks gt values (block1_start + 1) block1_end block2_start block2_end
             (tmp[dst := values ! block1_start]) (dst + 1))"
  by pat_completeness auto
termination
  by (relation "measure (\<lambda>(gt, values, s1, e1, s2, e2, tmp, dst). (e1 - s1) + (e2 - s2))") auto

declare merge_blocks.simps [simp del]

text \<open>One pass: merge consecutive pairs of blocks. The guard \<open>0 < blocksize\<close> serves termination only.\<close>

function merge_pass ::
    "('p \<Rightarrow> 'p \<Rightarrow> bool) \<Rightarrow> 'p list \<Rightarrow> nat \<Rightarrow> nat \<Rightarrow> nat \<Rightarrow> 'p list \<Rightarrow> nat \<Rightarrow> 'p list \<times> nat" where
  "merge_pass gt values n blocksize next_start tmp dst =
     (if 0 < blocksize \<and> next_start + blocksize < n then
        (let block1_start = next_start;
             block2_start = block1_start + blocksize;
             block1_end = block2_start;
             block2_end = (if block2_start + blocksize > n then n else block2_start + blocksize);
             (tmp', dst') =
               merge_blocks gt values block1_start block1_end block2_start block2_end tmp dst
         in merge_pass gt values n blocksize (next_start + (blocksize + blocksize)) tmp' dst')
      else (tmp, dst))"
  by pat_completeness auto
termination
  by (relation "measure (\<lambda>(gt, values, n, bs, ns, tmp, dst). n - ns)") auto

declare merge_pass.simps [simp del]

text \<open>The loop over the block sizes, which swaps the two arrays after every pass.\<close>

function merge_loop ::
    "('p \<Rightarrow> 'p \<Rightarrow> bool) \<Rightarrow> nat \<Rightarrow> nat \<Rightarrow> 'p list \<Rightarrow> 'p list \<Rightarrow> 'p list" where
  "merge_loop gt n blocksize values values_tmp =
     (if 0 < blocksize \<and> blocksize < n then
        (let (tmp, dst) = merge_pass gt values n blocksize 0 values_tmp 0;
             (tmp', _) = copy_block values dst n tmp dst
         in merge_loop gt n (blocksize + blocksize) tmp' values)
      else values)"
  by pat_completeness auto
termination
  by (relation "measure (\<lambda>(gt, n, bs, values, tmp). n - bs)") auto

declare merge_loop.simps [simp del]

definition key_gt :: "apr_table_entry_t block \<Rightarrow> nat \<Rightarrow> nat \<Rightarrow> bool" where
  "key_gt blk i j \<longleftrightarrow> strcasecmp (the (key (rd (blk ! i)))) (the (key (rd (blk ! j)))) > 0"

text \<open>\<open>mem\<close> is what the fresh memory of \<open>values_tmp\<close> holds.\<close>

definition table_mergesort :: "apr_table_entry_t block \<Rightarrow> nat list \<Rightarrow> nat list \<Rightarrow> nat \<Rightarrow> nat list" where
  "table_mergesort blk mem values n =
     merge_loop (key_gt blk) n 2 (sort_pairs (key_gt blk) values n 0) mem"

section \<open>Merging lists\<close>

fun lmerge :: "('p \<Rightarrow> 'p \<Rightarrow> bool) \<Rightarrow> 'p list \<Rightarrow> 'p list \<Rightarrow> 'p list" where
  "lmerge gt [] ys = ys"
| "lmerge gt xs [] = xs"
| "lmerge gt (x # xs) (y # ys) =
     (if gt x y then y # lmerge gt (x # xs) ys else x # lmerge gt xs (y # ys))"

lemma lmerge_Nil2 [simp]: "lmerge gt xs [] = xs"
  by (cases xs) simp_all

text \<open>\<open>gt\<close> is the order of the keys on the given elements.\<close>

definition compares :: "('p \<Rightarrow> 'p \<Rightarrow> bool) \<Rightarrow> ('p \<Rightarrow> 'k :: linorder) \<Rightarrow> 'p set \<Rightarrow> bool" where
  "compares gt f A \<longleftrightarrow> (\<forall>x \<in> A. \<forall>y \<in> A. gt x y \<longleftrightarrow> f y < f x)"

lemma compares_subset: "compares gt f A \<Longrightarrow> B \<subseteq> A \<Longrightarrow> compares gt f B"
  by (auto simp: compares_def)

lemma mset_lmerge [simp]: "mset (lmerge gt xs ys) = mset xs + mset ys"
  by (induction gt xs ys rule: lmerge.induct) auto

lemma set_lmerge [simp]: "set (lmerge gt xs ys) = set xs \<union> set ys"
  by (metis mset_lmerge set_mset_mset set_mset_union)

lemma sorted_lmerge:
  "compares gt f (set xs \<union> set ys) \<Longrightarrow> sorted (map f xs) \<Longrightarrow> sorted (map f ys) \<Longrightarrow>
     sorted (map f (lmerge gt xs ys))"
proof (induction gt xs ys rule: lmerge.induct)
  case (3 gt x xs y ys)
  have c: "compares gt f (set (x # xs) \<union> set ys)" "compares gt f (set xs \<union> set (y # ys))"
    using "3.prems"(1) by (auto elim: compares_subset)
  have "gt x y \<longleftrightarrow> f y < f x" using "3.prems"(1) by (simp add: compares_def)
  with 3 c show ?case by (cases "gt x y") (auto intro: less_imp_le order_trans)
qed auto

lemma filter_lmerge:
  "compares gt f (set xs \<union> set ys) \<Longrightarrow> sorted (map f xs) \<Longrightarrow> sorted (map f ys) \<Longrightarrow>
     filter (\<lambda>x. f x = k) (lmerge gt xs ys) = filter (\<lambda>x. f x = k) xs @ filter (\<lambda>x. f x = k) ys"
proof (induction gt xs ys rule: lmerge.induct)
  case (3 gt x xs y ys)
  have c: "compares gt f (set (x # xs) \<union> set ys)" "compares gt f (set xs \<union> set (y # ys))"
    using "3.prems"(1) by (auto elim: compares_subset)
  have g: "gt x y \<longleftrightarrow> f y < f x" using "3.prems"(1) by (simp add: compares_def)
  show ?case
  proof (cases "gt x y")
    case True
    then have "filter (\<lambda>x. f x = k) (x # xs) = []" if "f y = k"
      using "3.prems"(2) g that by (auto simp: filter_empty_conv)
    with True "3.IH"(1) [OF True c(1) "3.prems"(2)] "3.prems"(3) show ?thesis by auto
  next
    case False
    with "3.IH"(2) [OF False c(2)] "3.prems" show ?thesis by simp
  qed
qed simp_all

lemma lmerge_sort_key:
  assumes "compares gt f (set xs \<union> set ys)"
  shows "lmerge gt (sort_key f xs) (sort_key f ys) = sort_key f (xs @ ys)"
proof (rule sym, rule properties_for_sort_key)
  show "mset (lmerge gt (sort_key f xs) (sort_key f ys)) = mset (xs @ ys)" by simp
  show "sorted (map f (lmerge gt (sort_key f xs) (sort_key f ys)))"
    by (rule sorted_lmerge) (simp_all add: assms)
  show "filter (\<lambda>x. f k = f x) (lmerge gt (sort_key f xs) (sort_key f ys)) =
      filter (\<lambda>x. f k = f x) (xs @ ys)" for k
    using filter_lmerge [of gt f "sort_key f xs" "sort_key f ys" "f k"] assms
    by (simp add: sort_key_stable eq_commute)
qed

section \<open>Sorted blocks\<close>

text \<open>The list cut into blocks of the given size, each of them sorted.\<close>

function sorted_blocks :: "('p \<Rightarrow> 'k :: linorder) \<Rightarrow> nat \<Rightarrow> 'p list \<Rightarrow> 'p list" where
  "sorted_blocks f bs xs =
     (if 0 < bs \<and> xs \<noteq> [] then sort_key f (take bs xs) @ sorted_blocks f bs (drop bs xs) else [])"
  by pat_completeness auto
termination
  by (relation "measure (\<lambda>(f, bs, xs). length xs)") auto

declare sorted_blocks.simps [simp del]

function list_pass :: "('p \<Rightarrow> 'p \<Rightarrow> bool) \<Rightarrow> nat \<Rightarrow> 'p list \<Rightarrow> 'p list" where
  "list_pass gt bs xs =
     (if 0 < bs \<and> bs < length xs
      then lmerge gt (take bs xs) (take bs (drop bs xs)) @ list_pass gt bs (drop (bs + bs) xs)
      else xs)"
  by pat_completeness auto
termination
  by (relation "measure (\<lambda>(gt, bs, xs). length xs)") auto

declare list_pass.simps [simp del]

lemma sorted_blocks_Nil [simp]: "sorted_blocks f bs [] = []"
  by (simp add: sorted_blocks.simps)

lemma sorted_blocks_small:
  "0 < bs \<Longrightarrow> length xs \<le> bs \<Longrightarrow> sorted_blocks f bs xs = sort_key f xs"
  by (simp add: sorted_blocks.simps [of f bs xs])

lemma sorted_blocks_step:
  "0 < bs \<Longrightarrow> sorted_blocks f bs xs = sort_key f (take bs xs) @ sorted_blocks f bs (drop bs xs)"
  by (cases "xs = []") (simp_all add: sorted_blocks.simps [of f bs xs])

lemma mset_sorted_blocks [simp]: "0 < bs \<Longrightarrow> mset (sorted_blocks f bs xs) = mset xs"
proof (induction f bs xs rule: sorted_blocks.induct)
  case (1 f bs xs)
  then have "mset (sorted_blocks f bs (drop bs xs)) = mset (drop bs xs)" by (cases "xs = []") auto
  then show ?case
    using sorted_blocks_step [OF "1.prems", of f xs]
    by simp (metis append_take_drop_id mset_append)
qed

lemma length_sorted_blocks [simp]: "0 < bs \<Longrightarrow> length (sorted_blocks f bs xs) = length xs"
  by (metis mset_sorted_blocks size_mset)

lemma list_pass_sorted_blocks:
  assumes "0 < bs" "compares gt f (set xs)"
  shows "list_pass gt bs (sorted_blocks f bs xs) = sorted_blocks f (bs + bs) xs"
  using assms(2)
proof (induction "length xs" arbitrary: xs rule: less_induct)
  case less
  note step = sorted_blocks_step [OF assms(1)]
  show ?case
  proof (cases "bs < length xs")
    case True
    let ?a = "take bs xs" and ?b = "take bs (drop bs xs)" and ?c = "drop (bs + bs) xs"
    have ab: "?a @ ?b = take (bs + bs) xs" by (simp add: take_add)
    have s: "sorted_blocks f bs xs = sort_key f ?a @ sort_key f ?b @ sorted_blocks f bs ?c"
      using step [of f xs] step [of f "drop bs xs"] by (simp add: add.commute)
    have l: "length (sort_key f ?a) = bs" using True by simp
    have lb: "sorted_blocks f bs ?c = []" if "length (sort_key f ?b) < bs"
      using that by simp
    have t: "take bs (sorted_blocks f bs xs) = sort_key f ?a"
      "take bs (drop bs (sorted_blocks f bs xs)) = sort_key f ?b"
      "drop (bs + bs) (sorted_blocks f bs xs) = sorted_blocks f bs ?c"
      unfolding s using l lb by (cases "length (sort_key f ?b) < bs"; simp)+
    have c: "compares gt f (set ?a \<union> set ?b)" "compares gt f (set ?c)"
      using less.prems by (auto elim!: compares_subset dest: in_set_takeD in_set_dropD)
    have "list_pass gt bs (sorted_blocks f bs xs) =
      sort_key f (take (bs + bs) xs) @ list_pass gt bs (sorted_blocks f bs ?c)"
      using True assms(1) t lmerge_sort_key [OF c(1)] ab
      by (simp add: list_pass.simps [of gt bs "sorted_blocks f bs xs"])
    also have "\<dots> = sort_key f (take (bs + bs) xs) @ sorted_blocks f (bs + bs) ?c"
      using less.hyps [OF _ c(2)] assms(1) True by simp
    also have "\<dots> = sorted_blocks f (bs + bs) xs"
      using sorted_blocks_step [of "bs + bs" f xs] assms(1) by simp
    finally show ?thesis .
  next
    case False
    then show ?thesis
      using assms(1) by (simp add: list_pass.simps sorted_blocks_small)
  qed
qed

section \<open>The loops do what the list functions do\<close>

lemma copy_block_spec:
  "s \<le> e \<Longrightarrow> e \<le> length vs \<Longrightarrow> dst + (e - s) \<le> length tmp \<Longrightarrow> copy_block vs s e tmp dst = (tmp', dst') \<Longrightarrow>
     dst' = dst + (e - s) \<and> length tmp' = length tmp \<and>
     take dst' tmp' = take dst tmp @ take (e - s) (drop s vs)"
proof (induction vs s e tmp dst rule: copy_block.induct)
  case (1 vs s e tmp dst)
  show ?case
  proof (cases "s < e")
    case True
    with "1.prems" have r: "copy_block vs (s + 1) e (tmp[dst := vs ! s]) (dst + 1) = (tmp', dst')"
      by (simp add: copy_block.simps [of vs s])
    have l: "s + 1 \<le> e" "e \<le> length vs" "dst + 1 + (e - (s + 1)) \<le> length (tmp[dst := vs ! s])"
      using "1.prems" True by auto
    have "take (e - s) (drop s vs) = vs ! s # take (e - Suc s) (drop (Suc s) vs)"
      using True l by (simp add: Cons_nth_drop_Suc [symmetric] Suc_diff_Suc [symmetric])
    moreover have "take (Suc dst) (tmp[dst := vs ! s]) = take dst tmp @ [vs ! s]"
      using "1.prems" True by (simp add: take_Suc_conv_app_nth)
    ultimately show ?thesis using "1.IH" [OF True l r] True by auto
  next
    case False
    with "1.prems" show ?thesis by (auto simp: copy_block.simps [of vs s] copy_block.simps [of vs e])
  qed
qed

lemma slice_Cons:
  "s < e \<Longrightarrow> e \<le> length vs \<Longrightarrow> take (e - s) (drop s vs) = vs ! s # take (e - Suc s) (drop (Suc s) vs)"
  by (simp add: Cons_nth_drop_Suc [symmetric] Suc_diff_Suc [symmetric])

lemma merge_blocks_spec:
  assumes "s1 \<le> e1" "e1 \<le> length vs" "s2 \<le> e2" "e2 \<le> length vs"
    and "dst + (e1 - s1) + (e2 - s2) \<le> length tmp"
    and "merge_blocks gt vs s1 e1 s2 e2 tmp dst = (tmp', dst')"
  shows "dst' = dst + (e1 - s1) + (e2 - s2) \<and> length tmp' = length tmp \<and>
     take dst' tmp' = take dst tmp @ lmerge gt (take (e1 - s1) (drop s1 vs)) (take (e2 - s2) (drop s2 vs))"
  using assms
proof (induction gt vs s1 e1 s2 e2 tmp dst rule: merge_blocks.induct)
  case prem: (1 gt vs s1 e1 s2 e2 tmp dst)
  have put: "take (Suc dst) (tmp[dst := x]) = take dst tmp @ [x]" if "dst < length tmp" for x
    using that by (simp add: take_Suc_conv_app_nth)
  consider "e1 \<le> s1" | "\<not> e1 \<le> s1" "e2 \<le> s2"
    | "\<not> e1 \<le> s1" "\<not> e2 \<le> s2" "gt (vs ! s1) (vs ! s2)"
    | "\<not> e1 \<le> s1" "\<not> e2 \<le> s2" "\<not> gt (vs ! s1) (vs ! s2)" by blast
  then show ?case
  proof cases
    case 1
    then show ?thesis
      using "prem.prems" copy_block_spec [of s2 e2 vs dst tmp tmp' dst']
      by (auto simp: merge_blocks.simps [of gt vs s1])
  next
    case 2
    then show ?thesis
      using "prem.prems" copy_block_spec [of s1 e1 vs dst tmp tmp' dst']
      by (auto simp: merge_blocks.simps [of gt vs s1])
  next
    case 3
    then have r: "merge_blocks gt vs s1 e1 (s2 + 1) e2 (tmp[dst := vs ! s2]) (dst + 1) = (tmp', dst')"
      using "prem.prems"(6) by (simp add: merge_blocks.simps [of gt vs s1])
    have "s2 + 1 \<le> e2" "dst + 1 + (e1 - s1) + (e2 - (s2 + 1)) \<le> length (tmp[dst := vs ! s2])"
      using "prem.prems" 3 by auto
    note IH = "prem.IH"(1) [OF 3 "prem.prems"(1,2) this(1) "prem.prems"(4) this(2) r]
    have "dst < length tmp" using "prem.prems" 3 by simp
    with IH 3 "prem.prems" show ?thesis
      by (auto simp: slice_Cons [of s1] slice_Cons [of s2] put)
  next
    case 4
    then have r: "merge_blocks gt vs (s1 + 1) e1 s2 e2 (tmp[dst := vs ! s1]) (dst + 1) = (tmp', dst')"
      using "prem.prems"(6) by (simp add: merge_blocks.simps [of gt vs s1])
    have "s1 + 1 \<le> e1" "dst + 1 + (e1 - (s1 + 1)) + (e2 - s2) \<le> length (tmp[dst := vs ! s1])"
      using "prem.prems" 4 by auto
    note IH = "prem.IH"(2) [OF 4 this(1) "prem.prems"(2,3,4) this(2) r]
    have "dst < length tmp" using "prem.prems" 4 by simp
    with IH 4 "prem.prems" show ?thesis
      by (auto simp: slice_Cons [of s1] slice_Cons [of s2] put)
  qed
qed


lemma list_pass_small: "length xs \<le> bs \<Longrightarrow> list_pass gt bs xs = xs"
  by (simp add: list_pass.simps [of gt bs xs])

text \<open>A pass followed by the copy of the left-over elements.\<close>

lemma merge_pass_spec:
  assumes "0 < bs" "length vs = n" "length tmp = n" "ns \<le> n"
    and "merge_pass gt vs n bs ns tmp ns = (tmp1, dst)" "copy_block vs dst n tmp1 dst = (tmp', d')"
  shows "tmp' = take ns tmp @ list_pass gt bs (drop ns vs)"
  using assms
proof (induction "n - ns" arbitrary: ns tmp rule: less_induct)
  case less
  show ?case
  proof (cases "ns + bs < n")
    case True
    define e2 where "e2 = (if ns + bs + bs > n then n else ns + bs + bs)"
    have e2: "ns + bs \<le> e2" "e2 \<le> n" "ns < e2" using True less.prems(1) by (auto simp: e2_def)
    obtain t1 d1 where m: "merge_blocks gt vs ns (ns + bs) (ns + bs) e2 tmp ns = (t1, d1)" by fastforce
    have ms: "d1 = e2" "length t1 = n"
      "take e2 t1 = take ns tmp @ lmerge gt (take bs (drop ns vs)) (take (e2 - (ns + bs)) (drop (ns + bs) vs))"
      using merge_blocks_spec [OF _ _ _ _ _ m] e2 less.prems by auto
    have tb: "take (e2 - (ns + bs)) (drop (ns + bs) vs) = take bs (drop bs (drop ns vs))"
      using less.prems(2) by (simp add: e2_def add.commute)
    have lp: "list_pass gt bs (drop ns vs) =
      lmerge gt (take bs (drop ns vs)) (take bs (drop bs (drop ns vs))) @ list_pass gt bs (drop e2 vs)"
      using less.prems(1,2) True
      by (simp add: list_pass.simps [of gt bs "drop ns vs"] e2_def list_pass_small add.commute add.left_commute)
    show ?thesis
    proof (cases "ns + bs + bs \<le> n")
      case inside: True
      then have "e2 = ns + (bs + bs)" by (simp add: e2_def)
      then have "merge_pass gt vs n bs e2 t1 e2 = (tmp1, dst)"
        using less.prems(1,5) True m ms(1) inside
        by (simp add: merge_pass.simps [of gt vs n bs ns] e2_def Let_def add.assoc)
      with e2 ms less.prems have "tmp' = take e2 t1 @ list_pass gt bs (drop e2 vs)"
        by (intro less.hyps) auto
      then show ?thesis by (simp add: ms(3) tb lp)
    next
      case False
      then have "e2 = n" by (simp add: e2_def)
      moreover have "merge_pass gt vs n bs (ns + (bs + bs)) t1 e2 = (tmp1, dst)"
        using less.prems(1,5) True m ms(1) False
        by (simp add: merge_pass.simps [of gt vs n bs ns] e2_def Let_def)
      ultimately have "tmp1 = t1" "dst = n"
        using False by (auto simp: merge_pass.simps [of gt vs n bs "ns + (bs + bs)"])
      then have "tmp' = t1" using less.prems(6) by (simp add: copy_block.simps [of vs n])
      then have "tmp' = take e2 t1" using ms(2) \<open>e2 = n\<close> by simp
      then show ?thesis
        unfolding ms(3) tb lp using less.prems(2) \<open>e2 = n\<close> by (simp add: list_pass_small)
    qed
  next
    case False
    then have "tmp1 = tmp" "dst = ns"
      using less.prems(5) by (auto simp: merge_pass.simps [of gt vs n bs ns])
    then have "take d' tmp' = take ns tmp @ drop ns vs" "d' = n" "length tmp' = n"
      using copy_block_spec [OF _ _ _ less.prems(6)] less.prems(2-4) by auto
    with False less.prems(2) show ?thesis by (simp add: list_pass_small)
  qed
qed

lemma merge_loop_spec:
  assumes "0 < bs" "n = length xs" "length vs = n" "length tmp = n" "compares gt f (set xs)"
    and "vs = sorted_blocks f bs xs"
  shows "merge_loop gt n bs vs tmp = sort_key f xs"
  using assms
proof (induction "n - bs" arbitrary: bs vs tmp rule: less_induct)
  case less
  show ?case
  proof (cases "bs < n")
    case True
    obtain t d where p: "merge_pass gt vs n bs 0 tmp 0 = (t, d)" by fastforce
    obtain t' d' where c: "copy_block vs d n t d = (t', d')" by fastforce
    have t': "t' = sorted_blocks f (bs + bs) xs"
      using merge_pass_spec [OF less.prems(1,3,4) _ p c]
        list_pass_sorted_blocks [OF less.prems(1,5)] less.prems(6) by simp
    then have "length t' = n" using less.prems(1,2) by simp
    then have "merge_loop gt n (bs + bs) t' vs = sort_key f xs"
      using True less.prems t' by (intro less.hyps) auto
    then show ?thesis
      using True less.prems(1) p c by (simp add: merge_loop.simps [of gt n bs])
  next
    case False
    with less.prems show ?thesis
      by (simp add: merge_loop.simps [of gt "length xs" bs] sorted_blocks_small)
  qed
qed

lemma sort_key_pair: "sort_key f [x, y] = (if f y < f x then [y, x] else [x, y])"
  by (auto simp: sort_key_def)

lemma sort_pairs_spec:
  assumes "length vs = n" "i \<le> n" "compares gt f (set (drop i vs))"
  shows "sort_pairs gt vs n i = take i vs @ sorted_blocks f 2 (drop i vs)"
  using assms
proof (induction "n - i" arbitrary: i vs rule: less_induct)
  case less
  show ?case
  proof (cases "i + 1 < n")
    case True
    let ?x = "vs ! i" and ?y = "vs ! (i + 1)"
    define vs' where "vs' = (if gt ?x ?y then vs[i := ?y, i + 1 := ?x] else vs)"
    have d: "drop i vs = ?x # ?y # drop (i + 2) vs"
      using True less.prems(1) by (simp add: Cons_nth_drop_Suc [symmetric])
    have g: "gt ?x ?y \<longleftrightarrow> f ?y < f ?x" using less.prems(3) by (simp add: d compares_def)
    have v: "length vs' = n" "drop (i + 2) vs' = drop (i + 2) vs"
      "take (i + 2) vs' = take i vs @ sort_key f [?x, ?y]"
      using True less.prems(1) g
      by (auto simp: vs'_def sort_key_pair take_Suc_conv_app_nth numeral_2_eq_2)
    have "sort_pairs gt vs' n (i + 2) = take (i + 2) vs' @ sorted_blocks f 2 (drop (i + 2) vs')"
      using True less.prems(3) v by (intro less.hyps) (auto simp: d elim: compares_subset)
    moreover have "sort_pairs gt vs n i = sort_pairs gt vs' n (i + 2)"
      using True by (simp add: sort_pairs.simps [of gt vs] vs'_def Let_def)
    moreover have "sorted_blocks f 2 (drop i vs) = sort_key f [?x, ?y] @ sorted_blocks f 2 (drop (i + 2) vs)"
      using sorted_blocks_step [of 2 f "drop i vs"] by (simp add: d numeral_2_eq_2)
    ultimately show ?thesis using v by simp
  next
    case False
    then have "length (drop i vs) \<le> 1" using less.prems by simp
    then have "sorted_blocks f 2 (drop i vs) = drop i vs"
      by (cases "drop i vs") (auto simp: sorted_blocks_small)
    with False show ?thesis by (simp add: sort_pairs.simps [of gt vs])
  qed
qed

lemma table_mergesort_spec:
  assumes "n = length vs" "length mem = n" "\<forall>i \<in> set vs. cstr (the (key (rd (blk ! i))))"
  shows "table_mergesort blk mem vs n = sort_key (\<lambda>i. fold_case (the (key (rd (blk ! i))))) vs"
proof -
  let ?f = "\<lambda>i. fold_case (the (key (rd (blk ! i))))"
  have c: "compares (key_gt blk) ?f (set vs)"
    using assms(3) by (auto simp: compares_def key_gt_def strcasecmp_gt_0_iff)
  then have p: "sort_pairs (key_gt blk) vs n 0 = sorted_blocks ?f 2 vs"
    using sort_pairs_spec [of vs n 0 "key_gt blk" ?f] assms(1) by simp
  then show ?thesis
    unfolding table_mergesort_def using assms(1,2) c by (intro merge_loop_spec) auto
qed

section \<open>Properties\<close>

text \<open>
  C17. \<open>table_mergesort\<close> terminates and returns the stable sort of the entry pointers by
  case-insensitive key: its first pass, the passes over doubling block sizes, the left-over elements
  and the swapping of the two arrays compute exactly the library's \<open>sort_key\<close>, whatever the fresh
  memory of the second array held.
\<close>

theorem table_mergesort_correct:
  assumes "n = length vs" "length mem = n" "\<forall>i \<in> set vs. cstr (the (key (rd (blk ! i))))"
  shows "table_mergesort blk mem vs n = sort_key (\<lambda>i. fold_case (the (key (rd (blk ! i))))) vs"
  by (rule table_mergesort_spec [OF assms])

theorem table_mergesort_correct_witness:
  "table_mergesort (map (\<lambda>k. Val (new_entry k None)) [[99], [66], [98], [65], [67]])
     [7, 7, 7, 7, 7] [0, 1, 2, 3, 4] 5 = [3, 1, 2, 0, 4]"
proof -
  let ?blk = "map (\<lambda>k. Val (new_entry k None)) [[99], [66], [98], [65], [67]]"
  have "table_mergesort ?blk [7, 7, 7, 7, 7] [0, 1, 2, 3, 4] 5 =
      sort_key (\<lambda>i. fold_case (the (key (rd (?blk ! i))))) [0, 1, 2, 3, 4]"
    by (rule table_mergesort_correct) (simp_all add: new_entry_def)
  then show ?thesis by (simp add: new_entry_def fold_case_def tolower_def sort_key_def)
qed

end
