(* ===== verification/Apr_Table_Compress.thy ===== *)
theory Apr_Table_Compress
  imports Apr_Table_Sort
begin

text \<open>
  The operations of \<^verbatim>\<open>tables/apr_tables.c\<close> that work on whole tables: \<open>apr_table_compress\<close>, which
  removes duplicate keys after sorting pointers to the entries, \<open>apr_table_overlap\<close>, which appends one
  table to another and compresses the result, the iteration \<open>apr_table_vdo\<close> and \<open>apr_table_getm\<close>.
  The theory shows which table the compression leaves, that an overlap does what the documented loop
  over the second table does, and what the iteration visits.
\<close>

section \<open>Compression\<close>

definition APR_OVERLAP_TABLES_SET :: nat where "APR_OVERLAP_TABLES_SET = 0"
definition APR_OVERLAP_TABLES_MERGE :: nat where "APR_OVERLAP_TABLES_MERGE = 1"
definition APR_OVERLAP_TABLES_ADD :: nat where "APR_OVERLAP_TABLES_ADD = 2"

text \<open>The test whether two entries have the same key.\<close>

definition same_key :: "apr_table_entry_t block \<Rightarrow> nat \<Rightarrow> nat \<Rightarrow> bool" where
  "same_key blk i j \<longleftrightarrow>
     key_checksum (rd (blk ! i)) = key_checksum (rd (blk ! j)) \<and>
     strcasecmp (the (key (rd (blk ! i)))) (the (key (rd (blk ! j)))) = 0"

text \<open>The loop that advances \<open>dup_last\<close>.\<close>

function scan_dups :: "apr_table_entry_t block \<Rightarrow> nat list \<Rightarrow> nat \<Rightarrow> nat \<Rightarrow> nat \<Rightarrow> nat" where
  "scan_dups blk sort_array sort_end last_p dup_last =
     (if dup_last < sort_end \<and> same_key blk (sort_array ! dup_last) (sort_array ! last_p)
      then scan_dups blk sort_array sort_end last_p (dup_last + 1) else dup_last)"
  by pat_completeness auto
termination
  by (relation "measure (\<lambda>(blk, sa, e, l, d). e - d)") auto

declare scan_dups.simps [simp del]

text \<open>
  The two loops over the duplicates of one key when merging: the bytes to allocate and the string
  written, its NUL included. Both call \<open>strlen\<close> or \<open>strcpy\<close> on every value, so for a NULL among them the
  result is \<open>None\<close>, as it is for a string longer than the memory allocated.
\<close>

fun merge_len :: "cstring option list \<Rightarrow> nat option" where
  "merge_len [] = Some 0"
| "merge_len (None # vs) = None"
| "merge_len (Some v # vs) = map_option (\<lambda>len. length v + 2 + len) (merge_len vs)"

fun merge_copy :: "cstring option list \<Rightarrow> byte list option" where
  "merge_copy [] = Some []"
| "merge_copy (None # vs) = None"
| "merge_copy [Some v] = Some (v @ [0])"
| "merge_copy (Some v # w # vs) = map_option (\<lambda>dst. v @ [44, 32] @ dst) (merge_copy (w # vs))"

definition merge_vals :: "cstring option list \<Rightarrow> cstring option option" where
  "merge_vals vs =
     (case merge_len vs of
        None \<Rightarrow> None
      | Some len \<Rightarrow>
          (case merge_copy vs of
             None \<Rightarrow> None
           | Some dst \<Rightarrow> if length dst \<le> len then Some (Some (butlast dst)) else None))"

text \<open>The loop \<open>do (*sort_next)->key = NULL; while (++sort_next <= dup_last);\<close>\<close>

function clear_keys ::
    "apr_table_entry_t block \<Rightarrow> nat list \<Rightarrow> nat \<Rightarrow> nat \<Rightarrow> apr_table_entry_t block" where
  "clear_keys blk sort_array sort_next dup_last =
     (let p = sort_array ! sort_next;
          blk' = blk[p := Val ((rd (blk ! p))\<lparr>key := None\<rparr>)]
      in if sort_next + 1 \<le> dup_last then clear_keys blk' sort_array (sort_next + 1) dup_last else blk')"
  by pat_completeness auto
termination
  by (relation "measure (\<lambda>(blk, sa, s, d). d - s)") auto

declare clear_keys.simps [simp del]

text \<open>The value of an entry, through a pointer of the sorted array.\<close>

definition val_at :: "apr_table_entry_t block \<Rightarrow> nat \<Rightarrow> cstring option" where
  "val_at blk i = val (rd (blk ! i))"

definition new_val ::
    "apr_table_entry_t block \<Rightarrow> nat list \<Rightarrow> nat \<Rightarrow> nat \<Rightarrow> nat \<Rightarrow> cstring option option" where
  "new_val blk sort_array flags last_p dup_last =
     (if flags = APR_OVERLAP_TABLES_MERGE
      then merge_vals (map (\<lambda>i. val_at blk (sort_array ! i)) (last_p # [last_p + 1..<dup_last + 1]))
      else Some (val_at blk (sort_array ! dup_last)))"

lemma scan_dups_ge: "dup_last \<le> scan_dups blk sa e l dup_last"
proof (induction blk sa e l dup_last rule: scan_dups.induct)
  case (1 blk sa e l d)
  then show ?case by (subst scan_dups.simps) (auto dest: Suc_leD)
qed

text \<open>
  The loop over the sorted array; the result is the block and \<open>dups_found\<close>, or \<open>None\<close> where a NULL value is
  merged.
\<close>

function process_dups ::
    "nat \<Rightarrow> nat list \<Rightarrow> nat \<Rightarrow> apr_table_entry_t block \<Rightarrow> nat \<Rightarrow> nat \<Rightarrow> bool \<Rightarrow>
       (apr_table_entry_t block \<times> bool) option" where
  "process_dups flags sort_array sort_end blk last_p sort_next dups_found =
     (if sort_next < sort_end then
        (if same_key blk (sort_array ! sort_next) (sort_array ! last_p) then
           (let dup_last = scan_dups blk sort_array sort_end last_p (sort_next + 1) - 1;
                l = sort_array ! last_p
            in case new_val blk sort_array flags last_p dup_last of
                 None \<Rightarrow> None
               | Some v \<Rightarrow>
                   (let blk1 = blk[l := Val ((rd (blk ! l))\<lparr>val := v\<rparr>)];
                        blk2 = clear_keys blk1 sort_array sort_next dup_last
                    in process_dups flags sort_array sort_end blk2 last_p (dup_last + 1) True))
         else process_dups flags sort_array sort_end blk sort_next (sort_next + 1) dups_found)
      else Some (blk, dups_found))"
  by pat_completeness auto
termination
proof (relation "measure (\<lambda>(fl, sa, e, blk, l, s, d). e - s)", goal_cases)
  case (2 fl sa e blk l s d dl l' v b1 b2)
  then show ?case using scan_dups_ge [of "s + 1" blk sa e l] by auto
qed auto

declare process_dups.simps [simp del]

text \<open>The loop that closes the holes; the result is the block and \<open>dst\<close>.\<close>

function fill_holes :: "apr_table_entry_t block \<Rightarrow> nat \<Rightarrow> nat \<Rightarrow> nat \<Rightarrow> apr_table_entry_t block \<times> nat" where
  "fill_holes blk src dst last_elt =
     (let (blk', dst') = (if key (rd (blk ! src)) \<noteq> None then (blk[dst := blk ! src], dst + 1) else (blk, dst))
      in if src + 1 < last_elt then fill_holes blk' (src + 1) dst' last_elt else (blk', dst'))"
  by pat_completeness auto
termination
  by (relation "measure (\<lambda>(blk, src, dst, e). e - src)") auto

declare fill_holes.simps [simp del]

text \<open>
  \<open>mem\<close> is what the fresh memory of the merge sort holds. The pointers the source copies into
  \<open>sort_array\<close> are those of all the entries in order.
\<close>

definition apr_table_compress ::
    "nat list \<Rightarrow> tstore \<Rightarrow> apr_table_t \<Rightarrow> nat \<Rightarrow> (tstore \<times> apr_table_t) option" where
  "apr_table_compress mem st t flags =
     (if flags = APR_OVERLAP_TABLES_ADD then Some (st, t)
      else if nelts (arr t) \<le> 1 then Some (st, t)
      else
        (let blk = st ! elts (arr t);
             n = nelts (arr t);
             sort_array = table_mergesort blk mem [0..<n] n
         in case process_dups flags sort_array n blk 0 1 False of
              None \<Rightarrow> None
            | Some (blk1, dups_found) \<Rightarrow>
                (let (blk2, n') =
                       (if dups_found then
                          (let (b, dst) = fill_holes blk1 0 0 n in (b, n - (n - dst)))
                        else (blk1, n));
                     st' = st[elts (arr t) := blk2];
                     t' = t\<lparr>arr := (arr t)\<lparr>nelts := n'\<rparr>\<rparr>
                 in Some (st', table_reindex st' t'))))"

section \<open>Overlap\<close>

text \<open>The loop of \<open>apr_table_cat\<close> over the hash values.\<close>

definition cat_index :: "nat \<Rightarrow> apr_table_t \<Rightarrow> apr_table_t \<Rightarrow> nat \<Rightarrow> apr_table_t" where
  "cat_index n s t idx =
     (if TABLE_INDEX_IS_INITIALIZED s idx then
        (let t1 = t\<lparr>index_last := (index_last t)(idx := index_last s idx + n)\<rparr>
         in if \<not> TABLE_INDEX_IS_INITIALIZED t1 idx
            then t1\<lparr>index_first := (index_first t1)(idx := index_first s idx + n)\<rparr> else t1)
      else t)"

definition apr_table_cat :: "tstore \<Rightarrow> apr_table_t \<Rightarrow> apr_table_t \<Rightarrow> tstore \<times> apr_table_t" where
  "apr_table_cat st t s =
     (let n = nelts (arr t);
          (st', a) = apr_array_cat st (arr t) (arr s);
          t1 = t\<lparr>arr := a\<rparr>
      in if n = 0
         then (st', t1\<lparr>index_first := index_first s, index_last := index_last s,
                      index_initialized := index_initialized s\<rparr>)
         else (let t2 = foldl (cat_index n s) t1 [0..<TABLE_HASH_SIZE]
               in (st', t2\<lparr>index_initialized := index_initialized t2 OR index_initialized s\<rparr>)))"

definition apr_table_overlap ::
    "nat list \<Rightarrow> tstore \<Rightarrow> apr_table_t \<Rightarrow> apr_table_t \<Rightarrow> nat \<Rightarrow> (tstore \<times> apr_table_t) option" where
  "apr_table_overlap mem st a b flags =
     (if nelts (arr a) + nelts (arr b) = 0 then Some (st, a)
      else (let (st', a') = apr_table_cat st a b in apr_table_compress mem st' a' flags))"

section \<open>Iteration\<close>

text \<open>
  A callback updates the caller's data and returns an integer. The two scans of \<open>apr_table_vdo\<close>: over
  the chain of a key and over the whole table.
\<close>

type_synonym 'r do_callback = "'r \<Rightarrow> cstring \<Rightarrow> cstring option \<Rightarrow> 'r \<times> int"

function vdo_scan ::
    "(apr_table_entry_t slot \<Rightarrow> bool) \<Rightarrow> 'r do_callback \<Rightarrow> apr_table_entry_t block \<Rightarrow> nat \<Rightarrow> nat \<Rightarrow>
       'r \<times> int \<Rightarrow> 'r \<times> int" where
  "vdo_scan sel cb blk i stop (rec, rv) =
     (if rv \<noteq> 0 \<and> i < stop then
        vdo_scan sel cb blk (i + 1) stop
          (if sel (blk ! i) then cb rec (the (key (rd (blk ! i)))) (val (rd (blk ! i))) else (rec, rv))
      else (rec, rv))"
  by pat_completeness auto
termination
  by (relation "measure (\<lambda>(sel, cb, blk, i, stop, s). stop - i)") auto

declare vdo_scan.simps [simp del]

definition vdo_key :: "tstore \<Rightarrow> apr_table_t \<Rightarrow> 'r do_callback \<Rightarrow> 'r \<Rightarrow> cstring \<Rightarrow> 'r \<times> int" where
  "vdo_key st t cb rec argp =
     (let h = TABLE_HASH argp in
      if TABLE_INDEX_IS_INITIALIZED t h
      then vdo_scan (slot_matches (COMPUTE_KEY_CHECKSUM argp) argp) cb (st ! elts (arr t))
             (index_first t h) (index_last t h + 1) (rec, 1)
      else (rec, 1))"

definition vdo_all :: "tstore \<Rightarrow> apr_table_t \<Rightarrow> 'r do_callback \<Rightarrow> 'r \<Rightarrow> 'r \<times> int" where
  "vdo_all st t cb rec =
     vdo_scan (\<lambda>s. key (rd s) \<noteq> None) cb (st ! elts (arr t)) 0 (nelts (arr t)) (rec, 1)"

text \<open>The argument list is given without its terminating NULL.\<close>

fun vdo_keys ::
    "tstore \<Rightarrow> apr_table_t \<Rightarrow> 'r do_callback \<Rightarrow> 'r \<times> int \<Rightarrow> cstring list \<Rightarrow> 'r \<times> int" where
  "vdo_keys st t cb (rec, vdorv) [] = (rec, vdorv)"
| "vdo_keys st t cb (rec, vdorv) (argp # args) =
     (let (rec', rv) = vdo_key st t cb rec argp
      in vdo_keys st t cb (rec', if rv = 0 then 0 else vdorv) args)"

definition apr_table_vdo ::
    "tstore \<Rightarrow> apr_table_t \<Rightarrow> 'r do_callback \<Rightarrow> 'r \<Rightarrow> cstring list \<Rightarrow> 'r \<times> int" where
  "apr_table_vdo st t cb rec args =
     (case args of
        [] \<Rightarrow> (let (rec', rv) = vdo_all st t cb rec in (rec', if rv = 0 then 0 else 1))
      | _ \<Rightarrow> vdo_keys st t cb (rec, 1) args)"

definition apr_table_do ::
    "tstore \<Rightarrow> apr_table_t \<Rightarrow> 'r do_callback \<Rightarrow> 'r \<Rightarrow> cstring list \<Rightarrow> 'r \<times> int" where
  "apr_table_do st t cb rec args = apr_table_vdo st t cb rec args"

text \<open>
  The state of \<open>apr_table_getm\<close>: the first value and, from the second on, the array of all values,
  which lives in a store of its own.
\<close>

record table_getm_t =
  getm_p :: nat
  getm_first :: "cstring option"
  getm_merged :: "(cstring store \<times> apr_array_header_t) option"

definition table_getm_do :: "table_getm_t do_callback" where
  "table_getm_do state k v =
     (case getm_first state of
        None \<Rightarrow> (state\<lparr>getm_first := v\<rparr>, 1)
      | Some f \<Rightarrow>
          (let m0 = (case getm_merged state of
                       None \<Rightarrow> push_val apr_array_push (apr_array_make [] (getm_p state) 10) f
                     | Some m \<Rightarrow> m);
               m1 = (case v of
                       Some x \<Rightarrow> push_val apr_array_push m0 x
                     | None \<Rightarrow> (case apr_array_push (fst m0) (snd m0) of
                                 (st', a, p) \<Rightarrow> (st'[fst p := (st' ! fst p)[snd p := Zero]], a)))
           in (state\<lparr>getm_merged := Some m1\<rparr>, 1)))"

text \<open>The returned string is given by its contents, without the NUL.\<close>

definition apr_table_getm :: "nat \<Rightarrow> tstore \<Rightarrow> apr_table_t \<Rightarrow> cstring \<Rightarrow> cstring option" where
  "apr_table_getm p st t k =
     (let (state, _) = apr_table_do st t table_getm_do
            \<lparr>getm_p = p, getm_first = None, getm_merged = None\<rparr> [k]
      in case getm_first state of
           None \<Rightarrow> None
         | Some f \<Rightarrow>
             (case getm_merged state of
                None \<Rightarrow> Some f
              | Some (s, a) \<Rightarrow> Some (butlast (snd (apr_array_pstrcat s a 44)))))"

section \<open>The groups of equal keys in the sorted array\<close>

lemma scan_dups_eq:
  "scan_dups blk sa (length sa) l d =
     d + length (takeWhile (\<lambda>q. same_key blk q (sa ! l)) (drop d sa))"
proof (induction "length sa - d" arbitrary: d)
  case 0
  then show ?case by (simp add: scan_dups.simps [of blk sa _ l d])
next
  case (Suc n)
  then have d: "drop d sa = sa ! d # drop (Suc d) sa" by (simp add: Cons_nth_drop_Suc)
  from Suc show ?case by (simp add: scan_dups.simps [of blk sa _ l d] d)
qed

definition clear_all :: "apr_table_entry_t block \<Rightarrow> nat list \<Rightarrow> apr_table_entry_t block" where
  "clear_all = foldl (\<lambda>b p. b[p := Val ((rd (b ! p))\<lparr>key := None\<rparr>)])"

lemma clear_keys_eq:
  "s \<le> d \<Longrightarrow> d < length sa \<Longrightarrow> clear_keys blk sa s d = clear_all blk (take (Suc d - s) (drop s sa))"
proof (induction blk sa s d rule: clear_keys.induct)
  case (1 blk sa s d)
  let ?b = "blk[sa ! s := Val ((rd (blk ! (sa ! s)))\<lparr>key := None\<rparr>)]"
  have t: "take (Suc d - s) (drop s sa) = sa ! s # take (d - s) (drop (Suc s) sa)"
    by (rule range_Cons [OF "1.prems"])
  show ?case
  proof (cases "s + 1 \<le> d")
    case True
    then have "clear_keys ?b sa (Suc s) d = clear_all ?b (take (d - s) (drop (Suc s) sa))"
      using "1.IH" [OF refl refl True] "1.prems"(2) by (simp add: Suc_diff_Suc)
    with True show ?thesis by (simp add: clear_keys.simps [of blk sa s d] t clear_all_def Let_def)
  next
    case False
    then have "d = s" using "1.prems" by simp
    then show ?thesis
      unfolding t by (simp add: clear_keys.simps [of blk sa s s] clear_all_def Let_def)
  qed
qed

lemma length_clear_all [simp]: "length (clear_all blk ps) = length blk"
  by (induction ps arbitrary: blk) (simp_all add: clear_all_def)

lemma clear_all_nth:
  assumes "distinct ps" "set ps \<subseteq> {..<length blk}"
  shows "clear_all blk ps ! i = (if i \<in> set ps then Val ((rd (blk ! i))\<lparr>key := None\<rparr>) else blk ! i)"
  using assms by (induction ps arbitrary: blk) (auto simp: clear_all_def nth_list_update)

text \<open>The value an entry gets from the values of all the entries with its key; when merging, none is NULL.\<close>

fun join_vals :: "cstring option list \<Rightarrow> cstring" where
  "join_vals [] = []"
| "join_vals [v] = the v"
| "join_vals (v # w # vs) = the v @ [44, 32] @ join_vals (w # vs)"

definition combine :: "nat \<Rightarrow> cstring option list \<Rightarrow> cstring option" where
  "combine flags vs =
     (if length vs = 1 then hd vs else if flags = APR_OVERLAP_TABLES_MERGE then Some (join_vals vs) else last vs)"

lemma merge_len_copy:
  "\<forall>v \<in> set vs. v \<noteq> None \<Longrightarrow> vs \<noteq> [] \<Longrightarrow>
     merge_copy vs = Some (join_vals vs @ [0]) \<and> (\<exists>len. merge_len vs = Some len \<and> length (join_vals vs) < len)"
  by (induction vs rule: merge_copy.induct) auto

lemma merge_vals_join: "\<forall>v \<in> set vs. v \<noteq> None \<Longrightarrow> vs \<noteq> [] \<Longrightarrow> merge_vals vs = Some (Some (join_vals vs))"
  using merge_len_copy [of vs] by (auto simp: merge_vals_def)

text \<open>A NULL value is undefined behaviour, wherever it is among the duplicates.\<close>

lemma merge_vals_NULL: "None \<in> set vs \<Longrightarrow> merge_vals vs = None"
proof -
  assume "None \<in> set vs"
  then have "merge_len vs = None" by (induction vs rule: merge_len.induct) auto
  then show ?thesis by (simp add: merge_vals_def)
qed

definition group_update :: "nat \<Rightarrow> apr_table_entry_t block \<Rightarrow> nat \<Rightarrow> nat list \<Rightarrow> apr_table_entry_t block" where
  "group_update flags blk p ps =
     (if ps = [] then blk
      else clear_all (blk[p := Val ((rd (blk ! p))\<lparr>val := combine flags (map (val_at blk) (p # ps))\<rparr>)]) ps)"

function proc_groups ::
    "(nat \<Rightarrow> 'k) \<Rightarrow> nat \<Rightarrow> apr_table_entry_t block \<Rightarrow> nat list \<Rightarrow> apr_table_entry_t block" where
  "proc_groups f flags blk [] = blk"
| "proc_groups f flags blk (p # ps) =
     proc_groups f flags (group_update flags blk p (takeWhile (\<lambda>q. f q = f p) ps))
       (dropWhile (\<lambda>q. f q = f p) ps)"
  by pat_completeness auto
termination
  by (relation "measure (\<lambda>(f, fl, blk, ps). length ps)") (auto simp: less_Suc_eq_le length_dropWhile_le)

lemma length_group_update [simp]: "length (group_update fl blk p ps) = length blk"
  by (simp add: group_update_def)

lemma group_update_nth:
  assumes "distinct (p # ps)" "set (p # ps) \<subseteq> {..<length blk}"
  shows "group_update fl blk p ps ! i =
    (if i \<in> set ps then Val ((rd (blk ! i))\<lparr>key := None\<rparr>)
     else if i = p \<and> ps \<noteq> [] then Val ((rd (blk ! p))\<lparr>val := combine fl (map (val_at blk) (p # ps))\<rparr>)
     else blk ! i)"
  using assms by (auto simp: group_update_def clear_all_nth nth_list_update)

lemma process_dups_False:
  "process_dups fl sa e blk l s d = Some (blk', False) \<Longrightarrow> blk' = blk \<and> \<not> d"
proof (induction fl sa e blk l s d rule: process_dups.induct)
  case (1 fl sa e blk l s d)
  show ?case
  proof (cases "s < e \<and> same_key blk (sa ! s) (sa ! l)")
    case True
    then show ?thesis
      using "1.prems" "1.IH"(1) [OF _ _ refl refl _ refl refl]
      by (simp add: process_dups.simps [of fl sa e blk l s d] Let_def split: option.splits)
  next
    case False
    then show ?thesis
      using "1.prems" "1.IH"(2) by (auto simp: process_dups.simps [of fl sa e blk l s d] split: if_splits)
  qed
qed

lemma map_nth_slice: "a + n \<le> length xs \<Longrightarrow> map ((!) xs) [a..<a + n] = take n (drop a xs)"
  by (simp add: list_eq_iff_nth_eq)

lemma new_val_group:
  assumes gl: "Suc l + length G \<le> length sa" and tG: "take (length G) (drop (Suc l) sa) = G"
    and gne: "G \<noteq> []"
    and vals: "fl = APR_OVERLAP_TABLES_MERGE \<Longrightarrow> \<forall>q \<in> set (sa ! l # G). val_at blk q \<noteq> None"
  shows "new_val blk sa fl l (l + length G) = Some (combine fl (map (val_at blk) (sa ! l # G)))"
proof -
  have "map ((!) sa) [Suc l..<Suc l + length G] = G" using map_nth_slice [OF gl] tG by simp
  then have "map (val_at blk) (map ((!) sa) [Suc l..<Suc l + length G]) = map (val_at blk) G" by simp
  then have m: "map (\<lambda>i. val_at blk (sa ! i)) (l # [l + 1..<l + length G + 1]) =
      map (val_at blk) (sa ! l # G)" by (simp add: comp_def del: upt_Suc)
  have "last G = G ! (length G - 1)" using gne by (rule last_conv_nth)
  also have "\<dots> = sa ! (l + length G)"
    using arg_cong [OF tG, of "\<lambda>xs. xs ! (length G - 1)"] gl gne by (cases G) simp_all
  finally have "sa ! (l + length G) = last G" by simp
  then show ?thesis
    using gne vals merge_vals_join [of "map (val_at blk) (sa ! l # G)"]
    unfolding new_val_def m by (auto simp: combine_def last_map)
qed

text \<open>
  From the start of a group of equal keys the loop updates that group and goes on at the next one.
\<close>

lemma process_group:
  fixes fl :: nat
  assumes l: "l < length sa" and dist: "distinct sa" and sub: "set sa \<subseteq> {..<length blk}"
    and same: "\<And>q r. q \<in> set (drop l sa) \<Longrightarrow> r \<in> set (drop l sa) \<Longrightarrow> same_key blk q r \<longleftrightarrow> f q = f r"
    and vals: "fl = APR_OVERLAP_TABLES_MERGE \<Longrightarrow> \<forall>q \<in> set (drop l sa). val_at blk q \<noteq> None"
  defines "G \<equiv> takeWhile (\<lambda>q. f q = f (sa ! l)) (drop (Suc l) sa)"
  defines "m \<equiv> Suc (l + length G)" and "blk' \<equiv> group_update fl blk (sa ! l) G"
  shows "process_dups fl sa (length sa) blk l (Suc l) d =
    (if m < length sa then process_dups fl sa (length sa) blk' m (Suc m) (d \<or> G \<noteq> [])
     else Some (blk', d \<or> G \<noteq> []))"
proof (cases "drop (Suc l) sa")
  case Nil
  then have "G = []" "\<not> Suc l < length sa" by (simp_all add: G_def)
  then show ?thesis
    by (simp add: process_dups.simps [of fl sa _ blk l] m_def blk'_def group_update_def)
next
  case (Cons q R)
  then have sl: "Suc l < length sa" by (metis drop_all list.distinct(1) not_le)
  then have q: "q = sa ! Suc l" "R = drop (Suc (Suc l)) sa" using Cons by (simp_all add: Cons_nth_drop_Suc [OF sl, symmetric])
  have dl: "drop l sa = sa ! l # q # R" using l Cons by (simp add: Cons_nth_drop_Suc [symmetric])
  have sm: "same_key blk x (sa ! l) \<longleftrightarrow> f x = f (sa ! l)" if "x = q \<or> x \<in> set R" for x
    using same [of x "sa ! l"] that by (auto simp: dl)
  show ?thesis
  proof (cases "f q = f (sa ! l)")
    case False
    then have "G = []" by (simp add: G_def Cons)
    with False sm [of q] sl show ?thesis
      by (simp add: process_dups.simps [of fl sa _ blk l] q m_def blk'_def group_update_def)
  next
    case True
    have tw: "takeWhile (\<lambda>x. same_key blk x (sa ! l)) R = takeWhile (\<lambda>x. f x = f (sa ! l)) R"
      by (rule takeWhile_cong) (simp_all add: sm)
    have G: "G = q # takeWhile (\<lambda>x. f x = f (sa ! l)) R" using True by (simp add: G_def Cons)
    then have gne: "G \<noteq> []" "0 < length G" by simp_all
    have sc: "scan_dups blk sa (length sa) l (Suc l + 1) - 1 = l + length G"
      using tw by (simp add: scan_dups_eq G flip: q(2))
    have gl: "Suc l + length G \<le> length sa"
      using length_takeWhile_le [of "\<lambda>q. f q = f (sa ! l)" "drop (Suc l) sa"] sl by (simp add: G_def)
    have tG: "take (length G) (drop (Suc l) sa) = G" unfolding G_def by (rule takeWhile_eq_take [symmetric])
    have "set (sa ! l # G) \<subseteq> set (drop l sa)" by (auto simp: dl G dest: set_takeWhileD)
    then have nv: "new_val blk sa fl l (l + length G) = Some (combine fl (map (val_at blk) (sa ! l # G)))"
      using vals by (intro new_val_group [OF gl tG gne(1)]) blast
    have dG: "distinct (sa ! l # G)" "set (sa ! l # G) \<subseteq> {..<length blk}"
    proof -
      have "distinct (drop l sa)" "set (drop l sa) \<subseteq> {..<length blk}"
        using dist sub by (auto dest: in_set_dropD)
      moreover have "set G \<subseteq> set (drop (Suc l) sa)" "distinct G"
        using dist by (auto simp: G_def dest: set_takeWhileD)
      ultimately show "distinct (sa ! l # G)" "set (sa ! l # G) \<subseteq> {..<length blk}"
        using l by (auto simp: Cons_nth_drop_Suc [symmetric])
    qed
    have "clear_keys (blk[sa ! l := Val ((rd (blk ! (sa ! l)))\<lparr>val := combine fl (map (val_at blk) (sa ! l # G))\<rparr>)])
        sa (Suc l) (l + length G) = blk'"
      using gl gne tG clear_keys_eq [of "Suc l" "l + length G" sa]
      by (simp add: blk'_def group_update_def Suc_le_eq)
    then have step: "process_dups fl sa (length sa) blk l (Suc l) d =
        process_dups fl sa (length sa) blk' l m True"
      using sl sm [of q] True sc nv
      by (simp add: process_dups.simps [of fl sa _ blk l] q(1) m_def Let_def)
    show ?thesis
    proof (cases "m < length sa")
      case False
      then show ?thesis using gne by (simp add: step process_dups.simps [of fl sa _ blk'])
    next
      case m: True
      have "drop (length G) (drop (Suc l) sa) = dropWhile (\<lambda>q. f q = f (sa ! l)) (drop (Suc l) sa)"
        unfolding G_def by (rule dropWhile_eq_drop [symmetric])
      then have dw: "dropWhile (\<lambda>q. f q = f (sa ! l)) (drop (Suc l) sa) = sa ! m # drop (Suc m) sa"
        using m by (simp add: Cons_nth_drop_Suc m_def add.commute)
      then have nf: "f (sa ! m) \<noteq> f (sa ! l)"
        using hd_dropWhile [of "\<lambda>q. f q = f (sa ! l)" "drop (Suc l) sa"] by simp
      then have ni: "sa ! m \<notin> set (sa ! l # G)" by (auto simp: G_def dest: set_takeWhileD)
      have "drop l sa ! (m - l) \<in> set (drop l sa)" using m by (intro nth_mem) (simp add: m_def)
      moreover have "drop l sa ! (m - l) = sa ! m" using l by (simp add: m_def)
      ultimately have "\<not> same_key blk (sa ! m) (sa ! l)" using same [of "sa ! m" "sa ! l"] nf dl by simp
      moreover have "same_key blk' (sa ! m) (sa ! l) = same_key blk (sa ! m) (sa ! l)"
        using ni dG gne by (auto simp: same_key_def blk'_def group_update_nth)
      ultimately show ?thesis
        using gne m by (simp add: step process_dups.simps [of fl sa _ blk' l])
    qed
  qed
qed

lemma process_dups_groups:
  assumes "l < length sa" "distinct sa" "set sa \<subseteq> {..<length blk}"
    and "\<And>q r. q \<in> set (drop l sa) \<Longrightarrow> r \<in> set (drop l sa) \<Longrightarrow> same_key blk q r \<longleftrightarrow> f q = f r"
    and "fl = APR_OVERLAP_TABLES_MERGE \<Longrightarrow> \<forall>q \<in> set (drop l sa). val_at blk q \<noteq> None"
  shows "\<exists>dups. process_dups fl sa (length sa) blk l (Suc l) d = Some (proc_groups f fl blk (drop l sa), dups)"
  using assms
proof (induction "length sa - l" arbitrary: l blk d rule: less_induct)
  case less
  define G where "G = takeWhile (\<lambda>q. f q = f (sa ! l)) (drop (Suc l) sa)"
  define m where "m = Suc (l + length G)"
  let ?blk = "group_update fl blk (sa ! l) G"
  have dl: "drop l sa = sa ! l # drop (Suc l) sa" using less.prems(1) by (simp add: Cons_nth_drop_Suc)
  have gd: "drop (Suc l) sa = G @ drop m sa"
  proof -
    have "drop (length G) (drop (Suc l) sa) = dropWhile (\<lambda>q. f q = f (sa ! l)) (drop (Suc l) sa)"
      unfolding G_def by (rule dropWhile_eq_drop [symmetric])
    then have "drop m sa = dropWhile (\<lambda>q. f q = f (sa ! l)) (drop (Suc l) sa)"
      by (simp add: m_def add.commute)
    then show ?thesis unfolding G_def by simp
  qed
  then have dm: "dropWhile (\<lambda>q. f q = f (sa ! l)) (drop (Suc l) sa) = drop m sa"
    unfolding G_def by (metis same_append_eq takeWhile_dropWhile_id)
  have pg: "proc_groups f fl blk (drop l sa) = proc_groups f fl ?blk (drop m sa)"
    by (simp add: dl dm flip: G_def)
  have dist: "distinct (sa ! l # G @ drop m sa)" using less.prems(2) gd dl by (metis distinct_drop)
  have sub: "set (sa ! l # G @ drop m sa) \<subseteq> {..<length blk}"
    using less.prems(3) gd dl by (metis set_drop_subset subset_trans)
  have un: "?blk ! q = blk ! q" if "q \<in> set (drop m sa)" for q
    using dist sub that by (subst group_update_nth) auto
  show ?case
  proof (cases "m < length sa")
    case True
    have "\<exists>dups. process_dups fl sa (length sa) ?blk m (Suc m) (d \<or> G \<noteq> []) =
        Some (proc_groups f fl ?blk (drop m sa), dups)"
    proof (rule less.hyps)
      fix q r assume qr: "q \<in> set (drop m sa)" "r \<in> set (drop m sa)"
      then have "same_key ?blk q r = same_key blk q r" by (simp add: same_key_def un)
      then show "same_key ?blk q r \<longleftrightarrow> f q = f r" using less.prems(4) qr by (simp add: dl gd)
    next
      assume f: "fl = APR_OVERLAP_TABLES_MERGE"
      show "\<forall>q \<in> set (drop m sa). val_at ?blk q \<noteq> None"
        using less.prems(5) [OF f] by (simp add: dl gd val_at_def un)
    qed (use True less.prems(2,3) in \<open>auto simp: m_def\<close>)
    then show ?thesis
      using process_group [OF less.prems(1-3), of f fl d, folded G_def m_def] True less.prems(4,5) pg by simp
  next
    case False
    then show ?thesis
      using process_group [OF less.prems(1-3), of f fl d, folded G_def m_def] less.prems(4,5) pg by simp
  qed
qed

text \<open>What the loop makes of the entry at position \<open>i\<close>, given the positions of the keys.\<close>

definition group_result ::
    "(nat \<Rightarrow> 'k) \<Rightarrow> nat \<Rightarrow> apr_table_entry_t block \<Rightarrow> nat list \<Rightarrow> nat \<Rightarrow> apr_table_entry_t slot" where
  "group_result f fl blk sa i =
     (let C = filter (\<lambda>q. f q = f i) sa
      in if i \<notin> set sa then blk ! i
         else if hd C = i
         then (if tl C = [] then blk ! i else Val ((rd (blk ! i))\<lparr>val := combine fl (map (val_at blk) C)\<rparr>))
         else Val ((rd (blk ! i))\<lparr>key := None\<rparr>))"

lemma sorted_takeWhile_filter:
  fixes f :: "'p \<Rightarrow> 'k :: linorder"
  assumes "sorted (map f (p # ps))"
  shows "takeWhile (\<lambda>q. f q = f p) ps = filter (\<lambda>q. f q = f p) ps"
    "dropWhile (\<lambda>q. f q = f p) ps = filter (\<lambda>q. f q \<noteq> f p) ps"
proof -
  have "takeWhile (\<lambda>q. f q = f p) ps = filter (\<lambda>q. f q = f p) ps \<and>
    dropWhile (\<lambda>q. f q = f p) ps = filter (\<lambda>q. f q \<noteq> f p) ps"
    using assms
  proof (induction ps)
    case (Cons q ps)
    show ?case
    proof (cases "f q = f p")
      case False
      then have "\<forall>r \<in> set (q # ps). f r \<noteq> f p" using Cons.prems by fastforce
      with False show ?thesis by simp
    qed (use Cons in simp)
  qed simp
  then show "takeWhile (\<lambda>q. f q = f p) ps = filter (\<lambda>q. f q = f p) ps"
    "dropWhile (\<lambda>q. f q = f p) ps = filter (\<lambda>q. f q \<noteq> f p) ps" by simp_all
qed

lemma proc_groups_nth:
  fixes f :: "nat \<Rightarrow> 'k :: linorder"
  assumes "distinct sa" "set sa \<subseteq> {..<length blk}" "sorted (map f sa)"
  shows "proc_groups f fl blk sa ! i = group_result f fl blk sa i \<and>
    length (proc_groups f fl blk sa) = length blk"
  using assms
proof (induction f fl blk sa rule: proc_groups.induct)
  case (1 f fl blk)
  then show ?case by (simp add: group_result_def)
next
  case (2 f fl blk p ps)
  define G where "G = filter (\<lambda>q. f q = f p) ps"
  define R where "R = filter (\<lambda>q. f q \<noteq> f p) ps"
  note tw = sorted_takeWhile_filter [OF "2.prems"(3), folded G_def R_def]
  let ?b = "group_update fl blk p G"
  have IH: "proc_groups f fl ?b R ! i = group_result f fl ?b R i \<and> length (proc_groups f fl ?b R) = length blk"
    using "2.IH" "2.prems" by (auto simp: tw R_def sorted_filter)
  have g: "distinct (p # G)" "set (p # G) \<subseteq> {..<length blk}"
    using "2.prems" by (auto simp: G_def)
  note gn = group_update_nth [OF g, of fl]
  have pg: "proc_groups f fl blk (p # ps) = proc_groups f fl ?b R" by (simp add: tw)
  show ?case
  proof (cases "i \<in> set R")
    case True
    then have ne: "f i \<noteq> f p" by (simp add: R_def)
    then have C: "filter (\<lambda>q. f q = f i) (p # ps) = filter (\<lambda>q. f q = f i) R"
      by (auto simp: R_def intro!: filter_cong)
    have un: "?b ! q = blk ! q" if "f q \<noteq> f p" for q
    proof -
      have "q \<notin> set G" "q \<noteq> p" using that by (auto simp: G_def)
      then show ?thesis by (simp add: gn)
    qed
    then have mv: "map (val_at ?b) (filter (\<lambda>q. f q = f i) R) = map (val_at blk) (filter (\<lambda>q. f q = f i) R)"
      by (auto simp: val_at_def R_def)
    have "i \<in> set (p # ps)" using True by (simp add: R_def)
    with True have "group_result f fl ?b R i = group_result f fl blk (p # ps) i"
      unfolding group_result_def C Let_def mv un [OF ne] by simp
    with IH pg show ?thesis by simp
  next
    case False
    then have r: "group_result f fl ?b R i = ?b ! i" by (simp add: group_result_def)
    have "?b ! i = group_result f fl blk (p # ps) i"
    proof (cases "i = p \<or> i \<in> set G")
      case True
      then have C: "filter (\<lambda>q. f q = f i) (p # ps) = p # G" by (auto simp: G_def)
      have "i \<in> set (p # ps)" using True by (auto simp: G_def)
      with True g(1) show ?thesis
        unfolding group_result_def C Let_def gn by auto
    next
      case False
      with \<open>i \<notin> set R\<close> have "i \<notin> set (p # ps)" by (auto simp: G_def R_def)
      with False show ?thesis by (simp add: group_result_def gn)
    qed
    with IH pg r show ?thesis by simp
  qed
qed

lemma fill_holes_spec:
  assumes "src < n" "dst \<le> src" "n \<le> length blk" "fill_holes blk src dst n = (blk', dst')"
  shows "length blk' = length blk \<and> dst' \<le> n \<and>
    take dst' blk' = take dst blk @ filter (\<lambda>s. key (rd s) \<noteq> None) (take (n - src) (drop src blk))"
  using assms
proof (induction blk src dst n rule: fill_holes.induct)
  case (1 blk src dst n)
  define b where "b = (if key (rd (blk ! src)) \<noteq> None then blk[dst := blk ! src] else blk)"
  define d where "d = (if key (rd (blk ! src)) \<noteq> None then dst + 1 else dst)"
  have bd: "length b = length blk" "drop (Suc src) b = drop (Suc src) blk" "d \<le> Suc src"
    "take d b = take dst blk @ filter (\<lambda>s. key (rd s) \<noteq> None) [blk ! src]"
    using "1.prems" by (auto simp: b_def d_def take_Suc_conv_app_nth)
  have pr: "(b, d) = (if key (rd (blk ! src)) \<noteq> None then (blk[dst := blk ! src], dst + 1) else (blk, dst))"
    by (simp add: b_def d_def)
  have sl: "take (n - src) (drop src blk) = blk ! src # take (n - Suc src) (drop (Suc src) blk)"
    using "1.prems" by (intro slice_Cons) auto
  show ?case
  proof (cases "src + 1 < n")
    case True
    then have r: "fill_holes b (src + 1) d n = (blk', dst')"
      using "1.prems"(4) by (auto simp: fill_holes.simps [of blk src] b_def d_def)
    have "length blk' = length b \<and> dst' \<le> n \<and> take dst' blk' =
        take d b @ filter (\<lambda>s. key (rd s) \<noteq> None) (take (n - (src + 1)) (drop (src + 1) b))"
      using "1.prems" bd True by (intro "1.IH" [OF pr refl True _ _ _ r]) auto
    then show ?thesis using bd sl by auto
  next
    case False
    then have "n = Suc src" "blk' = b" "dst' = d"
      using "1.prems" by (auto simp: fill_holes.simps [of blk src] b_def d_def)
    then show ?thesis using bd sl by simp
  qed
qed

section \<open>The compressed table\<close>

text \<open>
  One entry per key, in the order of the first occurrences, with the combination of the values of all
  the entries that have the key.
\<close>

definition ekey :: "apr_table_entry_t \<Rightarrow> cstring" where
  "ekey e = the (key e)"

definition is_first :: "apr_table_entry_t list \<Rightarrow> nat \<Rightarrow> bool" where
  "is_first es i \<longleftrightarrow> (\<forall>j < i. \<not> has_key (ekey (es ! i)) (es ! j))"

definition combined :: "nat \<Rightarrow> apr_table_entry_t list \<Rightarrow> nat \<Rightarrow> apr_table_entry_t" where
  "combined fl es i = (es ! i)\<lparr>val := combine fl (map val (filter (has_key (ekey (es ! i))) es))\<rparr>"

definition tbl_compress :: "nat \<Rightarrow> apr_table_entry_t list \<Rightarrow> apr_table_entry_t list" where
  "tbl_compress fl es = map (combined fl es) (filter (is_first es) [0..<length es])"

lemma hd_filter_upt:
  assumes "i < n" "P i"
  shows "hd (filter P [0..<n]) = i \<longleftrightarrow> (\<forall>j < i. \<not> P j)"
proof -
  have s: "[0..<n] = [0..<i] @ i # [Suc i..<n]"
    using assms(1) by (metis less_imp_le_nat upt_add_eq_append upt_rec zero_le le_add_diff_inverse)
  show ?thesis
  proof (cases "\<forall>j < i. \<not> P j")
    case True
    then have "filter P [0..<i] = []" by (simp add: filter_empty_conv)
    with True assms show ?thesis by (simp add: s)
  next
    case False
    then have ne: "filter P [0..<i] \<noteq> []" by (auto simp: filter_empty_conv)
    then have "hd (filter P [0..<i]) \<in> set (filter P [0..<i])" by (rule hd_in_set)
    with False ne show ?thesis by (auto simp: s)
  qed
qed

lemma filter_index: "map (\<lambda>j. g (xs ! j)) (filter (\<lambda>j. P (xs ! j)) [0..<length xs]) = map g (filter P xs)"
proof -
  have "filter P (map ((!) xs) [0..<length xs]) = map ((!) xs) (filter (\<lambda>j. P (xs ! j)) [0..<length xs])"
    by (simp add: filter_map comp_def)
  then show ?thesis by (simp add: map_nth comp_def)
qed

lemma combine_single [simp]: "combine fl [v] = v"
  by (simp add: combine_def)

lemma tbl_compress_small:
  assumes "length es \<le> 1"
  shows "tbl_compress fl es = es"
  using assms
  by (cases es) (auto simp: tbl_compress_def is_first_def combined_def has_key_def ekey_def)

text \<open>The blocks after the duplicates have been processed, seen through the entries.\<close>

lemma filter_group_results:
  fixes f :: "nat \<Rightarrow> cstring" and blk :: "apr_table_entry_t block"
  assumes b: "\<And>i. i < length es \<Longrightarrow> blk ! i = Val (es ! i)"
    and ok: "\<forall>e \<in> set es. entry_ok e"
    and f: "\<And>i. i < length es \<Longrightarrow> f i = fold_case (ekey (es ! i))"
    and sa: "sa = sort_key f [0..<length es]"
  shows "filter (\<lambda>s. key (rd s) \<noteq> None) (map (group_result f fl blk sa) [0..<length es]) =
    map Val (tbl_compress fl es)"
proof -
  let ?n = "length es"
  define C where "C i = filter (\<lambda>q. f q = f i) [0..<?n]" for i
  have C: "filter (\<lambda>q. f q = f i) sa = C i" for i
    unfolding sa C_def by (rule sort_key_stable)
  have Ci: "C i = filter (\<lambda>j. has_key (ekey (es ! i)) (es ! j)) [0..<?n]" if "i < ?n" for i
    unfolding C_def using that f by (auto simp: has_key_def ekey_def intro!: filter_cong)
  have first: "hd (C i) = i \<longleftrightarrow> is_first es i" if "i < ?n" for i
    using that hd_filter_upt [of i ?n "\<lambda>j. has_key (ekey (es ! i)) (es ! j)"]
    by (simp add: Ci is_first_def has_key_def ekey_def)
  have vals: "map (val_at blk) (C i) = map val (filter (has_key (ekey (es ! i))) es)" if "i < ?n" for i
  proof -
    have "map (val_at blk) (C i) = map (\<lambda>j. val (es ! j)) (C i)"
      by (auto simp: C_def val_at_def b)
    then show ?thesis using filter_index [of val es "has_key (ekey (es ! i))"] Ci [OF that] by simp
  qed
  have res: "group_result f fl blk sa i =
      (if is_first es i then Val (combined fl es i) else Val ((es ! i)\<lparr>key := None\<rparr>))" if i: "i < ?n" for i
  proof -
    have m: "i \<in> set sa" using i by (simp add: sa)
    have "i \<in> set (C i)" using i by (simp add: C_def)
    then have "combine fl (map (val_at blk) (C i)) = val (es ! i)" if "hd (C i) = i" "tl (C i) = []"
      using that i by (cases "C i") (auto simp: val_at_def b)
    then have "Val (combined fl es i) = blk ! i" if "hd (C i) = i" "tl (C i) = []"
      using that i vals [OF i] by (simp add: combined_def b)
    then show ?thesis
      using m i vals [OF i] first [OF i] by (simp add: group_result_def C b combined_def Let_def)
  qed
  have k: "key (es ! i) \<noteq> None" if "i < ?n" for i using ok that nth_mem by (fastforce simp: entry_ok_def)
  have "filter (\<lambda>s. key (rd s) \<noteq> None) (map (group_result f fl blk sa) xs) =
      map Val (map (combined fl es) (filter (is_first es) xs))" if "set xs \<subseteq> {..<?n}" for xs
    using that by (induction xs) (auto simp: res combined_def k)
  then show ?thesis by (simp add: tbl_compress_def subset_eq)
qed


lemma entry_ok_cstr: "entry_ok e \<Longrightarrow> cstr (the (key e))"
  by (auto simp: entry_ok_def)

text \<open>No NULL value is merged.\<close>

definition mergeable :: "nat \<Rightarrow> apr_table_entry_t list \<Rightarrow> bool" where
  "mergeable fl es \<longleftrightarrow> (fl = APR_OVERLAP_TABLES_MERGE \<longrightarrow> (\<forall>e \<in> set es. val e \<noteq> None))"

lemma process_dups_result:
  assumes inv: "table_inv st t" and mem: "length mem = nelts (arr t)" and n: "0 < nelts (arr t)"
    and vals: "mergeable fl (entries st t)"
  shows "\<exists>blk1 dups. process_dups fl (table_mergesort (st ! elts (arr t)) mem [0..<nelts (arr t)] (nelts (arr t)))
      (nelts (arr t)) (st ! elts (arr t)) 0 1 False = Some (blk1, dups) \<and>
    length blk1 = length (st ! elts (arr t)) \<and>
    filter (\<lambda>s. key (rd s) \<noteq> None) (take (nelts (arr t)) blk1) = map Val (tbl_compress fl (entries st t))"
proof -
  let ?blk = "st ! elts (arr t)" and ?n = "nelts (arr t)" and ?es = "entries st t"
  let ?f = "\<lambda>i. fold_case (the (key (rd (?blk ! i))))"
  define sa where "sa = sort_key ?f [0..<?n]"
  have len: "?n = length ?es" "?n \<le> length ?blk"
    using inv length_entries [OF inv] by (auto simp: table_inv_def arr_wf_def)
  have b: "?blk ! i = Val (?es ! i)" "entry_ok (?es ! i)" if "i < ?n" for i
    using that table_inv_block [OF inv, of i] inv len by (auto simp: table_inv_def)
  have srt: "table_mergesort ?blk mem [0..<?n] ?n = sa"
    unfolding sa_def using mem b by (intro table_mergesort_spec) (auto intro: entry_ok_cstr)
  have sa: "length sa = ?n" "distinct sa" "set sa = {..<?n}" "sorted (map ?f sa)"
    by (auto simp: sa_def)
  have same: "same_key ?blk q r \<longleftrightarrow> ?f q = ?f r" if "q < ?n" "r < ?n" for q r
    using b [OF that(1)] b [OF that(2)]
    by (auto simp: same_key_def entry_ok_def strcasecmp_eq_0_iff intro: COMPUTE_KEY_CHECKSUM_cong)
  have nn: "\<forall>q \<in> set (drop 0 sa). val_at ?blk q \<noteq> None" if "fl = APR_OVERLAP_TABLES_MERGE"
    using vals b(1) that len(1) by (auto simp: sa(3) mergeable_def val_at_def)
  define blk1 where blk1: "blk1 = proc_groups ?f fl ?blk sa"
  have "\<exists>dups. process_dups fl sa (length sa) ?blk 0 (Suc 0) False = Some (proc_groups ?f fl ?blk (drop 0 sa), dups)"
    by (rule process_dups_groups) (use n len(2) sa same nn in auto)
  then have pd: "\<exists>dups. process_dups fl (table_mergesort ?blk mem [0..<?n] ?n) ?n ?blk 0 1 False = Some (blk1, dups)"
    by (simp add: srt sa(1) blk1)
  note pn = proc_groups_nth [OF sa(2) _ sa(4), of ?blk fl, folded blk1]
  have sub: "set sa \<subseteq> {..<length ?blk}" using sa len by auto
  have "take ?n blk1 = map (group_result ?f fl ?blk sa) [0..<?n]"
  proof (rule nth_equalityI)
    show "length (take ?n blk1) = length (map (group_result ?f fl ?blk sa) [0..<?n])"
      using pn [OF sub, THEN conjunct2] len(2) by simp
    show "take ?n blk1 ! i = map (group_result ?f fl ?blk sa) [0..<?n] ! i" if "i < length (take ?n blk1)" for i
      using that pn [OF sub, THEN conjunct1, of i] by simp
  qed
  then have "filter (\<lambda>s. key (rd s) \<noteq> None) (take ?n blk1) = map Val (tbl_compress fl ?es)"
    using filter_group_results [of ?es ?blk ?f sa fl] b inv len
    by (simp add: sa_def ekey_def table_inv_def)
  then show ?thesis using pd pn [OF sub] by blast
qed

lemma apr_table_compress_step:
  assumes inv: "table_inv st t" and mem: "length mem = nelts (arr t)"
    and fl: "flags \<noteq> APR_OVERLAP_TABLES_ADD" and vals: "mergeable flags (entries st t)"
  shows "\<exists>r. apr_table_compress mem st t flags = Some r \<and> table_step st t r (tbl_compress flags (entries st t))"
proof (cases "nelts (arr t) \<le> 1")
  case True
  then show ?thesis
    using table_step_refl [OF inv] length_entries [OF inv] fl tbl_compress_small [of "entries st t" flags]
    by (simp add: apr_table_compress_def)
next
  case False
  let ?blk = "st ! elts (arr t)" and ?n = "nelts (arr t)" and ?es = "entries st t"
  have n0: "0 < ?n" using False by simp
  obtain blk1 dups where r: "process_dups flags (table_mergesort ?blk mem [0..<?n] ?n) ?n ?blk 0 1 False =
      Some (blk1, dups)" and p: "length blk1 = length ?blk"
      "filter (\<lambda>s. key (rd s) \<noteq> None) (take ?n blk1) = map Val (tbl_compress flags ?es)"
    using process_dups_result [OF inv mem n0 vals] by blast
  have len: "?n = length ?es" "?n \<le> length ?blk" "take ?n ?blk = map Val ?es"
    using inv length_entries [OF inv] by (auto simp: table_inv_def arr_wf_def arr_view_def)
  obtain blk2 n' where b2: "(blk2, n') =
      (if dups then (let (b, dst) = fill_holes blk1 0 0 ?n in (b, ?n - (?n - dst))) else (blk1, ?n))"
    by (metis surj_pair)
  have t2: "length blk2 = length ?blk" "take n' blk2 = map Val (tbl_compress flags ?es)" "n' \<le> ?n"
  proof (atomize (full), cases dups)
    case True
    obtain b dst where fh: "fill_holes blk1 0 0 ?n = (b, dst)" by fastforce
    show "length blk2 = length ?blk \<and> take n' blk2 = map Val (tbl_compress flags ?es) \<and> n' \<le> ?n"
      using fill_holes_spec [OF n0 _ _ fh] p b2 True fh len by simp
  next
    case nd: False
    then have "blk1 = ?blk" using process_dups_False r by metis
    moreover have "filter (\<lambda>s. key (rd s) \<noteq> None) (map Val ?es) = map Val ?es"
      using inv by (intro filter_True) (auto simp: table_inv_def entry_ok_def)
    ultimately show "length blk2 = length ?blk \<and> take n' blk2 = map Val (tbl_compress flags ?es) \<and> n' \<le> ?n"
      using p b2 nd False len by simp
  qed
  have n': "n' = length (tbl_compress flags ?es)"
    using arg_cong [OF t2(2), of length] t2(1,3) len by simp
  define st' t' where "st' = st[elts (arr t) := blk2]" "t' = t\<lparr>arr := (arr t)\<lparr>nelts := n'\<rparr>\<rparr>"
  note s't' = this
  have eq: "apr_table_compress mem st t flags = Some (st', if True then table_reindex st' t' else t')"
    using False fl r by (simp add: apr_table_compress_def Let_def s't' flip: b2)
  have ok: "\<forall>e \<in> set (tbl_compress flags ?es). entry_ok e"
    using inv by (auto simp: tbl_compress_def combined_def table_inv_def)
  have "table_step st t (st', if True then table_reindex st' t' else t') (tbl_compress flags ?es)"
    unfolding s't' by (rule rewrite_block_step [OF inv t2(1) n' t2(3,2) ok]) simp
  then show ?thesis unfolding eq by blast
qed

section \<open>Concatenation and overlap\<close>

lemma cat_index_fold:
  fixes n :: nat and s t :: apr_table_t
  assumes "distinct hs"
  defines "t' \<equiv> foldl (cat_index n s) t hs"
  shows "arr t' = arr t \<and> index_initialized t' = index_initialized t \<and>
    index_last t' = (\<lambda>h. if h \<in> set hs \<and> TABLE_INDEX_IS_INITIALIZED s h then index_last s h + n
                         else index_last t h) \<and>
    index_first t' = (\<lambda>h. if h \<in> set hs \<and> TABLE_INDEX_IS_INITIALIZED s h \<and> \<not> TABLE_INDEX_IS_INITIALIZED t h
                          then index_first s h + n else index_first t h)"
  using assms(1) unfolding t'_def
proof (induction hs rule: rev_induct)
  case (snoc h hs)
  then show ?case
    by (auto simp: cat_index_def TABLE_INDEX_IS_INITIALIZED_def Let_def fun_eq_iff)
qed (simp add: fun_eq_iff)

lemma initialized_or:
  "TABLE_INDEX_IS_INITIALIZED (t\<lparr>index_initialized := a OR b\<rparr>) h \<longleftrightarrow>
     TABLE_INDEX_IS_INITIALIZED (t\<lparr>index_initialized := a\<rparr>) h \<or>
     TABLE_INDEX_IS_INITIALIZED (t\<lparr>index_initialized := b\<rparr>) h"
  by (simp add: initialized_iff_bit bit_or_iff)

text \<open>The index of a concatenation, from the two indexes.\<close>

lemma index_ok_append:
  assumes xs: "index_ok t xs" and ys: "index_ok s ys"
    and i: "\<And>h. TABLE_INDEX_IS_INITIALIZED r h \<longleftrightarrow>
      TABLE_INDEX_IS_INITIALIZED t h \<or> TABLE_INDEX_IS_INITIALIZED s h"
    and l: "\<And>h. h < TABLE_HASH_SIZE \<Longrightarrow> index_last r h =
      (if TABLE_INDEX_IS_INITIALIZED s h then index_last s h + length xs else index_last t h)"
    and f: "\<And>h. h < TABLE_HASH_SIZE \<Longrightarrow> index_first r h =
      (if TABLE_INDEX_IS_INITIALIZED s h \<and> \<not> TABLE_INDEX_IS_INITIALIZED t h
       then index_first s h + length xs else index_first t h)"
  shows "index_ok r (xs @ ys)"
  unfolding index_ok_def
proof (intro allI impI)
  fix h assume h: "h < TABLE_HASH_SIZE"
  show "if TABLE_INDEX_IS_INITIALIZED r h
        then index_first r h < length (xs @ ys) \<and> ehash ((xs @ ys) ! index_first r h) = h \<and>
             (\<forall>i < index_first r h. ehash ((xs @ ys) ! i) \<noteq> h) \<and>
             index_last r h < length (xs @ ys) \<and> ehash ((xs @ ys) ! index_last r h) = h \<and>
             (\<forall>i. index_last r h < i \<longrightarrow> i < length (xs @ ys) \<longrightarrow> ehash ((xs @ ys) ! i) \<noteq> h)
        else \<forall>e \<in> set (xs @ ys). ehash e \<noteq> h"
    using xs [unfolded index_ok_def, rule_format, OF h] ys [unfolded index_ok_def, rule_format, OF h]
    unfolding i l [OF h] f [OF h]
    by (cases "TABLE_INDEX_IS_INITIALIZED t h"; cases "TABLE_INDEX_IS_INITIALIZED s h")
      (auto simp: nth_append)
qed

lemma apr_table_cat_step:
  assumes t: "table_inv st t" and s: "table_inv st s"
  shows "table_step st t (apr_table_cat st t s) (entries st t @ entries st s)"
proof -
  let ?n = "nelts (arr t)" and ?xs = "entries st t" and ?ys = "entries st s"
  obtain st' a where c: "apr_array_cat st (arr t) (arr s) = (st', a)" by fastforce
  have w: "arr_wf st (arr t)" "arr_wf st (arr s)" "?n = length ?xs" "index_ok t ?xs" "index_ok s ?ys"
    using t s length_entries [OF t] by (simp_all add: table_inv_def)
  have a: "arr_wf st' a" "arr_view st' a = map Val (?xs @ ?ys)" "length st \<le> length st'"
    "elts a = elts (arr t) \<or> length st \<le> elts a"
    "\<forall>b < length st. b \<noteq> elts (arr t) \<longrightarrow> st' ! b = st ! b"
    using apr_array_cat_wf [OF w(1,2) c] apr_array_cat_view [OF w(1,2) c]
      apr_array_cat_frame [OF w(1,2) c] t s by (auto simp: table_inv_def)
  have f: "fst (apr_table_cat st t s) = st'" "arr (snd (apr_table_cat st t s)) = a"
    using cat_index_fold [of "[0..<TABLE_HASH_SIZE]" ?n s "t\<lparr>arr := a\<rparr>"]
    by (auto simp: apr_table_cat_def c Let_def)
  have ix: "index_ok (snd (apr_table_cat st t s)) (?xs @ ?ys)"
  proof (cases "?n = 0")
    case True
    then have "?xs = []" using w(3) by simp
    with True w(5) show ?thesis
      by (simp add: apr_table_cat_def c index_ok_def TABLE_INDEX_IS_INITIALIZED_def)
  next
    case False
    define t2 where "t2 = foldl (cat_index ?n s) (t\<lparr>arr := a\<rparr>) [0..<TABLE_HASH_SIZE]"
    note fold = cat_index_fold [of "[0..<TABLE_HASH_SIZE]" ?n s "t\<lparr>arr := a\<rparr>", folded t2_def]
    have r: "snd (apr_table_cat st t s) =
        t2\<lparr>index_initialized := index_initialized t OR index_initialized s\<rparr>"
      using False fold by (simp add: apr_table_cat_def c t2_def Let_def)
    show ?thesis
      unfolding r using fold w(3)
      by (intro index_ok_append [OF w(4,5)]) (auto simp: initialized_iff_bit bit_or_iff)
  qed
  have "\<forall>e \<in> set (?xs @ ?ys). entry_ok e" using t s by (auto simp: table_inv_def)
  then show ?thesis
    using table_invI [of st' "snd (apr_table_cat st t s)" "?xs @ ?ys"] a ix f by (simp add: table_step_def)
qed

lemma table_step_trans:
  assumes "table_step st t (st', t') es" "table_step st' t' r es'"
  shows "table_step st t r es'"
  using assms by (auto simp: table_step_def)

lemma apr_table_overlap_step:
  assumes a: "table_inv st a" and b: "table_inv st b"
    and mem: "length mem = nelts (arr a) + nelts (arr b)"
    and vals: "mergeable flags (entries st a @ entries st b)"
  shows "\<exists>r. apr_table_overlap mem st a b flags = Some r \<and> table_step st a r
    (if flags = APR_OVERLAP_TABLES_ADD then entries st a @ entries st b
     else tbl_compress flags (entries st a @ entries st b))"
proof (cases "nelts (arr a) + nelts (arr b) = 0")
  case True
  then have "entries st a = []" "entries st b = []"
    using length_entries [OF a] length_entries [OF b] by simp_all
  then show ?thesis
    using table_step_refl [OF a] True tbl_compress_small [of "[]"]
    by (simp add: apr_table_overlap_def)
next
  case False
  obtain st' a' where c: "apr_table_cat st a b = (st', a')" by fastforce
  have s: "table_step st a (st', a') (entries st a @ entries st b)"
    using apr_table_cat_step [OF a b] c by simp
  then have i: "table_inv st' a'" "entries st' a' = entries st a @ entries st b"
    by (simp_all add: table_step_def)
  have "length mem = nelts (arr a')"
    using mem length_entries [OF i(1)] i(2) length_entries [OF a] length_entries [OF b] by simp
  note comp = apr_table_compress_step [OF i(1) this, of flags, unfolded i(2), OF _ vals]
  have eq: "apr_table_overlap mem st a b flags = apr_table_compress mem st' a' flags"
    using False c by (auto simp: apr_table_overlap_def)
  show ?thesis
    unfolding eq using s i comp table_step_trans [OF s]
    by (cases "flags = APR_OVERLAP_TABLES_ADD") (auto simp: apr_table_compress_def)
qed


subsection \<open>The documented loop\<close>

text \<open>No two entries have the same key.\<close>

definition unique_keys :: "apr_table_entry_t list \<Rightarrow> bool" where
  "unique_keys es \<longleftrightarrow> distinct (map (\<lambda>e. fold_case (ekey e)) es)"

definition upd_key ::
    "cstring \<Rightarrow> (cstring option \<Rightarrow> cstring option) \<Rightarrow> apr_table_entry_t list \<Rightarrow> apr_table_entry_t list" where
  "upd_key k g es = map (\<lambda>x. if has_key k x then x\<lparr>val := g (val x)\<rparr> else x) es"

lemma upd_key_Cons [simp]:
  "upd_key k g (x # xs) = (if has_key k x then x\<lparr>val := g (val x)\<rparr> else x) # upd_key k g xs"
  by (simp add: upd_key_def)

lemma upd_key_absent: "\<forall>x \<in> set es. \<not> has_key k x \<Longrightarrow> upd_key k g es = es"
  by (simp add: upd_key_def map_idI)

lemma unique_keys_Cons:
  assumes "unique_keys (e # es)" "has_key k e"
  shows "\<forall>x \<in> set es. \<not> has_key k x"
proof
  fix x assume "x \<in> set es"
  then have "fold_case (ekey x) \<in> set (map (\<lambda>e. fold_case (ekey e)) es)" by simp
  with assms show "\<not> has_key k x" by (auto simp: unique_keys_def has_key_def ekey_def)
qed

lemma tbl_set_unique:
  "unique_keys es \<Longrightarrow> \<exists>x \<in> set es. has_key k x \<Longrightarrow> tbl_set k v es = upd_key k (\<lambda>_. v) es"
proof (induction es)
  case (Cons e es)
  show ?case
  proof (cases "has_key k e")
    case True
    then have "\<forall>x \<in> set es. \<not> has_key k x" by (rule unique_keys_Cons [OF Cons.prems(1)])
    with True show ?thesis by (simp add: upd_key_absent)
  qed (use Cons in \<open>auto simp: unique_keys_def\<close>)
qed simp

lemma tbl_merge_unique:
  "unique_keys es \<Longrightarrow> \<exists>x \<in> set es. has_key k x \<Longrightarrow>
     tbl_merge k v es = upd_key k (\<lambda>w. Some (apr_pstrcat [w, Some [44, 32], v])) es"
proof (induction es)
  case (Cons e es)
  show ?case
  proof (cases "has_key k e")
    case True
    then have "\<forall>x \<in> set es. \<not> has_key k x" by (rule unique_keys_Cons [OF Cons.prems(1)])
    with True show ?thesis by (simp add: upd_key_absent)
  qed (use Cons in \<open>auto simp: unique_keys_def\<close>)
qed simp

lemma is_first_append: "i < length xs \<Longrightarrow> is_first (xs @ ys) i = is_first xs i"
  by (simp add: is_first_def nth_append)

lemma has_key_ekey [simp]: "has_key (ekey e) e"
  by (simp add: has_key_def ekey_def)

lemma tbl_compress_unique_keys: "unique_keys (tbl_compress fl es)"
proof -
  have "i = j" if "is_first es i" "is_first es j" "fold_case (ekey (es ! i)) = fold_case (ekey (es ! j))" for i j
    using that by (metis has_key_def ekey_def is_first_def nat_neq_iff)
  then have "inj_on (\<lambda>i. fold_case (ekey (es ! i))) (set (filter (is_first es) [0..<length es]))"
    by (auto simp: inj_on_def)
  then show ?thesis
    by (simp add: unique_keys_def tbl_compress_def distinct_map comp_def combined_def ekey_def)
qed

lemma first_exists: "x \<in> set es \<Longrightarrow> has_key k x \<Longrightarrow> \<exists>i < length es. is_first es i \<and> has_key k (es ! i)"
proof -
  assume "x \<in> set es" "has_key k x"
  then have "\<exists>i. i < length es \<and> has_key k (es ! i)" by (metis in_set_conv_nth)
  from this [unfolded exists_least_iff [of "\<lambda>i. i < length es \<and> has_key k (es ! i)"]]
  obtain i where i: "i < length es" "has_key k (es ! i)"
    "\<And>j. j < i \<Longrightarrow> \<not> (j < length es \<and> has_key k (es ! j))" by blast
  then have "is_first es i" by (auto simp: is_first_def has_key_def ekey_def)
  with i show ?thesis by blast
qed

text \<open>One more entry at the end: a new one, or one more value for the entry with its key.\<close>

lemma tbl_compress_snoc:
  assumes g: "\<And>vs. vs \<noteq> [] \<Longrightarrow> (\<forall>v \<in> set vs. P v) \<Longrightarrow> combine fl (vs @ [val e]) = g (combine fl vs)"
    and P: "\<forall>x \<in> set es. P (val x)"
  shows "tbl_compress fl (es @ [e]) =
    (if \<exists>x \<in> set es. has_key (ekey e) x then upd_key (ekey e) g (tbl_compress fl es)
     else tbl_compress fl es @ [e])"
proof -
  let ?k = "ekey e"
  have c: "combined fl (es @ [e]) i =
      (if has_key ?k (es ! i) then (combined fl es i)\<lparr>val := g (val (combined fl es i))\<rparr> else combined fl es i)"
    if i: "i < length es" for i
  proof -
    have "has_key (ekey (es ! i)) e \<longleftrightarrow> has_key ?k (es ! i)" by (auto simp: has_key_def ekey_def)
    moreover have "map val (filter (has_key (ekey (es ! i))) es) \<noteq> []"
      using i by (auto simp: filter_empty_conv intro!: bexI [of _ "es ! i"])
    moreover have "\<forall>v \<in> set (map val (filter (has_key (ekey (es ! i))) es)). P v" using P by auto
    ultimately show ?thesis using i by (simp add: combined_def nth_append g)
  qed
  have hk: "has_key ?k (combined fl es i) = has_key ?k (es ! i)" for i by (simp add: combined_def)
  have "map (combined fl (es @ [e])) (filter (is_first (es @ [e])) [0..<length es]) =
      map (\<lambda>i. if has_key ?k (combined fl es i) then (combined fl es i)\<lparr>val := g (val (combined fl es i))\<rparr>
               else combined fl es i) (filter (is_first es) [0..<length es])"
    by (auto simp: c hk is_first_append intro!: map_cong filter_cong)
  then have pre: "map (combined fl (es @ [e])) (filter (is_first (es @ [e])) [0..<length es]) =
      upd_key ?k g (tbl_compress fl es)" by (simp add: upd_key_def tbl_compress_def comp_def)
  show ?thesis
  proof (cases "\<exists>x \<in> set es. has_key ?k x")
    case True
    then have "\<not> is_first (es @ [e]) (length es)" by (auto simp: is_first_def nth_append in_set_conv_nth)
    with True pre show ?thesis by (simp add: tbl_compress_def)
  next
    case False
    then have "is_first (es @ [e]) (length es)" by (auto simp: is_first_def nth_append)
    moreover have "combined fl (es @ [e]) (length es) = e"
      using False by (simp add: combined_def)
    moreover have "\<forall>x \<in> set (tbl_compress fl es). \<not> has_key ?k x"
      using False by (auto simp: tbl_compress_def hk)
    ultimately show ?thesis
      using False pre upd_key_absent [of "tbl_compress fl es" ?k g] by (simp add: tbl_compress_def)
  qed
qed


lemma combine_set_snoc:
  "vs \<noteq> [] \<Longrightarrow> combine APR_OVERLAP_TABLES_SET (vs @ [v]) = v"
  by (simp add: combine_def APR_OVERLAP_TABLES_SET_def APR_OVERLAP_TABLES_MERGE_def)

lemma join_vals_snoc: "vs \<noteq> [] \<Longrightarrow> join_vals (vs @ [v]) = join_vals vs @ [44, 32] @ the v"
  by (induction vs rule: join_vals.induct) simp_all

lemma combine_merge_snoc:
  assumes "vs \<noteq> []" "\<forall>w \<in> set vs. w \<noteq> None" "v \<noteq> None"
  shows "combine APR_OVERLAP_TABLES_MERGE (vs @ [v]) =
    Some (apr_pstrcat [combine APR_OVERLAP_TABLES_MERGE vs, Some [44, 32], v])"
proof (cases "length vs = 1")
  case True
  then obtain w where "vs = [w]" by (auto simp: length_Suc_conv)
  with assms show ?thesis by (auto simp: combine_def)
next
  case False
  with assms join_vals_snoc [OF assms(1), of v] show ?thesis by (auto simp: combine_def)
qed

definition doc_step :: "nat \<Rightarrow> apr_table_entry_t list \<Rightarrow> apr_table_entry_t \<Rightarrow> apr_table_entry_t list" where
  "doc_step fl es e =
     (if fl = APR_OVERLAP_TABLES_MERGE then tbl_merge (ekey e) (val e) es
      else if fl = APR_OVERLAP_TABLES_ADD then es @ [new_entry (ekey e) (val e)]
      else tbl_set (ekey e) (val e) es)"

lemma tbl_compress_has_key:
  "(\<exists>x \<in> set (tbl_compress fl es). has_key k x) \<longleftrightarrow> (\<exists>x \<in> set es. has_key k x)"
proof
  assume "\<exists>x \<in> set es. has_key k x"
  then obtain i where "i < length es" "is_first es i" "has_key k (es ! i)" using first_exists by blast
  then show "\<exists>x \<in> set (tbl_compress fl es). has_key k x"
    by (auto simp: tbl_compress_def combined_def intro!: bexI [of _ i])
qed (auto simp: tbl_compress_def combined_def)

lemma compress_doc_step:
  assumes e: "entry_ok e" and fl: "fl = APR_OVERLAP_TABLES_SET \<or> fl = APR_OVERLAP_TABLES_MERGE \<and>
      val e \<noteq> None \<and> (\<forall>x \<in> set es. val x \<noteq> None)"
  shows "tbl_compress fl (es @ [e]) = doc_step fl (tbl_compress fl es) e"
proof -
  note u = tbl_compress_unique_keys [of fl es] and hk = tbl_compress_has_key [of fl es "ekey e"]
  have n: "new_entry (ekey e) (val e) = e" using entry_ok_new_entry [OF e] by (simp add: ekey_def)
  have ab: "tbl_set (ekey e) (val e) (tbl_compress fl es) = tbl_compress fl es @ [e]"
    "tbl_merge (ekey e) (val e) (tbl_compress fl es) = tbl_compress fl es @ [e]"
    if "\<not> (\<exists>x \<in> set es. has_key (ekey e) x)"
    using that hk tbl_set_absent [of "tbl_compress fl es" "ekey e" "val e"]
      tbl_merge_absent [of "tbl_compress fl es" "ekey e" "val e"] n by auto
  from fl show ?thesis
  proof (elim disjE conjE)
    assume f: "fl = APR_OVERLAP_TABLES_SET"
    have "tbl_compress fl (es @ [e]) =
        (if \<exists>x \<in> set es. has_key (ekey e) x then upd_key (ekey e) (\<lambda>_. val e) (tbl_compress fl es)
         else tbl_compress fl es @ [e])"
      by (rule tbl_compress_snoc [where P = "\<lambda>_. True"]) (simp_all add: f combine_set_snoc)
    then show ?thesis
      using ab(1) tbl_set_unique [OF u, of "ekey e" "val e"] hk f
      by (auto simp: doc_step_def APR_OVERLAP_TABLES_SET_def APR_OVERLAP_TABLES_MERGE_def APR_OVERLAP_TABLES_ADD_def)
  next
    assume f: "fl = APR_OVERLAP_TABLES_MERGE" and v: "val e \<noteq> None" "\<forall>x \<in> set es. val x \<noteq> None"
    have "tbl_compress fl (es @ [e]) =
        (if \<exists>x \<in> set es. has_key (ekey e) x
         then upd_key (ekey e) (\<lambda>w. Some (apr_pstrcat [w, Some [44, 32], val e])) (tbl_compress fl es)
         else tbl_compress fl es @ [e])"
      by (rule tbl_compress_snoc [where P = "\<lambda>v. v \<noteq> None"]) (use v in \<open>auto simp: f combine_merge_snoc\<close>)
    then show ?thesis
      using ab(2) tbl_merge_unique [OF u, of "ekey e" "val e"] hk f
      by (auto simp: doc_step_def)
  qed
qed

lemma tbl_compress_id: "unique_keys es \<Longrightarrow> tbl_compress fl es = es"
proof (induction es rule: rev_induct)
  case Nil
  then show ?case by (simp add: tbl_compress_def)
next
  case (snoc e es)
  have ne: "\<not> has_key (ekey e) (es ! i)" "\<not> has_key (ekey (es ! i)) e" if "i < length es" for i
  proof -
    have "fold_case (ekey (es ! i)) \<in> set (map (\<lambda>e. fold_case (ekey e)) es)" using that by simp
    with snoc.prems show "\<not> has_key (ekey e) (es ! i)" "\<not> has_key (ekey (es ! i)) e"
      by (auto simp: unique_keys_def has_key_def ekey_def)
  qed
  have "combined fl (es @ [e]) i = combined fl es i" if "i < length es" for i
    using that ne by (simp add: combined_def nth_append)
  then have "map (combined fl (es @ [e])) (filter (is_first (es @ [e])) [0..<length es]) = tbl_compress fl es"
    unfolding tbl_compress_def by (auto simp: is_first_append intro!: map_cong filter_cong)
  moreover have "is_first (es @ [e]) (length es)" using ne by (auto simp: is_first_def nth_append)
  moreover have "filter (has_key (ekey e)) es = []"
    using ne by (auto simp: in_set_conv_nth filter_empty_conv)
  then have "combined fl (es @ [e]) (length es) = e" by (simp add: combined_def)
  ultimately show ?case
    using snoc by (simp add: tbl_compress_def unique_keys_def)
qed

lemma compress_doc_loop:
  assumes "unique_keys xs" "\<forall>e \<in> set ys. entry_ok e"
    and "fl = APR_OVERLAP_TABLES_SET \<or> fl = APR_OVERLAP_TABLES_MERGE \<and> (\<forall>x \<in> set (xs @ ys). val x \<noteq> None)"
  shows "tbl_compress fl (xs @ ys) = foldl (doc_step fl) xs ys"
  using assms(2,3)
proof (induction ys rule: rev_induct)
  case (snoc e ys)
  then show ?case using compress_doc_step [of e fl "xs @ ys"] by auto
qed (simp add: tbl_compress_id assms(1))

section \<open>What the iteration visits\<close>

fun visit :: "'r do_callback \<Rightarrow> apr_table_entry_t list \<Rightarrow> 'r \<times> int \<Rightarrow> 'r \<times> int" where
  "visit cb [] s = s"
| "visit cb (e # es) (rec, rv) = (if rv = 0 then (rec, rv) else visit cb es (cb rec (ekey e) (val e)))"

lemma visit_0 [simp]: "visit cb es (rec, 0) = (rec, 0)"
  by (cases es) simp_all

lemma vdo_scan_visit:
  "stop \<le> length blk \<Longrightarrow>
     vdo_scan sel cb blk i stop s = visit cb (map rd (filter sel (take (stop - i) (drop i blk)))) s"
proof (induction sel cb blk i stop s rule: vdo_scan.induct)
  case (1 sel cb blk i stop rec rv)
  show ?case
  proof (cases "rv \<noteq> 0 \<and> i < stop")
    case True
    then have "take (stop - i) (drop i blk) = blk ! i # take (stop - Suc i) (drop (Suc i) blk)"
      using "1.prems" by (intro slice_Cons) auto
    with True 1 show ?thesis
      by (cases "sel (blk ! i)") (simp_all add: vdo_scan.simps [of sel cb blk i] ekey_def)
  next
    case False
    then show ?thesis by (auto simp: vdo_scan.simps [of sel cb blk i])
  qed
qed

lemma vdo_key_visit:
  assumes inv: "table_inv st t" and k: "cstr k"
  shows "vdo_key st t cb rec k = visit cb (filter (has_key k) (entries st t)) (rec, 1)"
proof (cases "TABLE_INDEX_IS_INITIALIZED t (TABLE_HASH k)")
  case False
  then have "\<forall>e \<in> set (entries st t). \<not> has_key k e"
    using inv TABLE_HASH_less [of k] has_key_ehash unfolding table_inv_def index_ok_def by metis
  then have "filter (has_key k) (entries st t) = []" by (simp add: filter_empty_conv)
  with False show ?thesis by (simp add: vdo_key_def)
next
  case True
  let ?f = "index_first t (TABLE_HASH k)" and ?l = "index_last t (TABLE_HASH k)"
    and ?es = "entries st t" and ?blk = "st ! elts (arr t)" and ?c = "COMPUTE_KEY_CHECKSUM k"
  have ix: "?f < length ?es" "?l < length ?es" "\<forall>i < ?f. ehash (?es ! i) \<noteq> TABLE_HASH k"
    "\<forall>i. ?l < i \<longrightarrow> i < length ?es \<longrightarrow> ehash (?es ! i) \<noteq> TABLE_HASH k"
    "ehash (?es ! ?f) = TABLE_HASH k"
    using inv True TABLE_HASH_less [of k] by (auto simp: table_inv_def index_ok_def)
  then have le: "?f \<le> ?l" by (metis not_le)
  have b: "take (length ?es) ?blk = map Val ?es" "length ?es \<le> length ?blk"
    using inv length_entries [OF inv] by (auto simp: table_inv_def arr_view_def arr_wf_def)
  have out: "filter (has_key k) (take ?f ?es) = []" "filter (has_key k) (drop (Suc ?l) ?es) = []"
  proof -
    show "filter (has_key k) (take ?f ?es) = []"
      using ix(1,3) has_key_ehash by (fastforce simp: filter_empty_conv in_set_conv_nth)
    show "filter (has_key k) (drop (Suc ?l) ?es) = []"
      using ix(4) has_key_ehash by (fastforce simp: filter_empty_conv in_set_conv_nth)
  qed
  have "?es = take ?f ?es @ take (Suc ?l - ?f) (drop ?f ?es) @ drop (Suc ?l) ?es"
    using le by (metis append_take_drop_id drop_drop le_SucI le_add_diff_inverse2)
  then have "filter (has_key k) ?es = filter (has_key k) (take (Suc ?l - ?f) (drop ?f ?es))"
    using out by (metis append_Nil append_Nil2 filter_append)
  moreover have "take (Suc ?l - ?f) (drop ?f ?blk) = map Val (take (Suc ?l - ?f) (drop ?f ?es))"
  proof -
    have "take (Suc ?l - ?f) (drop ?f ?blk) = take (Suc ?l - ?f) (drop ?f (take (length ?es) ?blk))"
      using ix(2) by (simp add: drop_take min_def)
    then show ?thesis by (simp add: b(1) take_map drop_map)
  qed
  moreover have "\<forall>e \<in> set (take (Suc ?l - ?f) (drop ?f ?es)). entry_ok e"
    using inv by (auto simp: table_inv_def dest: in_set_takeD in_set_dropD)
  ultimately show ?thesis
    using True vdo_scan_visit [of "?l + 1" ?blk "slot_matches ?c k" cb ?f "(rec, 1)"] ix(2) b(2)
    by (simp add: vdo_key_def filter_slots(1) [OF _ k] Let_def)
qed

lemma vdo_all_visit:
  assumes "table_inv st t"
  shows "vdo_all st t cb rec = visit cb (entries st t) (rec, 1)"
proof -
  have b: "take (nelts (arr t)) (st ! elts (arr t)) = map Val (entries st t)"
    "nelts (arr t) \<le> length (st ! elts (arr t))"
    using assms by (auto simp: table_inv_def arr_view_def arr_wf_def)
  have "filter (\<lambda>s. key (rd s) \<noteq> None) (map Val (entries st t)) = map Val (entries st t)"
    using assms by (intro filter_True) (auto simp: table_inv_def entry_ok_def)
  then show ?thesis unfolding vdo_all_def vdo_scan_visit [OF b(2)] by (simp add: b(1))
qed

subsection \<open>Merging all the values of a key\<close>

definition getm_inv :: "table_getm_t \<Rightarrow> cstring list \<Rightarrow> bool" where
  "getm_inv state vs \<longleftrightarrow>
     getm_first state = (if vs = [] then None else Some (hd vs)) \<and>
     (if length vs \<le> 1 then getm_merged state = None
      else \<exists>s a. getm_merged state = Some (s, a) \<and> arr_wf s a \<and> arr_view s a = map Val vs)"

lemma getm_inv_step:
  assumes "getm_inv state vs"
  shows "\<exists>state'. table_getm_do state k (Some v) = (state', 1) \<and> getm_inv state' (vs @ [v])"
proof -
  consider "vs = []" | w where "vs = [w]" | "1 < length vs"
    by (metis One_nat_def length_0_conv length_Suc_conv linorder_neqE_nat less_one)
  then show ?thesis
  proof cases
    case 1
    with assms show ?thesis by (simp add: getm_inv_def table_getm_do_def)
  next
    case 2
    let ?m = "push_val apr_array_push (apr_array_make [] (getm_p state) 10) w"
    obtain s0 a0 where mk: "apr_array_make [] (getm_p state) 10 = (s0 :: cstring store, a0)" by fastforce
    have m0: "arr_wf s0 a0 \<and> arr_view s0 a0 = []"
      using make_array_core_spec [of "[] :: cstring store" "getm_p state" 10 True] mk by (simp add: apr_array_make_def)
    have m1: "arr_wf (fst ?m) (snd ?m)" "arr_view (fst ?m) (snd ?m) = [Val w]"
      using push.inv_append1 [of "(s0, a0)"] push.view_append1 [of "(s0, a0)"] m0 mk by simp_all
    have "arr_wf (fst (push_val apr_array_push ?m v)) (snd (push_val apr_array_push ?m v))"
      "arr_view (fst (push_val apr_array_push ?m v)) (snd (push_val apr_array_push ?m v)) = [Val w, Val v]"
      using push.inv_append1 [of ?m] push.view_append1 [of ?m] m1 by simp_all
    with 2 assms show ?thesis
      by (cases "push_val apr_array_push ?m v") (simp add: getm_inv_def table_getm_do_def)
  next
    case 3
    then obtain s a where m: "getm_merged state = Some (s, a)" "arr_wf s a" "arr_view s a = map Val vs"
      using assms by (auto simp: getm_inv_def)
    have "arr_wf (fst (push_val apr_array_push (s, a) v)) (snd (push_val apr_array_push (s, a) v))"
      "arr_view (fst (push_val apr_array_push (s, a) v)) (snd (push_val apr_array_push (s, a) v)) =
        map Val (vs @ [v])"
      using push.inv_append1 [of "(s, a)"] push.view_append1 [of "(s, a)"] m by simp_all
    with 3 m assms show ?thesis
      by (cases "push_val apr_array_push (s, a) v") (auto simp: getm_inv_def table_getm_do_def)
  qed
qed

lemma getm_visit:
  assumes "getm_inv state vs" "\<forall>e \<in> set es. val e \<noteq> None"
  shows "\<exists>state'. visit table_getm_do es (state, 1) = (state', 1) \<and>
    getm_inv state' (vs @ map (\<lambda>e. the (val e)) es)"
  using assms
proof (induction es arbitrary: state vs)
  case (Cons e es)
  then obtain v where v: "val e = Some v" by auto
  from getm_inv_step [OF Cons.prems(1), of "ekey e" v] obtain s1 where
    "table_getm_do state (ekey e) (Some v) = (s1, 1)" "getm_inv s1 (vs @ [v])" by blast
  with Cons.IH [of s1 "vs @ [v]"] Cons.prems(2) v show ?case by simp
qed simp

definition join_comma :: "cstring list \<Rightarrow> cstring" where
  "join_comma vs = butlast (concat (map (\<lambda>v. v @ [44]) vs))"

lemma pstrcat_join:
  assumes "arr_view s a = map Val vs" "vs \<noteq> []" "nelts a \<noteq> 0"
  shows "butlast (snd (apr_array_pstrcat s a 44)) = join_comma vs"
proof -
  have "pstrcat_copy 44 (map Val vs) @ [44] = concat (map (\<lambda>s. slot_str s @ [44]) (map Val vs))"
    using assms(2) by (intro pstrcat_copy_sep) auto
  also have "\<dots> = concat (map (\<lambda>v. v @ [44]) vs)" by (simp add: slot_str_def comp_def)
  finally have "pstrcat_copy 44 (map Val vs) = join_comma vs" unfolding join_comma_def by (metis butlast_snoc)
  then show ?thesis using assms by (simp add: apr_array_pstrcat_def arr_view_def Let_def)
qed

lemma apr_table_getm_spec:
  assumes inv: "table_inv st t" and k: "cstr k" and v: "\<forall>e \<in> set (entries st t). val e \<noteq> None"
  shows "apr_table_getm p st t k =
    (let vs = map (\<lambda>e. the (val e)) (filter (has_key k) (entries st t))
     in if vs = [] then None else Some (join_comma vs))"
proof -
  let ?es = "filter (has_key k) (entries st t)" and ?s0 = "\<lparr>getm_p = p, getm_first = None, getm_merged = None\<rparr>"
  define vs where "vs = map (\<lambda>e. the (val e)) ?es"
  have "getm_inv ?s0 []" by (simp add: getm_inv_def)
  from getm_visit [OF this, of ?es] v obtain s where
    s: "visit table_getm_do ?es (?s0, 1) = (s, 1)" "getm_inv s vs" by (auto simp: vs_def)
  have d: "apr_table_do st t table_getm_do ?s0 [k] = (s, 1)"
    using vdo_key_visit [OF inv k, of table_getm_do ?s0] s(1)
    by (simp add: apr_table_do_def apr_table_vdo_def)
  consider "vs = []" | w where "vs = [w]" | "1 < length vs"
    by (metis One_nat_def length_0_conv length_Suc_conv linorder_neqE_nat less_one)
  then have "apr_table_getm p st t k = (if vs = [] then None else Some (join_comma vs))"
  proof cases
    case 3
    then obtain m a where m: "getm_merged s = Some (m, a)" "arr_wf m a" "arr_view m a = map Val vs"
      using s(2) by (auto simp: getm_inv_def)
    then have "nelts a = length vs" by (metis length_arr_view length_map)
    with m 3 s(2) show ?thesis
      using pstrcat_join [OF m(3)] by (auto simp: apr_table_getm_def d getm_inv_def)
  qed (use s(2) in \<open>simp_all add: apr_table_getm_def d getm_inv_def join_comma_def\<close>)
  then show ?thesis by (simp add: vs_def Let_def)
qed

section \<open>Properties\<close>

text \<open>
  C8. \<open>apr_table_compress\<close> leaves one entry per key (under \<open>strcasecmp\<close>), in the order of the first
  occurrences, with the last value of the key (\<open>APR_OVERLAP_TABLES_SET\<close>) or all its values joined by
  a comma and a space (\<open>APR_OVERLAP_TABLES_MERGE\<close>, for tables without NULL values); with
  \<open>APR_OVERLAP_TABLES_ADD\<close> it does nothing. The merged strings fit into the memory allocated for them, the
  invariant holds again, the index included, and no other block is written.
\<close>

theorem apr_table_compress_correct:
  assumes "table_inv st t" "length mem = nelts (arr t)"
    and "flags = APR_OVERLAP_TABLES_MERGE \<longrightarrow> (\<forall>e \<in> set (entries st t). val e \<noteq> None)"
  shows "\<exists>r. apr_table_compress mem st t flags = Some r \<and> table_step st t r
    (if flags = APR_OVERLAP_TABLES_ADD then entries st t else tbl_compress flags (entries st t)) \<and>
    unique_keys (tbl_compress flags (entries st t))"
  using apr_table_compress_step [OF assms(1,2), of flags] table_step_refl [OF assms(1)]
    tbl_compress_unique_keys [of flags "entries st t"] assms(3)
  by (cases "flags = APR_OVERLAP_TABLES_ADD") (auto simp: apr_table_compress_def mergeable_def)

lemma merge_not_add: "APR_OVERLAP_TABLES_MERGE \<noteq> APR_OVERLAP_TABLES_ADD"
  by (simp add: APR_OVERLAP_TABLES_MERGE_def APR_OVERLAP_TABLES_ADD_def)

lemma example_nelts: "nelts (arr (snd example_table)) = 3"
  using length_entries [of "fst example_table" "snd example_table"] example_table_inv by simp

lemma example_compressed:
  "tbl_compress APR_OVERLAP_TABLES_MERGE
     [new_entry [65, 98] (Some [49]), new_entry [99] (Some [50]), new_entry [97, 66] (Some [51])] =
   [new_entry [65, 98] (Some [49, 44, 32, 51]), new_entry [99] (Some [50])]"
  by code_simp

lemma val_new_entry: "val (new_entry k v) = v"
  by (simp add: new_entry_def)

theorem apr_table_compress_correct_witness:
  "\<exists>s t. apr_table_compress [0, 0, 0] (fst example_table) (snd example_table) APR_OVERLAP_TABLES_MERGE = Some (s, t) \<and>
    entries s t = [new_entry [65, 98] (Some [49, 44, 32, 51]), new_entry [99] (Some [50])]"
  using apr_table_compress_correct [of "fst example_table" "snd example_table" "[0, 0, 0]"
      APR_OVERLAP_TABLES_MERGE] example_table_inv
  by (auto simp: table_step_def case_prod_beta example_nelts example_compressed merge_not_add val_new_entry)

text \<open>
  C30. \<open>apr_table_overlap\<close> does what its documentation says it conceptually does: if no key occurs
  twice in the first table, the result is that of the loop that calls \<open>apr_table_setn\<close>,
  \<open>apr_table_mergen\<close> (no value being NULL) or \<open>apr_table_addn\<close>, according to the flag, for each entry
  of the second table in turn. The concatenation of the two indexes and the compression are right.
\<close>

theorem apr_table_overlap_correct:
  assumes "table_inv st a" "table_inv st b" "length mem = nelts (arr a) + nelts (arr b)"
    and "flags = APR_OVERLAP_TABLES_SET \<and> unique_keys (entries st a) \<or>
      flags = APR_OVERLAP_TABLES_MERGE \<and> unique_keys (entries st a) \<and>
        (\<forall>e \<in> set (entries st a @ entries st b). val e \<noteq> None) \<or>
      flags = APR_OVERLAP_TABLES_ADD"
  shows "\<exists>r. apr_table_overlap mem st a b flags = Some r \<and>
    table_step st a r (foldl (doc_step flags) (entries st a) (entries st b))"
proof -
  have ok: "\<forall>e \<in> set (entries st b). entry_ok e" using assms(2) by (simp add: table_inv_def)
  have add: "foldl (doc_step APR_OVERLAP_TABLES_ADD) xs ys = xs @ ys" if "\<forall>e \<in> set ys. entry_ok e" for xs ys
    using that
    by (induction ys arbitrary: xs)
      (auto simp: doc_step_def APR_OVERLAP_TABLES_MERGE_def APR_OVERLAP_TABLES_ADD_def ekey_def
        entry_ok_new_entry)
  have "(if flags = APR_OVERLAP_TABLES_ADD then entries st a @ entries st b
      else tbl_compress flags (entries st a @ entries st b)) =
    foldl (doc_step flags) (entries st a) (entries st b)"
    using assms(4) compress_doc_loop [of "entries st a" "entries st b" flags] ok add [OF ok]
    by (auto simp: APR_OVERLAP_TABLES_SET_def APR_OVERLAP_TABLES_MERGE_def APR_OVERLAP_TABLES_ADD_def)
  moreover have "mergeable flags (entries st a @ entries st b)"
    using assms(4)
    by (auto simp: mergeable_def APR_OVERLAP_TABLES_SET_def APR_OVERLAP_TABLES_MERGE_def APR_OVERLAP_TABLES_ADD_def)
  ultimately show ?thesis using apr_table_overlap_step [OF assms(1-3), of flags] by simp
qed

theorem apr_table_overlap_correct_witness:
  "(let (s, e) = apr_table_make (\<lambda>_. 0) (\<lambda>_. 0) (fst example_table) 0 1
    in \<exists>s' t. apr_table_overlap [0, 0, 0] s e (snd example_table) APR_OVERLAP_TABLES_SET = Some (s', t) \<and>
       entries s' t = [new_entry [65, 98] (Some [51]), new_entry [99] (Some [50])])"
proof -
  obtain s e where mk: "apr_table_make (\<lambda>_. 0) (\<lambda>_. 0) (fst example_table) 0 1 = (s, e)" by fastforce
  note m = apr_table_make_spec [OF mk]
  have ex: "table_inv s (snd example_table)"
    "entries s (snd example_table) = entries (fst example_table) (snd example_table)"
    using table_inv_frame [of "fst example_table" "snd example_table" s] example_table_inv m
    by (auto simp: store_extends_def table_inv_def arr_wf_def)
  have n: "nelts (arr e) = 0" using length_entries [of s e] m by simp
  have "\<exists>r. apr_table_overlap [0, 0, 0] s e (snd example_table) APR_OVERLAP_TABLES_SET = Some r \<and> table_step s e r
    (foldl (doc_step APR_OVERLAP_TABLES_SET) [] (entries s (snd example_table)))"
    using apr_table_overlap_correct [of s e "snd example_table" "[0, 0, 0]" APR_OVERLAP_TABLES_SET]
      m ex(1) n example_nelts by (simp add: unique_keys_def)
  moreover have "foldl (doc_step APR_OVERLAP_TABLES_SET) []
    [new_entry [65, 98] (Some [49]), new_entry [99] (Some [50]), new_entry [97, 66] (Some [51])] =
    [new_entry [65, 98] (Some [51]), new_entry [99] (Some [50])]" by code_simp
  ultimately show ?thesis
    using example_table_inv ex(2) by (auto simp: mk table_step_def case_prod_beta)
qed

text \<open>
  When the first table already has a key twice, the overlap removes that duplicate even if the second
  table is empty, which the documented loop would not do.
\<close>

theorem apr_table_overlap_removes_old_duplicates:
  "(let (s, e) = apr_table_make (\<lambda>_. 0) (\<lambda>_. 0) (fst example_table) 0 1;
        r = apr_table_overlap [0, 0, 0] s (snd example_table) e APR_OVERLAP_TABLES_SET
    in (map_option (\<lambda>(s', t). length (entries s' t)) r, length (foldl (doc_step APR_OVERLAP_TABLES_SET)
          (entries s (snd example_table)) (entries s e)))) = (Some 2, 3)"
  by code_simp

text \<open>
  \<open>apr_table_vdo\<close> with keys calls the callback, for each key in turn, on exactly the entries with
  that key in table order until a call returns zero, although it only scans the key's hash chain;
  without keys it visits all the entries in order until a call returns zero.
\<close>

theorem apr_table_vdo_correct:
  assumes "table_inv st t" "cstr k"
  shows "apr_table_vdo st t cb rec [] =
      (case visit cb (entries st t) (rec, 1) of (rec', rv) \<Rightarrow> (rec', if rv = 0 then 0 else 1)) \<and>
    apr_table_vdo st t cb rec (k # ks) =
      (case visit cb (filter (has_key k) (entries st t)) (rec, 1) of
         (rec', rv) \<Rightarrow> vdo_keys st t cb (rec', if rv = 0 then 0 else 1) ks)"
  using assms by (simp add: apr_table_vdo_def vdo_all_visit vdo_key_visit)

theorem apr_table_vdo_correct_witness:
  "apr_table_vdo (fst example_table) (snd example_table) (\<lambda>r k v. (r @ [the v], 1)) [] [[65, 66]] =
     ([[49], [51]], 1)"
  using apr_table_vdo_correct [of "fst example_table" "snd example_table" "[65, 66]"
      "\<lambda>r k v. (r @ [the v], 1)" "[]" "[]"] example_table_inv
  by (simp add: new_entry_def has_key_def fold_case_def tolower_def)

text \<open>
  \<open>apr_table_getm\<close> returns NULL if the key is absent and otherwise all the values of the key in
  table order, separated by commas; the fast path for a single value agrees with the general one.
\<close>

theorem apr_table_getm_correct:
  assumes "table_inv st t" "cstr k" "\<forall>e \<in> set (entries st t). val e \<noteq> None"
  shows "apr_table_getm p st t k =
    (let vs = map (\<lambda>e. the (val e)) (filter (has_key k) (entries st t))
     in if vs = [] then None else Some (join_comma vs))"
  by (rule apr_table_getm_spec [OF assms])

theorem apr_table_getm_correct_witness:
  "apr_table_getm 0 (fst example_table) (snd example_table) [97, 98] = Some [49, 44, 51]"
  using apr_table_getm_correct [of "fst example_table" "snd example_table" "[97, 98]" 0] example_table_inv
  by (simp add: new_entry_def has_key_def fold_case_def tolower_def join_comma_def)

end
