(* ===== verification/Apr_Encode.thy ===== *)
theory Apr_Encode
  imports Apr_Prelude "HOL-Library.Signed_Division"
begin

text \<open>
  The base64, base32 and base16 encoders and decoders of \<^verbatim>\<open>encoding/apr_encode.c\<close> (ASCII
  configuration, so \<open>ENCODE_TO_ASCII\<close> and \<open>ENCODE_TO_NATIVE\<close> are identities). A source pointer is
  \<open>None\<close> for NULL or the list of the bytes that can be read from it on, a terminating NUL included
  where there is one; a function that reads past them has the result \<open>None\<close>. Otherwise the result
  is the status, the bytes written to the destination and the value stored through \<open>len\<close>; a NULL
  destination is \<open>dest = False\<close>. The index arithmetic is that of 32-bit integers, on characters that
  are sign-extended in the functions on \<open>char\<close> and zero-extended in those on \<open>unsigned char\<close>.
  The encoders keep an \<open>int\<close> index into a source whose length has 64 bits, and the length queries of the
  decoders convert that length to an \<open>int\<close>; where the index or the query overflows, which C leaves
  undefined, the result is \<open>None\<close> too.
\<close>

section \<open>Tables and flags\<close>

definition pr2six :: "byte list" where
  "pr2six =
    [64, 64, 64, 64, 64, 64, 64, 64, 64, 64, 64, 64, 64, 64, 64, 64,
     64, 64, 64, 64, 64, 64, 64, 64, 64, 64, 64, 64, 64, 64, 64, 64,
     64, 64, 64, 64, 64, 64, 64, 64, 64, 64, 64, 62, 64, 62, 64, 63,
     52, 53, 54, 55, 56, 57, 58, 59, 60, 61, 64, 64, 64, 128, 64, 64,
     64, 0, 1, 2, 3, 4, 5, 6, 7, 8, 9, 10, 11, 12, 13, 14,
     15, 16, 17, 18, 19, 20, 21, 22, 23, 24, 25, 64, 64, 64, 64, 63,
     64, 26, 27, 28, 29, 30, 31, 32, 33, 34, 35, 36, 37, 38, 39, 40,
     41, 42, 43, 44, 45, 46, 47, 48, 49, 50, 51, 64, 64, 64, 64, 64,
     64, 64, 64, 64, 64, 64, 64, 64, 64, 64, 64, 64, 64, 64, 64, 64,
     64, 64, 64, 64, 64, 64, 64, 64, 64, 64, 64, 64, 64, 64, 64, 64,
     64, 64, 64, 64, 64, 64, 64, 64, 64, 64, 64, 64, 64, 64, 64, 64,
     64, 64, 64, 64, 64, 64, 64, 64, 64, 64, 64, 64, 64, 64, 64, 64,
     64, 64, 64, 64, 64, 64, 64, 64, 64, 64, 64, 64, 64, 64, 64, 64,
     64, 64, 64, 64, 64, 64, 64, 64, 64, 64, 64, 64, 64, 64, 64, 64,
     64, 64, 64, 64, 64, 64, 64, 64, 64, 64, 64, 64, 64, 64, 64, 64,
     64, 64, 64, 64, 64, 64, 64, 64, 64, 64, 64, 64, 64, 64, 64, 64]"

definition pr2five :: "byte list" where
  "pr2five =
    [32, 32, 32, 32, 32, 32, 32, 32, 32, 32, 32, 32, 32, 32, 32, 32,
     32, 32, 32, 32, 32, 32, 32, 32, 32, 32, 32, 32, 32, 32, 32, 32,
     32, 32, 32, 32, 32, 32, 32, 32, 32, 32, 32, 32, 32, 32, 32, 32,
     32, 32, 26, 27, 28, 29, 30, 31, 32, 32, 32, 32, 32, 128, 32, 32,
     32, 0, 1, 2, 3, 4, 5, 6, 7, 8, 9, 10, 11, 12, 13, 14,
     15, 16, 17, 18, 19, 20, 21, 22, 23, 24, 25, 32, 32, 32, 32, 32,
     32, 32, 32, 32, 32, 32, 32, 32, 32, 32, 32, 32, 32, 32, 32, 32,
     32, 32, 32, 32, 32, 32, 32, 32, 32, 32, 32, 32, 32, 32, 32, 32,
     32, 32, 32, 32, 32, 32, 32, 32, 32, 32, 32, 32, 32, 32, 32, 32,
     32, 32, 32, 32, 32, 32, 32, 32, 32, 32, 32, 32, 32, 32, 32, 32,
     32, 32, 32, 32, 32, 32, 32, 32, 32, 32, 32, 32, 32, 32, 32, 32,
     32, 32, 32, 32, 32, 32, 32, 32, 32, 32, 32, 32, 32, 32, 32, 32,
     32, 32, 32, 32, 32, 32, 32, 32, 32, 32, 32, 32, 32, 32, 32, 32,
     32, 32, 32, 32, 32, 32, 32, 32, 32, 32, 32, 32, 32, 32, 32, 32,
     32, 32, 32, 32, 32, 32, 32, 32, 32, 32, 32, 32, 32, 32, 32, 32,
     32, 32, 32, 32, 32, 32, 32, 32, 32, 32, 32, 32, 32, 32, 32, 32]"

definition pr2fivehex :: "byte list" where
  "pr2fivehex =
    [32, 32, 32, 32, 32, 32, 32, 32, 32, 32, 32, 32, 32, 32, 32, 32,
     32, 32, 32, 32, 32, 32, 32, 32, 32, 32, 32, 32, 32, 32, 32, 32,
     32, 32, 32, 32, 32, 32, 32, 32, 32, 32, 32, 32, 32, 32, 32, 32,
     0, 1, 2, 3, 4, 5, 6, 7, 8, 9, 32, 32, 32, 128, 32, 32,
     32, 10, 11, 12, 13, 14, 15, 16, 17, 18, 19, 20, 21, 22, 23, 24,
     25, 26, 27, 28, 29, 30, 31, 32, 32, 32, 32, 32, 32, 32, 32, 32,
     32, 32, 32, 32, 32, 32, 32, 32, 32, 32, 32, 32, 32, 32, 32, 32,
     32, 32, 32, 32, 32, 32, 32, 32, 32, 32, 32, 32, 32, 32, 32, 32,
     32, 32, 32, 32, 32, 32, 32, 32, 32, 32, 32, 32, 32, 32, 32, 32,
     32, 32, 32, 32, 32, 32, 32, 32, 32, 32, 32, 32, 32, 32, 32, 32,
     32, 32, 32, 32, 32, 32, 32, 32, 32, 32, 32, 32, 32, 32, 32, 32,
     32, 32, 32, 32, 32, 32, 32, 32, 32, 32, 32, 32, 32, 32, 32, 32,
     32, 32, 32, 32, 32, 32, 32, 32, 32, 32, 32, 32, 32, 32, 32, 32,
     32, 32, 32, 32, 32, 32, 32, 32, 32, 32, 32, 32, 32, 32, 32, 32,
     32, 32, 32, 32, 32, 32, 32, 32, 32, 32, 32, 32, 32, 32, 32, 32,
     32, 32, 32, 32, 32, 32, 32, 32, 32, 32, 32, 32, 32, 32, 32, 32]"

definition pr2two :: "byte list" where
  "pr2two =
    [16, 16, 16, 16, 16, 16, 16, 16, 16, 16, 16, 16, 16, 16, 16, 16,
     16, 16, 16, 16, 16, 16, 16, 16, 16, 16, 16, 16, 16, 16, 16, 16,
     16, 16, 16, 16, 16, 16, 16, 16, 16, 16, 16, 16, 16, 16, 16, 16,
     0, 1, 2, 3, 4, 5, 6, 7, 8, 9, 32, 16, 16, 16, 16, 16,
     16, 10, 11, 12, 13, 14, 15, 16, 16, 16, 16, 16, 16, 16, 16, 16,
     16, 16, 16, 16, 16, 16, 16, 16, 16, 16, 16, 16, 16, 16, 16, 16,
     16, 10, 11, 12, 13, 14, 15, 16, 16, 16, 16, 16, 16, 16, 16, 16,
     16, 16, 16, 16, 16, 16, 16, 16, 16, 16, 16, 16, 16, 16, 16, 16,
     16, 16, 16, 16, 16, 16, 16, 16, 16, 16, 16, 16, 16, 16, 16, 16,
     16, 16, 16, 16, 16, 16, 16, 16, 16, 16, 16, 16, 16, 16, 16, 16,
     16, 16, 16, 16, 16, 16, 16, 16, 16, 16, 16, 16, 16, 16, 16, 16,
     16, 16, 16, 16, 16, 16, 16, 16, 16, 16, 16, 16, 16, 16, 16, 16,
     16, 16, 16, 16, 16, 16, 16, 16, 16, 16, 16, 16, 16, 16, 16, 16,
     16, 16, 16, 16, 16, 16, 16, 16, 16, 16, 16, 16, 16, 16, 16, 16,
     16, 16, 16, 16, 16, 16, 16, 16, 16, 16, 16, 16, 16, 16, 16, 16,
     16, 16, 16, 16, 16, 16, 16, 16, 16, 16, 16, 16, 16, 16, 16, 16]"

definition base64 :: "byte list" where
  "base64 =
    [65, 66, 67, 68, 69, 70, 71, 72, 73, 74, 75, 76, 77, 78, 79, 80,
     81, 82, 83, 84, 85, 86, 87, 88, 89, 90, 97, 98, 99, 100, 101, 102,
     103, 104, 105, 106, 107, 108, 109, 110, 111, 112, 113, 114, 115, 116, 117, 118,
     119, 120, 121, 122, 48, 49, 50, 51, 52, 53, 54, 55, 56, 57, 43, 47]"

definition base64url :: "byte list" where
  "base64url =
    [65, 66, 67, 68, 69, 70, 71, 72, 73, 74, 75, 76, 77, 78, 79, 80,
     81, 82, 83, 84, 85, 86, 87, 88, 89, 90, 97, 98, 99, 100, 101, 102,
     103, 104, 105, 106, 107, 108, 109, 110, 111, 112, 113, 114, 115, 116, 117, 118,
     119, 120, 121, 122, 48, 49, 50, 51, 52, 53, 54, 55, 56, 57, 45, 95]"

definition base32 :: "byte list" where
  "base32 =
    [65, 66, 67, 68, 69, 70, 71, 72, 73, 74, 75, 76, 77, 78, 79, 80,
     81, 82, 83, 84, 85, 86, 87, 88, 89, 90, 50, 51, 52, 53, 54, 55]"

definition base32hex :: "byte list" where
  "base32hex =
    [48, 49, 50, 51, 52, 53, 54, 55, 56, 57, 65, 66, 67, 68, 69, 70,
     71, 72, 73, 74, 75, 76, 77, 78, 79, 80, 81, 82, 83, 84, 85, 86]"

definition base16 :: "byte list" where
  "base16 =
    [48, 49, 50, 51, 52, 53, 54, 55, 56, 57, 65, 66, 67, 68, 69, 70]"

definition base16lower :: "byte list" where
  "base16lower =
    [48, 49, 50, 51, 52, 53, 54, 55, 56, 57, 97, 98, 99, 100, 101, 102]"

text \<open>A source length: \<open>APR_ENCODE_STRING\<close> (minus one) or an actual length.\<close>

datatype slen = APR_ENCODE_STRING | Slen nat

definition APR_ENCODE_NONE :: u32 where "APR_ENCODE_NONE = 0"
definition APR_ENCODE_RELAXED :: u32 where "APR_ENCODE_RELAXED = 1"
definition APR_ENCODE_NOPADDING :: u32 where "APR_ENCODE_NOPADDING = 2"
definition APR_ENCODE_URL :: u32 where "APR_ENCODE_URL = 4"
definition APR_ENCODE_BASE64URL :: u32 where
  "APR_ENCODE_BASE64URL = APR_ENCODE_NOPADDING OR APR_ENCODE_URL"
definition APR_ENCODE_BASE32HEX :: u32 where "APR_ENCODE_BASE32HEX = 8"
definition APR_ENCODE_COLON :: u32 where "APR_ENCODE_COLON = 16"
definition APR_ENCODE_LOWER :: u32 where "APR_ENCODE_LOWER = 32"

definition has_flag :: "u32 \<Rightarrow> u32 \<Rightarrow> bool" where
  "has_flag flags f \<longleftrightarrow> flags AND f \<noteq> 0"

type_synonym coding = "apr_status_t \<times> byte list \<times> nat option"

section \<open>Characters as integers\<close>

definition char_int :: "byte \<Rightarrow> u32" where
  "char_int c = scast c"

definition uchar_int :: "byte \<Rightarrow> u32" where
  "uchar_int c = ucast c"

text \<open>The right shift of an \<open>int\<close>, which keeps the sign.\<close>

definition shr :: "nat \<Rightarrow> u32 \<Rightarrow> u32" where
  "shr n w = signed_drop_bit n w"

text \<open>\<open>strlen\<close>; \<open>None\<close> if no NUL is readable.\<close>

definition strlen :: "byte list \<Rightarrow> nat option" where
  "strlen m = (let k = length (takeWhile (\<lambda>c. c \<noteq> 0) m) in if k < length m then Some k else None)"

definition read_len :: "byte list \<Rightarrow> slen \<Rightarrow> nat option" where
  "read_len m slen = (case slen of APR_ENCODE_STRING \<Rightarrow> strlen m | Slen n \<Rightarrow> Some n)"

section \<open>Base 64\<close>

subsection \<open>Encoding\<close>

definition b64_1 :: "(byte \<Rightarrow> u32) \<Rightarrow> byte list \<Rightarrow> byte \<Rightarrow> byte" where
  "b64_1 ld base x = base ! unat (shr 2 (ld x) AND 0x3F)"

definition b64_2 :: "(byte \<Rightarrow> u32) \<Rightarrow> byte list \<Rightarrow> byte \<Rightarrow> byte \<Rightarrow> byte" where
  "b64_2 ld base x y = base ! unat (push_bit 4 (ld x AND 0x3) OR shr 4 (ld y AND 0xF0))"

definition b64_3 :: "(byte \<Rightarrow> u32) \<Rightarrow> byte list \<Rightarrow> byte \<Rightarrow> byte \<Rightarrow> byte" where
  "b64_3 ld base y z = base ! unat (push_bit 2 (ld y AND 0xF) OR shr 6 (ld z AND 0xC0))"

definition b64_4 :: "(byte \<Rightarrow> u32) \<Rightarrow> byte list \<Rightarrow> byte \<Rightarrow> byte" where
  "b64_4 ld base z = base ! unat (ld z AND 0x3F)"

definition b64_2_end :: "(byte \<Rightarrow> u32) \<Rightarrow> byte list \<Rightarrow> byte \<Rightarrow> byte" where
  "b64_2_end ld base x = base ! unat (push_bit 4 (ld x AND 0x3))"

definition b64_3_end :: "(byte \<Rightarrow> u32) \<Rightarrow> byte list \<Rightarrow> byte \<Rightarrow> byte" where
  "b64_3_end ld base y = base ! unat (push_bit 2 (ld y AND 0xF))"

definition pad :: "u32 \<Rightarrow> nat \<Rightarrow> byte list" where
  "pad flags n = (if \<not> has_flag flags APR_ENCODE_NOPADDING then replicate n 61 else [])"

definition encode64_tail :: "(byte \<Rightarrow> u32) \<Rightarrow> byte list \<Rightarrow> u32 \<Rightarrow> byte list \<Rightarrow> nat \<Rightarrow> nat \<Rightarrow> byte list" where
  "encode64_tail ld base flags src slen i =
     (if i < slen then
        [b64_1 ld base (src ! i)] @
        (if i + 1 = slen then [b64_2_end ld base (src ! i)] @ pad flags 1
         else [b64_2 ld base (src ! i) (src ! (i + 1)), b64_3_end ld base (src ! (i + 1))]) @
        pad flags 1
      else [])"

function encode64_loop :: "(byte \<Rightarrow> u32) \<Rightarrow> byte list \<Rightarrow> u32 \<Rightarrow> byte list \<Rightarrow> nat \<Rightarrow> nat \<Rightarrow> byte list" where
  "encode64_loop ld base flags src slen i =
     (if i + 2 < slen then
        [b64_1 ld base (src ! i), b64_2 ld base (src ! i) (src ! (i + 1)),
         b64_3 ld base (src ! (i + 1)) (src ! (i + 2)), b64_4 ld base (src ! (i + 2))] @
        encode64_loop ld base flags src slen (i + 3)
      else encode64_tail ld base flags src slen i)"
  by pat_completeness auto
termination
  by (relation "measure (\<lambda>(ld, base, flags, src, slen, i). slen - i)") auto

declare encode64_loop.simps [simp del]

text \<open>
  The index of an encoder is an \<open>int\<close>, the length it is compared with is not. Every index below a length
  of at most \<open>2 ^ 31\<close> is an \<open>int\<close>, and the steps of three and of five stay in its range as well; for a
  longer source the index overflows.
\<close>

definition int_index :: "nat \<Rightarrow> bool" where
  "int_index slen \<longleftrightarrow> slen \<le> 2 ^ 31"

definition encode64_main :: "(byte \<Rightarrow> u32) \<Rightarrow> bool \<Rightarrow> byte list \<Rightarrow> nat \<Rightarrow> u32 \<Rightarrow> coding option" where
  "encode64_main ld dest src slen flags =
     (if dest then
        (if slen \<le> length src \<and> int_index slen then
           (let base = (if \<not> has_flag flags APR_ENCODE_BASE64URL then base64 else base64url);
                out = encode64_loop ld base flags src slen 0
            in Some (APR_SUCCESS, out @ [0], Some (length out)))
         else None)
      else Some (APR_SUCCESS, [], Some ((slen + 2) div 3 * 4 + 1)))"

definition apr_encode_base64 :: "bool \<Rightarrow> byte list option \<Rightarrow> slen \<Rightarrow> u32 \<Rightarrow> coding option" where
  "apr_encode_base64 dest src slen flags =
     (case src of
        None \<Rightarrow> Some (APR_NOTFOUND, [], None)
      | Some m \<Rightarrow>
          (case read_len m slen of
             None \<Rightarrow> None
           | Some n \<Rightarrow> encode64_main char_int dest m n flags))"

definition apr_encode_base64_binary :: "bool \<Rightarrow> byte list option \<Rightarrow> nat \<Rightarrow> u32 \<Rightarrow> coding option" where
  "apr_encode_base64_binary dest src slen flags =
     (case src of
        None \<Rightarrow> Some (APR_NOTFOUND, [], None)
      | Some m \<Rightarrow> encode64_main uchar_int dest m slen flags)"

text \<open>
  The functions that allocate the destination from a pool. The result \<open>None\<close> is a read past the
  source, \<open>Some None\<close> the NULL pointer, and otherwise the bytes allocated, those written and \<open>len\<close>.
\<close>

type_synonym pooled = "(nat \<times> byte list \<times> nat option) option option"

definition pooled_call :: "nat \<Rightarrow> (bool \<Rightarrow> coding option) \<Rightarrow> pooled" where
  "pooled_call extra f =
     (case f False of
        None \<Rightarrow> None
      | Some (APR_SUCCESS, _, Some sz) \<Rightarrow>
          (case f True of
             None \<Rightarrow> None
           | Some (_, out, len) \<Rightarrow> Some (Some (sz + extra, out, len)))
      | Some _ \<Rightarrow> Some None)"

definition apr_pencode_base64 :: "byte list option \<Rightarrow> slen \<Rightarrow> u32 \<Rightarrow> pooled" where
  "apr_pencode_base64 src slen flags = pooled_call 0 (\<lambda>dest. apr_encode_base64 dest src slen flags)"

definition apr_pencode_base64_binary :: "byte list option \<Rightarrow> nat \<Rightarrow> u32 \<Rightarrow> pooled" where
  "apr_pencode_base64_binary src slen flags =
     pooled_call 0 (\<lambda>dest. apr_encode_base64_binary dest src slen flags)"

subsection \<open>Decoding\<close>

text \<open>
  The loops \<open>while (P(*(bufin++)) && cnt) cnt--\<close>. The byte is read and the pointer advanced before
  the count is tested, so the result is the position after the last byte read, and the count.
\<close>

function scan_while :: "(byte \<Rightarrow> bool) \<Rightarrow> byte list \<Rightarrow> nat \<Rightarrow> nat \<Rightarrow> (nat \<times> nat) option" where
  "scan_while P src bufin cnt =
     (if bufin < length src then
        (if P (src ! bufin) \<and> cnt \<noteq> 0 then scan_while P src (bufin + 1) (cnt - 1)
         else Some (bufin + 1, cnt))
      else None)"
  by pat_completeness auto
termination
  by (relation "measure (\<lambda>(P, src, bufin, cnt). length src - bufin)") auto

declare scan_while.simps [simp del]

text \<open>The value of a character in a table, and as an \<open>int\<close>.\<close>

definition pr :: "byte list \<Rightarrow> byte \<Rightarrow> byte" where
  "pr table c = table ! unat c"

definition pri :: "byte list \<Rightarrow> byte \<Rightarrow> u32" where
  "pri table c = ucast (pr table c)"

definition scan_status :: "u32 \<Rightarrow> nat \<Rightarrow> apr_status_t" where
  "scan_status flags cnt =
     (if has_flag flags APR_ENCODE_RELAXED then APR_SUCCESS
      else if cnt \<noteq> 0 then APR_BADCH else APR_SUCCESS)"

definition d64_1 :: "byte \<Rightarrow> byte \<Rightarrow> byte" where
  "d64_1 a b = ucast (push_bit 2 (pri pr2six a) OR shr 4 (pri pr2six b))"

definition d64_2 :: "byte \<Rightarrow> byte \<Rightarrow> byte" where
  "d64_2 b c = ucast (push_bit 4 (pri pr2six b) OR shr 2 (pri pr2six c))"

definition d64_3 :: "byte \<Rightarrow> byte \<Rightarrow> byte" where
  "d64_3 c d = ucast (push_bit 6 (pri pr2six c) OR pri pr2six d)"

text \<open>The decoding loop and the code after it: the bytes and whether the status becomes \<open>APR_BADCH\<close>.\<close>

function decode64_loop :: "byte list \<Rightarrow> nat \<Rightarrow> nat \<Rightarrow> byte list \<times> bool" where
  "decode64_loop src bufin nprbytes =
     (if 4 < nprbytes then
        (let (out, bad) = decode64_loop src (bufin + 4) (nprbytes - 4)
         in ([d64_1 (src ! bufin) (src ! (bufin + 1)), d64_2 (src ! (bufin + 1)) (src ! (bufin + 2)),
              d64_3 (src ! (bufin + 2)) (src ! (bufin + 3))] @ out, bad))
      else
        ((if 1 < nprbytes then [d64_1 (src ! bufin) (src ! (bufin + 1))] else []) @
         (if 2 < nprbytes then [d64_2 (src ! (bufin + 1)) (src ! (bufin + 2))] else []) @
         (if 3 < nprbytes then [d64_3 (src ! (bufin + 2)) (src ! (bufin + 3))] else []),
         nprbytes = 1))"
  by pat_completeness auto
termination
  by (relation "measure (\<lambda>(src, bufin, nprbytes). nprbytes)") auto

declare decode64_loop.simps [simp del]

text \<open>
  The two scans, shared by the decoders: the number of leading characters that satisfy \<open>P\<close> and the
  status after the characters that satisfy \<open>Q\<close> have been skipped.
\<close>

definition scan_source ::
    "(byte \<Rightarrow> bool) \<Rightarrow> (byte \<Rightarrow> bool) \<Rightarrow> byte list \<Rightarrow> nat \<Rightarrow> u32 \<Rightarrow> (nat \<times> apr_status_t) option" where
  "scan_source P Q src slen flags =
     (case scan_while P src 0 slen of
        None \<Rightarrow> None
      | Some (bufin, cnt) \<Rightarrow>
          (case scan_while Q src bufin cnt of
             None \<Rightarrow> None
           | Some (_, cnt') \<Rightarrow> Some (bufin - 1, scan_status flags cnt')))"

definition decode64_main :: "byte list \<Rightarrow> nat \<Rightarrow> u32 \<Rightarrow> (apr_status_t \<times> byte list) option" where
  "decode64_main src slen flags =
     (case scan_source (\<lambda>c. pr pr2six c < 64) (\<lambda>c. pr pr2six c > 64) src slen flags of
        None \<Rightarrow> None
      | Some (nprbytes, status) \<Rightarrow>
          (let (out, bad) = decode64_loop src 0 nprbytes
           in Some (if bad then APR_BADCH else status, out)))"

text \<open>
  The length a decoder stores for a NULL destination, \<open>(((int)slen + g - 1) / g) * b + z\<close> for groups of \<open>g\<close>
  characters and \<open>b\<close> bytes: the conversion keeps the low 32 bits of the length, the addition may
  overflow, the division rounds towards zero, and the sum is stored as an \<open>apr_size_t\<close> of 64 bits.
\<close>

definition int_cast :: "nat \<Rightarrow> int" where
  "int_cast n = sint (word_of_nat n :: u32)"

definition decoded_size :: "int \<Rightarrow> int \<Rightarrow> int \<Rightarrow> nat \<Rightarrow> coding option" where
  "decoded_size g b z slen =
     (if int_cast slen + (g - 1) < 2 ^ 31
      then Some (APR_SUCCESS, [], Some (nat (((int_cast slen + (g - 1)) sdiv g * b + z) mod 2 ^ 64)))
      else None)"

definition apr_decode_base64 :: "bool \<Rightarrow> byte list option \<Rightarrow> slen \<Rightarrow> u32 \<Rightarrow> coding option" where
  "apr_decode_base64 dest src slen flags =
     (case src of
        None \<Rightarrow> Some (APR_NOTFOUND, [], None)
      | Some m \<Rightarrow>
          (case read_len m slen of
             None \<Rightarrow> None
           | Some n \<Rightarrow>
               (if dest then
                  (case decode64_main m n flags of
                     None \<Rightarrow> None
                   | Some (status, out) \<Rightarrow> Some (status, out @ [0], Some (length out)))
                else decoded_size 4 3 1 n)))"

definition apr_decode_base64_binary :: "bool \<Rightarrow> byte list option \<Rightarrow> slen \<Rightarrow> u32 \<Rightarrow> coding option" where
  "apr_decode_base64_binary dest src slen flags =
     (case src of
        None \<Rightarrow> Some (APR_NOTFOUND, [], None)
      | Some m \<Rightarrow>
          (case read_len m slen of
             None \<Rightarrow> None
           | Some n \<Rightarrow>
               (if dest then
                  (case decode64_main m n flags of
                     None \<Rightarrow> None
                   | Some (status, out) \<Rightarrow> Some (status, out, Some (length out)))
                else decoded_size 4 3 0 n)))"

definition apr_pdecode_base64 :: "byte list option \<Rightarrow> slen \<Rightarrow> u32 \<Rightarrow> pooled" where
  "apr_pdecode_base64 src slen flags = pooled_call 0 (\<lambda>dest. apr_decode_base64 dest src slen flags)"

definition apr_pdecode_base64_binary :: "byte list option \<Rightarrow> slen \<Rightarrow> u32 \<Rightarrow> pooled" where
  "apr_pdecode_base64_binary src slen flags =
     pooled_call 1 (\<lambda>dest. apr_decode_base64_binary dest src slen flags)"

section \<open>Base 32\<close>

subsection \<open>Encoding\<close>

definition b32_1 :: "(byte \<Rightarrow> u32) \<Rightarrow> byte list \<Rightarrow> byte \<Rightarrow> byte" where
  "b32_1 ld base a = base ! unat (shr 3 (ld a) AND 0x1F)"

definition b32_2 :: "(byte \<Rightarrow> u32) \<Rightarrow> byte list \<Rightarrow> byte \<Rightarrow> byte \<Rightarrow> byte" where
  "b32_2 ld base a b = base ! unat ((push_bit 2 (ld a) AND 0x1C) OR (shr 6 (ld b) AND 0x3))"

definition b32_3 :: "(byte \<Rightarrow> u32) \<Rightarrow> byte list \<Rightarrow> byte \<Rightarrow> byte" where
  "b32_3 ld base b = base ! unat (shr 1 (ld b) AND 0x1F)"

definition b32_4 :: "(byte \<Rightarrow> u32) \<Rightarrow> byte list \<Rightarrow> byte \<Rightarrow> byte \<Rightarrow> byte" where
  "b32_4 ld base b c = base ! unat ((push_bit 4 (ld b) AND 0x10) OR (shr 4 (ld c) AND 0xF))"

definition b32_5 :: "(byte \<Rightarrow> u32) \<Rightarrow> byte list \<Rightarrow> byte \<Rightarrow> byte \<Rightarrow> byte" where
  "b32_5 ld base c d = base ! unat ((push_bit 1 (ld c) AND 0x1E) OR (shr 7 (ld d) AND 0x1))"

definition b32_6 :: "(byte \<Rightarrow> u32) \<Rightarrow> byte list \<Rightarrow> byte \<Rightarrow> byte" where
  "b32_6 ld base d = base ! unat (shr 2 (ld d) AND 0x1F)"

definition b32_7 :: "(byte \<Rightarrow> u32) \<Rightarrow> byte list \<Rightarrow> byte \<Rightarrow> byte \<Rightarrow> byte" where
  "b32_7 ld base d e = base ! unat ((push_bit 3 (ld d) AND 0x18) OR (shr 5 (ld e) AND 0x7))"

definition b32_8 :: "(byte \<Rightarrow> u32) \<Rightarrow> byte list \<Rightarrow> byte \<Rightarrow> byte" where
  "b32_8 ld base e = base ! unat (ld e AND 0x1F)"

definition b32_2_end :: "(byte \<Rightarrow> u32) \<Rightarrow> byte list \<Rightarrow> byte \<Rightarrow> byte" where
  "b32_2_end ld base a = base ! unat (push_bit 2 (ld a) AND 0x1C)"

definition b32_4_end :: "(byte \<Rightarrow> u32) \<Rightarrow> byte list \<Rightarrow> byte \<Rightarrow> byte" where
  "b32_4_end ld base b = base ! unat (push_bit 4 (ld b) AND 0x10)"

definition b32_5_end :: "(byte \<Rightarrow> u32) \<Rightarrow> byte list \<Rightarrow> byte \<Rightarrow> byte" where
  "b32_5_end ld base c = base ! unat (push_bit 1 (ld c) AND 0x1E)"

definition b32_7_end :: "(byte \<Rightarrow> u32) \<Rightarrow> byte list \<Rightarrow> byte \<Rightarrow> byte" where
  "b32_7_end ld base d = base ! unat (push_bit 3 (ld d) AND 0x18)"

definition encode32_tail :: "(byte \<Rightarrow> u32) \<Rightarrow> byte list \<Rightarrow> u32 \<Rightarrow> byte list \<Rightarrow> nat \<Rightarrow> nat \<Rightarrow> byte list" where
  "encode32_tail ld base flags src slen i =
     (if i < slen then
        [b32_1 ld base (src ! i)] @
        (if i + 1 = slen then [b32_2_end ld base (src ! i)] @ pad flags 6
         else if i + 2 = slen then
           [b32_2 ld base (src ! i) (src ! (i + 1)), b32_3 ld base (src ! (i + 1)),
            b32_4_end ld base (src ! (i + 1))] @ pad flags 4
         else if i + 3 = slen then
           [b32_2 ld base (src ! i) (src ! (i + 1)), b32_3 ld base (src ! (i + 1)),
            b32_4 ld base (src ! (i + 1)) (src ! (i + 2)), b32_5_end ld base (src ! (i + 2))] @
           pad flags 3
         else
           [b32_2 ld base (src ! i) (src ! (i + 1)), b32_3 ld base (src ! (i + 1)),
            b32_4 ld base (src ! (i + 1)) (src ! (i + 2)), b32_5 ld base (src ! (i + 2)) (src ! (i + 3)),
            b32_6 ld base (src ! (i + 3)), b32_7_end ld base (src ! (i + 3))] @ pad flags 1)
      else [])"

function encode32_loop :: "(byte \<Rightarrow> u32) \<Rightarrow> byte list \<Rightarrow> u32 \<Rightarrow> byte list \<Rightarrow> nat \<Rightarrow> nat \<Rightarrow> byte list" where
  "encode32_loop ld base flags src slen i =
     (if i + 4 < slen then
        [b32_1 ld base (src ! i), b32_2 ld base (src ! i) (src ! (i + 1)), b32_3 ld base (src ! (i + 1)),
         b32_4 ld base (src ! (i + 1)) (src ! (i + 2)), b32_5 ld base (src ! (i + 2)) (src ! (i + 3)),
         b32_6 ld base (src ! (i + 3)), b32_7 ld base (src ! (i + 3)) (src ! (i + 4)),
         b32_8 ld base (src ! (i + 4))] @
        encode32_loop ld base flags src slen (i + 5)
      else encode32_tail ld base flags src slen i)"
  by pat_completeness auto
termination
  by (relation "measure (\<lambda>(ld, base, flags, src, slen, i). slen - i)") auto

declare encode32_loop.simps [simp del]

text \<open>\<open>query\<close> is the length stored for a NULL destination, which the two functions compute differently.\<close>

definition encode32_main :: "(byte \<Rightarrow> u32) \<Rightarrow> nat \<Rightarrow> bool \<Rightarrow> byte list \<Rightarrow> nat \<Rightarrow> u32 \<Rightarrow> coding option" where
  "encode32_main ld query dest src slen flags =
     (if dest then
        (if slen \<le> length src \<and> int_index slen then
           (let base = (if \<not> has_flag flags APR_ENCODE_BASE32HEX then base32 else base32hex);
                out = encode32_loop ld base flags src slen 0
            in Some (APR_SUCCESS, out @ [0], Some (length out)))
         else None)
      else Some (APR_SUCCESS, [], Some query))"

definition apr_encode_base32 :: "bool \<Rightarrow> byte list option \<Rightarrow> slen \<Rightarrow> u32 \<Rightarrow> coding option" where
  "apr_encode_base32 dest src slen flags =
     (case src of
        None \<Rightarrow> Some (APR_NOTFOUND, [], None)
      | Some m \<Rightarrow>
          (case read_len m slen of
             None \<Rightarrow> None
           | Some n \<Rightarrow> encode32_main char_int ((n + 2) div 3 * 4 + 1) dest m n flags))"

definition apr_encode_base32_binary :: "bool \<Rightarrow> byte list option \<Rightarrow> nat \<Rightarrow> u32 \<Rightarrow> coding option" where
  "apr_encode_base32_binary dest src slen flags =
     (case src of
        None \<Rightarrow> Some (APR_NOTFOUND, [], None)
      | Some m \<Rightarrow> encode32_main uchar_int ((slen + 4) div 5 * 8 + 1) dest m slen flags)"

definition apr_pencode_base32 :: "byte list option \<Rightarrow> slen \<Rightarrow> u32 \<Rightarrow> pooled" where
  "apr_pencode_base32 src slen flags = pooled_call 0 (\<lambda>dest. apr_encode_base32 dest src slen flags)"

definition apr_pencode_base32_binary :: "byte list option \<Rightarrow> nat \<Rightarrow> u32 \<Rightarrow> pooled" where
  "apr_pencode_base32_binary src slen flags =
     pooled_call 0 (\<lambda>dest. apr_encode_base32_binary dest src slen flags)"

subsection \<open>Decoding\<close>

definition d32_1 :: "byte list \<Rightarrow> byte \<Rightarrow> byte \<Rightarrow> byte" where
  "d32_1 t a b = ucast (push_bit 3 (pri t a) OR shr 2 (pri t b))"

definition d32_2 :: "byte list \<Rightarrow> byte \<Rightarrow> byte \<Rightarrow> byte \<Rightarrow> byte" where
  "d32_2 t b c d = ucast (push_bit 6 (pri t b) OR push_bit 1 (pri t c) OR shr 4 (pri t d))"

definition d32_3 :: "byte list \<Rightarrow> byte \<Rightarrow> byte \<Rightarrow> byte" where
  "d32_3 t d e = ucast (push_bit 4 (pri t d) OR shr 1 (pri t e))"

definition d32_4 :: "byte list \<Rightarrow> byte \<Rightarrow> byte \<Rightarrow> byte \<Rightarrow> byte" where
  "d32_4 t e f g = ucast (push_bit 7 (pri t e) OR push_bit 2 (pri t f) OR shr 3 (pri t g))"

definition d32_5 :: "byte list \<Rightarrow> byte \<Rightarrow> byte \<Rightarrow> byte" where
  "d32_5 t g h = ucast (push_bit 5 (pri t g) OR pri t h)"

function decode32_loop :: "byte list \<Rightarrow> byte list \<Rightarrow> nat \<Rightarrow> nat \<Rightarrow> byte list \<times> bool" where
  "decode32_loop pr2 src bufin nprbytes =
     (if 8 < nprbytes then
        (let (out, bad) = decode32_loop pr2 src (bufin + 8) (nprbytes - 8)
         in ([d32_1 pr2 (src ! bufin) (src ! (bufin + 1)),
              d32_2 pr2 (src ! (bufin + 1)) (src ! (bufin + 2)) (src ! (bufin + 3)),
              d32_3 pr2 (src ! (bufin + 3)) (src ! (bufin + 4)),
              d32_4 pr2 (src ! (bufin + 4)) (src ! (bufin + 5)) (src ! (bufin + 6)),
              d32_5 pr2 (src ! (bufin + 6)) (src ! (bufin + 7))] @ out, bad))
      else
        ((if 2 \<le> nprbytes then [d32_1 pr2 (src ! bufin) (src ! (bufin + 1))] else []) @
         (if 4 \<le> nprbytes
          then [d32_2 pr2 (src ! (bufin + 1)) (src ! (bufin + 2)) (src ! (bufin + 3))] else []) @
         (if 5 \<le> nprbytes then [d32_3 pr2 (src ! (bufin + 3)) (src ! (bufin + 4))] else []) @
         (if 7 \<le> nprbytes
          then [d32_4 pr2 (src ! (bufin + 4)) (src ! (bufin + 5)) (src ! (bufin + 6))] else []) @
         (if nprbytes = 8 then [d32_5 pr2 (src ! (bufin + 6)) (src ! (bufin + 7))] else []),
         nprbytes = 1 \<or> nprbytes = 3 \<or> nprbytes = 6))"
  by pat_completeness auto
termination
  by (relation "measure (\<lambda>(pr2, src, bufin, nprbytes). nprbytes)") auto

declare decode32_loop.simps [simp del]

definition decode32_main :: "byte list \<Rightarrow> nat \<Rightarrow> u32 \<Rightarrow> (apr_status_t \<times> byte list) option" where
  "decode32_main src slen flags =
     (let pr2 = (if has_flag flags APR_ENCODE_BASE32HEX then pr2fivehex else pr2five) in
      case scan_source (\<lambda>c. pr pr2 c < 32) (\<lambda>c. pr pr2 c > 32) src slen flags of
        None \<Rightarrow> None
      | Some (nprbytes, status) \<Rightarrow>
          (let (out, bad) = decode32_loop pr2 src 0 nprbytes
           in Some (if bad then APR_BADCH else status, out)))"

definition apr_decode_base32 :: "bool \<Rightarrow> byte list option \<Rightarrow> slen \<Rightarrow> u32 \<Rightarrow> coding option" where
  "apr_decode_base32 dest src slen flags =
     (case src of
        None \<Rightarrow> Some (APR_NOTFOUND, [], None)
      | Some m \<Rightarrow>
          (case read_len m slen of
             None \<Rightarrow> None
           | Some n \<Rightarrow>
               (if dest then
                  (case decode32_main m n flags of
                     None \<Rightarrow> None
                   | Some (status, out) \<Rightarrow> Some (status, out @ [0], Some (length out)))
                else decoded_size 8 5 1 n)))"

definition apr_decode_base32_binary :: "bool \<Rightarrow> byte list option \<Rightarrow> slen \<Rightarrow> u32 \<Rightarrow> coding option" where
  "apr_decode_base32_binary dest src slen flags =
     (case src of
        None \<Rightarrow> Some (APR_NOTFOUND, [], None)
      | Some m \<Rightarrow>
          (case read_len m slen of
             None \<Rightarrow> None
           | Some n \<Rightarrow>
               (if dest then
                  (case decode32_main m n flags of
                     None \<Rightarrow> None
                   | Some (status, out) \<Rightarrow> Some (status, out, Some (length out)))
                else decoded_size 8 5 0 n)))"

definition apr_pdecode_base32 :: "byte list option \<Rightarrow> slen \<Rightarrow> u32 \<Rightarrow> pooled" where
  "apr_pdecode_base32 src slen flags = pooled_call 0 (\<lambda>dest. apr_decode_base32 dest src slen flags)"

definition apr_pdecode_base32_binary :: "byte list option \<Rightarrow> slen \<Rightarrow> u32 \<Rightarrow> pooled" where
  "apr_pdecode_base32_binary src slen flags =
     pooled_call 1 (\<lambda>dest. apr_decode_base32_binary dest src slen flags)"

section \<open>Base 16\<close>

subsection \<open>Encoding\<close>

text \<open>The loop condition \<open>(APR_ENCODE_STRING == slen) ? in[size] : size < slen\<close>.\<close>

definition more16 :: "byte list \<Rightarrow> slen \<Rightarrow> nat \<Rightarrow> bool" where
  "more16 src slen i = (case slen of APR_ENCODE_STRING \<Rightarrow> src ! i \<noteq> 0 | Slen n \<Rightarrow> i < n)"

function encode16_loop :: "byte list \<Rightarrow> u32 \<Rightarrow> byte list \<Rightarrow> slen \<Rightarrow> nat \<Rightarrow> byte list option" where
  "encode16_loop base flags src slen i =
     (if i < length src then
        (if more16 src slen i then
           (case encode16_loop base flags src slen (i + 1) of
              None \<Rightarrow> None
            | Some out \<Rightarrow>
                Some ((if has_flag flags APR_ENCODE_COLON \<and> i \<noteq> 0 then [58] else []) @
                      [base ! unat (shr 4 (uchar_int (src ! i))), base ! unat (uchar_int (src ! i) AND 0xf)] @
                      out))
         else Some [])
      else (case slen of APR_ENCODE_STRING \<Rightarrow> None | Slen n \<Rightarrow> if i < n then None else Some []))"
  by pat_completeness auto
termination
  by (relation "measure (\<lambda>(base, flags, src, slen, i). length src - i)") auto

declare encode16_loop.simps [simp del]

definition encode16_main :: "bool \<Rightarrow> byte list \<Rightarrow> slen \<Rightarrow> u32 \<Rightarrow> coding option" where
  "encode16_main dest src slen flags =
     (if dest then
        (let base = (if has_flag flags APR_ENCODE_LOWER then base16lower else base16) in
         case encode16_loop base flags src slen 0 of
           None \<Rightarrow> None
         | Some out \<Rightarrow> Some (APR_SUCCESS, out @ [0], Some (length out)))
      else
        (case read_len src slen of
           None \<Rightarrow> None
         | Some n \<Rightarrow>
             Some (APR_SUCCESS, [], Some (if has_flag flags APR_ENCODE_COLON \<and> n \<noteq> 0 then n * 3 else n * 2 + 1))))"

definition apr_encode_base16 :: "bool \<Rightarrow> byte list option \<Rightarrow> slen \<Rightarrow> u32 \<Rightarrow> coding option" where
  "apr_encode_base16 dest src slen flags =
     (case src of
        None \<Rightarrow> Some (APR_NOTFOUND, [], None)
      | Some m \<Rightarrow> encode16_main dest m slen flags)"

definition apr_encode_base16_binary :: "bool \<Rightarrow> byte list option \<Rightarrow> nat \<Rightarrow> u32 \<Rightarrow> coding option" where
  "apr_encode_base16_binary dest src slen flags =
     (case src of
        None \<Rightarrow> Some (APR_NOTFOUND, [], None)
      | Some m \<Rightarrow> encode16_main dest m (Slen slen) flags)"

definition apr_pencode_base16 :: "byte list option \<Rightarrow> slen \<Rightarrow> u32 \<Rightarrow> pooled" where
  "apr_pencode_base16 src slen flags = pooled_call 0 (\<lambda>dest. apr_encode_base16 dest src slen flags)"

definition apr_pencode_base16_binary :: "byte list option \<Rightarrow> nat \<Rightarrow> u32 \<Rightarrow> pooled" where
  "apr_pencode_base16_binary src slen flags =
     pooled_call 0 (\<lambda>dest. apr_encode_base16_binary dest src slen flags)"

subsection \<open>Decoding\<close>

definition d16 :: "byte \<Rightarrow> byte \<Rightarrow> byte" where
  "d16 a b = ucast (push_bit 4 (pri pr2two a) OR pri pr2two b)"

text \<open>The decoding loop: the bytes and whether one character is left over.\<close>

function decode16_loop :: "byte list \<Rightarrow> nat \<Rightarrow> nat \<Rightarrow> byte list \<times> bool" where
  "decode16_loop src bufin nprbytes =
     (if 2 \<le> nprbytes then
        (if pr pr2two (src ! bufin) > 16 then decode16_loop src (bufin + 1) (nprbytes - 1)
         else
           (let (out, bad) = decode16_loop src (bufin + 2) (nprbytes - 2)
            in (d16 (src ! bufin) (src ! (bufin + 1)) # out, bad)))
      else ([], nprbytes = 1))"
  by pat_completeness auto
termination
  by (relation "measure (\<lambda>(src, bufin, nprbytes). nprbytes)") auto

declare decode16_loop.simps [simp del]

text \<open>The same loop for a NULL destination, which only counts.\<close>

function count16_loop :: "byte list \<Rightarrow> nat \<Rightarrow> nat \<Rightarrow> nat \<Rightarrow> nat \<times> bool" where
  "count16_loop src bufin nprbytes cnt =
     (if 2 \<le> nprbytes then
        (if pr pr2two (src ! bufin) > 16 then count16_loop src (bufin + 1) (nprbytes - 1) cnt
         else count16_loop src (bufin + 2) (nprbytes - 2) (cnt + 1))
      else (cnt, nprbytes = 1))"
  by pat_completeness auto
termination
  by (relation "measure (\<lambda>(src, bufin, nprbytes, cnt). nprbytes)") auto

declare count16_loop.simps [simp del]

text \<open>\<open>z\<close> is the terminating zero the string variant adds.\<close>

definition decode16_main :: "byte list \<Rightarrow> bool \<Rightarrow> byte list \<Rightarrow> nat \<Rightarrow> u32 \<Rightarrow> coding option" where
  "decode16_main z dest src slen flags =
     (case scan_source (\<lambda>c. pr pr2two c \<noteq> 16) (\<lambda>c. pr pr2two c > 16) src slen flags of
        None \<Rightarrow> None
      | Some (nprbytes, status) \<Rightarrow>
          (if dest then
             (let (out, bad) = decode16_loop src 0 nprbytes
              in Some (if bad then APR_BADCH else status, out @ z, Some (length out)))
           else
             (let (cnt, bad) = count16_loop src 0 nprbytes 0
              in Some (if bad then APR_BADCH else status, [], Some (cnt + length z)))))"

definition apr_decode_base16 :: "bool \<Rightarrow> byte list option \<Rightarrow> slen \<Rightarrow> u32 \<Rightarrow> coding option" where
  "apr_decode_base16 dest src slen flags =
     (case src of
        None \<Rightarrow> Some (APR_NOTFOUND, [], None)
      | Some m \<Rightarrow>
          (case read_len m slen of
             None \<Rightarrow> None
           | Some n \<Rightarrow> decode16_main [0] dest m n flags))"

definition apr_decode_base16_binary :: "bool \<Rightarrow> byte list option \<Rightarrow> slen \<Rightarrow> u32 \<Rightarrow> coding option" where
  "apr_decode_base16_binary dest src slen flags =
     (case src of
        None \<Rightarrow> Some (APR_NOTFOUND, [], None)
      | Some m \<Rightarrow>
          (case read_len m slen of
             None \<Rightarrow> None
           | Some n \<Rightarrow> decode16_main [] dest m n flags))"

definition apr_pdecode_base16 :: "byte list option \<Rightarrow> slen \<Rightarrow> u32 \<Rightarrow> pooled" where
  "apr_pdecode_base16 src slen flags = pooled_call 0 (\<lambda>dest. apr_decode_base16 dest src slen flags)"

definition apr_pdecode_base16_binary :: "byte list option \<Rightarrow> slen \<Rightarrow> u32 \<Rightarrow> pooled" where
  "apr_pdecode_base16_binary src slen flags =
     pooled_call 1 (\<lambda>dest. apr_decode_base16_binary dest src slen flags)"

section \<open>Fields of a byte\<close>

text \<open>
  Both ways to load a character agree on its eight bits; everything the encoders compute depends on
  these only.
\<close>

locale byte_load =
  fixes ld :: "byte \<Rightarrow> u32"
  assumes bit_ld: "i < 8 \<Longrightarrow> bit (ld c) i \<longleftrightarrow> bit c i"
begin

lemma field:
  assumes "n + m \<le> 8"
  shows "shr n (ld c) AND mask m = of_nat (unat c div 2 ^ n mod 2 ^ m)"
proof -
  have "shr n (ld c) AND mask m = ucast (take_bit m (drop_bit n c))"
    using assms
    by (intro bit_word_eqI) (auto simp: shr_def bit_ld bit_simps)
  also have "\<dots> = of_nat (unat (take_bit m (drop_bit n c)))" by simp
  also have "unat (take_bit m (drop_bit n c)) = unat c div 2 ^ n mod 2 ^ m"
    unfolding unsigned_take_bit_eq unat_drop_bit_eq by (simp add: take_bit_eq_mod drop_bit_eq_div)
  finally show ?thesis .
qed

lemma field0: "m \<le> 8 \<Longrightarrow> ld c AND mask m = of_nat (unat c mod 2 ^ m)"
  using field [of 0 m c] by (simp add: shr_def)

lemma field_up:
  assumes "n + m \<le> 8"
  shows "shr n (ld c AND push_bit n (mask m)) = of_nat (unat c div 2 ^ n mod 2 ^ m)"
proof -
  have "shr n (ld c AND push_bit n (mask m)) = shr n (ld c) AND mask m"
    using assms by (intro bit_word_eqI) (auto simp: shr_def bit_simps)
  then show ?thesis by (simp add: field [OF assms])
qed

end

interpretation char_load: byte_load char_int
  by unfold_locales (simp add: char_int_def bit_simps)

interpretation uchar_load: byte_load uchar_int
  by unfold_locales (simp add: uchar_int_def bit_simps)

lemma or_fields:
  "y < 2 ^ k \<Longrightarrow> (of_nat (x * 2 ^ k) :: u32) OR of_nat y = of_nat (x * 2 ^ k + y)"
proof -
  assume y: "y < 2 ^ k"
  have "x * 2 ^ k OR y = x * 2 ^ k + y"
  proof -
    have "\<not> bit (push_bit k x) i \<or> \<not> bit y i" for i
    proof (cases "i < k")
      case True
      then show ?thesis by (simp add: bit_push_bit_iff_nat)
    next
      case False
      then have "y < 2 ^ i" using y by (meson less_le_trans not_less one_le_numeral power_increasing)
      then show ?thesis by (simp add: bit_iff_odd [of y])
    qed
    then show ?thesis using disjunctive_add [of "push_bit k x" y] by (simp add: push_bit_eq_mult)
  qed
  then show ?thesis by (metis of_nat_or_eq)
qed

lemma masks: "(0x3F :: u32) = mask 6" "(0x1F :: u32) = mask 5" "(0xF :: u32) = mask 4"
  "(0x7 :: u32) = mask 3" "(0x3 :: u32) = mask 2" "(0x1 :: u32) = mask 1"
  "(0xF0 :: u32) = push_bit 4 (mask 4)" "(0xC0 :: u32) = push_bit 6 (mask 2)"
  "(0x1C :: u32) = push_bit 2 (mask 3)" "(0x10 :: u32) = push_bit 4 (mask 1)"
  "(0x1E :: u32) = push_bit 1 (mask 4)" "(0x18 :: u32) = push_bit 3 (mask 2)"
  by (simp_all add: mask_eq_exp_minus_1)


lemma unat_byte: "unat (c :: byte) < 256"
  using unsigned_less [of c, where 'a = nat] by simp

lemma push_field: "push_bit k (of_nat x :: u32) = of_nat (x * 2 ^ k)"
  by (simp add: push_bit_eq_mult)

lemma unat_small: "x < 2 ^ 32 \<Longrightarrow> unat (of_nat x :: u32) = x"
  by (simp add: unsigned_of_nat take_bit_nat_eq_self)

lemma byte_div_mod: "k + l = 8 \<Longrightarrow> unat (c :: byte) div 2 ^ k mod 2 ^ l = unat c div 2 ^ k"
proof -
  assume kl: "k + l = 8"
  have "unat c div 2 ^ k < 2 ^ l"
    using unat_byte [of c] kl by (simp add: less_mult_imp_div_less flip: power_add add: add.commute)
  then show ?thesis by simp
qed

text \<open>The indexes into the alphabet, as numbers.\<close>

context byte_load
begin

lemma index_fields:
  assumes "n + m \<le> 8" "m' \<le> 8" "k \<le> 8" "m \<le> k"
  shows "unat (push_bit k (ld x AND mask m') OR of_nat (unat y div 2 ^ n mod 2 ^ m)) =
    unat x mod 2 ^ m' * 2 ^ k + unat y div 2 ^ n mod 2 ^ m"
proof -
  have lt: "unat y div 2 ^ n mod 2 ^ m < 2 ^ k"
    using assms(4) by (meson less_le_trans mod_less_divisor one_le_numeral power_increasing zero_less_numeral
        zero_less_power)
  have "push_bit k (ld x AND mask m') OR of_nat (unat y div 2 ^ n mod 2 ^ m) =
      of_nat (unat x mod 2 ^ m' * 2 ^ k + unat y div 2 ^ n mod 2 ^ m)"
    using assms(2) lt by (simp only: field0 push_field or_fields)
  moreover have "unat x mod 2 ^ m' * 2 ^ k + unat y div 2 ^ n mod 2 ^ m < 2 ^ 32"
  proof -
    have a: "unat x mod 2 ^ m' < 256" using unat_byte [of x] by (meson le_less_trans mod_less_eq_dividend)
    have b: "(2 :: nat) ^ k \<le> 2 ^ 8" using assms(3) by (intro power_increasing) simp_all
    have "unat x mod 2 ^ m' * 2 ^ k + unat y div 2 ^ n mod 2 ^ m < 256 * 256 + 256"
      using a b lt by (intro add_le_less_mono mult_le_mono) auto
    then show ?thesis by simp
  qed
  ultimately show ?thesis by (metis unat_small)
qed

lemma unat_field:
  assumes "n + m \<le> 8"
  shows "unat (shr n (ld c) AND mask m) = unat c div 2 ^ n mod 2 ^ m"
proof -
  have "unat c div 2 ^ n mod 2 ^ m \<le> unat c"
    by (meson div_le_dividend le_trans mod_less_eq_dividend)
  then have "unat c div 2 ^ n mod 2 ^ m < 2 ^ 32" using unat_byte [of c] by simp
  then show ?thesis by (simp only: field [OF assms] unat_small)
qed

lemma unat_field_top: "n + m = 8 \<Longrightarrow> unat (shr n (ld c) AND mask m) = unat c div 2 ^ n"
  using unat_field [of n m c] byte_div_mod [of n m c] by simp

lemma unat_field0: "m \<le> 8 \<Longrightarrow> unat (ld c AND mask m) = unat c mod 2 ^ m"
  using unat_field [of 0 m c] by (simp add: shr_def)

lemma unat_push_field:
  assumes "m \<le> 8" "k \<le> 8"
  shows "unat (push_bit k (ld c AND mask m)) = unat c mod 2 ^ m * 2 ^ k"
    "unat (push_bit k (ld c) AND push_bit k (mask m)) = unat c mod 2 ^ m * 2 ^ k"
  using index_fields [of 0 0 m k c c] assms by (simp_all add: push_bit_and)

lemma unat_two_fields:
  assumes "n + m = 8" "m' \<le> 8" "k \<le> 8" "m \<le> k"
  shows "unat (push_bit k (ld x AND mask m') OR shr n (ld y AND push_bit n (mask m))) =
      unat x mod 2 ^ m' * 2 ^ k + unat y div 2 ^ n"
    "unat ((push_bit k (ld x) AND push_bit k (mask m')) OR (shr n (ld y) AND mask m)) =
      unat x mod 2 ^ m' * 2 ^ k + unat y div 2 ^ n"
  using index_fields [of n m m' k x y] assms byte_div_mod [of n m y]
  by (simp_all add: push_bit_and field field_up)

lemma b64_index:
  "b64_1 ld base x = base ! (unat x div 4)"
  "b64_2 ld base x y = base ! (unat x mod 4 * 16 + unat y div 16)"
  "b64_3 ld base y z = base ! (unat y mod 16 * 4 + unat z div 64)"
  "b64_4 ld base z = base ! (unat z mod 64)"
  "b64_2_end ld base x = base ! (unat x mod 4 * 16)"
  "b64_3_end ld base y = base ! (unat y mod 16 * 4)"
  unfolding b64_1_def b64_2_def b64_3_def b64_4_def b64_2_end_def b64_3_end_def masks
  subgoal by (subst unat_field_top) simp_all
  subgoal by (subst unat_two_fields(1)) simp_all
  subgoal by (subst unat_two_fields(1)) simp_all
  subgoal by (subst unat_field0) simp_all
  subgoal by (subst unat_push_field(1)) simp_all
  subgoal by (subst unat_push_field(1)) simp_all
  done

lemma b32_index:
  "b32_1 ld base a = base ! (unat a div 8)"
  "b32_2 ld base a b = base ! (unat a mod 8 * 4 + unat b div 64)"
  "b32_3 ld base b = base ! (unat b div 2 mod 32)"
  "b32_4 ld base b c = base ! (unat b mod 2 * 16 + unat c div 16)"
  "b32_5 ld base c d = base ! (unat c mod 16 * 2 + unat d div 128)"
  "b32_6 ld base d = base ! (unat d div 4 mod 32)"
  "b32_7 ld base d e = base ! (unat d mod 4 * 8 + unat e div 32)"
  "b32_8 ld base e = base ! (unat e mod 32)"
  unfolding b32_1_def b32_2_def b32_3_def b32_4_def b32_5_def b32_6_def b32_7_def b32_8_def masks
  subgoal by (subst unat_field_top) simp_all
  subgoal by (subst unat_two_fields(2)) simp_all
  subgoal by (subst unat_field) simp_all
  subgoal by (subst unat_two_fields(2)) simp_all
  subgoal by (subst unat_two_fields(2)) simp_all
  subgoal by (subst unat_field) simp_all
  subgoal by (subst unat_two_fields(2)) simp_all
  subgoal by (subst unat_field0) simp_all
  done

lemma b32_end_index:
  "b32_2_end ld base a = base ! (unat a mod 8 * 4)"
  "b32_4_end ld base b = base ! (unat b mod 2 * 16)"
  "b32_5_end ld base c = base ! (unat c mod 16 * 2)"
  "b32_7_end ld base d = base ! (unat d mod 4 * 8)"
  unfolding b32_2_end_def b32_4_end_def b32_5_end_def b32_7_end_def masks
  by (subst unat_push_field(2); simp)+

end

section \<open>The encodings of RFC 4648\<close>

text \<open>The \<open>k\<close> most significant digits of a number to the given base, most significant first.\<close>

fun digits :: "nat \<Rightarrow> nat \<Rightarrow> nat \<Rightarrow> nat list" where
  "digits b 0 v = []"
| "digits b (Suc k) v = digits b k (v div b) @ [v mod b]"

text \<open>
  The groups of the RFC: three bytes are a 24-bit number of four base-64 digits; a final group of one or
  two bytes is filled with zero bits up to a multiple of six. Likewise for five bytes in base 32.
\<close>

fun digits64 :: "byte list \<Rightarrow> nat list" where
  "digits64 (x # y # z # r) = digits 64 4 ((unat x * 256 + unat y) * 256 + unat z) @ digits64 r"
| "digits64 [x, y] = digits 64 3 ((unat x * 256 + unat y) * 4)"
| "digits64 [x] = digits 64 2 (unat x * 16)"
| "digits64 [] = []"

definition padlen64 :: "byte list \<Rightarrow> nat" where
  "padlen64 xs = (3 - length xs mod 3) mod 3"

fun digits32 :: "byte list \<Rightarrow> nat list" where
  "digits32 (a # b # c # d # e # r) =
     digits 32 8 ((((unat a * 256 + unat b) * 256 + unat c) * 256 + unat d) * 256 + unat e) @ digits32 r"
| "digits32 [a, b, c, d] = digits 32 7 ((((unat a * 256 + unat b) * 256 + unat c) * 256 + unat d) * 8)"
| "digits32 [a, b, c] = digits 32 5 (((unat a * 256 + unat b) * 256 + unat c) * 2)"
| "digits32 [a, b] = digits 32 4 ((unat a * 256 + unat b) * 16)"
| "digits32 [a] = digits 32 2 (unat a * 4)"
| "digits32 [] = []"

definition padlen32 :: "byte list \<Rightarrow> nat" where
  "padlen32 xs = [0, 6, 4, 3, 1] ! (length xs mod 5)"

lemma length_digits [simp]: "length (digits b k v) = k"
  by (induction b k v rule: digits.induct) auto

lemma digits_less: "0 < b \<Longrightarrow> \<forall>d \<in> set (digits b k v). d < b"
  by (induction b k v rule: digits.induct) auto

lemma digits_small:
  "digits b 2 v = [v div b mod b, v mod b]"
  "digits b 3 v = [v div b div b mod b, v div b mod b, v mod b]"
  "digits b 4 v = [v div b div b div b mod b, v div b div b mod b, v div b mod b, v mod b]"
  by (simp_all add: numeral_eq_Suc)

lemma digits_more:
  "digits b 5 v = digits b 4 (v div b) @ [v mod b]"
  "digits b 7 v = digits b 5 (v div b div b) @ [v div b mod b, v mod b]"
  "digits b 8 v = digits b 7 (v div b) @ [v mod b]"
  by (simp_all add: numeral_eq_Suc)

lemma shift_div:
  fixes r :: nat
  assumes "r < m" "n * m = k"
  shows "(h * m + r) div k = h div n"
proof -
  have "(h * m + r) div (m * n) = (h * m + r) div m div n" by (rule div_mult2_eq)
  moreover have "(h * m + r) div m = h" using assms(1) by simp
  ultimately show ?thesis using assms(2) by (simp add: mult.commute)
qed

lemma shift_mod:
  fixes r :: nat
  assumes "r < m" "n * m = k"
  shows "(h * m + r) mod k = h mod n * m + r"
proof -
  have "(h * m + r) mod (m * n) = m * ((h * m + r) div m mod n) + (h * m + r) mod m"
    by (rule mod_mult2_eq)
  moreover have "(h * m + r) div m = h" "(h * m + r) mod m = r" using assms(1) by simp_all
  ultimately show ?thesis using assms(2) by (simp add: mult.commute)
qed

lemma byte_div:
  fixes y :: nat
  assumes "k * l = m" "0 < k"
  shows "(h * m + y) div k = h * l + y div k"
proof -
  have "(h * (k * l) + y) div k = (y + (h * l) * k) div k" by (simp add: ac_simps)
  also have "\<dots> = h * l + y div k" using assms(2) by (rule div_mult_self1 [OF less_imp_neq [THEN not_sym]])
  finally show ?thesis by (simp only: assms)
qed

lemma byte_mod:
  fixes y :: nat
  assumes "k * l = m"
  shows "(h * m + y) mod k = y mod k"
proof -
  have "(h * (k * l) + y) mod k = (y + (h * l) * k) mod k" by (simp add: ac_simps)
  also have "\<dots> = y mod k" by (rule mod_mult_self1)
  finally show ?thesis by (simp only: assms)
qed

lemma digits_64_24:
  assumes "x < 256" "y < 256" "z < 256"
  shows "digits 64 4 ((x * 256 + y) * 256 + z) =
    [x div 4, x mod 4 * 16 + y div 16, y mod 16 * 4 + z div 64, z mod 64]"
proof -
  let ?w = "x * 256 + y"
  have 1: "(?w * 256 + z) div 64 = ?w * 4 + z div 64" by (rule byte_div) simp_all
  have 2: "(?w * 4 + z div 64) mod 64 = ?w mod 16 * 4 + z div 64" "(?w * 4 + z div 64) div 64 = ?w div 16"
    using assms(3) by (intro shift_mod shift_div; simp)+
  have 3: "?w mod 16 = y mod 16" "?w div 16 = x * 16 + y div 16"
    by (rule byte_mod [where l = 16], simp, rule byte_div [where l = 16], simp_all)
  have 4: "(x * 16 + y div 16) mod 64 = x mod 4 * 16 + y div 16" "(x * 16 + y div 16) div 64 = x div 4"
    using assms(2) by (intro shift_mod shift_div; simp)+
  have 5: "(?w * 256 + z) mod 64 = z mod 64" by (rule byte_mod [where l = 4]) simp
  show ?thesis using assms(1) by (simp only: digits_small 1 2 3 4 5) simp
qed


lemma digits_32_40:
  assumes "a < 256" "b < 256" "c < 256" "d < 256" "e < 256"
  shows "digits 32 8 ((((a * 256 + b) * 256 + c) * 256 + d) * 256 + e) =
    [a div 8, a mod 8 * 4 + b div 64, b div 2 mod 32, b mod 2 * 16 + c div 16,
     c mod 16 * 2 + d div 128, d div 4 mod 32, d mod 4 * 8 + e div 32, e mod 32]"
proof -
  let ?s = "a * 256 + b"
  let ?t = "?s * 256 + c"
  let ?w = "?t * 256 + d"
  have 1: "(?w * 256 + e) mod 32 = e mod 32" "(?w * 256 + e) div 32 = ?w * 8 + e div 32"
    by (rule byte_mod [where l = 8], simp, rule byte_div [where l = 8], simp_all)
  have 2: "(?w * 8 + e div 32) mod 32 = ?w mod 4 * 8 + e div 32" "(?w * 8 + e div 32) div 32 = ?w div 4"
    using assms(5) by (intro shift_mod shift_div; simp)+
  have 3: "?w mod 4 = d mod 4" "?w div 4 = ?t * 64 + d div 4"
    by (rule byte_mod [where l = 64], simp, rule byte_div [where l = 64], simp_all)
  have 4: "(?t * 64 + d div 4) mod 32 = d div 4 mod 32" "(?t * 64 + d div 4) div 32 = ?t * 2 + d div 128"
    using byte_mod [of 32 2 64 ?t "d div 4"] byte_div [of 32 2 64 ?t "d div 4"] div_mult2_eq [of d 4 32]
    by simp_all
  have 5: "(?t * 2 + d div 128) mod 32 = ?t mod 16 * 2 + d div 128" "(?t * 2 + d div 128) div 32 = ?t div 16"
    using assms(4) by (intro shift_mod shift_div; simp)+
  have 6: "?t mod 16 = c mod 16" "?t div 16 = ?s * 16 + c div 16"
    by (rule byte_mod [where l = 16], simp, rule byte_div [where l = 16], simp_all)
  have 7: "(?s * 16 + c div 16) mod 32 = ?s mod 2 * 16 + c div 16" "(?s * 16 + c div 16) div 32 = ?s div 2"
    using assms(3) by (intro shift_mod shift_div; simp)+
  have 8: "?s mod 2 = b mod 2" "?s div 2 = a * 128 + b div 2"
    by (rule byte_mod [where l = 128], simp, rule byte_div [where l = 128], simp_all)
  have 9: "(a * 128 + b div 2) mod 32 = b div 2 mod 32" "(a * 128 + b div 2) div 32 = a * 4 + b div 64"
    using byte_mod [of 32 4 128 a "b div 2"] byte_div [of 32 4 128 a "b div 2"] div_mult2_eq [of b 2 32]
    by simp_all
  have 10: "(a * 4 + b div 64) mod 32 = a mod 8 * 4 + b div 64" "(a * 4 + b div 64) div 32 = a div 8"
    using assms(2) by (intro shift_mod shift_div; simp)+
  have 11: "a div 8 mod 32 = a div 8" using assms(1) by simp
  show ?thesis by (simp only: digits_small digits_more 1 2 3 4 5 6 7 8 9 10 11 append.simps)
qed

text \<open>The digits of the final groups, as those of a full group of which zero bytes are cut off.\<close>

lemma digits_cut:
  "digits b 3 (v div b) = take 3 (digits b 4 v)"
  "digits b 2 (v div b div b) = take 2 (digits b 4 v)"
  "digits b 7 (v div b) = take 7 (digits b 8 v)"
  "digits b 5 (v div b div b div b) = take 5 (digits b 8 v)"
  "digits b 4 (v div b div b div b div b) = take 4 (digits b 8 v)"
  "digits b 2 (v div b div b div b div b div b div b) = take 2 (digits b 8 v)"
  by (simp_all add: digits_small digits_more)

lemma digits_64_16:
  assumes "x < 256" "y < 256"
  shows "digits 64 3 ((x * 256 + y) * 4) = [x div 4, x mod 4 * 16 + y div 16, y mod 16 * 4]"
proof -
  have "(x * 256 + y) * 4 = ((x * 256 + y) * 256 + 0) div 64" by simp
  then have "digits 64 3 ((x * 256 + y) * 4) = take 3 (digits 64 4 ((x * 256 + y) * 256 + 0))"
    by (simp only: digits_cut)
  then show ?thesis using digits_64_24 [OF assms, of 0] by simp
qed

lemma digits_64_8:
  assumes "x < 256"
  shows "digits 64 2 (x * 16) = [x div 4, x mod 4 * 16]"
proof -
  have "x * 16 = ((x * 256 + 0) * 256 + 0) div 64 div 64" by simp
  then have "digits 64 2 (x * 16) = take 2 (digits 64 4 ((x * 256 + 0) * 256 + 0))"
    by (simp only: digits_cut)
  then show ?thesis using digits_64_24 [OF assms, of 0 0] by simp
qed

lemma digits_32_32:
  assumes "a < 256" "b < 256" "c < 256" "d < 256"
  shows "digits 32 7 ((((a * 256 + b) * 256 + c) * 256 + d) * 8) =
    [a div 8, a mod 8 * 4 + b div 64, b div 2 mod 32, b mod 2 * 16 + c div 16,
     c mod 16 * 2 + d div 128, d div 4 mod 32, d mod 4 * 8]"
proof -
  let ?v = "((((a * 256 + b) * 256 + c) * 256 + d) * 256 + 0)"
  have "(((a * 256 + b) * 256 + c) * 256 + d) * 8 = ?v div 32" by simp
  then have "digits 32 7 ((((a * 256 + b) * 256 + c) * 256 + d) * 8) = take 7 (digits 32 8 ?v)"
    by (simp only: digits_cut)
  then show ?thesis using digits_32_40 [OF assms, of 0] by simp
qed

lemma digits_32_24:
  assumes "a < 256" "b < 256" "c < 256"
  shows "digits 32 5 (((a * 256 + b) * 256 + c) * 2) =
    [a div 8, a mod 8 * 4 + b div 64, b div 2 mod 32, b mod 2 * 16 + c div 16, c mod 16 * 2]"
proof -
  let ?v = "((((a * 256 + b) * 256 + c) * 256 + 0) * 256 + 0)"
  have "((a * 256 + b) * 256 + c) * 2 = ?v div 32 div 32 div 32" by simp
  then have "digits 32 5 (((a * 256 + b) * 256 + c) * 2) = take 5 (digits 32 8 ?v)"
    by (simp only: digits_cut)
  then show ?thesis using digits_32_40 [OF assms, of 0 0] by simp
qed

lemma digits_32_16:
  assumes "a < 256" "b < 256"
  shows "digits 32 4 ((a * 256 + b) * 16) =
    [a div 8, a mod 8 * 4 + b div 64, b div 2 mod 32, b mod 2 * 16]"
proof -
  let ?v = "((((a * 256 + b) * 256 + 0) * 256 + 0) * 256 + 0)"
  have "(a * 256 + b) * 16 = ?v div 32 div 32 div 32 div 32" by simp
  then have "digits 32 4 ((a * 256 + b) * 16) = take 4 (digits 32 8 ?v)"
    by (simp only: digits_cut)
  then show ?thesis using digits_32_40 [OF assms, of 0 0 0] by simp
qed

lemma digits_32_8:
  assumes "a < 256"
  shows "digits 32 2 (a * 4) = [a div 8, a mod 8 * 4]"
proof -
  let ?v = "((((a * 256 + 0) * 256 + 0) * 256 + 0) * 256 + 0)"
  have "a * 4 = ?v div 32 div 32 div 32 div 32 div 32 div 32" by simp
  then have "digits 32 2 (a * 4) = take 2 (digits 32 8 ?v)" by (simp only: digits_cut(6))
  then show ?thesis using digits_32_40 [OF assms, of 0 0 0 0] by simp
qed

lemmas digits_64 = digits_64_24 [OF unat_byte unat_byte unat_byte] digits_64_16 [OF unat_byte unat_byte]
  digits_64_8 [OF unat_byte]

lemmas digits_32 = digits_32_40 [OF unat_byte unat_byte unat_byte unat_byte unat_byte]
  digits_32_32 [OF unat_byte unat_byte unat_byte unat_byte] digits_32_24 [OF unat_byte unat_byte unat_byte]
  digits_32_16 [OF unat_byte unat_byte] digits_32_8 [OF unat_byte]

section \<open>The encoders compute the encodings of the RFC\<close>

definition text64 :: "byte list \<Rightarrow> byte list \<Rightarrow> byte list" where
  "text64 base xs = map ((!) base) (digits64 xs)"

definition text32 :: "byte list \<Rightarrow> byte list \<Rightarrow> byte list" where
  "text32 base xs = map ((!) base) (digits32 xs)"

lemma text64_simps [simp]:
  "text64 base (x # y # z # r) =
     [base ! (unat x div 4), base ! (unat x mod 4 * 16 + unat y div 16),
      base ! (unat y mod 16 * 4 + unat z div 64), base ! (unat z mod 64)] @ text64 base r"
  "text64 base [x, y] =
     [base ! (unat x div 4), base ! (unat x mod 4 * 16 + unat y div 16), base ! (unat y mod 16 * 4)]"
  "text64 base [x] = [base ! (unat x div 4), base ! (unat x mod 4 * 16)]"
  "text64 base [] = []"
  by (simp_all only: text64_def digits64.simps digits_64 map_append list.map)

lemma text32_simps [simp]:
  "text32 base (a # b # c # d # e # r) =
     [base ! (unat a div 8), base ! (unat a mod 8 * 4 + unat b div 64), base ! (unat b div 2 mod 32),
      base ! (unat b mod 2 * 16 + unat c div 16), base ! (unat c mod 16 * 2 + unat d div 128),
      base ! (unat d div 4 mod 32), base ! (unat d mod 4 * 8 + unat e div 32), base ! (unat e mod 32)] @
     text32 base r"
  "text32 base [a, b, c, d] =
     [base ! (unat a div 8), base ! (unat a mod 8 * 4 + unat b div 64), base ! (unat b div 2 mod 32),
      base ! (unat b mod 2 * 16 + unat c div 16), base ! (unat c mod 16 * 2 + unat d div 128),
      base ! (unat d div 4 mod 32), base ! (unat d mod 4 * 8)]"
  "text32 base [a, b, c] =
     [base ! (unat a div 8), base ! (unat a mod 8 * 4 + unat b div 64), base ! (unat b div 2 mod 32),
      base ! (unat b mod 2 * 16 + unat c div 16), base ! (unat c mod 16 * 2)]"
  "text32 base [a, b] =
     [base ! (unat a div 8), base ! (unat a mod 8 * 4 + unat b div 64), base ! (unat b div 2 mod 32),
      base ! (unat b mod 2 * 16)]"
  "text32 base [a] = [base ! (unat a div 8), base ! (unat a mod 8 * 4)]"
  "text32 base [] = []"
  by (simp_all only: text32_def digits32.simps digits_32 map_append list.map)

lemma padlen64_simps [simp]:
  "padlen64 [] = 0" "padlen64 [x] = 2" "padlen64 [x, y] = 1" "padlen64 (x # y # z # r) = padlen64 r"
  by (simp_all add: padlen64_def)

lemma padlen32_simps [simp]:
  "padlen32 [] = 0" "padlen32 [a] = 6" "padlen32 [a, b] = 4" "padlen32 [a, b, c] = 3"
  "padlen32 [a, b, c, d] = 1"
  by (simp_all add: padlen32_def)

lemma padlen32_step [simp]: "padlen32 (a # b # c # d # e # r) = padlen32 r"
proof -
  have "length (a # b # c # d # e # r) mod 5 = (length r + 5) mod 5" by simp
  then show ?thesis unfolding padlen32_def by (simp only: mod_add_self2)
qed

lemma pad_add: "pad flags m @ pad flags n = pad flags (m + n)"
  by (simp add: pad_def replicate_add)

lemma slice_step: "i < n \<Longrightarrow> n \<le> length xs \<Longrightarrow> drop i (take n xs) = xs ! i # drop (i + 1) (take n xs)"
  by (metis Suc_eq_plus1 Cons_nth_drop_Suc length_take min.absorb2 nth_take)

lemma slice_end: "drop n (take n xs) = []"
  by simp

context byte_load
begin

lemma encode64_loop_text:
  assumes "slen \<le> length src"
  shows "encode64_loop ld base flags src slen i =
    text64 base (drop i (take slen src)) @ pad flags (padlen64 (drop i (take slen src)))"
proof (induction "slen - i" arbitrary: i rule: less_induct)
  case less
  note st = slice_step [OF _ assms]
  consider "i + 2 < slen" | "i + 2 = slen" | "i + 1 = slen" | "slen \<le> i" by linarith
  then show ?case
  proof cases
    case 1
    then have "drop i (take slen src) =
        src ! i # src ! (i + 1) # src ! (i + 2) # drop (i + 3) (take slen src)"
      using st [of i] st [of "i + 1"] st [of "i + 2"] by (simp add: numeral_eq_Suc)
    with 1 less [of "i + 3"] show ?thesis
      by (simp add: encode64_loop.simps [of ld base flags src slen i] b64_index)
  next
    case 2
    then have "drop i (take slen src) = [src ! i, src ! (i + 1)]"
      using st [of i] st [of "i + 1"] by simp
    with 2 show ?thesis
      by (simp add: encode64_loop.simps [of ld base flags src slen i] encode64_tail_def
          b64_index)
  next
    case 3
    then have "drop i (take slen src) = [src ! i]" using st [of i] by simp
    with 3 show ?thesis
      by (simp add: encode64_loop.simps [of ld base flags src slen i] encode64_tail_def
          b64_index pad_add numeral_2_eq_2)
  next
    case 4
    then show ?thesis
      by (simp add: encode64_loop.simps [of ld base flags src slen i] encode64_tail_def pad_def)
  qed
qed

lemma encode32_loop_text:
  assumes "slen \<le> length src"
  shows "encode32_loop ld base flags src slen i =
    text32 base (drop i (take slen src)) @ pad flags (padlen32 (drop i (take slen src)))"
proof (induction "slen - i" arbitrary: i rule: less_induct)
  case less
  note st = slice_step [OF _ assms]
  note unf = encode32_loop.simps [of ld base flags src slen i] encode32_tail_def
    b32_index b32_end_index
  consider "i + 4 < slen" | "i + 4 = slen" | "i + 3 = slen" | "i + 2 = slen" | "i + 1 = slen"
    | "slen \<le> i" by linarith
  then show ?case
  proof cases
    case 1
    then have "drop i (take slen src) = src ! i # src ! (i + 1) # src ! (i + 2) # src ! (i + 3) #
        src ! (i + 4) # drop (i + 5) (take slen src)"
      using st [of i] st [of "i + 1"] st [of "i + 2"] st [of "i + 3"] st [of "i + 4"]
      by (simp add: numeral_eq_Suc)
    with 1 less [of "i + 5"] show ?thesis by (simp add: unf)
  next
    case 2
    then have "drop i (take slen src) = [src ! i, src ! (i + 1), src ! (i + 2), src ! (i + 3)]"
      using st [of i] st [of "i + 1"] st [of "i + 2"] st [of "i + 3"] by (simp add: numeral_eq_Suc)
    with 2 show ?thesis by (simp add: unf)
  next
    case 3
    then have "drop i (take slen src) = [src ! i, src ! (i + 1), src ! (i + 2)]"
      using st [of i] st [of "i + 1"] st [of "i + 2"] by (simp add: numeral_eq_Suc)
    with 3 show ?thesis by (simp add: unf)
  next
    case 4
    then have "drop i (take slen src) = [src ! i, src ! (i + 1)]"
      using st [of i] st [of "i + 1"] by simp
    with 4 show ?thesis by (simp add: unf)
  next
    case 5
    then have "drop i (take slen src) = [src ! i]" using st [of i] by simp
    with 5 show ?thesis by (simp add: unf)
  next
    case 6
    then show ?thesis by (simp add: unf pad_def)
  qed
qed

end

section \<open>Alphabets\<close>

text \<open>
  What the decoders need of an alphabet and of the table that inverts it: the table gives the position
  of every character of the alphabet, a value above the size for the character that may be skipped (the
  padding, or the colon of base 16), and neither for the NUL.
\<close>

locale alphabet =
  fixes base tab :: "byte list" and n :: nat and skip :: byte
  assumes base_length: "length base = n"
    and tab_base: "i < n \<Longrightarrow> unat (pr tab (base ! i)) = i"
    and tab_skip: "n < unat (pr tab skip)"
    and tab_0: "unat (pr tab 0) = n"
begin

lemma tab_less: "i < n \<Longrightarrow> unat (pr tab (base ! i)) < n"
  by (simp add: tab_base)

lemma base_not_0: "i < n \<Longrightarrow> base ! i \<noteq> 0"
  using tab_base tab_0 by fastforce

end

lemma pos_all: "list_all P [0..<k] \<Longrightarrow> i < k \<Longrightarrow> P i"
  by (simp add: list_all_iff)

text \<open>The shifts of the decoders, as numbers.\<close>

lemma shr_pri: "shr k (pri tab c) = of_nat (unat (pr tab c) div 2 ^ k)"
proof -
  have "shr k (pri tab c) = ucast (drop_bit k (pr tab c))"
    by (intro bit_word_eqI) (auto simp: shr_def pri_def bit_simps dest: bit_imp_le_length)
  also have "\<dots> = of_nat (unat (drop_bit k (pr tab c)))" by simp
  also have "unat (drop_bit k (pr tab c)) = unat (pr tab c) div 2 ^ k"
    unfolding unat_drop_bit_eq by (simp add: drop_bit_eq_div)
  finally show ?thesis .
qed

lemma pri_nat: "pri tab c = of_nat (unat (pr tab c))"
  by (simp add: pri_def)

lemma push_pri: "push_bit k (pri tab c) = of_nat (unat (pr tab c) * 2 ^ k)"
  unfolding pri_nat by (rule push_field)

lemma ucast_nat: "(ucast (of_nat x :: u32) :: byte) = of_nat x"
  by (rule bit_word_eqI) (simp add: bit_simps)

lemma byte_of_nat_add: "(of_nat (k * 256 + unat c) :: byte) = c"
proof -
  have "(of_nat 256 :: byte) = 0" by simp
  then have "(of_nat (k * 256 + unat c) :: byte) = of_nat (unat c)"
    by (simp only: of_nat_add of_nat_mult) simp
  then show ?thesis by simp
qed

lemma or_pri:
  "y < 2 ^ k \<Longrightarrow> (ucast (push_bit k (pri t a) OR of_nat y) :: byte) = of_nat (unat (pr t a) * 2 ^ k + y)"
  by (simp only: push_pri or_fields ucast_nat)

lemma d64_numbers:
  "unat (pr pr2six b) < 64 \<Longrightarrow> d64_1 a b = of_nat (unat (pr pr2six a) * 4 + unat (pr pr2six b) div 16)"
  "unat (pr pr2six c) < 64 \<Longrightarrow> d64_2 b c = of_nat (unat (pr pr2six b) * 16 + unat (pr pr2six c) div 4)"
  "unat (pr pr2six d) < 64 \<Longrightarrow> d64_3 c d = of_nat (unat (pr pr2six c) * 64 + unat (pr pr2six d))"
  unfolding d64_1_def d64_2_def d64_3_def shr_pri
  subgoal by (subst or_pri) simp_all
  subgoal by (subst or_pri) simp_all
  subgoal unfolding pri_nat [of _ d] by (subst or_pri) simp_all
  done

lemma or_pri2:
  assumes "unat (pr t b) < 32" "y < 2 ^ l"
  shows "(ucast (push_bit (l + 5) (pri t a) OR push_bit l (pri t b) OR of_nat y) :: byte) =
    of_nat (unat (pr t a) * 2 ^ (l + 5) + (unat (pr t b) * 2 ^ l + y))"
proof -
  have "unat (pr t b) * 2 ^ l + y < (unat (pr t b) + 1) * 2 ^ l" using assms(2) by simp
  also have "\<dots> \<le> 32 * 2 ^ l" using assms(1) by (intro mult_le_mono) simp_all
  finally have "unat (pr t b) * 2 ^ l + y < 2 ^ (l + 5)" by (simp add: power_add mult.commute)
  moreover have "push_bit l (pri t b) OR of_nat y = of_nat (unat (pr t b) * 2 ^ l + y)"
    by (simp only: push_pri or_fields [OF assms(2)])
  ultimately show ?thesis by (simp only: or_pri)
qed

lemma d32_numbers:
  "unat (pr t b) < 32 \<Longrightarrow> d32_1 t a b = of_nat (unat (pr t a) * 8 + unat (pr t b) div 4)"
  "unat (pr t c) < 32 \<Longrightarrow> unat (pr t d) < 32 \<Longrightarrow>
     d32_2 t b c d = of_nat (unat (pr t b) * 64 + (unat (pr t c) * 2 + unat (pr t d) div 16))"
  "unat (pr t e) < 32 \<Longrightarrow> d32_3 t d e = of_nat (unat (pr t d) * 16 + unat (pr t e) div 2)"
  "unat (pr t f) < 32 \<Longrightarrow> unat (pr t g) < 32 \<Longrightarrow>
     d32_4 t e f g = of_nat (unat (pr t e) * 128 + (unat (pr t f) * 4 + unat (pr t g) div 8))"
  "unat (pr t h) < 32 \<Longrightarrow> d32_5 t g h = of_nat (unat (pr t g) * 32 + unat (pr t h))"
  unfolding d32_1_def d32_2_def d32_3_def d32_4_def d32_5_def shr_pri
  subgoal by (subst or_pri) simp_all
  subgoal using or_pri2 [of t c "unat (pr t d) div 2 ^ 4" 1 b] by simp
  subgoal by (subst or_pri) simp_all
  subgoal using or_pri2 [of t f "unat (pr t g) div 2 ^ 3" 2 e] by simp
  subgoal unfolding pri_nat [of _ h] by (subst or_pri) simp_all
  done

section \<open>Decoding what was encoded\<close>

lemma byte_bounds: "unat (c :: byte) div 4 < 64" "unat c div 16 < 16" "unat c div 64 < 4" "unat c div 8 < 32"
  "unat c div 32 < 8" "unat c div 128 < 2"
  using unat_byte [of c] by simp_all

lemma decode64_step:
  assumes "0 < k"
  shows "decode64_loop (ps @ a # b # c # d # t) (length ps) (4 + k) =
    (let (out, bad) = decode64_loop ((ps @ [a, b, c, d]) @ t) (length (ps @ [a, b, c, d])) k
     in ([d64_1 a b, d64_2 b c, d64_3 c d] @ out, bad))"
  using assms by (subst decode64_loop.simps) (simp add: nth_append Let_def numeral_eq_Suc)

lemma decode64_last:
  "decode64_loop src i 0 = ([], False)"
  "decode64_loop (ps @ a # b # t) (length ps) (Suc (Suc 0)) = ([d64_1 a b], False)"
  "decode64_loop (ps @ a # b # c # t) (length ps) (Suc (Suc (Suc 0))) = ([d64_1 a b, d64_2 b c], False)"
  "decode64_loop (ps @ a # b # c # d # t) (length ps) (Suc (Suc (Suc (Suc 0)))) =
     ([d64_1 a b, d64_2 b c, d64_3 c d], False)"
  by (subst decode64_loop.simps, simp add: nth_append)+

locale alphabet64 = alphabet base pr2six 64 61 for base
begin

lemma decode64_groups:
  "q < 16 \<Longrightarrow> d64_1 (base ! (unat x div 4)) (base ! (unat x mod 4 * 16 + q)) = x"
  "p < 4 \<Longrightarrow> r < 4 \<Longrightarrow> d64_2 (base ! (p * 16 + unat y div 16)) (base ! (unat y mod 16 * 4 + r)) = y"
  "p < 16 \<Longrightarrow> d64_3 (base ! (p * 4 + unat z div 64)) (base ! (unat z mod 64)) = z"
proof -
  assume q: "q < 16"
  have b: "unat x mod 4 * 16 + q < 64" using q mod_less_divisor [of 4 "unat x"] by linarith
  have "(unat x mod 4 * 16 + q) div 16 = unat x mod 4" using q by simp
  with b show "d64_1 (base ! (unat x div 4)) (base ! (unat x mod 4 * 16 + q)) = x"
    by (subst d64_numbers) (simp_all add: tab_base byte_bounds)
next
  assume p: "p < 4" and r: "r < 4"
  have b: "unat y mod 16 * 4 + r < 64" "p * 16 + unat y div 16 < 64"
    using p r mod_less_divisor [of 16 "unat y"] byte_bounds(2) [of y] by linarith+
  have "(p * 16 + unat y div 16) * 16 + (unat y mod 16 * 4 + r) div 4 = p * 256 + unat y"
    using r by simp
  with b show "d64_2 (base ! (p * 16 + unat y div 16)) (base ! (unat y mod 16 * 4 + r)) = y"
    by (subst d64_numbers) (simp_all only: tab_base byte_of_nat_add)
next
  assume p: "p < 16"
  have b: "p * 4 + unat z div 64 < 64" "unat z mod 64 < 64"
    using p byte_bounds(3) [of z] by linarith+
  have "(p * 4 + unat z div 64) * 64 + unat z mod 64 = p * 256 + unat z" by simp
  with b show "d64_3 (base ! (p * 4 + unat z div 64)) (base ! (unat z mod 64)) = z"
    by (subst d64_numbers) (simp_all only: tab_base byte_of_nat_add)
qed

lemma decode64_loop_text:
  "decode64_loop (ps @ text64 base xs @ qs) (length ps) (length (text64 base xs)) = (xs, False)"
proof (induction xs arbitrary: ps rule: digits64.induct)
  case (1 x y z r)
  note dg = decode64_groups(1) [OF byte_bounds(2)] decode64_groups(3) [OF mod_less_divisor]
    decode64_groups(2) [OF mod_less_divisor byte_bounds(3)]
  show ?case
  proof (cases "r = []")
    case True
    then show ?thesis by (simp add: decode64_last dg)
  next
    case False
    then have k: "0 < length (text64 base r)" by (cases r rule: digits64.cases) auto
    have l: "length (text64 base (x # y # z # r)) = 4 + length (text64 base r)" by simp
    show ?thesis
      unfolding l using decode64_step [OF k]
        1 [of "ps @ [base ! (unat x div 4), base ! (unat x mod 4 * 16 + unat y div 16),
          base ! (unat y mod 16 * 4 + unat z div 64), base ! (unat z mod 64)]"]
      by (simp add: dg)
  qed
next
  case (2 x y)
  show ?case
    using decode64_groups(1) [OF byte_bounds(2), of x y]
      decode64_groups(2) [of "unat x mod 4" 0 y] by (simp add: decode64_last)
next
  case (3 x)
  show ?case using decode64_groups(1) [of 0 x] by (simp add: decode64_last)
qed (simp add: decode64_last)

end

interpretation base64: alphabet64 base64
proof
  show "unat (pr pr2six (base64 ! i)) = i" if "i < 64" for i
    by (rule pos_all [where k = 64, OF _ that]) code_simp
qed (simp_all add: base64_def pr_def pr2six_def)

interpretation base64url: alphabet64 base64url
proof
  show "unat (pr pr2six (base64url ! i)) = i" if "i < 64" for i
    by (rule pos_all [where k = 64, OF _ that]) code_simp
qed (simp_all add: base64url_def pr_def pr2six_def)

lemma decode32_step:
  assumes "0 < k"
  shows "decode32_loop t2 (ps @ a # b # c # d # e # f # g # h # t) (length ps) (8 + k) =
    (let (out, bad) = decode32_loop t2 ((ps @ [a, b, c, d, e, f, g, h]) @ t)
           (length (ps @ [a, b, c, d, e, f, g, h])) k
     in ([d32_1 t2 a b, d32_2 t2 b c d, d32_3 t2 d e, d32_4 t2 e f g, d32_5 t2 g h] @ out, bad))"
  using assms by (subst decode32_loop.simps) (simp add: nth_append Let_def numeral_eq_Suc)

lemma decode32_last:
  "decode32_loop t2 src i 0 = ([], False)"
  "decode32_loop t2 (ps @ a # b # t) (length ps) (Suc (Suc 0)) = ([d32_1 t2 a b], False)"
  "decode32_loop t2 (ps @ a # b # c # d # t) (length ps) (Suc (Suc (Suc (Suc 0)))) =
     ([d32_1 t2 a b, d32_2 t2 b c d], False)"
  "decode32_loop t2 (ps @ a # b # c # d # e # t) (length ps) (Suc (Suc (Suc (Suc (Suc 0))))) =
     ([d32_1 t2 a b, d32_2 t2 b c d, d32_3 t2 d e], False)"
  "decode32_loop t2 (ps @ a # b # c # d # e # f # g # t) (length ps)
       (Suc (Suc (Suc (Suc (Suc (Suc (Suc 0))))))) =
     ([d32_1 t2 a b, d32_2 t2 b c d, d32_3 t2 d e, d32_4 t2 e f g], False)"
  "decode32_loop t2 (ps @ a # b # c # d # e # f # g # h # t) (length ps)
       (Suc (Suc (Suc (Suc (Suc (Suc (Suc (Suc 0)))))))) =
     ([d32_1 t2 a b, d32_2 t2 b c d, d32_3 t2 d e, d32_4 t2 e f g, d32_5 t2 g h], False)"
  by (subst decode32_loop.simps, simp add: nth_append numeral_eq_Suc)+

locale alphabet32 = alphabet base tab 32 61 for base tab
begin

lemma decode32_groups:
  "q < 4 \<Longrightarrow> d32_1 tab (base ! (unat a div 8)) (base ! (unat a mod 8 * 4 + q)) = a"
  "p < 8 \<Longrightarrow> q < 16 \<Longrightarrow>
     d32_2 tab (base ! (p * 4 + unat b div 64)) (base ! (unat b div 2 mod 32)) (base ! (unat b mod 2 * 16 + q)) = b"
  "p < 2 \<Longrightarrow> q < 2 \<Longrightarrow> d32_3 tab (base ! (p * 16 + unat c div 16)) (base ! (unat c mod 16 * 2 + q)) = c"
  "p < 16 \<Longrightarrow> q < 8 \<Longrightarrow>
     d32_4 tab (base ! (p * 2 + unat d div 128)) (base ! (unat d div 4 mod 32)) (base ! (unat d mod 4 * 8 + q)) = d"
  "p < 4 \<Longrightarrow> d32_5 tab (base ! (p * 8 + unat e div 32)) (base ! (unat e mod 32)) = e"
proof -
  assume q: "q < 4"
  have b: "unat a mod 8 * 4 + q < 32" using q mod_less_divisor [of 8 "unat a"] by linarith
  have "(unat a mod 8 * 4 + q) div 4 = unat a mod 8" using q by simp
  with b show "d32_1 tab (base ! (unat a div 8)) (base ! (unat a mod 8 * 4 + q)) = a"
    by (subst d32_numbers) (simp_all add: tab_base byte_bounds)
next
  assume p: "p < 8" and q: "q < 16"
  have bd: "p * 4 + unat b div 64 < 32" "unat b div 2 mod 32 < 32" "unat b mod 2 * 16 + q < 32"
    using p q mod_less_divisor [of 2 "unat b"] byte_bounds(3) [of b] by linarith+
  have "unat b = unat b div 64 * 64 + (unat b div 2 mod 32 * 2 + unat b mod 2)"
    using div_mult_mod_eq [of "unat b" 2] div_mult_mod_eq [of "unat b div 2" 32]
      div_mult2_eq [of "unat b" 2 32, simplified] by linarith
  then have "(p * 4 + unat b div 64) * 64 + (unat b div 2 mod 32 * 2 + (unat b mod 2 * 16 + q) div 16) =
      p * 256 + unat b" using q by simp
  with bd show "d32_2 tab (base ! (p * 4 + unat b div 64)) (base ! (unat b div 2 mod 32))
      (base ! (unat b mod 2 * 16 + q)) = b"
    by (subst d32_numbers) (simp_all only: tab_base byte_of_nat_add)
next
  assume p: "p < 2" and q: "q < 2"
  have bd: "p * 16 + unat c div 16 < 32" "unat c mod 16 * 2 + q < 32"
    using p q mod_less_divisor [of 16 "unat c"] byte_bounds(2) [of c] by linarith+
  have "(p * 16 + unat c div 16) * 16 + (unat c mod 16 * 2 + q) div 2 = p * 256 + unat c" using q by simp
  with bd show "d32_3 tab (base ! (p * 16 + unat c div 16)) (base ! (unat c mod 16 * 2 + q)) = c"
    by (subst d32_numbers) (simp_all only: tab_base byte_of_nat_add)
next
  assume p: "p < 16" and q: "q < 8"
  have bd: "p * 2 + unat d div 128 < 32" "unat d div 4 mod 32 < 32" "unat d mod 4 * 8 + q < 32"
    using p q mod_less_divisor [of 4 "unat d"] byte_bounds(6) [of d] by linarith+
  have "unat d = unat d div 128 * 128 + (unat d div 4 mod 32 * 4 + unat d mod 4)"
    using div_mult_mod_eq [of "unat d" 4] div_mult_mod_eq [of "unat d div 4" 32]
      div_mult2_eq [of "unat d" 4 32, simplified] by linarith
  then have "(p * 2 + unat d div 128) * 128 + (unat d div 4 mod 32 * 4 + (unat d mod 4 * 8 + q) div 8) =
      p * 256 + unat d" using q by simp
  with bd show "d32_4 tab (base ! (p * 2 + unat d div 128)) (base ! (unat d div 4 mod 32))
      (base ! (unat d mod 4 * 8 + q)) = d"
    by (subst d32_numbers) (simp_all only: tab_base byte_of_nat_add)
next
  assume p: "p < 4"
  have bd: "p * 8 + unat e div 32 < 32" "unat e mod 32 < 32"
    using p byte_bounds(5) [of e] by linarith+
  have "(p * 8 + unat e div 32) * 32 + unat e mod 32 = p * 256 + unat e" by simp
  with bd show "d32_5 tab (base ! (p * 8 + unat e div 32)) (base ! (unat e mod 32)) = e"
    by (subst d32_numbers) (simp_all only: tab_base byte_of_nat_add)
qed

lemma decode32_loop_text:
  "decode32_loop tab (ps @ text32 base xs @ qs) (length ps) (length (text32 base xs)) = (xs, False)"
proof (induction xs arbitrary: ps rule: digits32.induct)
  case (1 a b c d e r)
  note dg = decode32_groups(1) [OF byte_bounds(3)] decode32_groups(2) [OF mod_less_divisor byte_bounds(2)]
    decode32_groups(3) [OF mod_less_divisor byte_bounds(6)]
    decode32_groups(4) [OF mod_less_divisor byte_bounds(5)] decode32_groups(5) [OF mod_less_divisor]
  show ?case
  proof (cases "r = []")
    case True
    then show ?thesis by (simp add: decode32_last dg)
  next
    case False
    then have k: "0 < length (text32 base r)" by (cases r rule: digits32.cases) auto
    have l: "length (text32 base (a # b # c # d # e # r)) = 8 + length (text32 base r)" by simp
    show ?thesis
      unfolding l using decode32_step [OF k]
        1 [of "ps @ [base ! (unat a div 8), base ! (unat a mod 8 * 4 + unat b div 64),
          base ! (unat b div 2 mod 32), base ! (unat b mod 2 * 16 + unat c div 16),
          base ! (unat c mod 16 * 2 + unat d div 128), base ! (unat d div 4 mod 32),
          base ! (unat d mod 4 * 8 + unat e div 32), base ! (unat e mod 32)]"]
      by (simp add: dg)
  qed
next
  case (2 a b c d)
  show ?case
    using decode32_groups(1) [of "unat b div 64" a] decode32_groups(2) [of "unat a mod 8" "unat c div 16" b]
      decode32_groups(3) [of "unat b mod 2" "unat d div 128" c] decode32_groups(4) [of "unat c mod 16" 0 d]
    by (simp add: decode32_last byte_bounds)
next
  case (3 a b c)
  show ?case
    using decode32_groups(1) [of "unat b div 64" a] decode32_groups(2) [of "unat a mod 8" "unat c div 16" b]
      decode32_groups(3) [of "unat b mod 2" 0 c]
    by (simp add: decode32_last byte_bounds)
next
  case (4 a b)
  show ?case
    using decode32_groups(1) [of "unat b div 64" a] decode32_groups(2) [of "unat a mod 8" 0 b]
    by (simp add: decode32_last byte_bounds)
next
  case (5 a)
  show ?case using decode32_groups(1) [of 0 a] by (simp add: decode32_last)
qed (simp add: decode32_last)

end

interpretation base32: alphabet32 base32 pr2five
proof
  show "unat (pr pr2five (base32 ! i)) = i" if "i < 32" for i
    by (rule pos_all [where k = 32, OF _ that]) code_simp
qed (simp_all add: base32_def pr_def pr2five_def)

interpretation base32hex: alphabet32 base32hex pr2fivehex
proof
  show "unat (pr pr2fivehex (base32hex ! i)) = i" if "i < 32" for i
    by (rule pos_all [where k = 32, OF _ that]) code_simp
qed (simp_all add: base32hex_def pr_def pr2fivehex_def)

interpretation base16: alphabet base16 pr2two 16 58
proof
  show "unat (pr pr2two (base16 ! i)) = i" if "i < 16" for i
    by (rule pos_all [where k = 16, OF _ that]) code_simp
qed (simp_all add: base16_def pr_def pr2two_def)

interpretation base16lower: alphabet base16lower pr2two 16 58
proof
  show "unat (pr pr2two (base16lower ! i)) = i" if "i < 16" for i
    by (rule pos_all [where k = 16, OF _ that]) code_simp
qed (simp_all add: base16lower_def pr_def pr2two_def)

section \<open>Scanning\<close>

lemma scan_while_run:
  "\<forall>c \<in> set xs. P c \<Longrightarrow> length xs \<le> cnt \<Longrightarrow> \<not> (P y \<and> cnt \<noteq> length xs) \<Longrightarrow>
     scan_while P (ps @ xs @ y # zs) (length ps) cnt = Some (Suc (length ps + length xs), cnt - length xs)"
proof (induction xs arbitrary: ps cnt)
  case Nil
  then show ?case by (subst scan_while.simps) (auto simp: nth_append)
next
  case (Cons x xs)
  have "scan_while P (ps @ (x # xs) @ y # zs) (length ps) cnt =
      scan_while P ((ps @ [x]) @ xs @ y # zs) (length (ps @ [x])) (cnt - 1)"
    using Cons.prems by (subst scan_while.simps) (auto simp: nth_append)
  also have "\<dots> = Some (Suc (length (ps @ [x]) + length xs), cnt - 1 - length xs)"
    using Cons.prems by (intro Cons.IH) auto
  finally show ?case using Cons.prems by simp
qed

text \<open>A text of the alphabet, \<open>k\<close> skipped characters and a NUL.\<close>

lemma scan_source_text:
  assumes P: "\<forall>c \<in> set t. P c" "\<not> P skip" "\<not> P 0" and Q: "Q skip" "\<not> Q 0"
  shows "scan_source P Q (t @ replicate k skip @ 0 # e # rest) (length t + k) flags =
    Some (length t, scan_status flags (if k = 0 then 0 else 1))"
proof (cases k)
  case 0
  show ?thesis
    using 0 P scan_while_run [of t P "length t" 0 "[]" "e # rest"]
      scan_while_run [of "[]" Q 0 e "t @ [0]" rest] by (simp add: scan_source_def)
next
  case (Suc j)
  show ?thesis
    using Suc P Q scan_while_run [of t P "length t + k" skip "[]" "replicate j skip @ 0 # e # rest"]
      scan_while_run [of "replicate j skip" Q k 0 "t @ [skip]" "e # rest"]
    by (simp add: scan_source_def)
qed

text \<open>A NUL-terminated string, scanned without regard to what it holds.\<close>

lemma scan_source_string:
  assumes "\<not> P 0" "\<not> Q 0"
  shows "\<exists>st. scan_source P Q (s @ 0 # e # rest) (length s) flags =
      Some (length (takeWhile P s), st) \<and>
    (st = APR_SUCCESS \<longleftrightarrow> has_flag flags APR_ENCODE_RELAXED \<or> (\<forall>c \<in> set s. P c))"
proof (cases "dropWhile P s")
  case Nil
  then have all: "\<forall>c \<in> set s. P c" by simp
  then have "scan_source P Q (s @ 0 # e # rest) (length s) flags = Some (length s, scan_status flags 0)"
    using scan_while_run [of s P "length s" 0 "[]" "e # rest"]
      scan_while_run [of "[]" Q 0 e "s @ [0]" rest] by (simp add: scan_source_def)
  moreover have "length (takeWhile P s) = length s" using all by (metis takeWhile_eq_all_conv)
  ultimately show ?thesis using all by (simp add: scan_status_def)
next
  case (Cons y ys)
  define K Z where "K = takeWhile P s" and "Z = takeWhile Q ys"
  have y: "\<not> P y" using hd_dropWhile [of P s] Cons by simp
  have K: "\<forall>c \<in> set K. P c" "s = K @ y # ys"
    using takeWhile_dropWhile_id [of P s] Cons by (auto simp: K_def dest: set_takeWhileD)
  obtain w ws where w: "dropWhile Q ys @ 0 # e # rest = w # ws" "\<not> Q w"
    using assms(2) hd_dropWhile [of Q ys] by (cases "dropWhile Q ys") auto
  have "ys @ 0 # e # rest = Z @ dropWhile Q ys @ 0 # e # rest"
    unfolding Z_def by (metis append.assoc takeWhile_dropWhile_id)
  then have Z: "\<forall>c \<in> set Z. Q c" "ys @ 0 # e # rest = Z @ w # ws" "length Z \<le> length ys"
    using w(1) length_takeWhile_le [of Q ys] by (auto simp: Z_def dest: set_takeWhileD)
  have 1: "scan_while P (s @ 0 # e # rest) 0 (length s) = Some (Suc (length K), Suc (length ys))"
    using scan_while_run [of K P "length s" y "[]" "ys @ 0 # e # rest"] y K by simp
  have 2: "scan_while Q (s @ 0 # e # rest) (Suc (length K)) (Suc (length ys)) =
      Some (Suc (Suc (length K) + length Z), Suc (length ys) - length Z)"
    using scan_while_run [of Z Q "Suc (length ys)" w "K @ [y]" ws] w(2) Z K(2) by simp
  have "scan_status flags (Suc (length ys) - length Z) = APR_SUCCESS \<longleftrightarrow> has_flag flags APR_ENCODE_RELAXED"
    using Z(3) by (simp add: scan_status_def)
  moreover have "\<not> (\<forall>c \<in> set s. P c)" using y K(2) by auto
  ultimately show ?thesis using 1 2 by (auto simp: scan_source_def simp flip: K_def)
qed

section \<open>The complete functions\<close>

text \<open>
  The text an encoder writes: the digits of the RFC in the alphabet the code selects, and the padding.
  \<open>alpha64\<close> has the code's test, of a mask of two bits.
\<close>

definition alpha64 :: "u32 \<Rightarrow> byte list" where
  "alpha64 flags = (if \<not> has_flag flags APR_ENCODE_BASE64URL then base64 else base64url)"

definition alpha32 :: "u32 \<Rightarrow> byte list" where
  "alpha32 flags = (if \<not> has_flag flags APR_ENCODE_BASE32HEX then base32 else base32hex)"

definition table32 :: "u32 \<Rightarrow> byte list" where
  "table32 flags = (if has_flag flags APR_ENCODE_BASE32HEX then pr2fivehex else pr2five)"

lemma alphabet64: "alphabet64 (alpha64 flags)"
  by (simp add: alpha64_def base64.alphabet64_axioms base64url.alphabet64_axioms)

lemma alphabet32: "alphabet32 (alpha32 flags) (table32 flags)"
  by (simp add: alpha32_def table32_def base32.alphabet32_axioms base32hex.alphabet32_axioms)

definition written64 :: "u32 \<Rightarrow> byte list \<Rightarrow> byte list" where
  "written64 flags xs = text64 (alpha64 flags) xs @ pad flags (padlen64 xs)"

definition encoded32 :: "u32 \<Rightarrow> byte list \<Rightarrow> byte list" where
  "encoded32 flags xs = text32 (alpha32 flags) xs @ pad flags (padlen32 xs)"

lemma encode64_main_text:
  assumes "byte_load ld" "n \<le> length src" "int_index n"
  shows "encode64_main ld True src n flags =
    Some (APR_SUCCESS, written64 flags (take n src) @ [0], Some (length (written64 flags (take n src))))"
  using assms byte_load.encode64_loop_text [OF assms(1,2), of "alpha64 flags" flags 0]
  by (simp add: encode64_main_def written64_def alpha64_def Let_def)

lemma encode32_main_text:
  assumes "byte_load ld" "n \<le> length src" "int_index n"
  shows "encode32_main ld q True src n flags =
    Some (APR_SUCCESS, encoded32 flags (take n src) @ [0], Some (length (encoded32 flags (take n src))))"
  using assms byte_load.encode32_loop_text [OF assms(1,2), of "alpha32 flags" flags 0]
  by (simp add: encode32_main_def encoded32_def alpha32_def Let_def)

lemma digits64_less: "\<forall>d \<in> set (digits64 xs). d < 64"
  by (induction xs rule: digits64.induct) (simp_all only: digits64.simps set_append ball_Un digits_less, simp_all add: digits_less)

lemma digits32_less: "\<forall>d \<in> set (digits32 xs). d < 32"
  by (induction xs rule: digits32.induct) (simp_all only: digits32.simps set_append ball_Un digits_less, simp_all add: digits_less)

context alphabet64
begin

lemma text64_valid: "\<forall>c \<in> set (text64 base xs). pr pr2six c < 64 \<and> c \<noteq> 0"
  using digits64_less [of xs] tab_less base_not_0 by (auto simp: text64_def word_less_nat_alt)

end

context alphabet32
begin

lemma text32_valid: "\<forall>c \<in> set (text32 base xs). pr tab c < 32 \<and> c \<noteq> 0"
  using digits32_less [of xs] tab_less base_not_0 by (auto simp: text32_def word_less_nat_alt)

end

lemma read_len_text:
  assumes "\<forall>c \<in> set t. c \<noteq> 0" "slen = APR_ENCODE_STRING \<or> slen = Slen (length t)"
  shows "read_len (t @ 0 # rest) slen = Some (length t)"
proof -
  have "takeWhile (\<lambda>c. c \<noteq> 0) (t @ 0 # rest) = t" using assms(1) by (simp add: takeWhile_append)
  then show ?thesis using assms(2) by (auto simp: read_len_def strlen_def Let_def)
qed

lemma pad_replicate: "pad flags n = replicate (if has_flag flags APR_ENCODE_NOPADDING then 0 else n) 61"
  by (simp add: pad_def)

lemma decode64_main_text:
  "decode64_main (written64 flags xs @ 0 # e # rest) (length (written64 flags xs)) dflags =
     Some (scan_status dflags (length (pad flags (padlen64 xs))), xs)"
proof -
  let ?t = "text64 (alpha64 flags) xs"
  obtain k where pd: "pad flags (padlen64 xs) = replicate k 61" by (auto simp: pad_replicate)
  have "scan_source (\<lambda>c. pr pr2six c < 64) (\<lambda>c. pr pr2six c > 64) (?t @ replicate k 61 @ 0 # e # rest)
      (length ?t + k) dflags = Some (length ?t, scan_status dflags (if k = 0 then 0 else 1))"
    using alphabet64.text64_valid [OF alphabet64, of flags xs]
    by (intro scan_source_text) (auto simp: pr_def pr2six_def)
  moreover have "scan_status dflags (if k = 0 then 0 else 1) = scan_status dflags k"
    by (simp add: scan_status_def)
  moreover have "decode64_loop (?t @ (replicate k 61 @ 0 # e # rest)) 0 (length ?t) = (xs, False)"
    using alphabet64.decode64_loop_text [OF alphabet64, where ps = "[]"] by simp
  ultimately show ?thesis
    unfolding decode64_main_def written64_def pd by simp
qed

lemma decode32_main_text:
  assumes "has_flag dflags APR_ENCODE_BASE32HEX \<longleftrightarrow> has_flag flags APR_ENCODE_BASE32HEX"
  shows "decode32_main (encoded32 flags xs @ 0 # e # rest) (length (encoded32 flags xs)) dflags =
     Some (scan_status dflags (length (pad flags (padlen32 xs))), xs)"
proof -
  let ?t = "text32 (alpha32 flags) xs" and ?p = "table32 flags"
  have tb: "(if has_flag dflags APR_ENCODE_BASE32HEX then pr2fivehex else pr2five) = ?p"
    using assms by (simp add: table32_def)
  obtain k where pd: "pad flags (padlen32 xs) = replicate k 61" by (auto simp: pad_replicate)
  have "scan_source (\<lambda>c. pr ?p c < 32) (\<lambda>c. pr ?p c > 32) (?t @ replicate k 61 @ 0 # e # rest)
      (length ?t + k) dflags = Some (length ?t, scan_status dflags (if k = 0 then 0 else 1))"
    using alphabet32.text32_valid [OF alphabet32, of flags xs]
    by (intro scan_source_text) (auto simp: pr_def pr2five_def pr2fivehex_def table32_def)
  moreover have "scan_status dflags (if k = 0 then 0 else 1) = scan_status dflags k"
    by (simp add: scan_status_def)
  moreover have "decode32_loop ?p (?t @ (replicate k 61 @ 0 # e # rest)) 0 (length ?t) = (xs, False)"
    using alphabet32.decode32_loop_text [OF alphabet32, where ps = "[]"] by simp
  ultimately show ?thesis
    unfolding decode32_main_def encoded32_def pd tb Let_def by simp
qed

lemma written64_no_nul: "\<forall>c \<in> set (written64 flags xs). c \<noteq> 0"
  using alphabet64.text64_valid [OF alphabet64, of flags xs] by (auto simp: written64_def pad_replicate)

lemma encoded32_no_nul: "\<forall>c \<in> set (encoded32 flags xs). c \<noteq> 0"
  using alphabet32.text32_valid [OF alphabet32, of flags xs] by (auto simp: encoded32_def pad_replicate)

lemma decode64_loop_bad: "snd (decode64_loop src i n) \<longleftrightarrow> n mod 4 = 1"
proof (induction src i n rule: decode64_loop.induct)
  case (1 src i n)
  show ?case
  proof (cases "4 < n")
    case True
    then have "n mod 4 = (n - 4) mod 4" by (simp add: le_mod_geq)
    with True 1 show ?thesis by (simp add: decode64_loop.simps [of src i n] case_prod_beta Let_def)
  next
    case False
    then have "n = 0 \<or> n = 1 \<or> n = 2 \<or> n = 3 \<or> n = 4" by linarith
    then show ?thesis by (auto simp: decode64_loop.simps [of src i n])
  qed
qed

lemma length_decode64_loop: "length (fst (decode64_loop src i n)) = n * 3 div 4"
proof (induction src i n rule: decode64_loop.induct)
  case (1 src i n)
  show ?case
  proof (cases "4 < n")
    case True
    then have "n * 3 = (n - 4) * 3 + 3 * 4" by simp
    then have "n * 3 div 4 = 3 + (n - 4) * 3 div 4" by (simp only: div_mult_self3)
    with True 1 show ?thesis by (simp add: decode64_loop.simps [of src i n] case_prod_beta Let_def)
  next
    case False
    then have "n = 0 \<or> n = 1 \<or> n = 2 \<or> n = 3 \<or> n = 4" by linarith
    then show ?thesis by (auto simp: decode64_loop.simps [of src i n])
  qed
qed

subsection \<open>Base 16\<close>

fun text16 :: "byte list \<Rightarrow> bool \<Rightarrow> bool \<Rightarrow> byte list \<Rightarrow> byte list" where
  "text16 base colon start [] = []"
| "text16 base colon start (x # xs) =
     (if colon \<and> \<not> start then [58] else []) @
     [base ! (unat x div 16), base ! (unat x mod 16)] @ text16 base colon False xs"

lemma unat_shr4: "unat (shr 4 (uchar_int c)) = unat c div 16"
proof -
  have "shr 4 (uchar_int c) = shr 4 (uchar_int c) AND mask 4"
    by (intro bit_word_eqI) (auto simp: shr_def uchar_int_def bit_simps dest: bit_imp_le_length)
  then show ?thesis using uchar_load.unat_field_top [of 4 4 c] by simp
qed

lemma unat_and15: "unat (uchar_int c AND 0xf) = unat c mod 16"
  unfolding masks using uchar_load.unat_field0 [of 4 c] by simp

lemma encode16_step:
  assumes "i < length src" "more16 src slen i" "encode16_loop base flags src slen (i + 1) = Some out"
  shows "encode16_loop base flags src slen i =
    Some ((if has_flag flags APR_ENCODE_COLON \<and> i \<noteq> 0 then [58] else []) @
      [base ! (unat (src ! i) div 16), base ! (unat (src ! i) mod 16)] @ out)"
  using assms by (subst encode16_loop.simps) (simp add: unat_shr4 unat_and15)

lemma encode16_loop_len:
  "encode16_loop base flags (ps @ xs @ rest) (Slen (length ps + length xs)) (length ps) =
     Some (text16 base (has_flag flags APR_ENCODE_COLON) (ps = []) xs)"
proof (induction xs arbitrary: ps)
  case Nil
  then show ?case by (subst encode16_loop.simps) (simp add: more16_def)
next
  case (Cons x xs)
  from Cons [of "ps @ [x]"] show ?case by (subst encode16_step) (simp_all add: more16_def nth_append)
qed

lemma encode16_loop_string:
  "\<forall>c \<in> set xs. c \<noteq> 0 \<Longrightarrow>
     encode16_loop base flags (ps @ xs @ 0 # rest) APR_ENCODE_STRING (length ps) =
       Some (text16 base (has_flag flags APR_ENCODE_COLON) (ps = []) xs)"
proof (induction xs arbitrary: ps)
  case Nil
  then show ?case by (subst encode16_loop.simps) (simp add: more16_def nth_append)
next
  case (Cons x xs)
  from Cons.IH [of "ps @ [x]"] Cons.prems show ?case
    by (subst encode16_step) (simp_all add: more16_def nth_append)
qed

locale alphabet16 = alphabet base pr2two 16 58 for base
begin

lemma d16_base: "d16 (base ! (unat x div 16)) (base ! (unat x mod 16)) = x"
proof -
  have "d16 (base ! (unat x div 16)) (base ! (unat x mod 16)) = of_nat (unat x div 16 * 16 + unat x mod 16)"
    unfolding d16_def pri_nat [of _ "base ! (unat x mod 16)"]
    by (subst or_pri) (simp_all add: tab_base byte_bounds)
  then show ?thesis by simp
qed

lemma text16_valid: "\<forall>c \<in> set (text16 base colon start xs). pr pr2two c \<noteq> 16 \<and> c \<noteq> 0"
proof (induction xs arbitrary: start)
  case (Cons x xs)
  have "pr pr2two (base ! i) \<noteq> 16 \<and> base ! i \<noteq> 0" if "i < 16" for i
    using tab_less [OF that] base_not_0 [OF that] by auto
  moreover have "pr pr2two 58 \<noteq> 16" using tab_skip by auto
  ultimately show ?case using Cons [of False] by (auto simp: byte_bounds)
qed simp

lemma decode16_colon:
  "decode16_loop (ps @ 58 # t) (length ps) (Suc (Suc n)) = decode16_loop ((ps @ [58]) @ t) (length (ps @ [58])) (Suc n)"
  using tab_skip by (subst decode16_loop.simps) (simp add: nth_append word_less_nat_alt)

lemma decode16_digits:
  "decode16_loop (ps @ base ! (unat x div 16) # base ! (unat x mod 16) # t) (length ps) (Suc (Suc n)) =
     (let (out, bad) = decode16_loop ((ps @ [base ! (unat x div 16), base ! (unat x mod 16)]) @ t)
            (length (ps @ [base ! (unat x div 16), base ! (unat x mod 16)])) n
      in (x # out, bad))"
  using tab_less [OF byte_bounds(2), of x]
  by (subst decode16_loop.simps) (simp add: nth_append word_less_nat_alt d16_base Let_def)

lemma decode16_loop_text:
  "decode16_loop (ps @ text16 base colon start xs @ qs) (length ps) (length (text16 base colon start xs)) =
     (xs, False)"
proof (induction xs arbitrary: ps start)
  case Nil
  then show ?case by (subst decode16_loop.simps) simp
next
  case (Cons x xs)
  let ?g = "[base ! (unat x div 16), base ! (unat x mod 16)]"
  have d: "decode16_loop (ps @ ?g @ text16 base colon False xs @ qs) (length ps)
      (Suc (Suc (length (text16 base colon False xs)))) = (x # xs, False)" for ps
    using decode16_digits [of ps x "text16 base colon False xs @ qs"] Cons [of "ps @ ?g" False] by simp
  show ?case
    using d [of ps] d [of "ps @ [58]"] decode16_colon [of ps "?g @ text16 base colon False xs @ qs"]
    by (cases "colon \<and> \<not> start") auto
qed

end

interpretation base16: alphabet16 base16 by unfold_locales
interpretation base16lower: alphabet16 base16lower by unfold_locales

definition alpha16 :: "u32 \<Rightarrow> byte list" where
  "alpha16 flags = (if has_flag flags APR_ENCODE_LOWER then base16lower else base16)"

definition encoded16 :: "u32 \<Rightarrow> byte list \<Rightarrow> byte list" where
  "encoded16 flags xs = text16 (alpha16 flags) (has_flag flags APR_ENCODE_COLON) True xs"

lemma alphabet16: "alphabet16 (alpha16 flags)"
  by (simp add: alpha16_def base16.alphabet16_axioms base16lower.alphabet16_axioms)

lemma encode16_main_text:
  "encode16_main True (xs @ rest) (Slen (length xs)) flags =
     Some (APR_SUCCESS, encoded16 flags xs @ [0], Some (length (encoded16 flags xs)))"
  using encode16_loop_len [of "alpha16 flags" flags "[]" xs rest]
  by (simp add: encode16_main_def encoded16_def alpha16_def Let_def)

lemma encode16_main_string:
  "\<forall>c \<in> set xs. c \<noteq> 0 \<Longrightarrow> encode16_main True (xs @ 0 # rest) APR_ENCODE_STRING flags =
     Some (APR_SUCCESS, encoded16 flags xs @ [0], Some (length (encoded16 flags xs)))"
  using encode16_loop_string [of xs "alpha16 flags" flags "[]" rest]
  by (simp add: encode16_main_def encoded16_def alpha16_def Let_def)

lemma encoded16_no_nul: "\<forall>c \<in> set (encoded16 flags xs). c \<noteq> 0"
  using alphabet16.text16_valid [OF alphabet16] by (simp add: encoded16_def)

lemma pr2two_nul: "pr pr2two 0 = 16"
  by code_simp

lemma decode16_main_text:
  "decode16_main z True (encoded16 flags xs @ 0 # e # rest) (length (encoded16 flags xs)) dflags =
     Some (APR_SUCCESS, xs @ z, Some (length xs))"
proof -
  define t where "t = encoded16 flags xs"
  let ?P = "\<lambda>c. pr pr2two c \<noteq> 16"
  have nul: "\<not> ?P 0" "\<not> pr pr2two 0 > 16" unfolding pr2two_nul by simp_all
  have all: "\<forall>c \<in> set t. ?P c" using alphabet16.text16_valid [OF alphabet16] by (simp add: t_def encoded16_def)
  then have "takeWhile ?P t = t" unfolding takeWhile_eq_all_conv .
  then have tw: "length (takeWhile ?P t) = length t" by (rule arg_cong)
  have scan: "scan_source ?P (\<lambda>c. pr pr2two c > 16) (t @ 0 # e # rest) (length t) dflags =
      Some (length t, APR_SUCCESS)"
    using scan_source_string [of ?P "\<lambda>c. pr pr2two c > 16" t e rest dflags, OF nul] all tw by (metis (no_types, lifting))
  have dec: "decode16_loop (t @ 0 # e # rest) 0 (length t) = (xs, False)"
    using alphabet16.decode16_loop_text [OF alphabet16, where ps = "[]"] unfolding t_def encoded16_def
    by (metis append_Nil list.size(3))
  show ?thesis unfolding t_def [symmetric] by (simp add: decode16_main_def scan dec)
qed

lemma count16_loop_eq:
  "count16_loop src i n c = (c + length (fst (decode16_loop src i n)), snd (decode16_loop src i n))"
proof (induction src i n c rule: count16_loop.induct)
  case (1 src i n c)
  then show ?case
    by (simp add: count16_loop.simps [of src i n] decode16_loop.simps [of src i n] case_prod_beta Let_def)
qed

end
