(* ===== verification/Apr_Codec.thy ===== *)
theory Apr_Codec
  imports Apr_Encode
begin

text \<open>
  What the functions of \<^verbatim>\<open>encoding/apr_encode.c\<close> promise their callers, over the definitions and the
  lemmas of \<open>Apr_Encode\<close>: the encoders compute the encodings of RFC 4648, the decoders are their left
  inverses, the buffers of the pool variants are large enough, and the status of a decoder says what
  the text held. The last section has the places where the code and its documentation differ.
\<close>

section \<open>Encoding and decoding\<close>

lemmas encode_api = apr_encode_base64_def apr_encode_base64_binary_def apr_encode_base32_def
  apr_encode_base32_binary_def apr_encode_base16_def apr_encode_base16_binary_def

lemmas decode_api = apr_decode_base64_def apr_decode_base64_binary_def apr_decode_base32_def
  apr_decode_base32_binary_def apr_decode_base16_def apr_decode_base16_binary_def

definition encoding :: "byte list \<Rightarrow> coding option" where
  "encoding t = Some (APR_SUCCESS, t @ [0], Some (length t))"

lemma read_len_Slen: "read_len m (Slen n) = Some n"
  by (simp add: read_len_def)

lemma cstr_ball: "cstr s \<longleftrightarrow> (\<forall>c \<in> set s. c \<noteq> 0)"
  by (auto simp: cstr_def)

text \<open>
  The encoding \<^verbatim>\<open>apr_encode.h\<close> documents: RFC 4648, in the URL and filename safe alphabet if
  \<open>APR_ENCODE_URL\<close> is set, and without padding if \<open>APR_ENCODE_NOPADDING\<close> is set.
\<close>

definition rfc_alpha64 :: "u32 \<Rightarrow> byte list" where
  "rfc_alpha64 flags = (if has_flag flags APR_ENCODE_URL then base64url else base64)"

definition encoded64 :: "u32 \<Rightarrow> byte list \<Rightarrow> byte list" where
  "encoded64 flags xs = text64 (rfc_alpha64 flags) xs @ pad flags (padlen64 xs)"

text \<open>The flags with which the alphabet the code selects is the documented one.\<close>

definition rfc_flags :: "u32 \<Rightarrow> bool" where
  "rfc_flags flags \<longleftrightarrow> (has_flag flags APR_ENCODE_NOPADDING \<longrightarrow> has_flag flags APR_ENCODE_URL)"

lemma base64url_flag:
  "has_flag flags APR_ENCODE_BASE64URL \<longleftrightarrow> has_flag flags APR_ENCODE_NOPADDING \<or> has_flag flags APR_ENCODE_URL"
  by (auto simp: has_flag_def APR_ENCODE_BASE64URL_def bit.conj_disj_distrib or_eq_0_iff)

lemma written64_encoded: "rfc_flags flags \<Longrightarrow> written64 flags xs = encoded64 flags xs"
  by (auto simp: written64_def encoded64_def alpha64_def rfc_alpha64_def rfc_flags_def base64url_flag)

text \<open>
  C26. For a source of at most \<open>2 ^ 31\<close> bytes, and unless \<open>APR_ENCODE_NOPADDING\<close> is given without
  \<open>APR_ENCODE_URL\<close>, the base64 encoders compute the encoding of RFC 4648: the digits of each group of
  three bytes in base 64, the last group filled up with zero bits, looked up in the URL alphabet exactly
  if \<open>APR_ENCODE_URL\<close> is set, and padded with \<open>=\<close> unless \<open>APR_ENCODE_NOPADDING\<close> is set. This holds for
  the \<open>char\<close> and the \<open>unsigned char\<close> variant, for a given length and for a NUL-terminated string, and the
  length stored is that of the text. (With \<open>APR_ENCODE_NOPADDING\<close> alone the code takes the URL alphabet,
  which is not documented.)
\<close>

theorem apr_encode_base64_correct:
  assumes "length xs \<le> 2 ^ 31" "rfc_flags flags"
  shows "apr_encode_base64_binary True (Some (xs @ rest)) (length xs) flags = encoding (encoded64 flags xs) \<and>
   apr_encode_base64 True (Some (xs @ rest)) (Slen (length xs)) flags = encoding (encoded64 flags xs) \<and>
   (cstr xs \<longrightarrow>
     apr_encode_base64 True (Some (xs @ 0 # rest)) APR_ENCODE_STRING flags = encoding (encoded64 flags xs))"
  using read_len_text [of xs APR_ENCODE_STRING rest] assms(1)
  by (simp add: encode_api encode64_main_text char_load.byte_load_axioms uchar_load.byte_load_axioms
      encoding_def read_len_Slen cstr_ball int_index_def written64_encoded [OF assms(2)])

definition foobar :: "byte list" where
  "foobar = [102, 111, 111, 98, 97, 114]"

theorem apr_encode_base64_correct_witness:
  "cstr foobar \<and> encoded64 APR_ENCODE_NONE foobar = [90, 109, 57, 118, 89, 109, 70, 121] \<and>
   apr_encode_base64 True (Some (foobar @ 0 # [])) APR_ENCODE_STRING APR_ENCODE_NONE =
     encoding (encoded64 APR_ENCODE_NONE foobar)"
proof (intro conjI)
  show c: "cstr foobar" by (simp add: foobar_def cstr_def)
  show "encoded64 APR_ENCODE_NONE foobar = [90, 109, 57, 118, 89, 109, 70, 121]"
    by (simp add: foobar_def encoded64_def rfc_alpha64_def has_flag_def APR_ENCODE_NONE_def pad_def base64_def)
  have "length foobar \<le> 2 ^ 31" "rfc_flags APR_ENCODE_NONE"
    by (simp_all add: foobar_def rfc_flags_def has_flag_def APR_ENCODE_NONE_def)
  then show "apr_encode_base64 True (Some (foobar @ 0 # [])) APR_ENCODE_STRING APR_ENCODE_NONE =
     encoding (encoded64 APR_ENCODE_NONE foobar)"
    using apr_encode_base64_correct [of foobar APR_ENCODE_NONE "[]"] c by blast
qed

text \<open>
  The base32 encoders compute the encoding of RFC 4648, groups of five bytes as eight digits
  in base 32, in the alphabet the flags select.
\<close>

theorem apr_encode_base32_correct:
  assumes "length xs \<le> 2 ^ 31"
  shows "apr_encode_base32_binary True (Some (xs @ rest)) (length xs) flags = encoding (encoded32 flags xs) \<and>
   apr_encode_base32 True (Some (xs @ rest)) (Slen (length xs)) flags = encoding (encoded32 flags xs) \<and>
   (cstr xs \<longrightarrow>
     apr_encode_base32 True (Some (xs @ 0 # rest)) APR_ENCODE_STRING flags = encoding (encoded32 flags xs))"
  using read_len_text [of xs APR_ENCODE_STRING rest] assms
  by (simp add: encode_api encode32_main_text char_load.byte_load_axioms uchar_load.byte_load_axioms
      encoding_def read_len_Slen cstr_ball int_index_def)

theorem apr_encode_base32_correct_witness:
  "cstr foobar \<and>
   encoded32 APR_ENCODE_NONE foobar = [77, 90, 88, 87, 54, 89, 84, 66, 79, 73, 61, 61, 61, 61, 61, 61] \<and>
   apr_encode_base32 True (Some (foobar @ 0 # [])) APR_ENCODE_STRING APR_ENCODE_NONE =
     encoding (encoded32 APR_ENCODE_NONE foobar)"
proof (intro conjI)
  show c: "cstr foobar" by (simp add: foobar_def)
  have six: "replicate 6 x = [x, x, x, x, x, x]" for x :: byte by (simp add: eval_nat_numeral)
  show "encoded32 APR_ENCODE_NONE foobar = [77, 90, 88, 87, 54, 89, 84, 66, 79, 73, 61, 61, 61, 61, 61, 61]"
    by (simp add: foobar_def encoded32_def alpha32_def has_flag_def APR_ENCODE_NONE_def pad_def base32_def
        six)
  show "apr_encode_base32 True (Some (foobar @ 0 # [])) APR_ENCODE_STRING APR_ENCODE_NONE =
     encoding (encoded32 APR_ENCODE_NONE foobar)"
    using apr_encode_base32_correct [of foobar "[]" APR_ENCODE_NONE] c by (simp add: foobar_def)
qed

definition decoding :: "apr_status_t \<Rightarrow> byte list \<Rightarrow> byte list \<Rightarrow> coding option" where
  "decoding st xs z = Some (st, xs @ z, Some (length xs))"

definition padded_status :: "u32 \<Rightarrow> u32 \<Rightarrow> nat \<Rightarrow> apr_status_t" where
  "padded_status flags dflags k =
     (if has_flag dflags APR_ENCODE_RELAXED \<or> has_flag flags APR_ENCODE_NOPADDING \<or> k = 0
      then APR_SUCCESS else APR_BADCH)"

lemma scan_status_pad: "scan_status dflags (length (pad flags k)) = padded_status flags dflags k"
  by (simp add: scan_status_def padded_status_def pad_def)

text \<open>
  A function decodes a text, terminated by a NUL and followed by at least one more readable byte,
  whether its length is given or measured.
\<close>

definition decodes ::
    "(byte list option \<Rightarrow> slen \<Rightarrow> coding option) \<Rightarrow> byte list \<Rightarrow> coding option \<Rightarrow> bool" where
  "decodes dec out r \<longleftrightarrow>
     (\<forall>e rest. dec (Some (out @ 0 # e # rest)) APR_ENCODE_STRING = r \<and>
               dec (Some (out @ 0 # e # rest)) (Slen (length out)) = r)"

lemma decodesI:
  assumes "\<forall>c \<in> set out. c \<noteq> 0"
    and "\<And>slen e rest. read_len (out @ 0 # e # rest) slen = Some (length out) \<Longrightarrow>
      dec (Some (out @ 0 # e # rest)) slen = r"
  shows "decodes dec out r"
  using assms read_len_text [OF assms(1)] by (auto simp: decodes_def)

lemma decodes_64:
  "decodes (\<lambda>src slen. apr_decode_base64_binary True src slen dflags) (written64 flags xs)
     (decoding (padded_status flags dflags (padlen64 xs)) xs [])"
  "decodes (\<lambda>src slen. apr_decode_base64 True src slen dflags) (written64 flags xs)
     (decoding (padded_status flags dflags (padlen64 xs)) xs [0])"
  by (intro decodesI written64_no_nul;
      simp add: decode_api decode64_main_text decoding_def scan_status_pad)+

text \<open>
  C5. Decoding what \<open>apr_encode_base64_binary\<close> wrote for at most \<open>2 ^ 31\<close> bytes gives \<open>APR_SUCCESS\<close> and
  exactly the bytes encoded, in both alphabets and whether the length is given or measured, provided
  that the text has no padding (\<open>APR_ENCODE_NOPADDING\<close>, or a multiple of three bytes) or the decoder
  is given \<open>APR_ENCODE_RELAXED\<close>. The text is followed by its NUL and, as the decoders read one byte too
  many, by one more readable byte. Padded texts decoded without \<open>APR_ENCODE_RELAXED\<close> are outside this
  claim: the code decodes them but does not report the documented status.
\<close>

theorem apr_base64_round_trip:
  assumes "length xs \<le> 2 ^ 31"
    and "has_flag dflags APR_ENCODE_RELAXED \<or> has_flag flags APR_ENCODE_NOPADDING \<or> length xs mod 3 = 0"
  shows "\<exists>out. apr_encode_base64_binary True (Some (xs @ ys)) (length xs) flags = encoding out \<and>
     decodes (\<lambda>src slen. apr_decode_base64_binary True src slen dflags) out (decoding APR_SUCCESS xs []) \<and>
     decodes (\<lambda>src slen. apr_decode_base64 True src slen dflags) out (decoding APR_SUCCESS xs [0])"
proof -
  have "padded_status flags dflags (padlen64 xs) = APR_SUCCESS"
    using assms(2) by (auto simp: padded_status_def padlen64_def)
  then show ?thesis
    using decodes_64 [of dflags flags xs] assms(1)
    by (intro exI [of _ "written64 flags xs"])
      (simp add: encode_api encode64_main_text uchar_load.byte_load_axioms encoding_def int_index_def)
qed

text \<open>Seven bytes, whose text ends with two padding characters, in the relaxed mode.\<close>

theorem apr_base64_round_trip_witness:
  "\<exists>out. apr_encode_base64_binary True (Some ((foobar @ [255]) @ [])) (length (foobar @ [255])) APR_ENCODE_URL =
       encoding out \<and>
     decodes (\<lambda>src slen. apr_decode_base64_binary True src slen APR_ENCODE_RELAXED) out
       (decoding APR_SUCCESS (foobar @ [255]) []) \<and>
     decodes (\<lambda>src slen. apr_decode_base64 True src slen APR_ENCODE_RELAXED) out
       (decoding APR_SUCCESS (foobar @ [255]) [0])"
proof (rule apr_base64_round_trip)
  show "length (foobar @ [255]) \<le> 2 ^ 31" by (simp add: foobar_def)
  show "has_flag APR_ENCODE_RELAXED APR_ENCODE_RELAXED \<or> has_flag APR_ENCODE_URL APR_ENCODE_NOPADDING \<or>
      length (foobar @ [255]) mod 3 = 0"
    by (simp add: has_flag_def APR_ENCODE_RELAXED_def)
qed

lemma decodes_32:
  assumes "has_flag dflags APR_ENCODE_BASE32HEX \<longleftrightarrow> has_flag flags APR_ENCODE_BASE32HEX"
  shows "decodes (\<lambda>src slen. apr_decode_base32_binary True src slen dflags) (encoded32 flags xs)
     (decoding (padded_status flags dflags (padlen32 xs)) xs [])"
  "decodes (\<lambda>src slen. apr_decode_base32 True src slen dflags) (encoded32 flags xs)
     (decoding (padded_status flags dflags (padlen32 xs)) xs [0])"
  by (intro decodesI encoded32_no_nul;
      simp add: decode_api decode32_main_text [OF assms] decoding_def scan_status_pad)+

text \<open>
  Decoding what \<open>apr_encode_base32_binary\<close> wrote gives back exactly the bytes encoded, if both
  calls agree about \<open>APR_ENCODE_BASE32HEX\<close>.
\<close>

theorem apr_base32_round_trip:
  assumes "has_flag dflags APR_ENCODE_BASE32HEX \<longleftrightarrow> has_flag flags APR_ENCODE_BASE32HEX"
    and "length xs \<le> 2 ^ 31"
  shows "\<exists>out. apr_encode_base32_binary True (Some (xs @ ys)) (length xs) flags = encoding out \<and>
     decodes (\<lambda>src slen. apr_decode_base32_binary True src slen dflags) out
       (decoding (padded_status flags dflags (padlen32 xs)) xs []) \<and>
     decodes (\<lambda>src slen. apr_decode_base32 True src slen dflags) out
       (decoding (padded_status flags dflags (padlen32 xs)) xs [0])"
  using decodes_32 [OF assms(1)] assms(2)
  by (intro exI [of _ "encoded32 flags xs"])
    (simp add: encode_api encode32_main_text uchar_load.byte_load_axioms encoding_def int_index_def)

theorem apr_base32_round_trip_witness:
  "\<exists>out. apr_encode_base32_binary True (Some (foobar @ [])) (length foobar) APR_ENCODE_BASE32HEX = encoding out \<and>
     decodes (\<lambda>src slen. apr_decode_base32_binary True src slen (APR_ENCODE_BASE32HEX OR APR_ENCODE_RELAXED)) out
       (decoding APR_SUCCESS foobar []) \<and>
     decodes (\<lambda>src slen. apr_decode_base32 True src slen (APR_ENCODE_BASE32HEX OR APR_ENCODE_RELAXED)) out
       (decoding APR_SUCCESS foobar [0])"
proof -
  have 1: "has_flag (APR_ENCODE_BASE32HEX OR APR_ENCODE_RELAXED) APR_ENCODE_BASE32HEX \<longleftrightarrow>
      has_flag APR_ENCODE_BASE32HEX APR_ENCODE_BASE32HEX"
    by (simp add: has_flag_def APR_ENCODE_BASE32HEX_def APR_ENCODE_RELAXED_def)
  have 2: "padded_status APR_ENCODE_BASE32HEX (APR_ENCODE_BASE32HEX OR APR_ENCODE_RELAXED) (padlen32 foobar) = APR_SUCCESS"
    by (simp add: padded_status_def has_flag_def APR_ENCODE_BASE32HEX_def APR_ENCODE_RELAXED_def)
  show ?thesis
    using apr_base32_round_trip [OF 1, of foobar "[]", unfolded 2] by (simp add: foobar_def)
qed

lemma decodes_16:
  "decodes (\<lambda>src slen. apr_decode_base16_binary True src slen dflags) (encoded16 flags xs)
     (decoding APR_SUCCESS xs [])"
  "decodes (\<lambda>src slen. apr_decode_base16 True src slen dflags) (encoded16 flags xs)
     (decoding APR_SUCCESS xs [0])"
  by (intro decodesI encoded16_no_nul; simp add: decode_api decode16_main_text decoding_def)+

text \<open>
  Decoding what \<open>apr_encode_base16_binary\<close> wrote, in upper or lower case, with colons or
  without, succeeds and gives back exactly the bytes encoded.
\<close>

theorem apr_base16_round_trip:
  "\<exists>out. apr_encode_base16_binary True (Some (xs @ ys)) (length xs) flags = encoding out \<and>
     decodes (\<lambda>src slen. apr_decode_base16_binary True src slen dflags) out (decoding APR_SUCCESS xs []) \<and>
     decodes (\<lambda>src slen. apr_decode_base16 True src slen dflags) out (decoding APR_SUCCESS xs [0])"
  using decodes_16
  by (intro exI [of _ "encoded16 flags xs"]) (simp add: encode_api encode16_main_text encoding_def)

text \<open>
  The base16 encoders write the two hexadecimal digits of every byte, in the case and with the
  colons the flags select.
\<close>

theorem apr_encode_base16_correct:
  "apr_encode_base16_binary True (Some (xs @ rest)) (length xs) flags = encoding (encoded16 flags xs) \<and>
   apr_encode_base16 True (Some (xs @ rest)) (Slen (length xs)) flags = encoding (encoded16 flags xs) \<and>
   (cstr xs \<longrightarrow>
     apr_encode_base16 True (Some (xs @ 0 # rest)) APR_ENCODE_STRING flags = encoding (encoded16 flags xs))"
  using encode16_main_string [of xs rest flags]
  by (simp add: encode_api encode16_main_text encoding_def cstr_ball)

theorem apr_encode_base16_correct_witness:
  "cstr foobar \<and>
   encoded16 (APR_ENCODE_LOWER OR APR_ENCODE_COLON) foobar =
     [54, 54, 58, 54, 102, 58, 54, 102, 58, 54, 50, 58, 54, 49, 58, 55, 50] \<and>
   apr_encode_base16 True (Some (foobar @ 0 # [])) APR_ENCODE_STRING (APR_ENCODE_LOWER OR APR_ENCODE_COLON) =
     encoding (encoded16 (APR_ENCODE_LOWER OR APR_ENCODE_COLON) foobar)"
proof (intro conjI)
  show c: "cstr foobar" by (simp add: foobar_def)
  show "encoded16 (APR_ENCODE_LOWER OR APR_ENCODE_COLON) foobar =
      [54, 54, 58, 54, 102, 58, 54, 102, 58, 54, 50, 58, 54, 49, 58, 55, 50]"
    by (simp add: foobar_def encoded16_def alpha16_def has_flag_def APR_ENCODE_LOWER_def APR_ENCODE_COLON_def
        base16lower_def)
  show "apr_encode_base16 True (Some (foobar @ 0 # [])) APR_ENCODE_STRING (APR_ENCODE_LOWER OR APR_ENCODE_COLON) =
     encoding (encoded16 (APR_ENCODE_LOWER OR APR_ENCODE_COLON) foobar)"
    using apr_encode_base16_correct [of foobar "[]" "APR_ENCODE_LOWER OR APR_ENCODE_COLON"] c by blast
qed

section \<open>Buffer sizes\<close>

lemma length_text64: "length (text64 base xs) + padlen64 xs = (length xs + 2) div 3 * 4"
proof (induction xs rule: digits64.induct)
  case (1 a b c r)
  have "Suc (Suc (Suc (length r))) + 2 = (length r + 2) + 1 * 3" by simp
  then have "(Suc (Suc (Suc (length r))) + 2) div 3 = (length r + 2) div 3 + 1" by (simp only: div_mult_self1)
  with 1 show ?case by simp
qed simp_all

lemma length_text32: "length (text32 base xs) + padlen32 xs = (length xs + 4) div 5 * 8"
proof (induction xs rule: digits32.induct)
  case (1 a b c d e r)
  have "length (a # b # c # d # e # r) + 4 = (length r + 4) + 1 * 5" by simp
  then have "(length (a # b # c # d # e # r) + 4) div 5 = (length r + 4) div 5 + 1" by (simp only: div_mult_self1)
  with 1 show ?case by simp
qed simp_all

lemma length_text16:
  "length (text16 base colon start xs) =
     2 * length xs + (if colon then length xs - (if start then 1 else 0) else 0)"
  by (induction xs arbitrary: start) auto

lemma length_written64: "length (written64 flags xs) \<le> (length xs + 2) div 3 * 4"
  using length_text64 [of "alpha64 flags" xs] by (simp add: written64_def pad_replicate)

lemma length_encoded32: "length (encoded32 flags xs) \<le> (length xs + 4) div 5 * 8"
  using length_text32 [of "alpha32 flags" xs] by (simp add: encoded32_def pad_replicate)

lemma length_encoded16:
  "Suc (length (encoded16 flags xs)) =
     (if has_flag flags APR_ENCODE_COLON \<and> length xs \<noteq> 0 then length xs * 3 else length xs * 2 + 1)"
  by (cases xs) (simp_all add: encoded16_def length_text16)

text \<open>
  The buffers the pool variants of the encoders allocate from the answer to the length query hold
  the whole text with its terminating NUL; for base 16 they are exactly as long.
\<close>

theorem apr_pencode_buffers:
  assumes "length xs \<le> 2 ^ 31"
  shows "\<exists>sz. apr_pencode_base64_binary (Some (xs @ rest)) (length xs) flags =
      Some (Some (sz, written64 flags xs @ [0], Some (length (written64 flags xs)))) \<and>
     length (written64 flags xs @ [0]) \<le> sz \<and>
     apr_pencode_base64 (Some (xs @ rest)) (Slen (length xs)) flags =
      Some (Some (sz, written64 flags xs @ [0], Some (length (written64 flags xs)))) \<and>
   (\<exists>sz. apr_pencode_base32_binary (Some (xs @ rest)) (length xs) flags =
      Some (Some (sz, encoded32 flags xs @ [0], Some (length (encoded32 flags xs)))) \<and>
     length (encoded32 flags xs @ [0]) \<le> sz) \<and>
   (\<exists>sz. apr_pencode_base16_binary (Some (xs @ rest)) (length xs) flags =
      Some (Some (sz, encoded16 flags xs @ [0], Some (length (encoded16 flags xs)))) \<and>
     length (encoded16 flags xs @ [0]) = sz \<and>
     apr_pencode_base16 (Some (xs @ rest)) (Slen (length xs)) flags =
      Some (Some (sz, encoded16 flags xs @ [0], Some (length (encoded16 flags xs)))))"
proof -
  note load = char_load.byte_load_axioms uchar_load.byte_load_axioms
  have f: "encode64_main ld False m n flags = Some (APR_SUCCESS, [], Some ((n + 2) div 3 * 4 + 1))"
    "encode32_main ld q False m n flags = Some (APR_SUCCESS, [], Some q)" for ld m n q
    by (simp_all add: encode64_main_def encode32_main_def)
  have g: "encode16_main False m (Slen n) flags = Some (APR_SUCCESS, [], Some
      (if has_flag flags APR_ENCODE_COLON \<and> n \<noteq> 0 then n * 3 else n * 2 + 1))" for m n
    by (simp add: encode16_main_def read_len_Slen)
  note p = pooled_call_def encode_api f g read_len_Slen encode64_main_text load encode32_main_text encode16_main_text
  show ?thesis
    using assms length_written64 [of flags xs] length_encoded32 [of flags xs] length_encoded16 [of flags xs]
    by (simp add: p apr_pencode_base64_binary_def apr_pencode_base64_def apr_pencode_base32_binary_def
        apr_pencode_base16_binary_def apr_pencode_base16_def int_index_def)
qed

lemma scan_while_bound: "scan_while P src i n = Some (j, c) \<Longrightarrow> j + c \<le> Suc (i + n)"
proof (induction P src i n rule: scan_while.induct)
  case (1 P src i n)
  then show ?case by (auto simp: scan_while.simps [of P src i n] split: if_splits)
qed

lemma scan_source_bound: "scan_source P Q src n flags = Some (k, st) \<Longrightarrow> k \<le> n"
  by (auto simp: scan_source_def split: option.splits prod.splits dest!: scan_while_bound)

lemma length_decode32_loop: "length (fst (decode32_loop t src i n)) = n * 5 div 8"
proof (induction t src i n rule: decode32_loop.induct)
  case (1 t src i n)
  show ?case
  proof (cases "8 < n")
    case True
    then have "n * 5 = (n - 8) * 5 + 5 * 8" by simp
    then have "n * 5 div 8 = 5 + (n - 8) * 5 div 8" by (simp only: div_mult_self3)
    with True 1 show ?thesis by (simp add: decode32_loop.simps [of t src i n] case_prod_beta Let_def)
  next
    case False
    then have "n = 0 \<or> n = 1 \<or> n = 2 \<or> n = 3 \<or> n = 4 \<or> n = 5 \<or> n = 6 \<or> n = 7 \<or> n = 8" by linarith
    then show ?thesis unfolding decode32_loop.simps [of t src i n] by (elim disjE) simp_all
  qed
qed

lemma decode64_main_length: "decode64_main src n flags = Some (st, out) \<Longrightarrow> length out \<le> (n + 3) div 4 * 3"
proof -
  assume "decode64_main src n flags = Some (st, out)"
  then obtain k st' where "scan_source (\<lambda>c. pr pr2six c < 64) (\<lambda>c. pr pr2six c > 64) src n flags = Some (k, st')"
    and out: "out = fst (decode64_loop src 0 k)"
    by (auto simp: decode64_main_def case_prod_beta Let_def split: option.splits)
  then have "k \<le> n" by (blast dest: scan_source_bound)
  then have "k * 3 div 4 \<le> (n + 3) div 4 * 3" by linarith
  then show ?thesis by (simp add: out length_decode64_loop)
qed

lemma decode32_main_length: "decode32_main src n flags = Some (st, out) \<Longrightarrow> length out \<le> (n + 7) div 8 * 5"
proof -
  assume "decode32_main src n flags = Some (st, out)"
  then obtain t k st' where "scan_source (\<lambda>c. pr t c < 32) (\<lambda>c. pr t c > 32) src n flags = Some (k, st')"
    and out: "out = fst (decode32_loop t src 0 k)"
    by (auto simp: decode32_main_def case_prod_beta Let_def split: option.splits)
  then have "k \<le> n" by (blast dest: scan_source_bound)
  then have "k * 5 div 8 \<le> (n + 7) div 8 * 5" by linarith
  then show ?thesis by (simp add: out length_decode32_loop)
qed

lemma decode16_main_length:
  "decode16_main z True src n flags = Some (st, out, len) \<Longrightarrow>
   decode16_main z False src n flags = Some (st', out', Some sz) \<Longrightarrow> length out = sz"
  by (auto simp: decode16_main_def count16_loop_eq case_prod_beta Let_def split: option.splits)

definition fits :: "pooled \<Rightarrow> bool" where
  "fits r \<longleftrightarrow> (case r of Some (Some (sz, out, _)) \<Rightarrow> length out \<le> sz | _ \<Rightarrow> True)"

lemma fits_pooled_call:
  assumes "\<And>st out len sz out'. f True = Some (st, out, len) \<Longrightarrow> f False = Some (APR_SUCCESS, out', Some sz) \<Longrightarrow>
    length out \<le> sz + k"
  shows "fits (pooled_call k f)"
proof (cases "f False")
  case (Some r)
  obtain st out' sz where r: "r = (st, out', sz)" by (cases r)
  show ?thesis
    using assms [of _ _ _ out'] Some r
    by (cases st; cases sz; cases "f True") (auto simp: fits_def pooled_call_def)
qed (simp add: fits_def pooled_call_def)

text \<open>The answers to the length query, where the conversion to \<open>int\<close> and the addition are exact.\<close>

lemma int_cast_small: "n < 2 ^ 31 \<Longrightarrow> int_cast n = int n"
  by (simp add: int_cast_def sint_uint unsigned_of_nat signed_take_bit_eq_if_positive take_bit_nat_eq_self
      signed_take_bit_int_eq_self)

lemma decoded_size_nat:
  assumes "n + k < 2 ^ 31" "b \<le> 5" "z \<le> 1"
  shows "decoded_size (int (Suc k)) (int b) (int z) n = Some (APR_SUCCESS, [], Some ((n + k) div Suc k * b + z))"
proof -
  have c: "int_cast n + (int (Suc k) - 1) = int (n + k)" using assms(1) by (simp add: int_cast_small)
  have "(n + k) div Suc k \<le> n + k" by (rule div_le_dividend)
  then have "(n + k) div Suc k * b \<le> (n + k) * 5" using assms(2) by (intro mult_le_mono)
  then have "(n + k) div Suc k * b + z < 2 ^ 64" using assms(1,3) by simp
  then have "int ((n + k) div Suc k * b + z) < int (2 ^ 64)" by (simp only: of_nat_less_iff)
  then have m: "int ((n + k) div Suc k * b + z) mod 2 ^ 64 = int ((n + k) div Suc k * b + z)"
    by (intro mod_pos_pos_trivial) simp_all
  have e: "int (n + k) sdiv int (Suc k) * int b + int z = int ((n + k) div Suc k * b + z)"
    by (simp add: signed_divide_int_def sgn_if zdiv_int)
  have "int (n + k) < 2 ^ 31" using assms(1) by simp
  then show ?thesis unfolding decoded_size_def c e m nat_int by (simp only: if_True)
qed

lemma decoded_size_small:
  "n + 3 < 2 ^ 31 \<Longrightarrow> decoded_size 4 3 1 n = Some (APR_SUCCESS, [], Some ((n + 3) div 4 * 3 + 1))"
  "n + 3 < 2 ^ 31 \<Longrightarrow> decoded_size 4 3 0 n = Some (APR_SUCCESS, [], Some ((n + 3) div 4 * 3))"
  "n + 7 < 2 ^ 31 \<Longrightarrow> decoded_size 8 5 1 n = Some (APR_SUCCESS, [], Some ((n + 7) div 8 * 5 + 1))"
  "n + 7 < 2 ^ 31 \<Longrightarrow> decoded_size 8 5 0 n = Some (APR_SUCCESS, [], Some ((n + 7) div 8 * 5))"
  using decoded_size_nat [of n 3 3 1] decoded_size_nat [of n 3 3 0]
    decoded_size_nat [of n 7 5 1] decoded_size_nat [of n 7 5 0] by simp_all

definition int_source :: "byte list option \<Rightarrow> slen \<Rightarrow> bool" where
  "int_source src slen \<longleftrightarrow>
     (case src of
        None \<Rightarrow> True
      | Some m \<Rightarrow> (case read_len m slen of None \<Rightarrow> True | Some n \<Rightarrow> n + 7 < 2 ^ 31))"

text \<open>
  C34. No decoder writes past the buffer its pool variant allocates from the answer to the length
  query, whatever the source holds, if the source is shorter than \<open>2 ^ 31 - 7\<close> characters, so that the
  query computes with the length itself.
\<close>

theorem apr_pdecode_buffers:
  assumes "int_source src slen"
  shows "fits (apr_pdecode_base64 src slen flags) \<and> fits (apr_pdecode_base64_binary src slen flags) \<and>
   fits (apr_pdecode_base32 src slen flags) \<and> fits (apr_pdecode_base32_binary src slen flags) \<and>
   fits (apr_pdecode_base16 src slen flags) \<and> fits (apr_pdecode_base16_binary src slen flags)"
  unfolding apr_pdecode_base64_def apr_pdecode_base64_binary_def apr_pdecode_base32_def
    apr_pdecode_base32_binary_def apr_pdecode_base16_def apr_pdecode_base16_binary_def
  using assms
  by (intro conjI fits_pooled_call)
    (auto simp: decode_api decoded_size_small int_source_def
      dest: decode64_main_length decode32_main_length decode16_main_length split: option.splits prod.splits)

theorem apr_pdecode_buffers_witness:
  "int_source (Some ([90, 109, 57, 118] @ 0 # 0 # [])) APR_ENCODE_STRING \<and>
   fits (apr_pdecode_base64 (Some ([90, 109, 57, 118] @ 0 # 0 # [])) APR_ENCODE_STRING APR_ENCODE_NONE)"
proof -
  have "int_source (Some ([90, 109, 57, 118] @ 0 # 0 # [])) APR_ENCODE_STRING"
    using read_len_text [of "[90, 109, 57, 118]" APR_ENCODE_STRING "[0]"] by (simp add: int_source_def)
  then show ?thesis using apr_pdecode_buffers [of _ _ APR_ENCODE_NONE] by blast
qed

section \<open>Errors\<close>

text \<open>The characters \<open>pr2six\<close> knows: the letters, the digits and \<open>+ - / _\<close> of both alphabets.\<close>

definition base64_char :: "byte \<Rightarrow> bool" where
  "base64_char c \<longleftrightarrow>
     c = 43 \<or> c = 45 \<or> 47 \<le> c \<and> c \<le> 57 \<or> 65 \<le> c \<and> c \<le> 90 \<or> c = 95 \<or> 97 \<le> c \<and> c \<le> 122"

lemma pr2six_runs: "pr2six =
   replicate 43 64 @ [62, 64, 62, 64, 63] @ [52, 53, 54, 55, 56, 57, 58, 59, 60, 61] @ [64, 64, 64, 128, 64, 64, 64] @
   [0, 1, 2, 3, 4, 5, 6, 7, 8, 9, 10, 11, 12, 13, 14, 15, 16, 17, 18, 19, 20, 21, 22, 23, 24, 25] @
   [64, 64, 64, 64, 63, 64] @
   [26, 27, 28, 29, 30, 31, 32, 33, 34, 35, 36, 37, 38, 39, 40, 41, 42, 43, 44, 45, 46, 47, 48, 49, 50, 51] @
   replicate 133 64"
  unfolding pr2six_def by (simp add: eval_nat_numeral)

lemma nth_less: "list_all (\<lambda>v. v < b) xs \<Longrightarrow> i < length xs \<Longrightarrow> xs ! i < b"
  by (simp add: list_all_length)

lemma nth_below_append: "((xs @ ys) ! i < (b :: byte)) = (if i < length xs then xs ! i < b else ys ! (i - length xs) < b)"
  by (simp add: nth_append)

lemma run_upper: "i < 26 \<Longrightarrow> [0, 1, 2, 3, 4, 5, 6, 7, 8, 9, 10, 11, 12, 13, 14, 15, 16, 17, 18, 19, 20, 21, 22, 23, 24, 25] ! i < (64 :: byte)"
  by (rule nth_less) simp_all

lemma run_lower: "i < 26 \<Longrightarrow> [26, 27, 28, 29, 30, 31, 32, 33, 34, 35, 36, 37, 38, 39, 40, 41, 42, 43, 44, 45, 46, 47, 48, 49, 50, 51] ! i < (64 :: byte)"
  by (rule nth_less) simp_all

lemma run_digit: "i < 10 \<Longrightarrow> [52, 53, 54, 55, 56, 57, 58, 59, 60, 61] ! i < (64 :: byte)"
  by (rule nth_less) simp_all

lemma pr2six_valid: 
  assumes "n < 256"
  shows "pr2six ! n < 64 \<longleftrightarrow>
    n = 43 \<or> n = 45 \<or> 47 \<le> n \<and> n \<le> 57 \<or> 65 \<le> n \<and> n \<le> 90 \<or> n = 95 \<or> 97 \<le> n \<and> n \<le> 122"
proof -
  consider "n < 43" | "43 \<le> n \<and> n < 48" | "48 \<le> n \<and> n < 58" | "58 \<le> n \<and> n < 65" | "65 \<le> n \<and> n < 91" | "91 \<le> n \<and> n < 97"
    | "97 \<le> n \<and> n < 123" | "123 \<le> n" by linarith
  then show ?thesis
  proof cases
    case 1 then show ?thesis unfolding pr2six_runs nth_below_append by simp
  next
    case 2 then have "n = 43 \<or> n = 44 \<or> n = 45 \<or> n = 46 \<or> n = 47" by linarith 
    then show ?thesis unfolding pr2six_runs nth_below_append by (elim disjE) simp_all
  next
    case 3 then show ?thesis unfolding pr2six_runs nth_below_append by (auto simp: run_digit)
  next
    case 4 then have "n = 58 \<or> n = 59 \<or> n = 60 \<or> n = 61 \<or> n = 62 \<or> n = 63 \<or> n = 64" by linarith 
    then show ?thesis unfolding pr2six_runs nth_below_append by (elim disjE) simp_all
  next
    case 5 then show ?thesis unfolding pr2six_runs nth_below_append by (auto simp: run_upper)
  next
    case 6 then have "n = 91 \<or> n = 92 \<or> n = 93 \<or> n = 94 \<or> n = 95 \<or> n = 96" by linarith 
    then show ?thesis unfolding pr2six_runs nth_below_append by (elim disjE) simp_all
  next
    case 7 then show ?thesis unfolding pr2six_runs nth_below_append by (auto simp: run_lower)
  next
    case 8 with assms show ?thesis unfolding pr2six_runs nth_below_append by auto
  qed
qed

lemma unat_eq_iff_numeral: "c = numeral k \<longleftrightarrow> unat c = unat (numeral k :: byte)" for c :: byte
  by (rule word_unat_eq_iff)

lemma pr2six_letter: "pr pr2six c < 64 \<longleftrightarrow> base64_char c"
  using pr2six_valid [OF unat_byte [of c]]
  by (simp add: pr_def base64_char_def word_le_nat_alt unat_eq_iff_numeral)

lemma pr2six_nul: "pr pr2six 0 = 64"
  by code_simp

definition letters64 :: "byte list \<Rightarrow> byte list" where
  "letters64 s = takeWhile base64_char s"

lemma scan_source_status:
  "scan_source P Q src n flags = Some (k, st) \<Longrightarrow> st = APR_SUCCESS \<or> st = APR_BADCH"
  by (auto simp: scan_source_def scan_status_def split: option.splits prod.splits if_splits)

lemma decode64_main_string:
  "\<exists>out. decode64_main (s @ 0 # e # rest) (length s) flags =
     Some (if length (letters64 s) mod 4 = 1 \<or> letters64 s \<noteq> s \<and> \<not> has_flag flags APR_ENCODE_RELAXED
           then APR_BADCH else APR_SUCCESS, out) \<and>
     length out = length (letters64 s) * 3 div 4"
proof -
  let ?P = "\<lambda>c. pr pr2six c < 64"
  have nul: "\<not> ?P 0" "\<not> pr pr2six 0 > 64" unfolding pr2six_nul by simp_all
  have l: "takeWhile ?P s = letters64 s" unfolding letters64_def pr2six_letter ..
  have "(\<forall>c \<in> set s. ?P c) \<longleftrightarrow> letters64 s = s" unfolding l [symmetric] takeWhile_eq_all_conv ..
  then obtain st where
    "scan_source ?P (\<lambda>c. pr pr2six c > 64) (s @ 0 # e # rest) (length s) flags = Some (length (letters64 s), st)"
    and "st = APR_SUCCESS \<longleftrightarrow> has_flag flags APR_ENCODE_RELAXED \<or> letters64 s = s"
    using scan_source_string [of ?P "\<lambda>c. pr pr2six c > 64" s e rest flags, OF nul] unfolding l by blast
  then show ?thesis
    using decode64_loop_bad [of "s @ 0 # e # rest" 0 "length (letters64 s)"]
      length_decode64_loop [of "s @ 0 # e # rest" 0 "length (letters64 s)"]
    by (auto simp: decode64_main_def case_prod_beta Let_def dest: scan_source_status)
qed


text \<open>The characters that are neither letters of the alphabets nor padding.\<close>

definition bad64 :: "byte \<Rightarrow> bool" where
  "bad64 c \<longleftrightarrow> \<not> base64_char c \<and> c \<noteq> 61"

text \<open>
  C27. A NULL source gives \<open>APR_NOTFOUND\<close>. On a string without the padding character, or on any string
  if \<open>APR_ENCODE_RELAXED\<close> is set, the decoder stops at the first character outside both alphabets and
  stores the number of bytes of the letters before it; the status is \<open>APR_BADCH\<close> exactly if one letter is
  left over, or if the string has a bad character, neither a letter nor padding, and
  \<open>APR_ENCODE_RELAXED\<close> is not set. The string is followed by its NUL and one more readable byte. Padded
  strings without \<open>APR_ENCODE_RELAXED\<close>, where the status is not the documented one, are outside this claim.
\<close>

theorem apr_decode_base64_status:
  assumes "cstr s" "61 \<notin> set s \<or> has_flag flags APR_ENCODE_RELAXED"
  shows "apr_decode_base64_binary True None slen flags = Some (APR_NOTFOUND, [], None) \<and>
    (\<exists>out. apr_decode_base64_binary True (Some (s @ 0 # e # rest)) APR_ENCODE_STRING flags =
       Some (if length (letters64 s) mod 4 = 1 \<or> list_ex bad64 s \<and> \<not> has_flag flags APR_ENCODE_RELAXED
             then APR_BADCH else APR_SUCCESS, out, Some (length out)) \<and>
     length out = length (letters64 s) * 3 div 4)"
proof -
  have r: "read_len (s @ 0 # e # rest) APR_ENCODE_STRING = Some (length s)"
    using assms(1) by (intro read_len_text) (auto simp: cstr_ball)
  have "letters64 s = s \<longleftrightarrow> (\<forall>c \<in> set s. base64_char c)" by (simp add: letters64_def takeWhile_eq_all_conv)
  then have b: "letters64 s \<noteq> s \<and> \<not> has_flag flags APR_ENCODE_RELAXED \<longleftrightarrow>
      list_ex bad64 s \<and> \<not> has_flag flags APR_ENCODE_RELAXED"
    using assms(2) by (auto simp: list_ex_iff bad64_def)
  obtain out where "decode64_main (s @ 0 # e # rest) (length s) flags =
     Some (if length (letters64 s) mod 4 = 1 \<or> letters64 s \<noteq> s \<and> \<not> has_flag flags APR_ENCODE_RELAXED
           then APR_BADCH else APR_SUCCESS, out)" "length out = length (letters64 s) * 3 div 4"
    using decode64_main_string by blast
  then show ?thesis unfolding b by (auto simp: decode_api r)
qed

text \<open>\<open>Zm9v!\<close> has a character outside the alphabet, \<open>Zm9vY\<close> one letter too many.\<close>

theorem apr_decode_base64_status_witness:
  "(\<exists>out. apr_decode_base64_binary True (Some ([90, 109, 57, 118, 33] @ 0 # 0 # [])) APR_ENCODE_STRING APR_ENCODE_NONE =
      Some (APR_BADCH, out, Some 3)) \<and>
   (\<exists>out. apr_decode_base64_binary True (Some ([90, 109, 57, 118, 33] @ 0 # 0 # [])) APR_ENCODE_STRING APR_ENCODE_RELAXED =
      Some (APR_SUCCESS, out, Some 3)) \<and>
   (\<exists>out. apr_decode_base64_binary True (Some ([90, 109, 57, 118, 89] @ 0 # 0 # [])) APR_ENCODE_STRING APR_ENCODE_RELAXED =
      Some (APR_BADCH, out, Some 3))"
proof -
  note f = has_flag_def APR_ENCODE_NONE_def APR_ENCODE_RELAXED_def
  have l: "letters64 [90, 109, 57, 118, 33] = [90, 109, 57, 118]"
    "letters64 [90, 109, 57, 118, 89] = [90, 109, 57, 118, 89]"
    by (simp_all add: letters64_def base64_char_def)
  note t = apr_decode_base64_status [of "[90, 109, 57, 118, 33]" _ "Slen 0" 0 "[]", unfolded l]
    apr_decode_base64_status [of "[90, 109, 57, 118, 89]" _ "Slen 0" 0 "[]", unfolded l]
  show ?thesis
    using t(1) [of APR_ENCODE_NONE] t(1) [of APR_ENCODE_RELAXED] t(2) [of APR_ENCODE_RELAXED]
    by (auto simp: f cstr_def bad64_def base64_char_def)
qed

section \<open>Divergences from the documentation\<close>

text \<open>
  \<open>apr_encode_base32\<close> computes the size for a NULL destination as for base 64: the encoding of one
  byte writes nine bytes, the query answers five.
\<close>

lemma apr_pencode_base32_overflows:
  "\<exists>out len. apr_pencode_base32 (Some [102, 0]) APR_ENCODE_STRING APR_ENCODE_NONE = Some (Some (5, out, len)) \<and>
     length out = 9"
proof -
  have r: "read_len [102, 0] APR_ENCODE_STRING = Some 1"
    using read_len_text [of "[102]" APR_ENCODE_STRING "[]"] by simp
  have "length (encoded32 APR_ENCODE_NONE [102]) = 8"
    using length_text32 [of "alpha32 APR_ENCODE_NONE" "[102]"]
    by (simp add: encoded32_def pad_def has_flag_def APR_ENCODE_NONE_def)
  then show ?thesis
    using encode32_main_text [OF char_load.byte_load_axioms, of 1 "[102, 0]" _ APR_ENCODE_NONE]
    by (simp add: apr_pencode_base32_def pooled_call_def encode_api r encode32_main_def int_index_def)
qed

text \<open>
  The decoders read the byte after the terminating NUL: on a buffer that ends with it the result is
  a read past the end, even for a valid text.
\<close>

lemma apr_decode_base64_reads_past_nul:
  "apr_decode_base64_binary True (Some ([90, 109, 57, 118] @ [0])) APR_ENCODE_STRING APR_ENCODE_NONE = None"
proof -
  have r: "read_len ([90, 109, 57, 118] @ [0]) APR_ENCODE_STRING = Some 4"
    using read_len_text [of "[90, 109, 57, 118]" APR_ENCODE_STRING "[]"] by simp
  have "scan_while (\<lambda>c. pr pr2six c < 64) ([90, 109, 57, 118] @ [0]) 0 4 = Some (5, 0)"
    using scan_while_run [of "[90, 109, 57, 118]" "\<lambda>c. pr pr2six c < 64" 4 0 "[]" "[]"]
    unfolding pr2six_letter by (simp add: base64_char_def)
  moreover have "scan_while Q ([90, 109, 57, 118] @ [0]) 5 0 = None" for Q
    by (simp add: scan_while.simps)
  ultimately show ?thesis
    by (simp add: decode_api r [simplified] decode64_main_def scan_source_def)
qed

text \<open>
  Padding the encoder itself writes makes a decoder without \<open>APR_ENCODE_RELAXED\<close> report a bad
  character: the text of one byte has two padding characters.
\<close>

lemma apr_decode_base64_rejects_padding:
  "decodes (\<lambda>src slen. apr_decode_base64_binary True src slen APR_ENCODE_NONE)
     (written64 APR_ENCODE_NONE [102]) (decoding APR_BADCH [102] [])"
  using decodes_64(1) [of APR_ENCODE_NONE APR_ENCODE_NONE "[102]"]
  by (simp add: padded_status_def has_flag_def APR_ENCODE_NONE_def)

text \<open>
  The length query converts the length to an \<open>int\<close>: for a text of \<open>2 ^ 32\<close> letters the pool variant
  allocates one byte, of which the decoder writes three quarters of \<open>2 ^ 32\<close> and the NUL; from
  \<open>2 ^ 31 - 3\<close> on the addition overflows.
\<close>

lemma apr_pdecode_base64_truncates_length:
  assumes "cstr s" "letters64 s = s" "length s = 2 ^ 32"
  shows "\<exists>out len. apr_pdecode_base64 (Some (s @ 0 # e # rest)) APR_ENCODE_STRING flags = Some (Some (1, out, len)) \<and>
    length out = 3 * 2 ^ 30 + 1"
proof -
  have r: "read_len (s @ 0 # e # rest) APR_ENCODE_STRING = Some (2 ^ 32)"
    using read_len_text [of s APR_ENCODE_STRING "e # rest"] assms by (auto simp: cstr_ball)
  have q: "decoded_size 4 3 1 (2 ^ 32) = Some (APR_SUCCESS, [], Some 1)"
    by (simp add: decoded_size_def int_cast_def signed_divide_int_def)
  obtain st out where "decode64_main (s @ 0 # e # rest) (2 ^ 32) flags = Some (st, out)" "length out = 3 * 2 ^ 30"
    using decode64_main_string [of s e rest flags] assms by auto
  then show ?thesis
    by (simp add: apr_pdecode_base64_def pooled_call_def decode_api r q [simplified])
qed

lemma apr_decode_base64_query_overflows: "decoded_size 4 3 1 (2 ^ 31 - 3) = None"
  by (simp add: decoded_size_def int_cast_small)

text \<open>
  \<open>APR_ENCODE_NOPADDING\<close> alone selects the URL alphabet, because \<open>APR_ENCODE_BASE64URL\<close> is tested as a
  mask of two bits.
\<close>

lemma nopadding_selects_url_alphabet: "alpha64 APR_ENCODE_NOPADDING = base64url"
  by (simp add: alpha64_def has_flag_def APR_ENCODE_NOPADDING_def APR_ENCODE_BASE64URL_def
      APR_ENCODE_URL_def)

text \<open>The pool variant returns the bytes decoded before a bad character, where NULL is documented.\<close>

lemma apr_pdecode_base64_ignores_errors:
  "\<exists>out. apr_pdecode_base64_binary (Some ([33] @ 0 # 0 # [])) APR_ENCODE_STRING APR_ENCODE_NONE =
     Some (Some (4, out, Some 0))"
proof -
  have r: "read_len ([33] @ 0 # 0 # []) APR_ENCODE_STRING = Some 1"
    using read_len_text [of "[33]" APR_ENCODE_STRING "[0]"] by simp
  have "letters64 [33] = []" by (simp add: letters64_def base64_char_def)
  then obtain st where "decode64_main ([33] @ 0 # 0 # []) (length [33 :: byte]) APR_ENCODE_NONE = Some (st, [])"
    using decode64_main_string [of "[33]" 0 "[]" APR_ENCODE_NONE] by auto
  then show ?thesis
    by (simp add: apr_pdecode_base64_binary_def pooled_call_def decode_api r [simplified]
        decoded_size_small(2) [of 1, simplified])
qed

end
