(* ===== verification/Apr_Hash.thy ===== *)
theory Apr_Hash
  imports Apr_Prelude
begin

text \<open>
  The hash tables of \<^verbatim>\<open>tables/apr_hash.c\<close>. The entries live in a heap, a list of records that
  \<open>apr_palloc\<close> extends, and an entry is its position in it; a NULL pointer is \<open>None\<close>. A hash has the
  fields of the C structure, the pool apart. A pointer to a pointer to an entry is the place it points
  to: an element of the array or the \<open>next\<close> field of an entry. A key is the bytes that can be read from
  its pointer on; the table keeps the pointer and not a copy, so it has to stay unchanged while the
  table uses it. A value is a non-NULL pointer. A function whose loops may follow a cyclic list returns
  \<open>None\<close> if it does not end or reads memory that is not there.
\<close>

section \<open>State\<close>

datatype klen = APR_HASH_KEY_STRING | KLen nat

record 'v apr_hash_entry_t =
  e_next :: "nat option"
  e_hash :: u32
  e_key :: "byte list"
  e_klen :: nat
  e_val :: 'v

type_synonym 'v heap = "'v apr_hash_entry_t list"

record apr_hash_index_t =
  hi_this :: "nat option"
  hi_next :: "nat option"
  hi_index :: u32

type_synonym hashfunc = "byte list \<Rightarrow> klen \<Rightarrow> (u32 \<times> nat) option"

record apr_hash_t =
  h_array :: "nat option list"
  h_iter :: apr_hash_index_t
  h_count :: u32
  h_max :: u32
  h_seed :: u32
  h_func :: "hashfunc option"
  h_free :: "nat option"

type_synonym 'v hstate = "'v heap \<times> apr_hash_t"

section \<open>Creation and iteration\<close>

definition INITIAL_MAX :: u32 where
  "INITIAL_MAX = 15"

definition alloc_array :: "u32 \<Rightarrow> nat option list" where
  "alloc_array mx = replicate (unat (mx + 1)) None"

definition idle_iter :: apr_hash_index_t where
  "idle_iter = \<lparr>hi_this = None, hi_next = None, hi_index = 0\<rparr>"

text \<open>The seed is computed from the time and two addresses, so it is arbitrary.\<close>

definition apr_hash_make :: "u32 \<Rightarrow> apr_hash_t" where
  "apr_hash_make sd =
     \<lparr>h_array = alloc_array INITIAL_MAX, h_iter = idle_iter, h_count = 0, h_max = INITIAL_MAX,
      h_seed = sd, h_func = None, h_free = None\<rparr>"

definition apr_hash_make_custom :: "u32 \<Rightarrow> hashfunc \<Rightarrow> apr_hash_t" where
  "apr_hash_make_custom sd f = (apr_hash_make sd)\<lparr>h_func := Some f\<rparr>"

text \<open>The loop over the array; \<open>False\<close> stands for the result NULL.\<close>

partial_function (option) next_bucket ::
    "apr_hash_t \<Rightarrow> apr_hash_index_t \<Rightarrow> (apr_hash_index_t \<times> bool) option" where
  "next_bucket ht hi =
     (if hi_this hi \<noteq> None then Some (hi, True)
      else if hi_index hi > h_max ht then Some (hi, False)
      else if unat (hi_index hi) < length (h_array ht) then
        next_bucket ht (hi\<lparr>hi_this := h_array ht ! unat (hi_index hi), hi_index := hi_index hi + 1\<rparr>)
      else None)"

definition apr_hash_next ::
    "'v heap \<Rightarrow> apr_hash_t \<Rightarrow> apr_hash_index_t \<Rightarrow> (apr_hash_index_t \<times> bool) option" where
  "apr_hash_next hp ht hi =
     (case next_bucket ht (hi\<lparr>hi_this := hi_next hi\<rparr>) of
        None \<Rightarrow> None
      | Some (hi, b) \<Rightarrow>
          (case hi_this hi of
             None \<Rightarrow> Some (hi, b)
           | Some a \<Rightarrow> if a < length hp then Some (hi\<lparr>hi_next := e_next (hp ! a)\<rparr>, b) else None))"

definition apr_hash_first :: "'v heap \<Rightarrow> apr_hash_t \<Rightarrow> (apr_hash_index_t \<times> bool) option" where
  "apr_hash_first hp ht = apr_hash_next hp ht idle_iter"

definition apr_hash_this :: "'v heap \<Rightarrow> apr_hash_index_t \<Rightarrow> (byte list \<times> nat \<times> 'v) option" where
  "apr_hash_this hp hi =
     (case hi_this hi of
        None \<Rightarrow> None
      | Some a \<Rightarrow> if a < length hp then Some (e_key (hp ! a), e_klen (hp ! a), e_val (hp ! a)) else None)"

definition apr_hash_this_key :: "'v heap \<Rightarrow> apr_hash_index_t \<Rightarrow> byte list option" where
  "apr_hash_this_key hp hi = map_option fst (apr_hash_this hp hi)"

definition apr_hash_this_key_len :: "'v heap \<Rightarrow> apr_hash_index_t \<Rightarrow> nat option" where
  "apr_hash_this_key_len hp hi = map_option (fst \<circ> snd) (apr_hash_this hp hi)"

definition apr_hash_this_val :: "'v heap \<Rightarrow> apr_hash_index_t \<Rightarrow> 'v option" where
  "apr_hash_this_val hp hi = map_option (snd \<circ> snd) (apr_hash_this hp hi)"

text \<open>The iterator inside the structure, used when no pool is given.\<close>

definition iter_first :: "'v heap \<Rightarrow> apr_hash_t \<Rightarrow> (apr_hash_t \<times> bool) option" where
  "iter_first hp ht = map_option (\<lambda>(hi, b). (ht\<lparr>h_iter := hi\<rparr>, b)) (apr_hash_first hp ht)"

definition iter_next :: "'v heap \<Rightarrow> apr_hash_t \<Rightarrow> (apr_hash_t \<times> bool) option" where
  "iter_next hp ht = map_option (\<lambda>(hi, b). (ht\<lparr>h_iter := hi\<rparr>, b)) (apr_hash_next hp ht (h_iter ht))"

section \<open>Expansion\<close>

partial_function (option) expand_loop ::
    "'v heap \<Rightarrow> apr_hash_t \<Rightarrow> nat option list \<Rightarrow> u32 \<Rightarrow> bool \<Rightarrow>
     ('v heap \<times> apr_hash_t \<times> nat option list) option" where
  "expand_loop hp ht new_array new_max b =
     (if b then
        (case hi_this (h_iter ht) of
           None \<Rightarrow> None
         | Some a \<Rightarrow>
             (let i = unat (e_hash (hp ! a) AND new_max);
                  hp' = hp[a := (hp ! a)\<lparr>e_next := new_array ! i\<rparr>];
                  arr' = new_array[i := Some a]
              in case iter_next hp' ht of
                   None \<Rightarrow> None
                 | Some (ht', b') \<Rightarrow> expand_loop hp' ht' arr' new_max b'))
      else Some (hp, ht, new_array))"

definition expand_array :: "'v hstate \<Rightarrow> 'v hstate option" where
  "expand_array s =
     (let hp = fst s; ht = snd s;
          new_max = h_max ht * 2 + 1;
          new_array = alloc_array new_max
      in case iter_first hp ht of
           None \<Rightarrow> None
         | Some (ht', b) \<Rightarrow>
             (case expand_loop hp ht' new_array new_max b of
                None \<Rightarrow> None
              | Some (hp', ht'', arr) \<Rightarrow> Some (hp', ht''\<lparr>h_array := arr, h_max := new_max\<rparr>)))"

section \<open>Hash functions\<close>

fun hash_string :: "byte list \<Rightarrow> u32 \<Rightarrow> nat \<Rightarrow> (u32 \<times> nat) option" where
  "hash_string [] h n = None"
| "hash_string (p # ps) h n = (if p \<noteq> 0 then hash_string ps (h * 33 + ucast p) (n + 1) else Some (h, n))"

fun hash_bytes :: "nat \<Rightarrow> byte list \<Rightarrow> u32 \<Rightarrow> u32 option" where
  "hash_bytes 0 ps h = Some h"
| "hash_bytes (Suc i) [] h = None"
| "hash_bytes (Suc i) (p # ps) h = hash_bytes i ps (h * 33 + ucast p)"

definition hashfunc_default :: "byte list \<Rightarrow> klen \<Rightarrow> u32 \<Rightarrow> (u32 \<times> nat) option" where
  "hashfunc_default key kl h =
     (case kl of
        APR_HASH_KEY_STRING \<Rightarrow> hash_string key h 0
      | KLen n \<Rightarrow> map_option (\<lambda>h. (h, n)) (hash_bytes n key h))"

definition apr_hashfunc_default :: hashfunc where
  "apr_hashfunc_default key kl = hashfunc_default key kl 0"

definition hash_key :: "apr_hash_t \<Rightarrow> hashfunc" where
  "hash_key ht key kl =
     (case h_func ht of Some f \<Rightarrow> f key kl | None \<Rightarrow> hashfunc_default key kl (h_seed ht))"

section \<open>Lookup and update\<close>

datatype place = Bucket nat | NextOf nat

fun deref :: "'v hstate \<Rightarrow> place \<Rightarrow> nat option" where
  "deref (hp, ht) (Bucket i) = h_array ht ! i"
| "deref (hp, ht) (NextOf a) = e_next (hp ! a)"

fun assign :: "'v hstate \<Rightarrow> place \<Rightarrow> nat option \<Rightarrow> 'v hstate" where
  "assign (hp, ht) (Bucket i) v = (hp, ht\<lparr>h_array := (h_array ht)[i := v]\<rparr>)"
| "assign (hp, ht) (NextOf a) v = (hp[a := (hp ! a)\<lparr>e_next := v\<rparr>], ht)"

definition same_entry :: "u32 \<Rightarrow> nat \<Rightarrow> byte list \<Rightarrow> 'v apr_hash_entry_t \<Rightarrow> bool" where
  "same_entry h n key e \<longleftrightarrow> e_hash e = h \<and> e_klen e = n \<and> take n (e_key e) = take n key"

partial_function (option) scan_chain ::
    "'v hstate \<Rightarrow> u32 \<Rightarrow> nat \<Rightarrow> byte list \<Rightarrow> place \<Rightarrow> place option" where
  "scan_chain s h n key hep =
     (case deref s hep of
        None \<Rightarrow> Some hep
      | Some he \<Rightarrow> if same_entry h n key (fst s ! he) then Some hep else scan_chain s h n key (NextOf he))"

definition add_entry :: "'v hstate \<Rightarrow> place \<Rightarrow> 'v apr_hash_entry_t \<Rightarrow> 'v hstate" where
  "add_entry s hep e =
     (let (he, hp, ht) =
        (case h_free (snd s) of
           Some he \<Rightarrow> (he, (fst s)[he := e], (snd s)\<lparr>h_free := e_next (fst s ! he)\<rparr>)
         | None \<Rightarrow> (length (fst s), fst s @ [e], snd s))
      in assign (hp, ht\<lparr>h_count := h_count ht + 1\<rparr>) hep (Some he))"

definition find_entry :: "'v hstate \<Rightarrow> byte list \<Rightarrow> klen \<Rightarrow> 'v option \<Rightarrow> ('v hstate \<times> place) option" where
  "find_entry s key kl val =
     (case hash_key (snd s) key kl of
        None \<Rightarrow> None
      | Some (h, n) \<Rightarrow>
          (case scan_chain s h n key (Bucket (unat (h AND h_max (snd s)))) of
             None \<Rightarrow> None
           | Some hep \<Rightarrow>
               (case val of
                  None \<Rightarrow> Some (s, hep)
                | Some v \<Rightarrow>
                    if deref s hep \<noteq> None then Some (s, hep)
                    else Some (add_entry s hep \<lparr>e_next = None, e_hash = h, e_key = key, e_klen = n, e_val = v\<rparr>,
                               hep))))"

definition apr_hash_get :: "'v hstate \<Rightarrow> byte list \<Rightarrow> klen \<Rightarrow> 'v option option" where
  "apr_hash_get s key kl =
     (case find_entry s key kl None of
        None \<Rightarrow> None
      | Some (s, hep) \<Rightarrow> Some (map_option (\<lambda>he. e_val (fst s ! he)) (deref s hep)))"

definition delete_entry :: "'v hstate \<Rightarrow> place \<Rightarrow> nat \<Rightarrow> 'v hstate" where
  "delete_entry s hep old =
     (let (hp, ht) = assign s hep (e_next (fst s ! old))
      in (hp[old := (hp ! old)\<lparr>e_next := h_free ht\<rparr>], ht\<lparr>h_free := Some old, h_count := h_count ht - 1\<rparr>))"

definition apr_hash_set :: "'v hstate \<Rightarrow> byte list \<Rightarrow> klen \<Rightarrow> 'v option \<Rightarrow> 'v hstate option" where
  "apr_hash_set s key kl val =
     (case find_entry s key kl val of
        None \<Rightarrow> None
      | Some (s, hep) \<Rightarrow>
          (case deref s hep of
             None \<Rightarrow> Some s
           | Some he \<Rightarrow>
               (case val of
                  None \<Rightarrow> Some (delete_entry s hep he)
                | Some v \<Rightarrow>
                    (let s = ((fst s)[he := (fst s ! he)\<lparr>e_val := v\<rparr>], snd s)
                     in if h_count (snd s) > h_max (snd s) then expand_array s else Some s))))"

definition apr_hash_count :: "apr_hash_t \<Rightarrow> u32" where
  "apr_hash_count ht = h_count ht"

partial_function (option) clear_loop :: "'v hstate \<Rightarrow> bool \<Rightarrow> 'v hstate option" where
  "clear_loop s b =
     (if b then
        (case apr_hash_this (fst s) (h_iter (snd s)) of
           None \<Rightarrow> None
         | Some (key, n, _) \<Rightarrow>
             (case apr_hash_set s key (KLen n) None of
                None \<Rightarrow> None
              | Some s' \<Rightarrow>
                  (case iter_next (fst s') (snd s') of
                     None \<Rightarrow> None
                   | Some (ht, b') \<Rightarrow> clear_loop (fst s', ht) b')))
      else Some s)"

definition apr_hash_clear :: "'v hstate \<Rightarrow> 'v hstate option" where
  "apr_hash_clear s =
     (case iter_first (fst s) (snd s) of
        None \<Rightarrow> None
      | Some (ht, b) \<Rightarrow> clear_loop (fst s, ht) b)"

text \<open>The callback of \<open>apr_hash_do\<close>, on the state behind \<open>rec\<close>; it returns whether to go on.\<close>

type_synonym ('r, 'v) hash_do_callback = "'r \<Rightarrow> byte list \<Rightarrow> nat \<Rightarrow> 'v \<Rightarrow> 'r \<times> bool"

partial_function (option) do_loop ::
    "('r, 'v) hash_do_callback \<Rightarrow> 'v heap \<Rightarrow> apr_hash_t \<Rightarrow> 'r \<Rightarrow> apr_hash_index_t \<Rightarrow> ('r \<times> bool) option" where
  "do_loop comp' hp ht r hi =
     (case apr_hash_this hp hi of
        None \<Rightarrow> None
      | Some (key, n, val) \<Rightarrow>
          (let (r', rv) = comp' r key n val
           in if rv then
                (case apr_hash_next hp ht hi of
                   None \<Rightarrow> None
                 | Some (hi', b) \<Rightarrow> if b then do_loop comp' hp ht r' hi' else Some (r', True))
              else Some (r', False)))"

definition apr_hash_do ::
    "('r, 'v) hash_do_callback \<Rightarrow> 'r \<Rightarrow> 'v hstate \<Rightarrow> ('r \<times> bool) option" where
  "apr_hash_do comp' r s =
     (case apr_hash_next (fst s) (snd s) idle_iter of
        None \<Rightarrow> None
      | Some (hi, b) \<Rightarrow> if b then do_loop comp' (fst s) (snd s) r hi else Some (r, True))"

section \<open>Copy and merge\<close>

text \<open>
  The new entries come from one block of \<open>cap\<close> entries at the address \<open>nv\<close>, which they fill in order, so
  the heap grows by one with each of them; an entry beyond the block would be an invalid write. The
  \<open>next\<close> field of a new entry and the new array are indeterminate until they are written; the model
  starts them with NULL.
\<close>

partial_function (option) copy_chain ::
    "nat \<Rightarrow> nat \<Rightarrow> 'v hstate \<Rightarrow> nat \<Rightarrow> place \<Rightarrow> nat option \<Rightarrow> ('v hstate \<times> nat) option" where
  "copy_chain cap nv s j np oe =
     (case oe of
        None \<Rightarrow> Some (assign s np None, j)
      | Some a \<Rightarrow>
          if j < cap \<and> a < length (fst s) then
            (let s1 = assign (fst s @ [(fst s ! a)\<lparr>e_next := None\<rparr>], snd s) np (Some (nv + j))
             in copy_chain cap nv s1 (j + 1) (NextOf (nv + j)) (e_next (fst s1 ! a)))
          else None)"

partial_function (option) copy_loop ::
    "nat \<Rightarrow> nat \<Rightarrow> apr_hash_t \<Rightarrow> 'v hstate \<Rightarrow> nat \<Rightarrow> u32 \<Rightarrow> 'v hstate option" where
  "copy_loop cap nv orig s j i =
     (if i \<le> h_max (snd s) then
        (case copy_chain cap nv s j (Bucket (unat i)) (h_array orig ! unat i) of
           None \<Rightarrow> None
         | Some (s', j') \<Rightarrow> copy_loop cap nv orig s' j' (i + 1))
      else Some s)"

definition apr_hash_copy :: "'v heap \<Rightarrow> apr_hash_t \<Rightarrow> 'v hstate option" where
  "apr_hash_copy hp orig =
     copy_loop (unat (h_count orig)) (length hp) orig
       (hp, \<lparr>h_array = replicate (unat (h_max orig + 1)) None, h_iter = idle_iter, h_count = h_count orig,
             h_max = h_max orig, h_seed = h_seed orig, h_func = h_func orig, h_free = None\<rparr>) 0 0"

text \<open>Writing \<open>new_vals[j]\<close> and pushing it to the front of the list \<open>i\<close> of the result.\<close>

definition push_entry ::
    "nat \<Rightarrow> nat \<Rightarrow> 'v hstate \<Rightarrow> nat \<Rightarrow> nat \<Rightarrow> 'v apr_hash_entry_t \<Rightarrow> 'v hstate option" where
  "push_entry cap nv s j i e =
     (if j < cap then
        Some (fst s @ [e\<lparr>e_next := h_array (snd s) ! i\<rparr>],
              (snd s)\<lparr>h_array := (h_array (snd s))[i := Some (nv + j)]\<rparr>)
      else None)"

partial_function (option) base_chain ::
    "nat \<Rightarrow> nat \<Rightarrow> 'v hstate \<Rightarrow> nat \<Rightarrow> nat option \<Rightarrow> ('v hstate \<times> nat) option" where
  "base_chain cap nv s j iter =
     (case iter of
        None \<Rightarrow> Some (s, j)
      | Some a \<Rightarrow>
          (case push_entry cap nv s j (unat (e_hash (fst s ! a) AND h_max (snd s))) (fst s ! a) of
             None \<Rightarrow> None
           | Some s' \<Rightarrow> base_chain cap nv s' (j + 1) (e_next (fst s' ! a))))"

partial_function (option) base_loop ::
    "nat \<Rightarrow> nat \<Rightarrow> apr_hash_t \<Rightarrow> 'v hstate \<Rightarrow> nat \<Rightarrow> u32 \<Rightarrow> ('v hstate \<times> nat) option" where
  "base_loop cap nv base s j k =
     (if k \<le> h_max base then
        (case base_chain cap nv s j (h_array base ! unat k) of
           None \<Rightarrow> None
         | Some (s', j') \<Rightarrow> base_loop cap nv base s' j' (k + 1))
      else Some (s, j))"

partial_function (option) find_ent :: "'v heap \<Rightarrow> nat \<Rightarrow> byte list \<Rightarrow> nat option \<Rightarrow> nat option option" where
  "find_ent hp n key ent =
     (case ent of
        None \<Rightarrow> Some None
      | Some a \<Rightarrow>
          if e_klen (hp ! a) = n \<and> take n (e_key (hp ! a)) = take n key then Some (Some a)
          else find_ent hp n key (e_next (hp ! a)))"

text \<open>The merger, with its pool and its data argument, returns a non-NULL value.\<close>

type_synonym 'v merger = "byte list \<Rightarrow> nat \<Rightarrow> 'v \<Rightarrow> 'v \<Rightarrow> 'v"

definition merged_val :: "'v merger option \<Rightarrow> 'v apr_hash_entry_t \<Rightarrow> 'v \<Rightarrow> 'v" where
  "merged_val merger it v =
     (case merger of Some f \<Rightarrow> f (e_key it) (e_klen it) (e_val it) v | None \<Rightarrow> e_val it)"

definition merge_entry ::
    "'v merger option \<Rightarrow> nat \<Rightarrow> nat \<Rightarrow> 'v hstate \<Rightarrow> nat \<Rightarrow> nat \<Rightarrow> ('v hstate \<times> nat) option" where
  "merge_entry merger cap nv s j a =
     (case hash_key (snd s) (e_key (fst s ! a)) (KLen (e_klen (fst s ! a))) of
        None \<Rightarrow> None
      | Some (h, n) \<Rightarrow>
          (let it = (fst s ! a)\<lparr>e_klen := n\<rparr>;
               hp = (fst s)[a := it];
               i = unat (h AND h_max (snd s))
           in case find_ent hp n (e_key it) (h_array (snd s) ! i) of
                None \<Rightarrow> None
              | Some (Some e) \<Rightarrow>
                  Some ((hp[e := (hp ! e)\<lparr>e_val := merged_val merger it (e_val (hp ! e))\<rparr>], snd s), j)
              | Some None \<Rightarrow>
                  map_option (\<lambda>(hp, ht). ((hp, ht\<lparr>h_count := h_count ht + 1\<rparr>), j + 1))
                    (push_entry cap nv (hp, snd s) j i (it\<lparr>e_hash := h\<rparr>))))"

partial_function (option) overlay_chain ::
    "'v merger option \<Rightarrow> nat \<Rightarrow> nat \<Rightarrow> 'v hstate \<Rightarrow> nat \<Rightarrow> nat option \<Rightarrow> ('v hstate \<times> nat) option" where
  "overlay_chain merger cap nv s j iter =
     (case iter of
        None \<Rightarrow> Some (s, j)
      | Some a \<Rightarrow>
          (case merge_entry merger cap nv s j a of
             None \<Rightarrow> None
           | Some (s', j') \<Rightarrow> overlay_chain merger cap nv s' j' (e_next (fst s' ! a))))"

partial_function (option) overlay_loop ::
    "'v merger option \<Rightarrow> nat \<Rightarrow> nat \<Rightarrow> apr_hash_t \<Rightarrow> 'v hstate \<Rightarrow> nat \<Rightarrow> u32 \<Rightarrow> 'v hstate option" where
  "overlay_loop merger cap nv overlay s j k =
     (if k \<le> h_max overlay then
        (case overlay_chain merger cap nv s j (h_array overlay ! unat k) of
           None \<Rightarrow> None
         | Some (s', j') \<Rightarrow> overlay_loop merger cap nv overlay s' j' (k + 1))
      else Some s)"

definition merge_max :: "apr_hash_t \<Rightarrow> apr_hash_t \<Rightarrow> u32" where
  "merge_max overlay base =
     (let mx = (if h_max overlay > h_max base then h_max overlay else h_max base)
      in if h_count base + h_count overlay > mx then mx * 2 + 1 else mx)"

definition apr_hash_merge ::
    "'v heap \<Rightarrow> apr_hash_t \<Rightarrow> apr_hash_t \<Rightarrow> 'v merger option \<Rightarrow> 'v hstate option" where
  "apr_hash_merge hp overlay base merger =
     (let mx = merge_max overlay base;
          res = \<lparr>h_array = alloc_array mx, h_iter = idle_iter, h_count = h_count base, h_max = mx,
                 h_seed = h_seed base, h_func = h_func base, h_free = None\<rparr>;
          cap = unat (h_count base + h_count overlay)
      in case base_loop cap (length hp) base (hp, res) 0 0 of
           None \<Rightarrow> None
         | Some (s, j) \<Rightarrow> overlay_loop merger cap (length hp) overlay s j 0)"

definition apr_hash_overlay :: "'v heap \<Rightarrow> apr_hash_t \<Rightarrow> apr_hash_t \<Rightarrow> 'v hstate option" where
  "apr_hash_overlay hp overlay base = apr_hash_merge hp overlay base None"

end
