(* ===== verification/Apr_Hash_Heap.thy ===== *)
theory Apr_Hash_Heap
  imports Apr_Hash
begin

text \<open>
  Lists of entries on the heap of \<open>Apr_Hash\<close>: the list a pointer leads to, what writing a \<open>next\<close> field
  does to it, the result of the scan of \<open>find_entry\<close>, the lists of a whole table, and what an iterator
  still has in front of it.
\<close>

section \<open>Lists on the heap\<close>

fun chain :: "'v heap \<Rightarrow> nat option \<Rightarrow> nat list \<Rightarrow> bool" where
  "chain hp p [] \<longleftrightarrow> p = None"
| "chain hp p (a # as) \<longleftrightarrow> p = Some a \<and> a < length hp \<and> chain hp (e_next (hp ! a)) as"

lemma chain_None [simp]: "chain hp None as \<longleftrightarrow> as = []"
  by (cases as) auto

lemma chain_Some: "chain hp (Some a) as \<longleftrightarrow> (\<exists>bs. as = a # bs \<and> a < length hp \<and> chain hp (e_next (hp ! a)) bs)"
  by (cases as) auto

lemma chain_unique: "chain hp p as \<Longrightarrow> chain hp p bs \<Longrightarrow> as = bs"
  by (induction as arbitrary: p bs) (auto simp: chain_Some)

lemma chain_less: "chain hp p as \<Longrightarrow> \<forall>a \<in> set as. a < length hp"
  by (induction as arbitrary: p) auto

lemma chain_tail: "chain hp p (as @ a # bs) \<Longrightarrow> chain hp (Some a) (a # bs)"
  by (induction as arbitrary: p) auto

lemma chain_distinct: "chain hp p as \<Longrightarrow> distinct as"
proof (induction as arbitrary: p)
  case (Cons a as)
  have "a \<notin> set as"
  proof
    assume "a \<in> set as"
    then obtain xs ys where as: "as = xs @ a # ys" by (auto simp: in_set_conv_decomp)
    have "chain hp (Some a) (a # ys)" using Cons.prems as chain_tail [of hp p "a # xs" a ys] by simp
    moreover have "chain hp (Some a) (a # as)" using Cons.prems by simp
    ultimately have "a # ys = a # as" by (rule chain_unique)
    then show False using as by simp
  qed
  with Cons show ?case by auto
qed simp

lemma chain_frame:
  "\<forall>a \<in> set as. a < length hp' \<and> e_next (hp' ! a) = e_next (hp ! a) \<Longrightarrow> chain hp p as \<Longrightarrow> chain hp' p as"
  by (induction as arbitrary: p) auto

lemma nth_upd: "xs[b := e] ! a = (if a = b \<and> b < length xs then e else xs ! a)"
  by (cases "b < length xs") (auto simp: nth_list_update list_update_beyond)

lemma chain_upd: "b \<notin> set as \<or> e_next e = e_next (hp ! b) \<Longrightarrow> chain hp p as \<Longrightarrow> chain (hp[b := e]) p as"
proof -
  assume 1: "b \<notin> set as \<or> e_next e = e_next (hp ! b)" and 2: "chain hp p as"
  show ?thesis
    using chain_less [OF 2] 1 by (intro chain_frame [OF _ 2]) (auto simp: nth_upd)
qed

lemma chains_frame:
  "list_all2 (chain hp) ps css \<Longrightarrow>
   \<forall>a \<in> set (concat css). a < length hp' \<and> e_next (hp' ! a) = e_next (hp ! a) \<Longrightarrow>
   list_all2 (chain hp') ps css"
proof (induction ps css rule: list_all2_induct)
  case (Cons p ps as css)
  then have "chain hp' p as" by (intro chain_frame [of as hp' hp]) auto
  with Cons show ?case by simp
qed simp

lemma chains_upd:
  "list_all2 (chain hp) ps css \<Longrightarrow> b \<notin> set (concat css) \<or> e_next e = e_next (hp ! b) \<Longrightarrow>
   list_all2 (chain (hp[b := e])) ps css"
  by (induction ps css rule: list_all2_induct) (auto intro: chain_upd)

lemma chains_less: "list_all2 (chain hp) ps css \<Longrightarrow> \<forall>a \<in> set (concat css). a < length hp"
  by (induction ps css rule: list_all2_induct) (auto dest: chain_less)

lemma chain_grow: "chain hp p as \<Longrightarrow> chain (hp @ xs) p as"
  by (rule chain_frame) (auto simp: nth_append dest: chain_less)

lemma chains_grow: "list_all2 (chain hp) ps css \<Longrightarrow> list_all2 (chain (hp @ xs)) ps css"
  by (erule list_all2_mono) (rule chain_grow)

lemma chain_length: "chain hp p as \<Longrightarrow> length as \<le> length hp"
proof -
  assume c: "chain hp p as"
  then have "set as \<subseteq> {..<length hp}" by (auto dest: chain_less)
  then have "card (set as) \<le> length hp" using card_mono [of "{..<length hp}" "set as"] by simp
  then show ?thesis using chain_distinct [OF c] by (simp add: distinct_card)
qed

text \<open>Replacing the tail of a list after the elements \<open>xs\<close>.\<close>

definition place_after :: "nat \<Rightarrow> nat list \<Rightarrow> place" where
  "place_after i xs = (if xs = [] then Bucket i else NextOf (last xs))"

lemma chain_cut:
  assumes "chain hp p (xs @ ys)" "xs \<noteq> []" "chain hp v zs" "last xs \<notin> set zs"
  shows "chain (hp[last xs := (hp ! last xs)\<lparr>e_next := v\<rparr>]) p (xs @ zs)"
  using assms(1,2,4)
proof (induction xs arbitrary: p)
  case (Cons a xs)
  show ?case
  proof (cases "xs = []")
    case True
    have "chain (hp[a := (hp ! a)\<lparr>e_next := v\<rparr>]) v zs" using assms(3) Cons.prems(3) True by (intro chain_upd) auto
    with Cons.prems True show ?thesis by simp
  next
    case False
    have "a \<noteq> last xs" using Cons.prems False chain_distinct [OF Cons.prems(1)] by auto
    with Cons False show ?thesis by simp
  qed
qed simp

lemma deref_place_after:
  assumes "chain hp (h_array ht ! i) (xs @ ys)"
  shows "deref (hp, ht) (place_after i xs) = (case ys of [] \<Rightarrow> None | y # _ \<Rightarrow> Some y)"
proof -
  have "deref (hp, ht) (place_after i xs) = (case ys of [] \<Rightarrow> None | y # _ \<Rightarrow> Some y)"
    if "chain hp p (xs @ ys)" "p = h_array ht ! i \<or> xs \<noteq> []" for p
    using that
  proof (induction xs arbitrary: p)
    case Nil
    then show ?case by (cases ys) (auto simp: place_after_def)
  next
    case (Cons a xs)
    show ?case
    proof (cases "xs = []")
      case True
      then show ?thesis using Cons.prems by (cases ys) (auto simp: place_after_def)
    next
      case False
      then show ?thesis using Cons.IH [of "e_next (hp ! a)"] Cons.prems by (simp add: place_after_def)
    qed
  qed
  with assms show ?thesis by blast
qed

lemma scan_chain_result:
  assumes "chain hp (h_array ht ! i) (xs @ ys)"
  shows "\<exists>us vs. ys = us @ vs \<and> (\<forall>a \<in> set us. \<not> same_entry h n key (hp ! a)) \<and>
    (vs \<noteq> [] \<longrightarrow> same_entry h n key (hp ! hd vs)) \<and>
    scan_chain (hp, ht) h n key (place_after i xs) = Some (place_after i (xs @ us))"
  using assms
proof (induction ys arbitrary: xs)
  case Nil
  then have "scan_chain (hp, ht) h n key (place_after i xs) = Some (place_after i xs)"
    by (subst scan_chain.simps) (simp add: deref_place_after [of hp ht i xs "[]"])
  then show ?case by simp
next
  case (Cons y ys)
  have d: "deref (hp, ht) (place_after i xs) = Some y" using deref_place_after [OF Cons.prems] by simp
  show ?case
  proof (cases "same_entry h n key (hp ! y)")
    case True
    then have "scan_chain (hp, ht) h n key (place_after i xs) = Some (place_after i xs)"
      by (subst scan_chain.simps) (simp add: d)
    with True show ?thesis by (intro exI [of _ "[]"] exI [of _ "y # ys"]) simp
  next
    case False
    have s: "scan_chain (hp, ht) h n key (place_after i xs) = scan_chain (hp, ht) h n key (place_after i (xs @ [y]))"
      using False by (subst scan_chain.simps) (simp add: d, simp add: place_after_def)
    obtain us vs where "ys = us @ vs" "\<forall>a \<in> set us. \<not> same_entry h n key (hp ! a)"
      "vs \<noteq> [] \<longrightarrow> same_entry h n key (hp ! hd vs)"
      "scan_chain (hp, ht) h n key (place_after i (xs @ [y])) = Some (place_after i ((xs @ [y]) @ us))"
      using Cons.IH [of "xs @ [y]"] Cons.prems by auto
    with False s show ?thesis by (intro exI [of _ "y # us"] exI [of _ vs]) simp
  qed
qed

section \<open>The table as lists of entries\<close>

fun nodes :: "nat \<Rightarrow> 'v heap \<Rightarrow> nat option \<Rightarrow> nat list" where
  "nodes n hp None = []"
| "nodes 0 hp (Some a) = []"
| "nodes (Suc n) hp (Some a) = a # nodes n hp (e_next (hp ! a))"

lemma nodes_chain: "chain hp p as \<Longrightarrow> length as \<le> n \<Longrightarrow> nodes n hp p = as"
proof (induction as arbitrary: p n)
  case (Cons a as)
  then show ?case by (cases n) auto
qed simp

definition rep :: "'v hstate \<Rightarrow> nat list list \<Rightarrow> nat list \<Rightarrow> bool" where
  "rep s cs fl \<longleftrightarrow>
     list_all2 (chain (fst s)) (h_array (snd s)) cs \<and> chain (fst s) (h_free (snd s)) fl \<and>
     distinct (fl @ concat cs)"

definition hash_chains :: "'v hstate \<Rightarrow> nat list list" where
  "hash_chains s = map (nodes (length (fst s)) (fst s)) (h_array (snd s))"

definition free_nodes :: "'v hstate \<Rightarrow> nat list" where
  "free_nodes s = nodes (length (fst s)) (fst s) (h_free (snd s))"

lemma rep_unique:
  assumes "rep s cs fl"
  shows "hash_chains s = cs" "free_nodes s = fl"
proof -
  show "hash_chains s = cs"
    using assms
    by (auto simp: rep_def hash_chains_def list_all2_conv_all_nth chain_length nodes_chain intro!: nth_equalityI)
  show "free_nodes s = fl"
    using assms by (auto simp: rep_def free_nodes_def intro: nodes_chain chain_length)
qed

section \<open>Iterators\<close>

text \<open>An iterator that has the entries \<open>rem\<close> in front of it, on an array of \<open>mx + 1\<close> elements.\<close>

definition it_ok :: "'v heap \<Rightarrow> apr_hash_t \<Rightarrow> apr_hash_index_t \<Rightarrow> nat list \<Rightarrow> bool" where
  "it_ok hp ht hi rem \<longleftrightarrow>
     (\<exists>as css. rem = as @ concat css \<and> chain hp (hi_next hi) as \<and>
        unat (hi_index hi) \<le> length (h_array ht) \<and>
        list_all2 (chain hp) (drop (unat (hi_index hi)) (h_array ht)) css \<and>
        length (h_array ht) = unat (h_max ht) + 1 \<and> length (h_array ht) < 2 ^ 32)"

lemma index_bounds:
  assumes "length arr = unat (mx :: u32) + 1" "length arr < 2 ^ 32" "unat i \<le> length arr"
  shows "i > mx \<longleftrightarrow> unat i = length arr" "unat i < length arr \<Longrightarrow> unat (i + 1) = unat i + 1"
proof -
  show "i > mx \<longleftrightarrow> unat i = length arr" using assms by (auto simp: word_less_nat_alt)
  show "unat (i + 1) = unat i + 1" if "unat i < length arr"
    using assms(2) that by (subst unat_add_lem [THEN iffD1]) auto
qed

lemma next_bucket_result:
  assumes "length (h_array ht) = unat (h_max ht) + 1" "length (h_array ht) < 2 ^ 32"
    and "unat (hi_index hi) \<le> length (h_array ht)" "hi_this hi = None"
    and "list_all2 (chain hp) (drop (unat (hi_index hi)) (h_array ht)) css"
  shows "\<exists>this' i. next_bucket ht hi = Some (hi\<lparr>hi_this := this', hi_index := i\<rparr>, concat css \<noteq> []) \<and>
    unat i \<le> length (h_array ht) \<and>
    (\<exists>as css'. concat css = as @ concat css' \<and> (as = [] \<longrightarrow> css' = []) \<and> chain hp this' as \<and>
      list_all2 (chain hp) (drop (unat i) (h_array ht)) css')"
  using assms(3-5)
proof (induction css arbitrary: hi)
  case Nil
  then have "hi_index hi > h_max ht" using assms(1,2) by (auto simp: index_bounds)
  with Nil show ?case
    by (subst next_bucket.simps) (auto intro!: exI [of _ None] exI [of _ "hi_index hi"] simp: apr_hash_index_t.defs)
next
  case (Cons c css)
  then have less: "unat (hi_index hi) < length (h_array ht)" by (cases "unat (hi_index hi) < length (h_array ht)") auto
  note i = index_bounds [OF assms(1,2) less_imp_le [OF less]]
  have d: "drop (unat (hi_index hi)) (h_array ht) =
      h_array ht ! unat (hi_index hi) # drop (unat (hi_index hi + 1)) (h_array ht)"
    using less i(2) [OF less] by (simp add: Cons_nth_drop_Suc)
  define hi' where "hi' = hi\<lparr>hi_this := h_array ht ! unat (hi_index hi), hi_index := hi_index hi + 1\<rparr>"
  have step: "next_bucket ht hi = next_bucket ht hi'"
    using Cons.prems less i(1) by (subst next_bucket.simps) (simp add: hi'_def)
  have c: "chain hp (hi_this hi') c" "list_all2 (chain hp) (drop (unat (hi_index hi')) (h_array ht)) css"
    using Cons.prems(3) d by (auto simp: hi'_def)
  show ?case
  proof (cases "hi_this hi' = None")
    case True
    with c(1) have "c = []" by simp
    moreover have "unat (hi_index hi') \<le> length (h_array ht)" using i(2) less by (simp add: hi'_def)
    ultimately show ?thesis using Cons.IH [of hi'] True c(2) step by (auto simp: hi'_def)
  next
    case False
    then have "next_bucket ht hi' = Some (hi', True)" by (subst next_bucket.simps) simp
    moreover have "c \<noteq> []" using False c(1) by auto
    moreover have "unat (hi_index hi') \<le> length (h_array ht)" using i(2) less by (simp add: hi'_def)
    ultimately show ?thesis
      using c step
      by (intro exI [of _ "hi_this hi'"] exI [of _ "hi_index hi'"])
        (auto simp: hi'_def intro!: exI [of _ c] exI [of _ css])
  qed
qed

lemma apr_hash_next_result:
  assumes "it_ok hp ht hi rem"
  shows "\<exists>hi'. apr_hash_next hp ht hi = Some (hi', rem \<noteq> []) \<and>
    (rem \<noteq> [] \<longrightarrow> hi_this hi' = Some (hd rem) \<and> hd rem < length hp \<and> it_ok hp ht hi' (tl rem))"
proof -
  obtain as css where r: "rem = as @ concat css" "chain hp (hi_next hi) as"
    and i: "unat (hi_index hi) \<le> length (h_array ht)"
    and css: "list_all2 (chain hp) (drop (unat (hi_index hi)) (h_array ht)) css"
    and l: "length (h_array ht) = unat (h_max ht) + 1" "length (h_array ht) < 2 ^ 32"
    using assms unfolding it_ok_def by blast
  define hi0 where "hi0 = hi\<lparr>hi_this := hi_next hi\<rparr>"
  have "\<exists>this' i'. next_bucket ht hi0 = Some (hi0\<lparr>hi_this := this', hi_index := i'\<rparr>, rem \<noteq> []) \<and>
      unat i' \<le> length (h_array ht) \<and>
      (\<exists>as' css'. rem = as' @ concat css' \<and> (as' = [] \<longrightarrow> css' = []) \<and> chain hp this' as' \<and>
        list_all2 (chain hp) (drop (unat i') (h_array ht)) css')"
  proof (cases "hi_next hi")
    case None
    then show ?thesis
      using next_bucket_result [OF l, of hi0 hp css] r i css by (simp add: hi0_def)
  next
    case (Some a)
    then have "next_bucket ht hi0 = Some (hi0, True)" by (subst next_bucket.simps) (simp add: hi0_def)
    moreover have "as \<noteq> []" using r(2) Some by auto
    ultimately show ?thesis
      using r i css
      by (intro exI [of _ "hi_next hi"] exI [of _ "hi_index hi"])
        (auto simp: hi0_def intro!: exI [of _ as] exI [of _ css])
  qed
  then obtain this' i' as' css' where n: "next_bucket ht hi0 = Some (hi0\<lparr>hi_this := this', hi_index := i'\<rparr>, rem \<noteq> [])"
    and i': "unat i' \<le> length (h_array ht)" and rem: "rem = as' @ concat css'" "as' = [] \<longrightarrow> css' = []"
    and c: "chain hp this' as'" "list_all2 (chain hp) (drop (unat i') (h_array ht)) css'" by blast
  show ?thesis
  proof (cases as')
    case Nil
    then show ?thesis using n rem c by (simp add: apr_hash_next_def hi0_def)
  next
    case (Cons a bs)
    define hi' where "hi' = hi0\<lparr>hi_this := this', hi_index := i', hi_next := e_next (hp ! a)\<rparr>"
    have "it_ok hp ht hi' (tl rem)"
      unfolding it_ok_def using rem(1) Cons c i' l by (intro exI [of _ bs] exI [of _ css']) (simp add: hi'_def)
    moreover have "apr_hash_next hp ht hi = Some (hi', rem \<noteq> [])"
      using n c Cons by (simp add: apr_hash_next_def hi0_def hi'_def)
    ultimately show ?thesis using Cons rem c by (simp add: hi'_def)
  qed
qed

lemma it_ok_first:
  assumes "list_all2 (chain hp) (h_array ht) cs" "length (h_array ht) = unat (h_max ht) + 1"
    "length (h_array ht) < 2 ^ 32"
  shows "it_ok hp ht idle_iter (concat cs)"
  unfolding it_ok_def using assms by (intro exI [of _ "[]"] exI [of _ cs]) (simp add: idle_iter_def)

lemma it_ok_frame:
  assumes "it_ok hp ht hi rem" "h_array ht' = h_array ht" "h_max ht' = h_max ht"
    and "\<forall>a \<in> set rem. a < length hp' \<and> e_next (hp' ! a) = e_next (hp ! a)"
  shows "it_ok hp' ht' hi rem"
proof -
  obtain as css where r: "rem = as @ concat css" "chain hp (hi_next hi) as"
    and o: "unat (hi_index hi) \<le> length (h_array ht)"
      "list_all2 (chain hp) (drop (unat (hi_index hi)) (h_array ht)) css"
      "length (h_array ht) = unat (h_max ht) + 1" "length (h_array ht) < 2 ^ 32"
    using assms(1) unfolding it_ok_def by blast
  have "chain hp' (hi_next hi) as" using assms(4) r by (intro chain_frame [OF _ r(2)]) auto
  moreover have "list_all2 (chain hp') (drop (unat (hi_index hi)) (h_array ht)) css"
    using assms(4) r(1) by (intro chains_frame [OF o(2)]) auto
  ultimately show ?thesis
    unfolding it_ok_def using r(1) o assms(2,3) by (intro exI [of _ as] exI [of _ css]) simp
qed

end
