(* ===== verification/Apr_Hash_Map.thy ===== *)
theory Apr_Hash_Map
  imports Apr_Hash_Heap
begin

text \<open>
  A hash table as a finite map from the bytes of the keys: the invariant of a table, and what lookup,
  update, deletion and expansion do to the map and to the lists of the table.
\<close>

declare set_concat [simp del]

section \<open>Keys\<close>

text \<open>The bytes a key and a length stand for; a string has to be terminated.\<close>

definition klen_ok :: "byte list \<Rightarrow> klen \<Rightarrow> bool" where
  "klen_ok key kl = (case kl of APR_HASH_KEY_STRING \<Rightarrow> 0 \<in> set key | KLen n \<Rightarrow> n \<le> length key)"

definition norm_key :: "byte list \<Rightarrow> klen \<Rightarrow> byte list" where
  "norm_key key kl = (case kl of APR_HASH_KEY_STRING \<Rightarrow> takeWhile (\<lambda>c. c \<noteq> 0) key | KLen n \<Rightarrow> take n key)"

lemma norm_key_take: "take (length (norm_key key kl)) key = norm_key key kl"
  by (simp add: norm_key_def min_def takeWhile_eq_take [symmetric] split: klen.split)

text \<open>
  What \<^verbatim>\<open>apr_hash.h\<close> asks of a hash function: it looks at the bytes of the key only, and it stores
  the length of a string.
\<close>

definition hashfunc_ok :: "hashfunc \<Rightarrow> (byte list \<Rightarrow> u32) \<Rightarrow> bool" where
  "hashfunc_ok f g \<longleftrightarrow>
     (\<forall>key kl. klen_ok key kl \<longrightarrow> f key kl = Some (g (norm_key key kl), length (norm_key key kl)))"

definition times33 :: "u32 \<Rightarrow> byte list \<Rightarrow> u32" where
  "times33 = foldl (\<lambda>h c. h * 33 + ucast c)"

lemma hash_string_33:
  "0 \<in> set ps \<Longrightarrow> hash_string ps h n =
     Some (times33 h (takeWhile (\<lambda>c. c \<noteq> 0) ps), n + length (takeWhile (\<lambda>c. c \<noteq> 0) ps))"
  by (induction ps h n rule: hash_string.induct) (auto simp: times33_def)

lemma hash_bytes_33: "n \<le> length ps \<Longrightarrow> hash_bytes n ps h = Some (times33 h (take n ps))"
  by (induction n ps h rule: hash_bytes.induct) (auto simp: times33_def)

lemma hashfunc_default_ok: "hashfunc_ok (\<lambda>key kl. hashfunc_default key kl h) (times33 h)"
  by (auto simp: hashfunc_ok_def hashfunc_default_def klen_ok_def norm_key_def hash_string_33 hash_bytes_33
      split: klen.splits)

definition hash_of :: "apr_hash_t \<Rightarrow> byte list \<Rightarrow> u32" where
  "hash_of ht nk = fst (the (hash_key ht nk (KLen (length nk))))"

definition func_ok :: "apr_hash_t \<Rightarrow> bool" where
  "func_ok ht \<longleftrightarrow> hashfunc_ok (hash_key ht) (hash_of ht)"

lemma hash_key_default: "h_func ht = None \<Longrightarrow> hash_key ht = (\<lambda>key kl. hashfunc_default key kl (h_seed ht))"
  by (simp add: hash_key_def fun_eq_iff)

lemma func_okI: "hashfunc_ok (hash_key ht) g \<Longrightarrow> func_ok ht"
proof -
  assume g: "hashfunc_ok (hash_key ht) g"
  have "hash_of ht nk = g nk" for nk
    using g by (simp add: hashfunc_ok_def hash_of_def klen_ok_def norm_key_def)
  with g show ?thesis by (simp add: func_ok_def hashfunc_ok_def)
qed

lemma func_ok_default: "h_func ht = None \<Longrightarrow> func_ok ht"
  by (rule func_okI [of _ "times33 (h_seed ht)"]) (simp add: hash_key_default hashfunc_default_ok)

lemma hash_of_cong: "h_func ht' = h_func ht \<Longrightarrow> h_seed ht' = h_seed ht \<Longrightarrow> hash_of ht' = hash_of ht"
  by (auto simp: fun_eq_iff hash_of_def hash_key_def split: option.split)

lemma func_ok_cong: "h_func ht' = h_func ht \<Longrightarrow> h_seed ht' = h_seed ht \<Longrightarrow> func_ok ht' = func_ok ht"
proof -
  assume a: "h_func ht' = h_func ht" "h_seed ht' = h_seed ht"
  then have "hash_key ht' = hash_key ht" by (auto simp: fun_eq_iff hash_key_def split: option.split)
  with hash_of_cong [OF a] show ?thesis by (simp add: func_ok_def)
qed

section \<open>Well-formed tables\<close>

definition ekey :: "'v apr_hash_entry_t \<Rightarrow> byte list" where
  "ekey e = take (e_klen e) (e_key e)"

definition size_ok :: "apr_hash_t \<Rightarrow> bool" where
  "size_ok ht \<longleftrightarrow> (\<exists>k \<le> 31. h_max ht = mask k \<and> length (h_array ht) = 2 ^ k)"

definition entry_ok :: "apr_hash_t \<Rightarrow> nat \<Rightarrow> 'v apr_hash_entry_t \<Rightarrow> bool" where
  "entry_ok ht i e \<longleftrightarrow>
     unat (e_hash e AND h_max ht) = i \<and> e_klen e \<le> length (e_key e) \<and> e_hash e = hash_of ht (ekey e)"

definition buckets_ok :: "apr_hash_t \<Rightarrow> 'v heap \<Rightarrow> nat list list \<Rightarrow> bool" where
  "buckets_ok ht hp cs \<longleftrightarrow> (\<forall>i < length cs. \<forall>a \<in> set (cs ! i). entry_ok ht i (hp ! a))"

definition keys_ok :: "'v heap \<Rightarrow> nat list \<Rightarrow> bool" where
  "keys_ok hp as \<longleftrightarrow> inj_on (\<lambda>a. ekey (hp ! a)) (set as)"

definition hash_wf :: "'v hstate \<Rightarrow> nat list list \<Rightarrow> nat list \<Rightarrow> bool" where
  "hash_wf s cs fl \<longleftrightarrow>
     rep s cs fl \<and> size_ok (snd s) \<and> func_ok (snd s) \<and> buckets_ok (snd s) (fst s) cs \<and>
     keys_ok (fst s) (concat cs) \<and> h_count (snd s) = of_nat (length (concat cs))"

definition hash_inv :: "nat \<Rightarrow> 'v hstate \<Rightarrow> bool" where
  "hash_inv n s \<longleftrightarrow> hash_wf s (hash_chains s) (free_nodes s) \<and> length (fst s) + n < 2 ^ 31"

definition pairs :: "'v heap \<Rightarrow> nat list \<Rightarrow> (byte list \<times> 'v) list" where
  "pairs hp as = map (\<lambda>a. (ekey (hp ! a), e_val (hp ! a))) as"

definition hash_map :: "'v hstate \<Rightarrow> byte list \<Rightarrow> 'v option" where
  "hash_map s = map_of (pairs (fst s) (concat (hash_chains s)))"

lemma hash_wf_chains: "hash_wf s cs fl \<Longrightarrow> hash_chains s = cs \<and> free_nodes s = fl"
  by (auto simp: hash_wf_def rep_unique)

lemma hash_invI: "hash_wf s cs fl \<Longrightarrow> length (fst s) + n < 2 ^ 31 \<Longrightarrow> hash_inv n s"
  by (simp add: hash_inv_def hash_wf_chains)

lemma map_of_pairs_other: "k \<notin> (\<lambda>a. ekey (hp ! a)) ` set as \<Longrightarrow> map_of (pairs hp as) k = None"
  by (induction as) (auto simp: pairs_def)

lemma map_of_pairs:
  assumes "keys_ok hp as" "a \<in> set as"
  shows "map_of (pairs hp as) (ekey (hp ! a)) = Some (e_val (hp ! a))"
  using assms
proof (induction as)
  case (Cons b as)
  show ?case
  proof (cases "a = b")
    case False
    then have "ekey (hp ! a) \<noteq> ekey (hp ! b)" using Cons.prems by (auto simp: keys_ok_def inj_on_def)
    with Cons False show ?thesis by (auto simp: pairs_def keys_ok_def)
  qed (simp add: pairs_def)
qed simp

lemma size_index: "size_ok ht \<Longrightarrow> unat (h AND h_max ht) < length (h_array ht)"
  by (auto simp: size_ok_def simp flip: take_bit_eq_mask)
    (metis mask_eq_exp_minus_1 less_exp unsigned_take_bit_eq take_bit_nat_less_exp)

lemma unat_mask_exp: "k \<le> 31 \<Longrightarrow> unat (mask k :: u32) = 2 ^ k - 1"
proof -
  assume "k \<le> 31"
  then have "unat (take_bit k (- 1) :: u32) = mask k"
    unfolding unsigned_take_bit_eq unsigned_minus_1_eq_mask by (simp add: take_bit_of_mask min_def)
  then show ?thesis by (simp add: take_bit_minus_one_eq_mask mask_eq_exp_minus_1)
qed

lemma size_length: "size_ok ht \<Longrightarrow> length (h_array ht) = unat (h_max ht) + 1 \<and> length (h_array ht) < 2 ^ 32"
proof -
  assume "size_ok ht"
  then obtain k where k: "k \<le> 31" "h_max ht = mask k" "length (h_array ht) = 2 ^ k" by (auto simp: size_ok_def)
  have "(2 :: nat) ^ k \<le> 2 ^ 31" using k(1) by (intro power_increasing) simp_all
  with k show ?thesis by (simp add: unat_mask_exp)
qed

lemma same_entry_key:
  assumes "entry_ok ht i e"
  shows "same_entry (hash_of ht nk) (length nk) key e \<and> take (length nk) key = nk \<longleftrightarrow>
    ekey e = nk \<and> take (length nk) key = nk"
  using assms by (auto simp: same_entry_def entry_ok_def ekey_def)

text \<open>Where the scan ends: the list of the key's bucket is split at the entry with the key.\<close>

lemma find_place:
  assumes w: "hash_wf (hp, ht) cs fl" and k: "klen_ok key kl"
  defines "nk \<equiv> norm_key key kl" and "i \<equiv> unat (hash_of ht (norm_key key kl) AND h_max ht)"
  shows "\<exists>us vs. i < length cs \<and> cs ! i = us @ vs \<and>
    hash_key ht key kl = Some (hash_of ht nk, length nk) \<and>
    scan_chain (hp, ht) (hash_of ht nk) (length nk) key (Bucket i) = Some (place_after i us) \<and>
    deref (hp, ht) (place_after i us) = (case vs of [] \<Rightarrow> None | v # _ \<Rightarrow> Some v) \<and>
    (case vs of [] \<Rightarrow> nk \<notin> (\<lambda>a. ekey (hp ! a)) ` set (concat cs) | v # _ \<Rightarrow> ekey (hp ! v) = nk)"
proof -
  have len: "length cs = length (h_array ht)" and ch: "list_all2 (chain hp) (h_array ht) cs"
    using w by (auto simp: hash_wf_def rep_def dest: list_all2_lengthD)
  have i: "i < length cs" using w size_index [of ht] by (simp add: hash_wf_def i_def len)
  have c: "chain hp (h_array ht ! i) ([] @ cs ! i)" using ch i by (simp add: list_all2_conv_all_nth)
  have ok: "entry_ok ht i (hp ! a)" if "a \<in> set (cs ! i)" for a
    using w i that by (simp add: hash_wf_def buckets_ok_def)
  have h: "hash_key ht key kl = Some (hash_of ht nk, length nk)"
    using w k by (simp add: hash_wf_def func_ok_def hashfunc_ok_def nk_def)
  have tk: "take (length nk) key = nk" by (simp add: nk_def norm_key_take)
  have key: "same_entry (hash_of ht nk) (length nk) key (hp ! a) \<longleftrightarrow> ekey (hp ! a) = nk" if "a \<in> set (cs ! i)" for a
    using same_entry_key [OF ok [OF that], of nk key] tk by simp
  obtain us vs where s: "cs ! i = us @ vs" "\<forall>a \<in> set us. \<not> same_entry (hash_of ht nk) (length nk) key (hp ! a)"
    "vs \<noteq> [] \<longrightarrow> same_entry (hash_of ht nk) (length nk) key (hp ! hd vs)"
    "scan_chain (hp, ht) (hash_of ht nk) (length nk) key (place_after i []) = Some (place_after i us)"
    using scan_chain_result [OF c, of "hash_of ht nk" "length nk" key] by auto
  have "case vs of [] \<Rightarrow> nk \<notin> (\<lambda>a. ekey (hp ! a)) ` set (concat cs) | v # _ \<Rightarrow> ekey (hp ! v) = nk"
  proof (cases vs)
    case Nil
    have "ekey (hp ! a) \<noteq> nk" if a: "a \<in> set (concat cs)" for a
    proof
      assume e: "ekey (hp ! a) = nk"
      obtain j where j: "j < length cs" "a \<in> set (cs ! j)" using a unfolding set_concat by (auto simp: in_set_conv_nth [of _ cs])
      then have "entry_ok ht j (hp ! a)" using w by (simp add: hash_wf_def buckets_ok_def)
      then have "j = i" using e by (auto simp: entry_ok_def i_def nk_def)
      with j e s(1,2) key Nil show False by auto
    qed
    with Nil show ?thesis by auto
  next
    case (Cons v ws)
    then show ?thesis using s key [of v] by simp
  qed
  with s i h show ?thesis
    using deref_place_after [of hp ht i us vs] c by (auto simp: place_after_def)
qed

section \<open>The lists after an assignment\<close>

definition edata :: "'v apr_hash_entry_t \<Rightarrow> u32 \<times> byte list \<times> nat \<times> 'v" where
  "edata e = (e_hash e, e_key e, e_klen e, e_val e)"

lemma edata_ekey: "edata e' = edata e \<Longrightarrow> ekey e' = ekey e \<and> e_val e' = e_val e \<and> entry_ok ht i e' = entry_ok ht i e"
  by (simp add: edata_def ekey_def entry_ok_def)

lemma entry_ok_cong:
  "h_func ht' = h_func ht \<Longrightarrow> h_seed ht' = h_seed ht \<Longrightarrow> h_max ht' = h_max ht \<Longrightarrow> entry_ok ht' = entry_ok ht"
  by (simp add: fun_eq_iff entry_ok_def hash_of_cong [of ht' ht])

lemma concat_update:
  assumes "i < length cs"
  obtains A B where "cs = A @ cs ! i # B" "length A = i" "\<And>xs. cs[i := xs] = A @ xs # B"
    "concat cs = concat A @ cs ! i @ concat B" "\<And>xs. concat (cs[i := xs]) = concat A @ xs @ concat B"
proof
  show "cs = take i cs @ cs ! i # drop (Suc i) cs" using assms by (rule id_take_nth_drop)
  then show "concat cs = concat (take i cs) @ cs ! i @ concat (drop (Suc i) cs)" by (metis concat.simps(2) concat_append)
  show "length (take i cs) = i" using assms by simp
  show u: "cs[i := xs] = take i cs @ xs # drop (Suc i) cs" for xs using assms by (rule upd_conv_take_nth_drop)
  show "concat (cs[i := xs]) = concat (take i cs) @ xs @ concat (drop (Suc i) cs)" for xs by (simp add: u)
qed

lemma other_bucket:
  assumes "distinct (concat cs)" "i < length cs" "j < length cs" "i \<noteq> j" "a \<in> set (cs ! i)"
  shows "a \<notin> set (cs ! j)"
proof -
  have "distinct (concat (take i cs) @ cs ! i @ concat (drop (Suc i) cs))"
    using assms(1,2) by (metis concat.simps(2) concat_append id_take_nth_drop)
  moreover have "cs ! j \<in> set (take i cs) \<or> cs ! j \<in> set (drop (Suc i) cs)"
  proof (cases "j < i")
    case True
    then have "take i cs ! j = cs ! j" "j < length (take i cs)" using assms(3) by simp_all
    then show ?thesis by (metis nth_mem)
  next
    case False
    then have "drop (Suc i) cs ! (j - Suc i) = cs ! j" "j - Suc i < length (drop (Suc i) cs)"
      using assms(3,4) by simp_all
    then show ?thesis by (metis nth_mem)
  qed
  ultimately show ?thesis using assms(5) by (auto simp: set_concat)
qed

lemma assign_rep:
  assumes r: "rep (hp, ht) cs fl" and i: "i < length cs" "cs ! i = us @ vs"
    and z: "chain hp v zs" "set us \<inter> set zs = {}"
  obtains hp' arr' where
    "assign (hp, ht) (place_after i us) v = (hp', ht\<lparr>h_array := arr'\<rparr>)"
    "list_all2 (chain hp') arr' (cs[i := us @ zs])" "chain hp' (h_free ht) fl"
    "length hp' = length hp" "\<And>a. edata (hp' ! a) = edata (hp ! a)" "\<And>a. a \<notin> set us \<Longrightarrow> hp' ! a = hp ! a"
proof (cases "us = []")
  case True
  have "list_all2 (chain hp) ((h_array ht)[i := v]) (cs[i := zs])"
    using r z(1) by (auto simp: rep_def intro: list_all2_update_cong)
  with True r show ?thesis
    by (intro that [of hp "(h_array ht)[i := v]"]) (simp_all add: place_after_def rep_def)
next
  case False
  let ?l = "last us" and ?e = "(hp ! last us)\<lparr>e_next := v\<rparr>"
  have ch: "list_all2 (chain hp) (h_array ht) cs" and ds: "distinct (concat cs)" "set fl \<inter> set (concat cs) = {}"
    using r by (auto simp: rep_def)
  have l: "?l \<in> set (cs ! i)" using False i(2) by simp
  have "chain hp (h_array ht ! i) (us @ vs)" using ch i by (auto simp: list_all2_conv_all_nth)
  then have ci: "chain (hp[?l := ?e]) (h_array ht ! i) (us @ zs)"
    using False z last_in_set [OF False] by (intro chain_cut) blast+
  have "chain (hp[?l := ?e]) (h_array ht ! j) (cs[i := us @ zs] ! j)" if j: "j < length cs" for j
  proof (cases "j = i")
    case False
    have "?l \<notin> set (cs ! j)" using other_bucket [OF ds(1) i(1) j] False l by simp
    then show ?thesis using ch j False by (simp add: list_all2_conv_all_nth chain_upd)
  qed (use ci i in simp)
  then have "list_all2 (chain (hp[?l := ?e])) (h_array ht) (cs[i := us @ zs])"
    using ch by (simp add: list_all2_conv_all_nth)
  moreover have "chain (hp[?l := ?e]) (h_free ht) fl"
  proof -
    have "?l \<in> set (concat cs)" using l i(1) unfolding set_concat by (auto intro!: bexI [of _ "cs ! i"])
    with ds(2) have "?l \<notin> set fl" by blast
    then show ?thesis using r by (simp add: rep_def chain_upd)
  qed
  ultimately show ?thesis
    using False by (intro that [of "hp[?l := ?e]" "h_array ht"])
      (auto simp: place_after_def nth_upd edata_def)
qed

section \<open>Lookup, update and deletion\<close>

lemma hash_map_iff:
  assumes "hash_wf s cs fl"
  shows "hash_map s k = Some x \<longleftrightarrow> (\<exists>a \<in> set (concat cs). ekey (fst s ! a) = k \<and> e_val (fst s ! a) = x)"
proof
  assume "hash_map s k = Some x"
  then have "(k, x) \<in> set (pairs (fst s) (concat cs))"
    using assms by (auto simp: hash_map_def hash_wf_chains dest: map_of_SomeD)
  then show "\<exists>a \<in> set (concat cs). ekey (fst s ! a) = k \<and> e_val (fst s ! a) = x" by (auto simp: pairs_def)
next
  assume "\<exists>a \<in> set (concat cs). ekey (fst s ! a) = k \<and> e_val (fst s ! a) = x"
  then show "hash_map s k = Some x"
    using assms map_of_pairs [of "fst s" "concat cs"] hash_wf_chains [OF assms]
    by (auto simp: hash_map_def hash_wf_def)
qed

lemma hash_map_eqI:
  assumes "hash_wf s cs fl" "\<And>k x. m k = Some x \<longleftrightarrow> (\<exists>a \<in> set (concat cs). ekey (fst s ! a) = k \<and> e_val (fst s ! a) = x)"
  shows "hash_map s = m"
proof
  fix k
  have "hash_map s k = Some x \<longleftrightarrow> m k = Some x" for x
    using hash_map_iff [OF assms(1), of k x] assms(2) [of k x] by simp
  then show "hash_map s k = m k" by (metis not_Some_eq)
qed

lemma hash_map_Some: "hash_wf s cs fl \<Longrightarrow> a \<in> set (concat cs) \<Longrightarrow> hash_map s (ekey (fst s ! a)) = Some (e_val (fst s ! a))"
  by (auto simp: hash_map_iff)

lemma hash_map_None: "hash_wf s cs fl \<Longrightarrow> k \<notin> (\<lambda>a. ekey (fst s ! a)) ` set (concat cs) \<Longrightarrow> hash_map s k = None"
  using hash_map_iff [of s cs fl k] by (cases "hash_map s k") auto

lemma in_concat: "i < length cs \<Longrightarrow> a \<in> set (cs ! i) \<Longrightarrow> a \<in> set (concat cs)"
  unfolding set_concat by (auto intro!: bexI [of _ "cs ! i"])

lemma apr_hash_get_map:
  assumes w: "hash_wf s cs fl" and k: "klen_ok key kl"
  shows "apr_hash_get s key kl = Some (hash_map s (norm_key key kl))"
proof -
  obtain hp ht where s: "s = (hp, ht)" by (cases s)
  let ?nk = "norm_key key kl"
  obtain us vs i where i: "i < length cs" "cs ! i = us @ vs"
    and h: "hash_key ht key kl = Some (hash_of ht ?nk, length ?nk)" "i = unat (hash_of ht ?nk AND h_max ht)"
    and sc: "scan_chain (hp, ht) (hash_of ht ?nk) (length ?nk) key (Bucket i) = Some (place_after i us)"
    and d: "deref (hp, ht) (place_after i us) = (case vs of [] \<Rightarrow> None | v # _ \<Rightarrow> Some v)"
    and v: "case vs of [] \<Rightarrow> ?nk \<notin> (\<lambda>a. ekey (hp ! a)) ` set (concat cs) | v # _ \<Rightarrow> ekey (hp ! v) = ?nk"
    using find_place [OF w [unfolded s] k] by blast
  have "apr_hash_get s key kl = Some (map_option (\<lambda>he. e_val (hp ! he)) (case vs of [] \<Rightarrow> None | v # _ \<Rightarrow> Some v))"
    using h sc d by (simp add: s apr_hash_get_def find_entry_def)
  also have "\<dots> = Some (hash_map s ?nk)"
  proof (cases vs)
    case Nil
    with v hash_map_None [OF w] show ?thesis by (simp add: s)
  next
    case (Cons x ws)
    then have "x \<in> set (concat cs)" using i by (intro in_concat [of i]) auto
    with Cons v hash_map_Some [OF w, of x] show ?thesis by (simp add: s)
  qed
  finally show ?thesis .
qed

lemma delete_entry_wf:
  fixes hp :: "'v heap"
  assumes w: "hash_wf (hp, ht) cs fl" and i: "i < length cs" "cs ! i = us @ v # ws"
  shows "hash_wf (delete_entry (hp, ht) (place_after i us) v) (cs[i := us @ ws]) (v # fl) \<and>
    hash_map (delete_entry (hp, ht) (place_after i us) v) = (hash_map (hp, ht))(ekey (hp ! v) := None) \<and>
    length (fst (delete_entry (hp, ht) (place_after i us) v)) = length hp"
proof -
  have r: "rep (hp, ht) cs fl" using w by (simp add: hash_wf_def)
  have "chain hp (h_array ht ! i) (us @ v # ws)"
    using r i by (auto simp: rep_def list_all2_conv_all_nth)
  from chain_tail [OF this] have ws: "chain hp (e_next (hp ! v)) ws" and vl: "v < length hp" by simp_all
  obtain A B where cat: "concat cs = concat A @ cs ! i @ concat B"
    and cat': "concat (cs[i := us @ ws]) = concat A @ (us @ ws) @ concat B"
    using concat_update [OF i(1)] by metis
  have ds: "distinct (fl @ concat A @ (us @ v # ws) @ concat B)" using r cat i(2) by (simp add: rep_def)
  have "set us \<inter> set ws = {}" using ds by auto
  then obtain hp1 arr where a: "assign (hp, ht) (place_after i us) (e_next (hp ! v)) = (hp1, ht\<lparr>h_array := arr\<rparr>)"
    and c: "list_all2 (chain hp1) arr (cs[i := us @ ws])" "chain hp1 (h_free ht) fl" "length hp1 = length hp"
    and e: "\<And>a. edata (hp1 ! a) = edata (hp ! a)" by (metis assign_rep [OF r i ws])
  define hp2 where "hp2 = hp1[v := (hp1 ! v)\<lparr>e_next := h_free ht\<rparr>]"
  define ht2 where "ht2 = ht\<lparr>h_array := arr, h_free := Some v, h_count := h_count ht - 1\<rparr>"
  have cg: "func_ok ht2 = func_ok ht" "entry_ok ht2 = (entry_ok ht :: nat \<Rightarrow> 'v apr_hash_entry_t \<Rightarrow> bool)"
    by (simp_all add: func_ok_cong [of ht2 ht, unfolded ht2_def] entry_ok_cong [of ht2 ht, unfolded ht2_def] ht2_def)
  have res: "delete_entry (hp, ht) (place_after i us) v = (hp2, ht2)"
    by (simp add: delete_entry_def a hp2_def ht2_def)
  have e2: "edata (hp2 ! a) = edata (hp ! a)" for a
    using e [of a] by (auto simp: hp2_def nth_upd edata_def)
  note e3 = edata_ekey [OF e2]
  have sub: "set (concat (cs[i := us @ ws])) = set (concat cs) - {v}" using ds by (auto simp: cat cat' i(2))
  have nv: "v \<notin> set (concat (cs[i := us @ ws]))" "v \<notin> set fl" using ds by (auto simp: cat')
  have "list_all2 (chain hp2) arr (cs[i := us @ ws])" using c(1) nv(1) by (simp add: hp2_def chains_upd)
  moreover have "chain hp2 (Some v) (v # fl)" using c(2,3) nv(2) vl by (simp add: hp2_def chain_upd)
  ultimately have rep2: "rep (hp2, ht2) (cs[i := us @ ws]) (v # fl)"
    using ds by (auto simp: rep_def ht2_def cat')
  have len: "length arr = length cs" using c(1) by (auto dest: list_all2_lengthD)
  have wf2: "hash_wf (hp2, ht2) (cs[i := us @ ws]) (v # fl)"
  proof -
    have "size_ok ht2" using w len r by (auto simp: hash_wf_def size_ok_def ht2_def rep_def dest: list_all2_lengthD)
    moreover have "func_ok ht2" using w by (simp add: hash_wf_def cg)
    moreover have "buckets_ok ht2 hp2 (cs[i := us @ ws])"
      using w i by (auto simp: hash_wf_def buckets_ok_def e3 cg nth_list_update)
    moreover have "keys_ok hp2 (concat (cs[i := us @ ws]))"
      using w by (auto simp: hash_wf_def keys_ok_def e3 sub intro: inj_on_subset)
    moreover have "h_count ht2 = of_nat (length (concat (cs[i := us @ ws])))"
      using w by (simp add: hash_wf_def ht2_def cat cat' i(2))
    ultimately show ?thesis using rep2 by (simp add: hash_wf_def)
  qed
  have "hash_map (hp2, ht2) = (hash_map (hp, ht))(ekey (hp ! v) := None)"
  proof (rule hash_map_eqI [OF wf2])
    fix k x
    have v: "v \<in> set (concat cs)" using i by (intro in_concat [of i]) simp_all
    have "\<forall>a \<in> set (concat cs). ekey (hp ! a) = ekey (hp ! v) \<longrightarrow> a = v"
      using w v by (auto simp: hash_wf_def keys_ok_def inj_on_def)
    then show "((hash_map (hp, ht))(ekey (hp ! v) := None)) k = Some x \<longleftrightarrow>
      (\<exists>a \<in> set (concat (cs[i := us @ ws])). ekey (fst (hp2, ht2) ! a) = k \<and> e_val (fst (hp2, ht2) ! a) = x)"
      using hash_map_iff [OF w, of k x] by (auto simp: sub e3)
  qed
  with wf2 res show ?thesis by (simp add: hp2_def c)
qed

lemma replace_value_wf:
  fixes hp :: "'v heap"
  assumes w: "hash_wf (hp, ht) cs fl" and v: "v \<in> set (concat cs)"
  shows "hash_wf (hp[v := (hp ! v)\<lparr>e_val := x\<rparr>], ht) cs fl \<and>
    hash_map (hp[v := (hp ! v)\<lparr>e_val := x\<rparr>], ht) = (hash_map (hp, ht))(ekey (hp ! v) \<mapsto> x)"
proof -
  let ?hp = "hp[v := (hp ! v)\<lparr>e_val := x\<rparr>]"
  have r: "rep (hp, ht) cs fl" using w by (simp add: hash_wf_def)
  have vl: "v < length hp" using r v by (auto simp: rep_def dest: chains_less)
  have e: "ekey (?hp ! a) = ekey (hp ! a)" "entry_ok ht i (?hp ! a) = entry_ok ht i (hp ! a)" for a i
    by (auto simp: nth_upd ekey_def entry_ok_def)
  have ev: "e_val (?hp ! a) = (if a = v then x else e_val (hp ! a))" for a using vl by (simp add: nth_upd)
  have w': "hash_wf (?hp, ht) cs fl"
    using w by (auto simp: hash_wf_def rep_def buckets_ok_def keys_ok_def e intro: chains_upd chain_upd)
  moreover have "hash_map (?hp, ht) = (hash_map (hp, ht))(ekey (hp ! v) \<mapsto> x)"
  proof (rule hash_map_eqI [OF w'])
    fix k y
    have "\<forall>a \<in> set (concat cs). ekey (hp ! a) = ekey (hp ! v) \<longrightarrow> a = v"
      using w v by (auto simp: hash_wf_def keys_ok_def inj_on_def)
    then show "((hash_map (hp, ht))(ekey (hp ! v) \<mapsto> x)) k = Some y \<longleftrightarrow>
      (\<exists>a \<in> set (concat cs). ekey (fst (?hp, ht) ! a) = k \<and> e_val (fst (?hp, ht) ! a) = y)"
      using hash_map_iff [OF w, of k y] v by (auto simp: e ev)
  qed
  ultimately show ?thesis ..
qed

lemma add_assign_wf:
  fixes hp :: "'v heap"
  assumes w: "hash_wf (hp, ht) cs fl" and i: "i < length cs"
    and e: "entry_ok ht i e" "ekey e \<notin> (\<lambda>a. ekey (hp ! a)) ` set (concat cs)"
    and r0: "rep (hp0, ht0) cs fl0" "he < length hp0" "he \<notin> set fl0" "he \<notin> set (concat cs)" "hp0 ! he = e"
      "e_next e = None" "\<And>a. a \<in> set (concat cs) \<Longrightarrow> hp0 ! a = hp ! a"
    and ht0: "h_func ht0 = h_func ht" "h_seed ht0 = h_seed ht" "h_max ht0 = h_max ht"
      "h_array ht0 = h_array ht" "h_count ht0 = h_count ht + 1"
  defines "s' \<equiv> assign (hp0, ht0) (place_after i (cs ! i)) (Some he)"
  shows "hash_wf s' (cs[i := cs ! i @ [he]]) fl0 \<and> hash_map s' = (hash_map (hp, ht))(ekey e \<mapsto> e_val e) \<and>
    deref s' (place_after i (cs ! i)) = Some he \<and> ekey (fst s' ! he) = ekey e \<and> length (fst s') = length hp0"
proof -
  obtain A B where cat: "concat cs = concat A @ cs ! i @ concat B"
    and cat': "concat (cs[i := cs ! i @ [he]]) = concat A @ (cs ! i @ [he]) @ concat B"
    using concat_update [OF i] by metis
  have "chain hp0 (Some he) [he]" "set (cs ! i) \<inter> set [he] = {}" using r0 cat by auto
  from assign_rep [OF r0(1) i append_Nil2 [symmetric] this] obtain hp1 arr where a: "s' = (hp1, ht0\<lparr>h_array := arr\<rparr>)"
    and c: "list_all2 (chain hp1) arr (cs[i := cs ! i @ [he]])" "chain hp1 (h_free ht0) fl0" "length hp1 = length hp0"
    and d: "\<And>a. edata (hp1 ! a) = edata (hp0 ! a)"
    and "\<And>a. a \<notin> set (cs ! i) \<Longrightarrow> hp1 ! a = hp0 ! a"
    unfolding s'_def by blast
  define ht1 where "ht1 = ht0\<lparr>h_array := arr\<rparr>"
  have cg: "func_ok ht1 = func_ok ht" "entry_ok ht1 = (entry_ok ht :: nat \<Rightarrow> 'v apr_hash_entry_t \<Rightarrow> bool)"
    by (simp_all add: func_ok_cong [of ht1 ht, unfolded ht1_def] entry_ok_cong [of ht1 ht, unfolded ht1_def] ht1_def ht0)
  have e1: "ekey (hp1 ! b) = ekey (hp ! b)" "e_val (hp1 ! b) = e_val (hp ! b)"
      "entry_ok ht j (hp1 ! b) = entry_ok ht j (hp ! b)" if "b \<in> set (concat cs)" for b j
    using edata_ekey [OF d] r0(7) [OF that] by simp_all
  have ne: "ekey (hp ! b) \<noteq> ekey e" if "b \<in> set (concat cs)" for b using e(2) that by (metis imageI)
  have e2: "ekey (hp1 ! he) = ekey e" "e_val (hp1 ! he) = e_val e" "entry_ok ht j (hp1 ! he) = entry_ok ht j e" for j
    using edata_ekey [OF d, of he] r0(5) by simp_all
  have set': "set (concat (cs[i := cs ! i @ [he]])) = insert he (set (concat cs))" by (auto simp: cat cat')
  have len: "length arr = length cs" "length (h_array ht) = length cs"
    using c(1) w by (auto simp: hash_wf_def rep_def dest: list_all2_lengthD)
  have w': "hash_wf (hp1, ht1) (cs[i := cs ! i @ [he]]) fl0"
  proof -
    have "rep (hp1, ht1) (cs[i := cs ! i @ [he]]) fl0"
      using c r0(1,3,4) by (auto simp: rep_def ht1_def cat cat')
    moreover have "size_ok ht1" using w len by (simp add: hash_wf_def size_ok_def ht1_def ht0)
    moreover have "func_ok ht1" using w by (simp add: hash_wf_def cg)
    moreover have "buckets_ok ht1 hp1 (cs[i := cs ! i @ [he]])"
      using w i e(1) by (auto simp: hash_wf_def buckets_ok_def e1 e2 cg nth_list_update in_concat)
    moreover have "keys_ok hp1 (concat (cs[i := cs ! i @ [he]]))"
    proof -
      have "inj_on (\<lambda>a. ekey (hp1 ! a)) (set (concat cs))"
        using w e1(1) by (simp add: hash_wf_def keys_ok_def cong: inj_on_cong)
      moreover have "(\<lambda>a. ekey (hp1 ! a)) ` set (concat cs) = (\<lambda>a. ekey (hp ! a)) ` set (concat cs)"
        using e1(1) by (rule image_cong [OF refl])
      ultimately show ?thesis using e(2) e2(1) r0(4) by (simp add: keys_ok_def set')
    qed
    moreover have "h_count ht1 = of_nat (length (concat (cs[i := cs ! i @ [he]])))"
      using w by (simp add: hash_wf_def ht1_def ht0 cat cat')
    ultimately show ?thesis by (simp add: hash_wf_def)
  qed
  have "hash_map (hp1, ht1) = (hash_map (hp, ht))(ekey e \<mapsto> e_val e)"
  proof (rule hash_map_eqI [OF w'])
    fix k y
    show "((hash_map (hp, ht))(ekey e \<mapsto> e_val e)) k = Some y \<longleftrightarrow>
      (\<exists>a \<in> set (concat (cs[i := cs ! i @ [he]])). ekey (fst (hp1, ht1) ! a) = k \<and> e_val (fst (hp1, ht1) ! a) = y)"
      using hash_map_iff [OF w, of k y] ne by (auto simp: set' e1 e2)
  qed
  moreover have "deref (hp1, ht1) (place_after i (cs ! i)) = Some he"
  proof -
    have "chain hp1 (h_array ht1 ! i) (cs ! i @ [he])"
      using c(1) i by (auto simp: list_all2_conv_all_nth ht1_def)
    from deref_place_after [OF this] show ?thesis by simp
  qed
  ultimately show ?thesis using w' e2(1) c(3) by (simp add: a flip: ht1_def)
qed

lemma add_entry_wf:
  fixes hp :: "'v heap"
  assumes w: "hash_wf (hp, ht) cs fl" and i: "i < length cs"
    and e: "entry_ok ht i e" "ekey e \<notin> (\<lambda>a. ekey (hp ! a)) ` set (concat cs)" "e_next e = None"
  defines "s' \<equiv> add_entry (hp, ht) (place_after i (cs ! i)) e"
  shows "\<exists>he fl'. hash_wf s' (cs[i := cs ! i @ [he]]) fl' \<and> hash_map s' = (hash_map (hp, ht))(ekey e \<mapsto> e_val e) \<and>
    deref s' (place_after i (cs ! i)) = Some he \<and> ekey (fst s' ! he) = ekey e \<and> length (fst s') \<le> Suc (length hp)"
proof -
  have r: "list_all2 (chain hp) (h_array ht) cs" "chain hp (h_free ht) fl" "distinct (fl @ concat cs)"
    using w by (simp_all add: hash_wf_def rep_def)
  show ?thesis
  proof (cases "h_free ht")
    case None
    let ?hp = "hp @ [e]" and ?ht = "ht\<lparr>h_count := h_count ht + 1\<rparr>"
    have less: "\<forall>a \<in> set (concat cs). a < length hp" using r(1) by (rule chains_less)
    have "rep (?hp, ?ht) cs []" using r by (simp add: rep_def None chains_grow)
    moreover have "length hp \<notin> set (concat cs)" using less by blast
    moreover have "a \<in> set (concat cs) \<Longrightarrow> ?hp ! a = hp ! a" for a using less by (simp add: nth_append)
    ultimately show ?thesis
      using add_assign_wf [OF w i e(1,2), of ?hp ?ht "[]" "length hp"] e(3)
      by (auto simp: s'_def add_entry_def None)
  next
    case (Some he)
    then obtain fl' where fl: "fl = he # fl'" "he < length hp" "chain hp (e_next (hp ! he)) fl'"
      using r(2) by (auto simp: chain_Some)
    let ?hp = "hp[he := e]" and ?ht = "ht\<lparr>h_free := e_next (hp ! he), h_count := h_count ht + 1\<rparr>"
    have n: "he \<notin> set (concat cs)" "he \<notin> set fl'" using r(3) fl(1) by auto
    then have "rep (?hp, ?ht) cs fl'" using r fl by (simp add: rep_def chains_upd chain_upd)
    moreover have "a \<in> set (concat cs) \<Longrightarrow> ?hp ! a = hp ! a" for a using n by (auto simp: nth_upd)
    ultimately show ?thesis
      using add_assign_wf [OF w i e(1,2), of ?hp ?ht fl' he] e(3) n fl(2)
      by (auto simp: s'_def add_entry_def Some)
  qed
qed

section \<open>Expansion\<close>

definition spread :: "nat \<Rightarrow> (nat \<Rightarrow> nat) \<Rightarrow> nat list \<Rightarrow> nat list list" where
  "spread N f as = map (\<lambda>i. rev (filter (\<lambda>a. f a = i) as)) [0..<N]"

lemma spread_snoc: "f a < N \<Longrightarrow> spread N f (as @ [a]) = (spread N f as)[f a := a # spread N f as ! f a]"
  by (rule nth_equalityI) (auto simp: spread_def nth_list_update)

lemma set_spread: "\<forall>a \<in> set as. f a < N \<Longrightarrow> set (concat (spread N f as)) = set as"
  by (auto simp: spread_def set_concat)

lemma length_spread [simp]: "length (spread N f as) = N"
  by (simp add: spread_def)

lemma mset_spread: "\<forall>a \<in> set as. f a < N \<Longrightarrow> mset (concat (spread N f as)) = mset as"
proof (induction as rule: rev_induct)
  case Nil
  have "concat (spread N f []) = []" by (simp add: spread_def)
  then show ?case by simp
next
  case (snoc a as)
  obtain A B where "concat (spread N f as) = concat A @ spread N f as ! f a @ concat B"
    "\<And>xs. concat ((spread N f as)[f a := xs]) = concat A @ xs @ concat B"
    using concat_update [of "f a" "spread N f as"] snoc.prems by (metis length_spread in_set_conv_decomp)
  with snoc show ?case by (simp add: spread_snoc)
qed

lemma iter_next_result:
  assumes "it_ok hp ht (h_iter ht) rem"
  shows "\<exists>hi'. iter_next hp ht = Some (ht\<lparr>h_iter := hi'\<rparr>, rem \<noteq> []) \<and>
    (rem \<noteq> [] \<longrightarrow> hi_this hi' = Some (hd rem) \<and> hd rem < length hp \<and> it_ok hp (ht\<lparr>h_iter := hi'\<rparr>) hi' (tl rem))"
proof -
  obtain hi' where h: "apr_hash_next hp ht (h_iter ht) = Some (hi', rem \<noteq> [])"
    "rem \<noteq> [] \<longrightarrow> hi_this hi' = Some (hd rem) \<and> hd rem < length hp \<and> it_ok hp ht hi' (tl rem)"
    using apr_hash_next_result [OF assms] by blast
  then have "rem \<noteq> [] \<longrightarrow> it_ok hp (ht\<lparr>h_iter := hi'\<rparr>) hi' (tl rem)" by (simp add: it_ok_def)
  with h show ?thesis by (auto simp: iter_next_def)
qed

lemma expand_loop_result:
  assumes "\<And>a. f a = unat (e_hash (hp ! a) AND nm)" "distinct (dn @ todo)"
    and "\<forall>a \<in> set (dn @ todo). a < length hp \<and> f a < N"
    and "list_all2 (chain hp) arr (spread N f dn)"
    and "todo \<noteq> [] \<Longrightarrow> hi_this (h_iter ht) = Some (hd todo) \<and> it_ok hp ht (h_iter ht) (tl todo)"
  shows "\<exists>hp' hi' arr'. expand_loop hp ht arr nm (todo \<noteq> []) = Some (hp', ht\<lparr>h_iter := hi'\<rparr>, arr') \<and>
    list_all2 (chain hp') arr' (spread N f (dn @ todo)) \<and> length hp' = length hp \<and>
    (\<forall>a. edata (hp' ! a) = edata (hp ! a)) \<and> (\<forall>a. a \<notin> set todo \<longrightarrow> hp' ! a = hp ! a)"
  using assms
proof (induction todo arbitrary: hp ht arr dn)
  case Nil
  have "expand_loop hp ht arr nm False = Some (hp, ht, arr)" by (subst expand_loop.simps) simp
  with Nil.prems(4) show ?case by (auto intro!: exI [of _ "h_iter ht"])
next
  case (Cons a rem)
  let ?i = "f a"
  define hp1 where "hp1 = hp[a := (hp ! a)\<lparr>e_next := arr ! ?i\<rparr>]"
  define arr1 where "arr1 = arr[?i := Some a]"
  have a: "a < length hp" "?i < N" "a \<notin> set dn" "a \<notin> set rem" using Cons.prems(2,3) by auto
  have al: "length arr = N" using Cons.prems(4) by (auto dest: list_all2_lengthD)
  have ed: "edata (hp1 ! b) = edata (hp ! b)" for b by (auto simp: hp1_def nth_upd edata_def)
  have "it_ok hp1 ht (h_iter ht) rem"
  proof (rule it_ok_frame [of hp ht])
    show "it_ok hp ht (h_iter ht) rem" using Cons.prems(5) by simp
    show "\<forall>b \<in> set rem. b < length hp1 \<and> e_next (hp1 ! b) = e_next (hp ! b)"
      using Cons.prems(3) a by (auto simp: hp1_def nth_upd)
  qed simp_all
  then obtain hi' where hi: "iter_next hp1 ht = Some (ht\<lparr>h_iter := hi'\<rparr>, rem \<noteq> [])"
    "rem \<noteq> [] \<longrightarrow> hi_this hi' = Some (hd rem) \<and> it_ok hp1 (ht\<lparr>h_iter := hi'\<rparr>) hi' (tl rem)"
    using iter_next_result by blast
  have step: "expand_loop hp ht arr nm True = expand_loop hp1 (ht\<lparr>h_iter := hi'\<rparr>) arr1 nm (rem \<noteq> [])"
    using Cons.prems(5) hi(1) Cons.prems(1) [of a]
    by (subst expand_loop.simps) (simp add: hp1_def arr1_def Let_def)
  have "set (concat (spread N f dn)) = set dn" using Cons.prems(3) by (intro set_spread) simp
  then have c1: "list_all2 (chain hp1) arr (spread N f dn)"
    using Cons.prems(4) a(3) unfolding hp1_def by (intro chains_upd) simp_all
  then have "chain hp1 (Some a) (a # spread N f dn ! ?i)"
    using a al by (auto simp: list_all2_conv_all_nth hp1_def)
  with c1 have "list_all2 (chain hp1) arr1 (spread N f (dn @ [a]))"
    unfolding arr1_def spread_snoc [of f a N, OF a(2)] by (intro list_all2_update_cong)
  moreover have "f b = unat (e_hash (hp1 ! b) AND nm)" for b
    using Cons.prems(1) [of b] ed [of b] by (simp add: edata_def)
  moreover have "distinct ((dn @ [a]) @ rem)" using Cons.prems(2) by simp
  moreover have "\<forall>b \<in> set ((dn @ [a]) @ rem). b < length hp1 \<and> f b < N" using Cons.prems(3) by (simp add: hp1_def)
  moreover have "rem \<noteq> [] \<Longrightarrow> hi_this (h_iter (ht\<lparr>h_iter := hi'\<rparr>)) = Some (hd rem) \<and>
      it_ok hp1 (ht\<lparr>h_iter := hi'\<rparr>) (h_iter (ht\<lparr>h_iter := hi'\<rparr>)) (tl rem)" using hi(2) by simp
  ultimately obtain hp' hi'' arr' where r: "expand_loop hp1 (ht\<lparr>h_iter := hi'\<rparr>) arr1 nm (rem \<noteq> []) =
        Some (hp', ht\<lparr>h_iter := hi'\<rparr>\<lparr>h_iter := hi''\<rparr>, arr')"
    "list_all2 (chain hp') arr' (spread N f ((dn @ [a]) @ rem))" "length hp' = length hp1"
    "\<forall>a. edata (hp' ! a) = edata (hp1 ! a)" "\<forall>a. a \<notin> set rem \<longrightarrow> hp' ! a = hp1 ! a"
    using Cons.IH [of hp1 "dn @ [a]" arr1 "ht\<lparr>h_iter := hi'\<rparr>"] by blast
  have "\<forall>b. b \<notin> set (a # rem) \<longrightarrow> hp' ! b = hp ! b" using r(5) by (auto simp: hp1_def nth_upd)
  moreover have "length hp' = length hp" using r(3) by (simp add: hp1_def)
  moreover have "\<forall>b. edata (hp' ! b) = edata (hp ! b)" using r(4) ed by simp
  moreover have "expand_loop hp ht arr nm (a # rem \<noteq> []) = Some (hp', ht\<lparr>h_iter := hi''\<rparr>, arr')"
    using step r(1) by simp
  moreover have "list_all2 (chain hp') arr' (spread N f (dn @ a # rem))" using r(2) by simp
  ultimately show ?case by blast
qed

lemma live_bound:
  assumes "hash_wf s cs fl"
  shows "length (concat cs) \<le> length (fst s)"
proof -
  have "set (concat cs) \<subseteq> {..<length (fst s)}"
    using assms by (auto simp: hash_wf_def rep_def dest: chains_less)
  from card_mono [OF _ this] have "card (set (concat cs)) \<le> length (fst s)" by simp
  moreover have "distinct (concat cs)" using assms by (simp add: hash_wf_def rep_def)
  ultimately show ?thesis by (simp add: distinct_card)
qed

lemma unat_count: "hash_wf s cs fl \<Longrightarrow> length (fst s) < 2 ^ 31 \<Longrightarrow> unat (h_count (snd s)) = length (concat cs)"
  using live_bound [of s cs fl] by (simp add: hash_wf_def unsigned_of_nat take_bit_nat_eq_self)

lemma double_mask: "(mask k :: u32) * 2 + 1 = mask (Suc k)"
  by (simp add: mask_eq_exp_minus_1 algebra_simps)

lemma and_mask_less: "k \<le> 31 \<Longrightarrow> unat (h AND mask k :: u32) < 2 ^ k"
  unfolding take_bit_eq_mask [symmetric] unsigned_take_bit_eq by (rule take_bit_nat_less_exp)

lemma length_alloc_mask: "k \<le> 31 \<Longrightarrow> length (alloc_array (mask k)) = 2 ^ k"
proof -
  assume k: "k \<le> 31"
  then have "(2 :: nat) ^ k < 2 ^ 32" by (intro power_strict_increasing) simp_all
  then have "unat (mask k + 1 :: u32) = 2 ^ k"
    using k by (subst unat_add_lem [THEN iffD1]) (simp_all add: unat_mask_exp)
  then show ?thesis by (simp add: alloc_array_def)
qed

text \<open>The table a permutation of the entries over \<open>2 ^ k\<close> lists gives.\<close>

lemma spread_wf:
  fixes hp :: "'v heap"
  assumes w: "hash_wf (hp, ht) cs fl" and k: "k \<le> 31" and f: "\<And>a. f a = unat (e_hash (hp ! a) AND mask k)"
    and c: "list_all2 (chain hp') arr (spread (2 ^ k) f (concat cs))" "\<And>a. edata (hp' ! a) = edata (hp ! a)"
    and fr: "chain hp' (h_free ht) fl" and ht': "ht' = ht\<lparr>h_iter := hi, h_array := arr, h_max := mask k\<rparr>"
  shows "hash_wf (hp', ht') (spread (2 ^ k) f (concat cs)) fl \<and> hash_map (hp', ht') = hash_map (hp, ht)"
proof -
  let ?cs = "spread (2 ^ k) f (concat cs)"
  have fl: "\<forall>a \<in> set (concat cs). f a < 2 ^ k" using k by (simp add: f and_mask_less)
  note ms = mset_spread [OF fl] and st = set_spread [OF fl]
  have e: "ekey (hp' ! a) = ekey (hp ! a)" "e_val (hp' ! a) = e_val (hp ! a)" "e_hash (hp' ! a) = e_hash (hp ! a)"
    "e_klen (hp' ! a) = e_klen (hp ! a)" "e_key (hp' ! a) = e_key (hp ! a)" for a
    using c(2) [of a] by (simp_all add: edata_def ekey_def)
  have ho: "hash_of ht' = hash_of ht" by (rule hash_of_cong) (simp_all add: ht')
  have w': "hash_wf (hp', ht') ?cs fl"
  proof -
    have "distinct (fl @ concat ?cs)"
      using w st mset_eq_imp_distinct_iff [OF ms] by (simp add: hash_wf_def rep_def)
    then have "rep (hp', ht') ?cs fl" using c(1) fr by (simp add: rep_def ht')
    moreover have "size_ok ht'" using k c(1) by (auto simp: size_ok_def ht' dest: list_all2_lengthD)
    moreover have "func_ok ht'" using w func_ok_cong [of ht' ht] by (simp add: hash_wf_def ht')
    moreover have "buckets_ok ht' hp' ?cs" unfolding buckets_ok_def
    proof (intro allI impI ballI)
      fix i a assume i: "i < length ?cs" "a \<in> set (?cs ! i)"
      then have "f a = i" "a \<in> set (concat cs)" by (auto simp: spread_def)
      moreover from this(2) obtain j where "j < length cs" "a \<in> set (cs ! j)"
        unfolding set_concat by (auto simp: in_set_conv_nth [of _ cs])
      then have "entry_ok ht j (hp ! a)" using w by (simp add: hash_wf_def buckets_ok_def)
      ultimately show "entry_ok ht' i (hp' ! a)" by (simp add: entry_ok_def e f ht' ho [unfolded ht'])
    qed
    moreover have "keys_ok hp' (concat ?cs)" using w by (simp add: hash_wf_def keys_ok_def e st)
    moreover have "h_count ht' = of_nat (length (concat ?cs))"
      using w mset_eq_length [OF ms] by (simp add: hash_wf_def ht')
    ultimately show ?thesis by (simp add: hash_wf_def)
  qed
  moreover have "hash_map (hp', ht') = hash_map (hp, ht)"
    by (rule hash_map_eqI [OF w']) (simp add: hash_map_iff [OF w] st e)
  ultimately show ?thesis ..
qed

lemma expand_array_wf:
  fixes hp :: "'v heap"
  assumes w: "hash_wf (hp, ht) cs fl" and big: "h_count ht > h_max ht" and room: "length hp < 2 ^ 31"
  shows "\<exists>s' cs'. expand_array (hp, ht) = Some s' \<and> hash_wf s' cs' fl \<and> hash_map s' = hash_map (hp, ht) \<and>
    length (fst s') = length hp \<and> h_max (snd s') = h_max ht * 2 + 1"
proof -
  obtain k where k: "k \<le> 31" "h_max ht = mask k" "length (h_array ht) = 2 ^ k"
    using w by (auto simp: hash_wf_def size_ok_def)
  have "2 ^ k \<le> length (concat cs)"
    using big k unat_count [OF w] room by (simp add: word_less_nat_alt unat_mask_exp)
  then have "(2 :: nat) ^ k < 2 ^ 31" using live_bound [OF w] room by simp
  then have k': "Suc k \<le> 31" unfolding Suc_le_eq by (rule power_less_imp_less_exp [rotated]) simp
  define f where "f = (\<lambda>a. unat (e_hash (hp ! a) AND mask (Suc k)))"
  have r: "list_all2 (chain hp) (h_array ht) cs" "chain hp (h_free ht) fl" "distinct (fl @ concat cs)"
    using w by (simp_all add: hash_wf_def rep_def)
  have it: "it_ok hp ht idle_iter (concat cs)"
    using r(1) size_length [of ht] w by (intro it_ok_first) (simp_all add: hash_wf_def)
  obtain hi where first: "apr_hash_next hp ht idle_iter = Some (hi, concat cs \<noteq> [])"
    "concat cs \<noteq> [] \<longrightarrow> hi_this hi = Some (hd (concat cs)) \<and> it_ok hp ht hi (tl (concat cs))"
    using apr_hash_next_result [OF it] by blast
  have ok: "concat cs \<noteq> [] \<Longrightarrow> hi_this (h_iter (ht\<lparr>h_iter := hi\<rparr>)) = Some (hd (concat cs)) \<and>
      it_ok hp (ht\<lparr>h_iter := hi\<rparr>) (h_iter (ht\<lparr>h_iter := hi\<rparr>)) (tl (concat cs))"
    using first(2) by (simp add: it_ok_def)
  have c0: "list_all2 (chain hp) (alloc_array (mask (Suc k))) (spread (2 ^ Suc k) f [])"
    using length_alloc_mask [OF k'] by (simp add: list_all2_conv_all_nth alloc_array_def spread_def del: power_Suc)
  have less: "\<forall>a \<in> set (concat cs). a < length hp \<and> f a < 2 ^ Suc k"
    using chains_less [OF r(1)] and_mask_less [OF k'] by (simp add: f_def)
  obtain hp' hi' arr' where l: "expand_loop hp (ht\<lparr>h_iter := hi\<rparr>) (alloc_array (mask (Suc k))) (mask (Suc k))
        (concat cs \<noteq> []) = Some (hp', ht\<lparr>h_iter := hi\<rparr>\<lparr>h_iter := hi'\<rparr>, arr')"
    "list_all2 (chain hp') arr' (spread (2 ^ Suc k) f ([] @ concat cs))" "length hp' = length hp"
    "\<forall>a. edata (hp' ! a) = edata (hp ! a)" "\<forall>a. a \<notin> set (concat cs) \<longrightarrow> hp' ! a = hp ! a"
    using expand_loop_result [of f hp "mask (Suc k)" "[]" "concat cs" "2 ^ Suc k" "alloc_array (mask (Suc k))"
        "ht\<lparr>h_iter := hi\<rparr>"] r(3) less c0 ok f_def by auto
  define ht' where "ht' = ht\<lparr>h_iter := hi', h_array := arr', h_max := mask (Suc k)\<rparr>"
  have "expand_array (hp, ht) = Some (hp', ht')"
    using first l(1) by (simp add: expand_array_def iter_first_def apr_hash_first_def k double_mask ht'_def Let_def)
  moreover have "chain hp' (h_free ht) fl"
    using r l(3,5) by (intro chain_frame [OF _ r(2)]) (auto dest: chain_less)
  then have "hash_wf (hp', ht') (spread (2 ^ Suc k) f (concat cs)) fl \<and> hash_map (hp', ht') = hash_map (hp, ht)"
    using l(2,4) by (intro spread_wf [OF w k' _ _ _ _ ht'_def]) (simp_all add: f_def)
  ultimately show ?thesis
    using l(3) by (intro exI [of _ "(hp', ht')"] exI [of _ "spread (2 ^ Suc k) f (concat cs)"])
      (simp add: ht'_def k double_mask)
qed

section \<open>The operations on well-formed tables\<close>

lemma apr_hash_set_wf:
  fixes s :: "'v hstate"
  assumes w: "hash_wf s cs fl" and k: "klen_ok key kl" and room: "length (fst s) < 2 ^ 31 - 1"
  shows "\<exists>s' cs' fl'. apr_hash_set s key kl val = Some s' \<and> hash_wf s' cs' fl' \<and>
    hash_map s' = (hash_map s)(norm_key key kl := val) \<and> length (fst s') \<le> Suc (length (fst s))"
proof -
  obtain hp ht where s: "s = (hp, ht)" by (cases s)
  let ?nk = "norm_key key kl"
  note w' = w [unfolded s]
  obtain us vs i where i: "i < length cs" "cs ! i = us @ vs"
    and h: "hash_key ht key kl = Some (hash_of ht ?nk, length ?nk)" "i = unat (hash_of ht ?nk AND h_max ht)"
    and sc: "scan_chain (hp, ht) (hash_of ht ?nk) (length ?nk) key (Bucket i) = Some (place_after i us)"
    and d: "deref (hp, ht) (place_after i us) = (case vs of [] \<Rightarrow> None | v # _ \<Rightarrow> Some v)"
    and v: "case vs of [] \<Rightarrow> ?nk \<notin> (\<lambda>a. ekey (hp ! a)) ` set (concat cs) | v # _ \<Rightarrow> ekey (hp ! v) = ?nk"
    using find_place [OF w' k] by blast
  have grow: "\<exists>s' cs' fl'. (if h_count (snd s2) > h_max (snd s2) then expand_array s2 else Some s2) = Some s' \<and>
      hash_wf s' cs' fl' \<and> hash_map s' = hash_map s2 \<and> length (fst s') = length (fst s2)"
    if "hash_wf s2 cs2 fl2" "length (fst s2) < 2 ^ 31" for s2 :: "'v hstate" and cs2 fl2
    using that expand_array_wf [of "fst s2" "snd s2" cs2 fl2] by (cases "h_count (snd s2) > h_max (snd s2)") fastforce+
  show ?thesis
  proof (cases val)
    case None
    show ?thesis
    proof (cases vs)
      case Nil
      have "hash_map s ?nk = None" using v Nil hash_map_None [OF w'] by (simp add: s)
      then show ?thesis
        using None Nil h sc d w by (auto simp: s apr_hash_set_def find_entry_def fun_upd_idem)
    next
      case (Cons x ws)
      then have "apr_hash_set s key kl val = Some (delete_entry (hp, ht) (place_after i us) x)"
        using None h sc d by (simp add: s apr_hash_set_def find_entry_def)
      then show ?thesis
        using delete_entry_wf [OF w' i(1), of us x ws] i(2) Cons v None by (auto simp: s)
    qed
  next
    case (Some y)
    have fin: ?thesis
      if "hash_wf s1 cs1 fl1" "he \<in> set (concat cs1)" "ekey (fst s1 ! he) = ?nk" "length (fst s1) \<le> Suc (length hp)"
        "(hash_map s1)(?nk \<mapsto> y) = (hash_map s)(?nk \<mapsto> y)"
        "find_entry s key kl val = Some (s1, hep)" "deref s1 hep = Some he" for s1 :: "'v hstate" and cs1 fl1 he hep
    proof -
      obtain hp1 ht1 where s1: "s1 = (hp1, ht1)" by (cases s1)
      define s2 where "s2 = (hp1[he := (hp1 ! he)\<lparr>e_val := y\<rparr>], ht1)"
      have "hash_wf s2 cs1 fl1" "hash_map s2 = (hash_map s)(?nk \<mapsto> y)" "length (fst s2) = length (fst s1)"
        using replace_value_wf [of hp1 ht1 cs1 fl1 he y] that(1-3,5) by (simp_all add: s1 s2_def)
      moreover have "apr_hash_set s key kl val =
          (if h_count (snd s2) > h_max (snd s2) then expand_array s2 else Some s2)"
        using that(6,7) Some by (simp add: apr_hash_set_def s1 s2_def Let_def)
      ultimately show ?thesis using grow [of s2 cs1 fl1] that(4) room Some by (fastforce simp: s)
    qed
    show ?thesis
    proof (cases vs)
      case Nil
      define e where "e = \<lparr>e_next = None, e_hash = hash_of ht ?nk, e_key = key, e_klen = length ?nk, e_val = y\<rparr>"
      have ek: "ekey e = ?nk" by (simp add: e_def ekey_def norm_key_take)
      have "length ?nk \<le> length key" by (metis norm_key_take length_take min.cobounded1 min.commute)
      then have "entry_ok ht i e" using h(2) ek by (simp add: entry_ok_def) (simp add: e_def)
      moreover have "ekey e \<notin> (\<lambda>a. ekey (hp ! a)) ` set (concat cs)" using v Nil ek by simp
      moreover have us: "cs ! i = us" using i(2) Nil by simp
      ultimately obtain he fl' where
        a: "hash_wf (add_entry (hp, ht) (place_after i us) e) (cs[i := us @ [he]]) fl'"
          "hash_map (add_entry (hp, ht) (place_after i us) e) = (hash_map (hp, ht))(?nk \<mapsto> y)"
          "deref (add_entry (hp, ht) (place_after i us) e) (place_after i us) = Some he"
          "ekey (fst (add_entry (hp, ht) (place_after i us) e) ! he) = ?nk"
          "length (fst (add_entry (hp, ht) (place_after i us) e)) \<le> Suc (length hp)"
        using add_entry_wf [OF w' i(1), of e] ek by (auto simp: e_def)
      have "he \<in> set (concat (cs[i := us @ [he]]))" using i(1) by (intro in_concat [of i]) simp_all
      moreover have "find_entry s key kl val = Some (add_entry (hp, ht) (place_after i us) e, place_after i us)"
        using Some Nil h sc d by (simp add: s find_entry_def e_def)
      ultimately show ?thesis using a by (intro fin) (simp_all add: s)
    next
      case (Cons x ws)
      then have "x \<in> set (concat cs)" using i by (intro in_concat [of i]) auto
      moreover have "find_entry s key kl val = Some (s, place_after i us)"
        using Some Cons h sc d by (simp add: s find_entry_def)
      ultimately show ?thesis using w v d Cons by (intro fin [of s cs fl x "place_after i us"]) (simp_all add: s)
    qed
  qed
qed

lemma apr_hash_make_wf:
  assumes "h_func ht = None \<or> (\<exists>f g. h_func ht = Some f \<and> hashfunc_ok f g)"
    and "ht = (apr_hash_make sd)\<lparr>h_func := h_func ht\<rparr>"
  shows "hash_wf (hp, ht) (replicate 16 []) [] \<and> hash_map (hp, ht) = (\<lambda>k. None)"
proof -
  have ht: "h_array ht = replicate 16 None" "h_free ht = None" "h_max ht = mask 4" "h_count ht = 0"
    by (subst assms(2), simp add: apr_hash_make_def alloc_array_def INITIAL_MAX_def mask_eq_exp_minus_1)+
  have fn: "func_ok ht"
  proof (cases "h_func ht")
    case (Some f)
    then have "hash_key ht = f" by (simp add: fun_eq_iff hash_key_def)
    with Some assms(1) show ?thesis by (auto intro: func_okI)
  qed (rule func_ok_default)
  have c: "concat (replicate 16 []) = ([] :: nat list)" by simp
  have "hash_wf (hp, ht) (replicate 16 []) []"
    using fn ht by (auto simp: hash_wf_def rep_def size_ok_def buckets_ok_def keys_ok_def list_all2_conv_all_nth
        intro!: exI [of _ 4])
  then show ?thesis by (auto intro!: hash_map_eqI)
qed

end
