(* ===== verification/Apr_Hash_Ops.thy ===== *)
theory Apr_Hash_Ops
  imports Apr_Hash_Map
begin

text \<open>
  The operations on whole tables: iteration with a callback, clearing, copying and merging, and the
  theorems about hash tables.
\<close>

declare concat_eq_Nil_conv [simp del]

section \<open>Iteration\<close>

lemma hash_first:
  assumes "hash_wf (hp, ht) cs fl"
  shows "\<exists>hi. apr_hash_next hp ht idle_iter = Some (hi, concat cs \<noteq> []) \<and>
    (concat cs \<noteq> [] \<longrightarrow> hi_this hi = Some (hd (concat cs)) \<and> hd (concat cs) < length hp \<and>
      it_ok hp ht hi (tl (concat cs)))"
  using assms size_length [of ht] by (intro apr_hash_next_result it_ok_first) (simp_all add: hash_wf_def rep_def)

definition entry_of :: "'v apr_hash_entry_t \<Rightarrow> byte list \<times> nat \<times> 'v" where
  "entry_of e = (e_key e, e_klen e, e_val e)"

text \<open>The callback applied to the entries in turn until it returns zero.\<close>

fun visit :: "('r, 'v) hash_do_callback \<Rightarrow> 'r \<Rightarrow> (byte list \<times> nat \<times> 'v) list \<Rightarrow> 'r \<times> bool" where
  "visit cb r [] = (r, True)"
| "visit cb r ((key, n, v) # es) =
     (let (r', go) = cb r key n v in if go then visit cb r' es else (r', False))"

lemma do_loop_visit:
  "hi_this hi = Some a \<Longrightarrow> a < length hp \<Longrightarrow> it_ok hp ht hi rem \<Longrightarrow>
   do_loop cb hp ht r hi = Some (visit cb r (map (\<lambda>a. entry_of (hp ! a)) (a # rem)))"
proof (induction rem arbitrary: hi a r)
  case Nil
  then show ?case
    using apr_hash_next_result [of hp ht hi "[]"]
    by (subst do_loop.simps) (auto simp: apr_hash_this_def entry_of_def split: prod.split)
next
  case (Cons b rem)
  obtain hi' where n: "apr_hash_next hp ht hi = Some (hi', True)" "hi_this hi' = Some b" "b < length hp"
    "it_ok hp ht hi' rem"
    using apr_hash_next_result [OF Cons.prems(3)] by auto
  then show ?case
    using Cons.IH [of hi' b] Cons.prems(1,2)
    by (subst do_loop.simps) (auto simp: apr_hash_this_def entry_of_def split: prod.split)
qed

lemma apr_hash_do_visit:
  assumes "hash_wf s cs fl"
  shows "apr_hash_do cb r s = Some (visit cb r (map (\<lambda>a. entry_of (fst s ! a)) (concat cs)))"
proof -
  obtain hp ht where s: "s = (hp, ht)" by (cases s)
  obtain hi where n: "apr_hash_next hp ht idle_iter = Some (hi, concat cs \<noteq> [])"
    "concat cs \<noteq> [] \<longrightarrow> hi_this hi = Some (hd (concat cs)) \<and> hd (concat cs) < length hp \<and> it_ok hp ht hi (tl (concat cs))"
    using hash_first [OF assms [unfolded s]] by blast
  show ?thesis
  proof (cases "concat cs")
    case Nil
    with n show ?thesis by (simp add: s apr_hash_do_def)
  next
    case (Cons a rem)
    with n show ?thesis using do_loop_visit [of hi a hp ht rem cb r] by (simp add: s apr_hash_do_def)
  qed
qed

section \<open>Clearing\<close>

lemma it_ok_passed:
  assumes "it_ok hp ht hi rem" "drop (unat (hi_index hi)) (h_array ht') = drop (unat (hi_index hi)) (h_array ht)"
    "length (h_array ht') = length (h_array ht)" "h_max ht' = h_max ht"
    and "\<forall>a \<in> set rem. a < length hp' \<and> e_next (hp' ! a) = e_next (hp ! a)"
  shows "it_ok hp' ht' hi rem"
proof -
  have "it_ok hp' ht hi rem" using assms(1) refl refl assms(5) by (rule it_ok_frame)
  then show ?thesis unfolding it_ok_def assms(2-4) .
qed

lemma chains_unique: "list_all2 (chain hp) ps xs \<Longrightarrow> list_all2 (chain hp) ps ys \<Longrightarrow> xs = ys"
proof (induction ps xs arbitrary: ys rule: list_all2_induct)
  case (Cons p ps as xs)
  then obtain bs ys' where "ys = bs # ys'" "chain hp p bs" "list_all2 (chain hp) ps ys'"
    by (auto simp: list_all2_Cons1)
  with Cons show ?case using chain_unique [of hp p as bs] by simp
qed simp

lemma it_ok_rest:
  assumes "it_ok hp ht hi rem" "list_all2 (chain hp) (h_array ht) cs"
  shows "set (concat (drop (unat (hi_index hi)) cs)) \<subseteq> set rem"
proof -
  obtain as css where r: "rem = as @ concat css"
    "list_all2 (chain hp) (drop (unat (hi_index hi)) (h_array ht)) css"
    using assms(1) unfolding it_ok_def by blast
  have "css = drop (unat (hi_index hi)) cs"
    using r(2) list_all2_dropI [OF assms(2)] by (rule chains_unique)
  with r(1) show ?thesis by auto
qed

lemma hash_wf_iter:
  fixes hp :: "'v heap"
  shows "hash_wf (hp, ht\<lparr>h_iter := hi\<rparr>) cs fl = hash_wf (hp, ht) cs fl"
proof -
  have "func_ok (ht\<lparr>h_iter := hi\<rparr>) = func_ok ht" by (rule func_ok_cong) simp_all
  moreover have "entry_ok (ht\<lparr>h_iter := hi\<rparr>) = (entry_ok ht :: nat \<Rightarrow> 'v apr_hash_entry_t \<Rightarrow> bool)" by (rule entry_ok_cong) simp_all
  ultimately show ?thesis by (simp add: hash_wf_def rep_def size_ok_def buckets_ok_def)
qed

lemma set_null_deletes:
  fixes hp :: "'v heap"
  assumes w: "hash_wf (hp, ht) cs fl" and i: "i < length cs" "cs ! i = us @ a # ws"
  shows "apr_hash_set (hp, ht) (e_key (hp ! a)) (KLen (e_klen (hp ! a))) None =
    Some (delete_entry (hp, ht) (place_after i us) a)"
proof -
  have a: "a \<in> set (concat cs)" "entry_ok ht i (hp ! a)"
    using w i by (auto simp: hash_wf_def buckets_ok_def intro: in_concat)
  let ?key = "e_key (hp ! a)" and ?kl = "KLen (e_klen (hp ! a))"
  have nk: "norm_key ?key ?kl = ekey (hp ! a)" by (simp add: norm_key_def ekey_def)
  have "klen_ok ?key ?kl" using a(2) by (simp add: klen_ok_def entry_ok_def)
  from find_place [OF w this, unfolded nk] obtain us' vs j where j: "j < length cs" "cs ! j = us' @ vs"
    and h: "hash_key ht ?key ?kl = Some (hash_of ht (ekey (hp ! a)), length (ekey (hp ! a)))"
      "j = unat (hash_of ht (ekey (hp ! a)) AND h_max ht)"
    and sc: "scan_chain (hp, ht) (hash_of ht (ekey (hp ! a))) (length (ekey (hp ! a))) ?key (Bucket j) =
        Some (place_after j us')"
    and d: "deref (hp, ht) (place_after j us') = (case vs of [] \<Rightarrow> None | v # _ \<Rightarrow> Some v)"
    and v: "case vs of [] \<Rightarrow> ekey (hp ! a) \<notin> (\<lambda>a. ekey (hp ! a)) ` set (concat cs) | v # _ \<Rightarrow> ekey (hp ! v) = ekey (hp ! a)"
    by blast
  obtain b ws' where vs: "vs = b # ws'" "ekey (hp ! b) = ekey (hp ! a)" using v a(1) by (cases vs) auto
  have "b \<in> set (concat cs)" using j vs by (intro in_concat [of j]) auto
  then have b: "b = a" using w a(1) vs(2) by (auto simp: hash_wf_def keys_ok_def inj_on_def)
  have ji: "j = i" using a(2) unfolding h(2) by (auto simp: entry_ok_def)
  have "distinct (cs ! i)" using w i(1) by (auto simp: hash_wf_def rep_def list_all2_conv_all_nth dest: chain_distinct)
  then have "us' = us" using i(2) j(2) vs(1) b ji by (auto simp: append_eq_append_conv2 append_eq_Cons_conv Cons_eq_append_conv)
  then show ?thesis using h sc d vs b ji by (simp add: apr_hash_set_def find_entry_def)
qed

lemma first_of_concat:
  assumes "concat cs = a # rem"
  obtains i ws where "i < length cs" "cs ! i = a # ws" "concat (cs[i := ws]) = rem"
  using assms
proof (induction cs arbitrary: thesis)
  case (Cons c cs)
  show ?case
  proof (cases c)
    case Nil
    with Cons.prems(2) obtain i ws where "i < length cs" "cs ! i = a # ws" "concat (cs[i := ws]) = rem"
      using Cons.IH by auto
    with Nil Cons.prems(1) [of "Suc i" ws] show ?thesis by simp
  next
    case (Cons b ws)
    with Cons.prems show ?thesis by (intro Cons.prems(1) [of 0 ws]) auto
  qed
qed simp

lemma clear_loop_result:
  fixes hp :: "'v heap"
  assumes "hash_wf (hp, ht) cs fl" "concat cs = todo"
    and "todo \<noteq> [] \<Longrightarrow> hi_this (h_iter ht) = Some (hd todo) \<and> it_ok hp ht (h_iter ht) (tl todo)"
  shows "\<exists>s' cs' fl'. clear_loop (hp, ht) (todo \<noteq> []) = Some s' \<and> hash_wf s' cs' fl' \<and> concat cs' = [] \<and>
    length (fst s') = length hp"
  using assms
proof (induction todo arbitrary: hp ht cs fl)
  case Nil
  have "clear_loop (hp, ht) False = Some (hp, ht)" by (subst clear_loop.simps) simp
  with Nil show ?case by auto
next
  case (Cons a rem)
  obtain i ws where i: "i < length cs" "cs ! i = [] @ a # ws" and cat: "concat (cs[i := ws]) = rem"
    using first_of_concat [OF Cons.prems(2)] by auto
  define hp1 where "hp1 = hp[a := (hp ! a)\<lparr>e_next := h_free ht\<rparr>]"
  define ht1 where "ht1 = ht\<lparr>h_array := (h_array ht)[i := e_next (hp ! a)], h_free := Some a, h_count := h_count ht - 1\<rparr>"
  have del: "delete_entry (hp, ht) (place_after i []) a = (hp1, ht1)"
    by (simp add: delete_entry_def place_after_def hp1_def ht1_def)
  have w1: "hash_wf (hp1, ht1) (cs[i := ws]) (a # fl)"
    using delete_entry_wf [OF Cons.prems(1) i] by (simp add: del)
  have r: "list_all2 (chain hp) (h_array ht) cs" "distinct (a # rem)"
    using Cons.prems(1,2) by (auto simp: hash_wf_def rep_def)
  have less: "\<forall>b \<in> set (a # rem). b < length hp" using chains_less [OF r(1)] Cons.prems(2) by simp
  have set: "apr_hash_set (hp, ht) (e_key (hp ! a)) (KLen (e_klen (hp ! a))) None = Some (hp1, ht1)"
    using set_null_deletes [OF Cons.prems(1) i] del by simp
  have it: "hi_this (h_iter ht) = Some a" "it_ok hp ht (h_iter ht) rem" using Cons.prems(3) by simp_all
  have passed: "i < unat (hi_index (h_iter ht))"
  proof (rule ccontr)
    assume "\<not> ?thesis"
    then have "cs ! i \<in> set (drop (unat (hi_index (h_iter ht))) cs)"
      using i(1) by (auto simp: in_set_conv_nth intro!: exI [of _ "i - unat (hi_index (h_iter ht))"])
    then have "a \<in> set (concat (drop (unat (hi_index (h_iter ht))) cs))"
      using i(2) unfolding set_concat by force
    then have "a \<in> set rem" using it_ok_rest [OF it(2) r(1)] by blast
    then show False using r(2) by simp
  qed
  have "it_ok hp1 ht1 (h_iter ht1) rem"
  proof -
    have "it_ok hp1 ht1 (h_iter ht) rem"
      using passed less r(2) by (intro it_ok_passed [OF it(2)]) (auto simp: ht1_def hp1_def nth_upd)
    then show ?thesis by (simp add: ht1_def)
  qed
  then obtain hi' where n: "iter_next hp1 ht1 = Some (ht1\<lparr>h_iter := hi'\<rparr>, rem \<noteq> [])"
    "rem \<noteq> [] \<longrightarrow> hi_this hi' = Some (hd rem) \<and> it_ok hp1 (ht1\<lparr>h_iter := hi'\<rparr>) hi' (tl rem)"
    using iter_next_result by blast
  have step: "clear_loop (hp, ht) True = clear_loop (hp1, ht1\<lparr>h_iter := hi'\<rparr>) (rem \<noteq> [])"
    using it(1) less set n(1) by (subst clear_loop.simps) (simp add: apr_hash_this_def)
  have "hash_wf (hp1, ht1\<lparr>h_iter := hi'\<rparr>) (cs[i := ws]) (a # fl)"
    using w1 by (simp add: hash_wf_iter)
  from Cons.IH [OF this cat] n(2) obtain s' cs' fl' where
    "clear_loop (hp1, ht1\<lparr>h_iter := hi'\<rparr>) (rem \<noteq> []) = Some s'" "hash_wf s' cs' fl'" "concat cs' = []"
    "length (fst s') = length hp1" by fastforce
  with step show ?case by (auto simp: hp1_def)
qed

lemma empty_map: "rep s cs fl \<Longrightarrow> concat cs = [] \<Longrightarrow> hash_map s = (\<lambda>k. None)"
  by (simp add: hash_map_def rep_unique(1) [of s cs fl] pairs_def)

lemma apr_hash_clear_wf:
  assumes "hash_wf s cs fl"
  shows "\<exists>s' cs' fl'. apr_hash_clear s = Some s' \<and> hash_wf s' cs' fl' \<and> concat cs' = [] \<and>
    length (fst s') = length (fst s)"
proof -
  obtain hp ht where s: "s = (hp, ht)" by (cases s)
  obtain hi where n: "apr_hash_next hp ht idle_iter = Some (hi, concat cs \<noteq> [])"
    "concat cs \<noteq> [] \<longrightarrow> hi_this hi = Some (hd (concat cs)) \<and> it_ok hp ht hi (tl (concat cs))"
    using hash_first [OF assms [unfolded s]] by blast
  have "hash_wf (hp, ht\<lparr>h_iter := hi\<rparr>) cs fl" using assms by (simp add: s hash_wf_iter)
  from clear_loop_result [OF this refl] n(2)
  obtain s' cs' fl' where "clear_loop (hp, ht\<lparr>h_iter := hi\<rparr>) (concat cs \<noteq> []) = Some s'" "hash_wf s' cs' fl'"
    "concat cs' = []" "length (fst s') = length hp" by (fastforce simp: it_ok_def)
  moreover have "apr_hash_clear s = clear_loop (hp, ht\<lparr>h_iter := hi\<rparr>) (concat cs \<noteq> [])"
    using n(1) by (simp add: s apr_hash_clear_def iter_first_def apr_hash_first_def)
  ultimately show ?thesis by (auto simp: s)
qed

section \<open>Tables under construction\<close>

text \<open>A table without recycled entries whose count is not yet right.\<close>

definition hash_wf0 :: "'v hstate \<Rightarrow> nat list list \<Rightarrow> bool" where
  "hash_wf0 s cs \<longleftrightarrow>
     rep s cs [] \<and> size_ok (snd s) \<and> func_ok (snd s) \<and> buckets_ok (snd s) (fst s) cs \<and>
     keys_ok (fst s) (concat cs)"

lemma hash_wf_iff0:
  "hash_wf s cs [] \<longleftrightarrow> hash_wf0 s cs \<and> h_count (snd s) = of_nat (length (concat cs))"
  by (auto simp: hash_wf_def hash_wf0_def)

lemma hash_map_iff0:
  assumes "hash_wf0 s cs"
  shows "hash_map s k = Some x \<longleftrightarrow> (\<exists>a \<in> set (concat cs). ekey (fst s ! a) = k \<and> e_val (fst s ! a) = x)"
proof -
  have "hash_wf (fst s, (snd s)\<lparr>h_count := of_nat (length (concat cs))\<rparr>) cs []"
  proof -
    have "func_ok ((snd s)\<lparr>h_count := c\<rparr>) = func_ok (snd s)" for c by (rule func_ok_cong) simp_all
    moreover have "entry_ok ((snd s)\<lparr>h_count := c\<rparr>) i e = entry_ok (snd s) i e" for c i and e :: "'a apr_hash_entry_t"
      by (subst entry_ok_cong [of _ "snd s"]) simp_all
    ultimately show ?thesis
      using assms by (simp add: hash_wf_def hash_wf0_def rep_def size_ok_def buckets_ok_def)
  qed
  from hash_map_iff [OF this, of k x] show ?thesis by (simp add: hash_map_def hash_chains_def)
qed

lemma hash_map_eqI0:
  assumes "hash_wf0 s cs" "\<And>k x. m k = Some x \<longleftrightarrow> (\<exists>a \<in> set (concat cs). ekey (fst s ! a) = k \<and> e_val (fst s ! a) = x)"
  shows "hash_map s = m"
proof
  fix k
  have "hash_map s k = Some x \<longleftrightarrow> m k = Some x" for x
    using hash_map_iff0 [OF assms(1), of k x] assms(2) [of k x] by simp
  then show "hash_map s k = m k" by (metis not_Some_eq)
qed

text \<open>The next entry of the block is pushed to the front of its list.\<close>

lemma push_entry_wf0:
  fixes hp :: "'v heap"
  assumes w: "hash_wf0 (hp, ht) cs" and i: "i < length cs" and n: "nv + j = length hp" "j < cap"
    and e: "entry_ok ht i e" "ekey e \<notin> (\<lambda>a. ekey (hp ! a)) ` set (concat cs)"
  shows "\<exists>e' arr. push_entry cap nv (hp, ht) j i e = Some (hp @ [e'], ht\<lparr>h_array := arr\<rparr>) \<and>
    hash_wf0 (hp @ [e'], ht\<lparr>h_array := arr\<rparr>) (cs[i := (nv + j) # cs ! i]) \<and>
    hash_map (hp @ [e'], ht\<lparr>h_array := arr\<rparr>) = (hash_map (hp, ht))(ekey e \<mapsto> e_val e)"
proof -
  define e' where "e' = e\<lparr>e_next := h_array ht ! i\<rparr>"
  define arr where "arr = (h_array ht)[i := Some (nv + j)]"
  let ?hp = "hp @ [e']" and ?ht = "ht\<lparr>h_array := arr\<rparr>" and ?cs = "cs[i := (nv + j) # cs ! i]"
  have r: "list_all2 (chain hp) (h_array ht) cs" "distinct (concat cs)" using w by (simp_all add: hash_wf0_def rep_def)
  have less: "\<forall>a \<in> set (concat cs). a < length hp" using r(1) by (rule chains_less)
  obtain A B where cat: "concat cs = concat A @ cs ! i @ concat B" "concat ?cs = concat A @ ((nv + j) # cs ! i) @ concat B"
    using concat_update [OF i] by metis
  have st: "set (concat ?cs) = insert (nv + j) (set (concat cs))" unfolding cat by auto
  have new: "nv + j \<notin> set (concat cs)" using less n(1) by auto
  have e1: "?hp ! a = hp ! a" if "a \<in> set (concat cs)" for a using less that by (simp add: nth_append)
  have e2: "?hp ! (nv + j) = e'" using n(1) by simp
  have e3: "ekey e' = ekey e" "e_val e' = e_val e" "entry_ok ht k e' = entry_ok ht k e" for k
    by (simp_all add: e'_def ekey_def entry_ok_def)
  have ne: "ekey (hp ! a) \<noteq> ekey e" if "a \<in> set (concat cs)" for a using e(2) that by (metis imageI)
  have "func_ok ?ht = func_ok ht" by (rule func_ok_cong) simp_all
  moreover have cg: "entry_ok ?ht = (entry_ok ht :: nat \<Rightarrow> 'v apr_hash_entry_t \<Rightarrow> bool)" by (rule entry_ok_cong) simp_all
  moreover have "rep (?hp, ?ht) ?cs []"
  proof -
    have c: "list_all2 (chain ?hp) (h_array ht) cs" using r(1) by (rule chains_grow)
    have "chain ?hp (h_array ht ! i) (cs ! i)" using c i by (auto simp: list_all2_conv_all_nth)
    then have "chain ?hp (Some (nv + j)) ((nv + j) # cs ! i)" using n(1) by (simp add: e'_def)
    with c have "list_all2 (chain ?hp) arr ?cs" unfolding arr_def by (rule list_all2_update_cong)
    moreover have "distinct (concat ?cs)" using r(2) new by (simp add: cat) 
    moreover have "h_free ht = None" using w by (simp add: hash_wf0_def rep_def)
    ultimately show ?thesis by (simp add: rep_def)
  qed
  moreover have "size_ok ?ht" using w by (simp add: hash_wf0_def size_ok_def arr_def)
  moreover have "buckets_ok ?ht ?hp ?cs"
    using w i e(1) by (auto simp: hash_wf0_def buckets_ok_def cg e1 e2 e3 in_concat nth_list_update)
  moreover have "keys_ok ?hp (concat ?cs)"
  proof -
    have "inj_on (\<lambda>a. ekey (?hp ! a)) (set (concat cs))"
      using w e1 by (simp add: hash_wf0_def keys_ok_def cong: inj_on_cong)
    moreover have "(\<lambda>a. ekey (?hp ! a)) ` set (concat cs) = (\<lambda>a. ekey (hp ! a)) ` set (concat cs)"
      using e1 by (intro image_cong) simp_all
    ultimately show ?thesis using e(2) new unfolding keys_ok_def st inj_on_insert e2 e3 by simp
  qed
  ultimately have w': "hash_wf0 (?hp, ?ht) ?cs" using w by (simp add: hash_wf0_def)
  have "hash_map (?hp, ?ht) = (hash_map (hp, ht))(ekey e \<mapsto> e_val e)"
  proof (rule hash_map_eqI0 [OF w'])
    fix k x
    show "((hash_map (hp, ht))(ekey e \<mapsto> e_val e)) k = Some x \<longleftrightarrow>
        (\<exists>a \<in> set (concat ?cs). ekey (fst (?hp, ?ht) ! a) = k \<and> e_val (fst (?hp, ?ht) ! a) = x)"
      using hash_map_iff0 [OF w, of k x] ne unfolding st by (auto simp: e1 e2 e3)
  qed
  with w' n(2) show ?thesis by (auto simp: push_entry_def e'_def arr_def)
qed

section \<open>Copying\<close>

fun number :: "nat \<Rightarrow> nat list list \<Rightarrow> nat list list" where
  "number n [] = []"
| "number n (c # cs) = [n..<n + length c] # number (n + length c) cs"

lemma number_append: "number n (xs @ ys) = number n xs @ number (n + length (concat xs)) ys"
  by (induction xs arbitrary: n) (auto simp: add.assoc)

lemma concat_number: "concat (number n cs) = [n..<n + length (concat cs)]"
proof (induction cs arbitrary: n)
  case (Cons c cs)
  then show ?case using upt_add_eq_append [of n "n + length c" "length (concat cs)"] by (simp add: add.assoc)
qed simp

lemma length_number [simp]: "length (number n cs) = length cs"
  by (induction cs arbitrary: n) auto

lemma copy_chain_result:
  fixes hp :: "'v heap"
  assumes "rep (hp, ht) cs []" "i < length cs" "length hp = nv + j" "\<forall>a \<in> set (concat cs). nv \<le> a"
    and "chain hp oe as" "\<forall>a \<in> set as. a < nv" "j + length as \<le> cap"
  shows "\<exists>hp' arr. copy_chain cap nv (hp, ht) j (place_after i (cs ! i)) oe =
      Some ((hp', ht\<lparr>h_array := arr\<rparr>), j + length as) \<and>
    rep (hp', ht\<lparr>h_array := arr\<rparr>) (cs[i := cs ! i @ [nv + j..<nv + j + length as]]) [] \<and>
    length hp' = nv + j + length as \<and> (\<forall>a < nv. hp' ! a = hp ! a) \<and>
    (\<forall>a < nv + j. edata (hp' ! a) = edata (hp ! a)) \<and>
    (\<forall>t < length as. edata (hp' ! (nv + j + t)) = edata (hp ! (as ! t)))"
  using assms
proof (induction as arbitrary: hp ht cs j oe)
  case Nil
  obtain hp' arr where a: "assign (hp, ht) (place_after i (cs ! i)) None = (hp', ht\<lparr>h_array := arr\<rparr>)"
    "list_all2 (chain hp') arr (cs[i := cs ! i @ []])" "chain hp' (h_free ht) []" "length hp' = length hp"
    "\<And>a. edata (hp' ! a) = edata (hp ! a)" "\<And>a. a \<notin> set (cs ! i) \<Longrightarrow> hp' ! a = hp ! a"
    using assign_rep [OF Nil.prems(1,2), of "cs ! i" "[]" None "[]"] by auto
  have "copy_chain cap nv (hp, ht) j (place_after i (cs ! i)) oe = Some ((hp', ht\<lparr>h_array := arr\<rparr>), j)"
    using Nil.prems(5) a(1) by (subst copy_chain.simps) simp
  moreover have "a \<notin> set (cs ! i)" if "a < nv" for a
    using that Nil.prems(2,4) by (meson in_concat leD)
  ultimately show ?case
    using a Nil.prems by (intro exI [of _ hp'] exI [of _ arr]) (simp add: rep_def)
next
  case (Cons b as)
  define e where "e = (hp ! b)\<lparr>e_next := None\<rparr>"
  let ?n = "nv + j"
  have b: "oe = Some b" "b < length hp" "chain hp (e_next (hp ! b)) as" "b < nv" using Cons.prems(5,6) by auto
  have r: "list_all2 (chain hp) (h_array ht) cs" "chain hp (h_free ht) []" "distinct (concat cs)"
    using Cons.prems(1) by (simp_all add: rep_def)
  have "rep (hp @ [e], ht) cs []" using r by (simp add: rep_def chains_grow)
  moreover have "chain (hp @ [e]) (Some ?n) [?n]" using Cons.prems(3) by (simp add: e_def nth_append)
  moreover have new: "?n \<notin> set (concat cs)" using chains_less [OF r(1)] Cons.prems(3) by auto
  then have "set (cs ! i) \<inter> set [?n] = {}" using Cons.prems(2) in_concat [of i cs] by auto
  ultimately obtain hp1 arr where a: "assign (hp @ [e], ht) (place_after i (cs ! i)) (Some ?n) = (hp1, ht\<lparr>h_array := arr\<rparr>)"
    "list_all2 (chain hp1) arr (cs[i := cs ! i @ [?n]])" "chain hp1 (h_free ht) []" "length hp1 = length (hp @ [e])"
    "\<And>a. edata (hp1 ! a) = edata ((hp @ [e]) ! a)" "\<And>a. a \<notin> set (cs ! i) \<Longrightarrow> hp1 ! a = (hp @ [e]) ! a"
    using assign_rep [OF _ Cons.prems(2), of "hp @ [e]" ht "[]" "cs ! i" "[]" "Some ?n" "[?n]"] by auto
  let ?cs = "cs[i := cs ! i @ [?n]]" and ?ht = "ht\<lparr>h_array := arr\<rparr>"
  obtain A B where cat: "concat cs = concat A @ cs ! i @ concat B" "concat ?cs = concat A @ (cs ! i @ [?n]) @ concat B"
    using concat_update [OF Cons.prems(2)] by metis
  have old: "hp1 ! a = hp ! a" if "a < nv" for a
  proof -
    have "a \<notin> set (cs ! i)" using that Cons.prems(2,4) by (meson in_concat leD)
    then show ?thesis using a(6) that Cons.prems(3) by (simp add: nth_append)
  qed
  have ed: "edata (hp1 ! a) = edata (hp ! a)" if "a < ?n" for a
    using a(5) [of a] that Cons.prems(3) by (simp add: nth_append)
  have edn: "edata (hp1 ! ?n) = edata (hp ! b)" using a(5) [of ?n] Cons.prems(3) by (simp add: e_def edata_def nth_append)
  have rep1: "rep (hp1, ?ht) ?cs []" using a(2,3) r(3) new by (auto simp: rep_def cat)
  have c1: "chain hp1 (e_next (hp ! b)) as"
    using b(3) Cons.prems(6) old a(4) Cons.prems(3) by (intro chain_frame [OF _ b(3)]) auto
  have step: "copy_chain cap nv (hp, ht) j (place_after i (cs ! i)) oe =
      copy_chain cap nv (hp1, ?ht) (j + 1) (place_after i (?cs ! i)) (e_next (hp ! b))"
    using b a(1) Cons.prems(2,7) old [OF b(4)]
    by (subst copy_chain.simps) (simp add: place_after_def e_def Let_def)
  have "\<exists>hp' arr'. copy_chain cap nv (hp1, ?ht) (j + 1) (place_after i (?cs ! i)) (e_next (hp ! b)) =
      Some ((hp', ?ht\<lparr>h_array := arr'\<rparr>), j + 1 + length as) \<and>
    rep (hp', ?ht\<lparr>h_array := arr'\<rparr>) (?cs[i := ?cs ! i @ [nv + (j + 1)..<nv + (j + 1) + length as]]) [] \<and>
    length hp' = nv + (j + 1) + length as \<and> (\<forall>a < nv. hp' ! a = hp1 ! a) \<and>
    (\<forall>a < nv + (j + 1). edata (hp' ! a) = edata (hp1 ! a)) \<and>
    (\<forall>t < length as. edata (hp' ! (nv + (j + 1) + t)) = edata (hp1 ! (as ! t)))"
    using Cons.prems(2,3,4,6,7) a(4) c1 rep1
    by (intro Cons.IH) (auto simp: cat)
  then obtain hp' arr' where h: "copy_chain cap nv (hp1, ?ht) (j + 1) (place_after i (?cs ! i)) (e_next (hp ! b)) =
      Some ((hp', ht\<lparr>h_array := arr'\<rparr>), j + 1 + length as)"
    "rep (hp', ht\<lparr>h_array := arr'\<rparr>) (?cs[i := ?cs ! i @ [nv + (j + 1)..<nv + (j + 1) + length as]]) []"
    "length hp' = nv + (j + 1) + length as" "\<forall>a < nv. hp' ! a = hp1 ! a"
    "\<forall>a < nv + (j + 1). edata (hp' ! a) = edata (hp1 ! a)"
    "\<forall>t < length as. edata (hp' ! (nv + (j + 1) + t)) = edata (hp1 ! (as ! t))" by auto
  have up: "[?n..<?n + length (b # as)] = ?n # [nv + (j + 1)..<nv + (j + 1) + length as]"
    by (simp add: upt_conv_Cons del: upt_Suc)
  have "rep (hp', ht\<lparr>h_array := arr'\<rparr>) (cs[i := cs ! i @ [?n..<?n + length (b # as)]]) []"
    using h(2) Cons.prems(2) unfolding up by simp
  moreover have "edata (hp' ! (?n + t)) = edata (hp ! ((b # as) ! t))" if t: "t < length (b # as)" for t
  proof (cases t)
    case 0
    then show ?thesis using h(5) edn by simp
  next
    case (Suc t')
    then have "as ! t' < nv" using t Cons.prems(6) by simp
    then have "edata (hp1 ! (as ! t')) = edata (hp ! (as ! t'))" by (simp add: old)
    then show ?thesis using h(6) Suc t by simp
  qed
  ultimately show ?case using step h(1,3,4,5) old ed by auto
qed

lemma copy_loop_result:
  fixes hp :: "'v heap"
  assumes "list_all2 (chain hp) (h_array orig) cs" "\<forall>a \<in> set (concat cs). a < nv" "length (concat cs) \<le> cap"
    and "length (h_array orig) = unat (h_max ht) + 1" "length (h_array orig) < 2 ^ 32" "unat i \<le> length (h_array orig)"
    and "rep (hp, ht) (number nv (take (unat i) cs) @ replicate (length cs - unat i) []) []"
    and "j = length (concat (take (unat i) cs))" "length hp = nv + j"
    and "\<forall>t < j. edata (hp ! (nv + t)) = edata (hp ! (concat cs ! t))"
  shows "\<exists>hp' arr. copy_loop cap nv orig (hp, ht) j i = Some (hp', ht\<lparr>h_array := arr\<rparr>) \<and>
    rep (hp', ht\<lparr>h_array := arr\<rparr>) (number nv cs) [] \<and> length hp' = nv + length (concat cs) \<and>
    (\<forall>a < nv. hp' ! a = hp ! a) \<and>
    (\<forall>t < length (concat cs). edata (hp' ! (nv + t)) = edata (hp ! (concat cs ! t)))"
  using assms
proof (induction "length cs - unat i" arbitrary: hp ht j i)
  case 0
  note p = 0(2-) and h = 0(1)
  have len: "length cs = length (h_array orig)" using p(1) by (auto dest: list_all2_lengthD)
  then have i: "unat i = length cs" using h p(6) by simp
  then have "\<not> i \<le> h_max ht" using p(4) len by (simp add: word_le_nat_alt)
  then have "copy_loop cap nv orig (hp, ht) j i = Some (hp, ht)" by (subst copy_loop.simps) simp
  moreover have "ht = ht\<lparr>h_array := h_array ht\<rparr>" by simp
  ultimately show ?case using p i by (intro exI [of _ hp] exI [of _ "h_array ht"]) simp
next
  case (Suc n)
  note p = Suc.prems and h = Suc(2)
  have len: "length cs = length (h_array orig)" using p(1) by (auto dest: list_all2_lengthD)
  have i: "unat i < length cs" using h by simp
  note ib = index_bounds [OF p(4) p(5) p(6)]
  have i1: "unat (i + 1) = unat i + 1" using ib(2) i len by simp
  have le: "i \<le> h_max ht" using p(4) i len by (simp add: word_le_nat_alt)
  define c where "c = cs ! unat i"
  let ?cs = "number nv (take (unat i) cs) @ replicate (length cs - unat i) []"
  have nth: "?cs ! unat i = []" "unat i < length ?cs" using i by (simp_all add: nth_append)
  have cc: "chain hp (h_array orig ! unat i) c" using p(1) i by (simp add: list_all2_conv_all_nth c_def)
  have split: "concat cs = concat (take (unat i) cs) @ c @ concat (drop (Suc (unat i)) cs)"
    unfolding c_def by (metis concat.simps(2) concat_append i id_take_nth_drop)
  have lo: "\<forall>a \<in> set (concat ?cs). nv \<le> a" by (auto simp: concat_number)
  have cn: "\<forall>a \<in> set c. a < nv" using p(2) by (simp add: split)
  have cap: "j + length c \<le> cap" using p(3,8) by (simp add: split)
  from copy_chain_result [OF p(7) nth(2) p(9) lo cc cn cap, unfolded nth]
  obtain hp1 arr where a: "copy_chain cap nv (hp, ht) j (place_after (unat i) []) (h_array orig ! unat i) =
      Some ((hp1, ht\<lparr>h_array := arr\<rparr>), j + length c)"
    "rep (hp1, ht\<lparr>h_array := arr\<rparr>) (?cs[unat i := [] @ [nv + j..<nv + j + length c]]) []"
    "length hp1 = nv + j + length c" "\<forall>a < nv. hp1 ! a = hp ! a"
    "\<forall>a < nv + j. edata (hp1 ! a) = edata (hp ! a)"
    "\<forall>t < length c. edata (hp1 ! (nv + j + t)) = edata (hp ! (c ! t))" by blast
  have tk: "take (Suc (unat i)) cs = take (unat i) cs @ [c]" using i by (simp add: take_Suc_conv_app_nth c_def)
  have "replicate (length cs - unat i) [] = [] # replicate (length cs - Suc (unat i)) ([] :: nat list)"
    using i by (metis Suc_diff_Suc replicate_Suc)
  then have cs1: "?cs[unat i := [] @ [nv + j..<nv + j + length c]] =
      number nv (take (unat (i + 1)) cs) @ replicate (length cs - unat (i + 1)) []"
    using i p(8) by (simp add: i1 tk number_append list_update_append)
  have ch: "list_all2 (chain hp1) (h_array orig) cs"
    using p(2,9) a(3,4) by (intro chains_frame [OF p(1)]) auto
  have ed: "\<forall>t < j + length c. edata (hp1 ! (nv + t)) = edata (hp1 ! (concat cs ! t))"
  proof (intro allI impI)
    fix t assume t: "t < j + length c"
    have "concat cs ! t \<in> set (concat cs)" using t p(8) by (intro nth_mem) (simp add: split)
    then have old: "hp1 ! (concat cs ! t) = hp ! (concat cs ! t)" using p(2) a(4) by simp
    show "edata (hp1 ! (nv + t)) = edata (hp1 ! (concat cs ! t))"
    proof (cases "t < j")
      case True
      then show ?thesis using a(5) p(10) old by simp
    next
      case False
      then have tj: "t - j < length c" "nv + j + (t - j) = nv + t" using t by linarith+
      have "concat cs ! t = c ! (t - j)" unfolding split nth_append p(8) [symmetric] using False tj(1) by simp
      moreover have "edata (hp1 ! (nv + j + (t - j))) = edata (hp ! (c ! (t - j)))" using a(6) tj(1) by blast
      ultimately show ?thesis using old tj(2) by metis
    qed
  qed
  have "\<exists>hp' arr'. copy_loop cap nv orig (hp1, ht\<lparr>h_array := arr\<rparr>) (j + length c) (i + 1) =
      Some (hp', ht\<lparr>h_array := arr\<rparr>\<lparr>h_array := arr'\<rparr>) \<and>
    rep (hp', ht\<lparr>h_array := arr\<rparr>\<lparr>h_array := arr'\<rparr>) (number nv cs) [] \<and> length hp' = nv + length (concat cs) \<and>
    (\<forall>a < nv. hp' ! a = hp1 ! a) \<and>
    (\<forall>t < length (concat cs). edata (hp' ! (nv + t)) = edata (hp1 ! (concat cs ! t)))"
  proof (rule Suc(1))
    show "n = length cs - unat (i + 1)" using h i1 by simp
    show "rep (hp1, ht\<lparr>h_array := arr\<rparr>) (number nv (take (unat (i + 1)) cs) @ replicate (length cs - unat (i + 1)) []) []"
      using a(2) unfolding cs1 .
    show "j + length c = length (concat (take (unat (i + 1)) cs))" using p(8) by (simp add: i1 tk)
    show "unat (i + 1) \<le> length (h_array orig)" using i1 i len by simp
  qed (use ch p(2-5) a(3) ed in simp_all)
  then obtain hp' arr' where r: "copy_loop cap nv orig (hp1, ht\<lparr>h_array := arr\<rparr>) (j + length c) (i + 1) =
      Some (hp', ht\<lparr>h_array := arr'\<rparr>)"
    "rep (hp', ht\<lparr>h_array := arr'\<rparr>) (number nv cs) []" "length hp' = nv + length (concat cs)"
    "\<forall>a < nv. hp' ! a = hp1 ! a"
    "\<forall>t < length (concat cs). edata (hp' ! (nv + t)) = edata (hp1 ! (concat cs ! t))" by auto
  have "copy_loop cap nv orig (hp, ht) j i = Some (hp', ht\<lparr>h_array := arr'\<rparr>)"
    using le a(1) r(1) by (subst copy_loop.simps) (simp add: place_after_def)
  moreover have "edata (hp' ! (nv + t)) = edata (hp ! (concat cs ! t))" if "t < length (concat cs)" for t
    using r(5) that a(4) p(2) nth_mem [OF that] by simp
  ultimately show ?case using r a(4) by (intro exI [of _ hp'] exI [of _ arr']) simp
qed

text \<open>A table with the same data in lists of the same shape has the same map.\<close>

lemma same_data_wf:
  fixes hp :: "'v heap"
  assumes w: "hash_wf (hp, ht) cs fl" and r: "rep (hp', ht') cs' []" and sh: "map length cs' = map length cs"
    and d: "map (\<lambda>a. edata (hp' ! a)) (concat cs') = map (\<lambda>a. edata (hp ! a)) (concat cs)"
    and ht': "h_func ht' = h_func ht" "h_seed ht' = h_seed ht" "h_max ht' = h_max ht" "h_count ht' = h_count ht"
  shows "hash_wf (hp', ht') cs' [] \<and> hash_map (hp', ht') = hash_map (hp, ht)"
proof -
  have len: "length cs' = length cs" using sh by (rule map_eq_imp_length_eq)
  have dd: "map (map (\<lambda>a. edata (hp' ! a))) cs' = map (map (\<lambda>a. edata (hp ! a))) cs"
  proof (rule concat_injective)
    show "concat (map (map (\<lambda>a. edata (hp' ! a))) cs') = concat (map (map (\<lambda>a. edata (hp ! a))) cs)"
      using d by (simp add: map_concat)
    show "\<forall>(x, y) \<in> set (zip (map (map (\<lambda>a. edata (hp' ! a))) cs') (map (map (\<lambda>a. edata (hp ! a))) cs)).
        length x = length y"
      using sh by (auto simp: set_zip list_eq_iff_nth_eq)
  qed (simp add: len)
  have ki: "map (\<lambda>a. ekey (hp' ! a)) (concat cs') = map (\<lambda>a. ekey (hp ! a)) (concat cs)"
    "map (\<lambda>a. e_val (hp' ! a)) (concat cs') = map (\<lambda>a. e_val (hp ! a)) (concat cs)"
  proof -
    have k: "ekey e = (\<lambda>(h, k, n, v). take n k) (edata e)" "e_val e = (\<lambda>(h, k, n, v). v) (edata e)"
      for e :: "'v apr_hash_entry_t" by (simp_all add: ekey_def edata_def)
    show "map (\<lambda>a. ekey (hp' ! a)) (concat cs') = map (\<lambda>a. ekey (hp ! a)) (concat cs)"
      using arg_cong [OF d, of "map (\<lambda>(h, k, n, v). take n k)"] by (simp add: k comp_def)
    show "map (\<lambda>a. e_val (hp' ! a)) (concat cs') = map (\<lambda>a. e_val (hp ! a)) (concat cs)"
      using arg_cong [OF d, of "map (\<lambda>(h, k, n, v). v)"] by (simp add: k comp_def)
  qed
  have "func_ok ht' = func_ok ht" using ht'(1,2) by (rule func_ok_cong)
  moreover have "entry_ok ht' = (entry_ok ht :: nat \<Rightarrow> 'v apr_hash_entry_t \<Rightarrow> bool)"
    using ht'(1-3) by (rule entry_ok_cong)
  moreover have "buckets_ok ht hp' cs'" unfolding buckets_ok_def
  proof (intro allI impI ballI)
    fix i a assume i: "i < length cs'" "a \<in> set (cs' ! i)"
    then obtain t where t: "t < length (cs' ! i)" "a = cs' ! i ! t" by (auto simp: in_set_conv_nth)
    have m: "map (\<lambda>a. edata (hp' ! a)) (cs' ! i) = map (\<lambda>a. edata (hp ! a)) (cs ! i)"
      using arg_cong [OF dd, of "\<lambda>x. x ! i"] i(1) len by simp
    then have t': "t < length (cs ! i)" using t(1) by (metis length_map)
    have "edata (hp' ! a) = edata (hp ! (cs ! i ! t))"
      using arg_cong [OF m, of "\<lambda>x. x ! t"] t t' by simp
    moreover have "entry_ok ht i (hp ! (cs ! i ! t))" using w i(1) len t' by (simp add: hash_wf_def buckets_ok_def)
    ultimately show "entry_ok ht i (hp' ! a)" using edata_ekey by blast
  qed
  moreover have "keys_ok hp' (concat cs')"
  proof -
    have "distinct (map (\<lambda>a. ekey (hp ! a)) (concat cs))"
      using w by (simp add: hash_wf_def keys_ok_def rep_def distinct_map)
    then show ?thesis unfolding ki(1) [symmetric] by (simp add: keys_ok_def distinct_map)
  qed
  moreover have "length (concat cs') = length (concat cs)" using d by (rule map_eq_imp_length_eq)
  moreover have "length (h_array ht') = length (h_array ht)"
    using r w len by (auto simp: rep_def hash_wf_def dest!: list_all2_lengthD)
  ultimately have w': "hash_wf (hp', ht') cs' []"
    using w r ht' by (simp add: hash_wf_def size_ok_def buckets_ok_def)
  have "pairs hp' (concat cs') = pairs hp (concat cs)"
    unfolding pairs_def using ki by (simp add: list_eq_iff_nth_eq)
  then show ?thesis using w w' by (simp add: hash_map_def hash_wf_chains)
qed

lemma map_length_number: "map length (number n cs) = map length cs"
  by (induction cs arbitrary: n) auto

lemma apr_hash_copy_wf:
  fixes hp :: "'v heap"
  assumes w: "hash_wf (hp, orig) cs fl" and room: "length hp < 2 ^ 31"
  shows "\<exists>hp' ht'. apr_hash_copy hp orig = Some (hp', ht') \<and>
    hash_wf (hp', ht') (number (length hp) cs) [] \<and> hash_map (hp', ht') = hash_map (hp, orig) \<and>
    length hp' = length hp + length (concat cs) \<and> (\<forall>a < length hp. hp' ! a = hp ! a)"
proof -
  define ht where "ht = \<lparr>h_array = replicate (unat (h_max orig + 1)) None, h_iter = idle_iter, h_count = h_count orig,
    h_max = h_max orig, h_seed = h_seed orig, h_func = h_func orig, h_free = None\<rparr>"
  have sz: "length (h_array orig) = unat (h_max orig) + 1" "length (h_array orig) < 2 ^ 32"
    using w size_length [of orig] by (simp_all add: hash_wf_def)
  have r: "list_all2 (chain hp) (h_array orig) cs" using w by (simp add: hash_wf_def rep_def)
  then have len: "length cs = length (h_array orig)" by (auto dest: list_all2_lengthD)
  have mx: "unat (h_max orig + 1) = length cs"
    using sz len by (subst unat_add_lem [THEN iffD1]) simp_all
  have "rep (hp, ht) (number (length hp) (take (unat (0 :: u32)) cs) @ replicate (length cs - unat (0 :: u32)) []) []"
    by (simp add: rep_def ht_def mx list_all2_conv_all_nth)
  moreover have "length (concat cs) \<le> unat (h_count orig)" using unat_count [OF w] room by simp
  moreover have "length (h_array orig) = unat (h_max ht) + 1" using sz by (simp add: ht_def)
  ultimately obtain hp' arr where c: "copy_loop (unat (h_count orig)) (length hp) orig (hp, ht) 0 0 = Some (hp', ht\<lparr>h_array := arr\<rparr>)"
    "rep (hp', ht\<lparr>h_array := arr\<rparr>) (number (length hp) cs) []" "length hp' = length hp + length (concat cs)"
    "\<forall>a < length hp. hp' ! a = hp ! a"
    "\<forall>t < length (concat cs). edata (hp' ! (length hp + t)) = edata (hp ! (concat cs ! t))"
    using copy_loop_result [OF r chains_less [OF r], of "unat (h_count orig)" ht 0 0] sz by auto
  have "map (\<lambda>a. edata (hp' ! a)) (concat (number (length hp) cs)) = map (\<lambda>a. edata (hp ! a)) (concat cs)"
    unfolding concat_number using c(5) by (intro nth_equalityI) simp_all
  then have "hash_wf (hp', ht\<lparr>h_array := arr\<rparr>) (number (length hp) cs) [] \<and>
      hash_map (hp', ht\<lparr>h_array := arr\<rparr>) = hash_map (hp, orig)"
    using c(2) by (intro same_data_wf [OF w]) (simp_all add: map_length_number ht_def)
  then show ?thesis using c by (auto simp: apr_hash_copy_def ht_def)
qed

end
