(* ===== verification/Apr_Hash_Merge.thy ===== *)
theory Apr_Hash_Merge
  imports Apr_Hash_Ops
begin

text \<open>
  The merge of two hash tables: the table is built in a block of fresh entries, first from the base and
  then from the overlay, and the map it ends with is the pointwise merge of the two maps.
\<close>

section \<open>Merging: the entries of the base\<close>

lemma dom_hash_map0: "hash_wf0 s cs \<Longrightarrow> dom (hash_map s) = (\<lambda>a. ekey (fst s ! a)) ` set (concat cs)"
  by (auto simp: dom_def hash_map_iff0)

text \<open>A table under construction in the block at \<open>nv\<close>, with \<open>j\<close> entries of it used.\<close>

definition growing :: "nat \<Rightarrow> nat \<Rightarrow> 'v hstate \<Rightarrow> nat list list \<Rightarrow> bool" where
  "growing nv j s cs \<longleftrightarrow>
     hash_wf0 s cs \<and> length (fst s) = nv + j \<and> (\<forall>a \<in> set (concat cs). nv \<le> a) \<and> length (concat cs) = j"

text \<open>The entries of another table in the old part of the heap.\<close>

definition source :: "nat \<Rightarrow> 'v heap \<Rightarrow> nat list \<Rightarrow> bool" where
  "source nv hp as \<longleftrightarrow>
     (\<forall>a \<in> set as. a < nv \<and> e_klen (hp ! a) \<le> length (e_key (hp ! a))) \<and>
     inj_on (\<lambda>a. ekey (hp ! a)) (set as) \<and> distinct as"

lemma growing_push:
  fixes hp :: "'v heap"
  assumes g: "growing nv j (hp, ht) cs" and c: "j < cap"
    and e: "e_klen e \<le> length (e_key e)" "e_hash e = hash_of ht (ekey e)" "ekey e \<notin> dom (hash_map (hp, ht))"
  shows "\<exists>e' arr cs'. push_entry cap nv (hp, ht) j (unat (e_hash e AND h_max ht)) e = Some (hp @ [e'], ht\<lparr>h_array := arr\<rparr>) \<and>
    growing nv (Suc j) (hp @ [e'], ht\<lparr>h_array := arr\<rparr>) cs' \<and>
    hash_map (hp @ [e'], ht\<lparr>h_array := arr\<rparr>) = (hash_map (hp, ht))(ekey e \<mapsto> e_val e)"
proof -
  let ?i = "unat (e_hash e AND h_max ht)"
  have w: "hash_wf0 (hp, ht) cs" and l: "nv + j = length hp" using g by (simp_all add: growing_def)
  have i: "?i < length cs"
    using w size_index [of ht "e_hash e"] by (auto simp: hash_wf0_def rep_def dest!: list_all2_lengthD)
  have k: "ekey e \<notin> (\<lambda>a. ekey (hp ! a)) ` set (concat cs)" using e(3) dom_hash_map0 [OF w] by simp
  have ok: "entry_ok ht ?i e" using e(1,2) by (simp add: entry_ok_def)
  obtain e' arr where p: "push_entry cap nv (hp, ht) j ?i e = Some (hp @ [e'], ht\<lparr>h_array := arr\<rparr>)"
    "hash_wf0 (hp @ [e'], ht\<lparr>h_array := arr\<rparr>) (cs[?i := (nv + j) # cs ! ?i])"
    "hash_map (hp @ [e'], ht\<lparr>h_array := arr\<rparr>) = (hash_map (hp, ht))(ekey e \<mapsto> e_val e)"
    using push_entry_wf0 [OF w i l c ok k] by blast
  obtain A B where cat: "concat cs = concat A @ cs ! ?i @ concat B"
    "concat (cs[?i := (nv + j) # cs ! ?i]) = concat A @ ((nv + j) # cs ! ?i) @ concat B"
    using concat_update [OF i] by metis
  have "set (concat (cs[?i := (nv + j) # cs ! ?i])) = insert (nv + j) (set (concat cs))"
    "length (concat (cs[?i := (nv + j) # cs ! ?i])) = Suc (length (concat cs))"
    unfolding cat by auto
  moreover define cs' where "cs' = cs[?i := (nv + j) # cs ! ?i]"
  ultimately have "growing nv (Suc j) (hp @ [e'], ht\<lparr>h_array := arr\<rparr>) cs'"
    using g p(2) by (simp add: growing_def)
  with p(1,3) show ?thesis by blast
qed

lemma base_chain_result:
  fixes hp :: "'v heap"
  assumes "growing nv j (hp, ht) cs" "chain hp iter as" "source nv hp as" "j + length as \<le> cap"
    and "\<forall>a \<in> set as. e_hash (hp ! a) = hash_of ht (ekey (hp ! a)) \<and> ekey (hp ! a) \<notin> dom (hash_map (hp, ht))"
  shows "\<exists>hp' arr cs'. base_chain cap nv (hp, ht) j iter = Some ((hp', ht\<lparr>h_array := arr\<rparr>), j + length as) \<and>
    growing nv (j + length as) (hp', ht\<lparr>h_array := arr\<rparr>) cs' \<and> (\<forall>a < length hp. hp' ! a = hp ! a) \<and>
    hash_map (hp', ht\<lparr>h_array := arr\<rparr>) = hash_map (hp, ht) ++ map_of (pairs hp as)"
  using assms
proof (induction as arbitrary: hp ht cs j iter)
  case Nil
  have "base_chain cap nv (hp, ht) j iter = Some ((hp, ht), j)" using Nil.prems(2) by (subst base_chain.simps) simp
  moreover have "ht = ht\<lparr>h_array := h_array ht\<rparr>" by simp
  ultimately show ?case
    using Nil.prems by (intro exI [of _ hp] exI [of _ "h_array ht"] exI [of _ cs]) (simp add: pairs_def)
next
  case (Cons b as)
  have b: "iter = Some b" "b < length hp" "chain hp (e_next (hp ! b)) as" using Cons.prems(2) by auto
  have bs: "e_klen (hp ! b) \<le> length (e_key (hp ! b))" "e_hash (hp ! b) = hash_of ht (ekey (hp ! b))"
    "ekey (hp ! b) \<notin> dom (hash_map (hp, ht))" "j < cap"
    using Cons.prems(3,4,5) by (auto simp: source_def)
  obtain e' arr cs1 where p: "push_entry cap nv (hp, ht) j (unat (e_hash (hp ! b) AND h_max ht)) (hp ! b) =
        Some (hp @ [e'], ht\<lparr>h_array := arr\<rparr>)"
      "growing nv (Suc j) (hp @ [e'], ht\<lparr>h_array := arr\<rparr>) cs1"
      "hash_map (hp @ [e'], ht\<lparr>h_array := arr\<rparr>) = (hash_map (hp, ht))(ekey (hp ! b) \<mapsto> e_val (hp ! b))"
    using growing_push [OF Cons.prems(1) bs(4) bs(1,2,3)] by blast
  let ?hp = "hp @ [e']" and ?ht = "ht\<lparr>h_array := arr\<rparr>"
  have less: "\<forall>a \<in> set (b # as). a < length hp" using Cons.prems(2) by (rule chain_less)
  have old: "?hp ! a = hp ! a" if "a \<in> set (b # as)" for a using less that by (auto simp: nth_append)
  have step: "base_chain cap nv (hp, ht) j iter = base_chain cap nv (?hp, ?ht) (j + 1) (e_next (hp ! b))"
    using b p(1) old [of b] by (subst base_chain.simps) simp
  have ho: "hash_of ?ht = hash_of ht" by (rule hash_of_cong) simp_all
  have inj: "inj_on (\<lambda>a. ekey (hp ! a)) (set (b # as))" "distinct (b # as)"
    using Cons.prems(3) unfolding source_def by blast+
  have "source nv ?hp as"
  proof -
    have "inj_on (\<lambda>a. ekey (?hp ! a)) (set as)"
      using inj(1) old by (simp add: inj_on_def)
    then show ?thesis using Cons.prems(3) old by (simp add: source_def)
  qed
  moreover have "chain ?hp (e_next (hp ! b)) as" using b(3) by (rule chain_grow)
  moreover have "\<forall>a \<in> set as. e_hash (?hp ! a) = hash_of ?ht (ekey (?hp ! a)) \<and> ekey (?hp ! a) \<notin> dom (hash_map (?hp, ?ht))"
  proof
    fix a assume a: "a \<in> set as"
    then have "ekey (hp ! a) \<noteq> ekey (hp ! b)" using inj by (auto simp: inj_on_def)
    then show "e_hash (?hp ! a) = hash_of ?ht (ekey (?hp ! a)) \<and> ekey (?hp ! a) \<notin> dom (hash_map (?hp, ?ht))"
      using Cons.prems(5) a old [of a] by (simp add: ho p(3) domIff)
  qed
  ultimately obtain hp' arr' cs' where r: "base_chain cap nv (?hp, ?ht) (j + 1) (e_next (hp ! b)) =
        Some ((hp', ht\<lparr>h_array := arr'\<rparr>), j + 1 + length as)"
      "growing nv (j + 1 + length as) (hp', ht\<lparr>h_array := arr'\<rparr>) cs'" "\<forall>a < length ?hp. hp' ! a = ?hp ! a"
      "hash_map (hp', ht\<lparr>h_array := arr'\<rparr>) = hash_map (?hp, ?ht) ++ map_of (pairs ?hp as)"
    using Cons.IH [of "j + 1" ?hp ?ht cs1 "e_next (hp ! b)"] p(2) Cons.prems(4) by auto
  have pr: "pairs ?hp as = pairs hp as" using old by (simp add: pairs_def)
  have pc: "pairs hp (b # as) = (ekey (hp ! b), e_val (hp ! b)) # pairs hp as" by (simp add: pairs_def)
  have "map_of (pairs hp as) (ekey (hp ! b)) = None"
    using inj by (intro map_of_pairs_other) (auto simp: inj_on_def)
  then have "hash_map (hp', ht\<lparr>h_array := arr'\<rparr>) = hash_map (hp, ht) ++ map_of (pairs hp (b # as))"
    unfolding r(4) p(3) pr pc by (auto simp: fun_eq_iff map_add_def split: option.split)
  then show ?case
    using step r(1-3) by (intro exI [of _ hp'] exI [of _ arr'] exI [of _ cs']) (simp add: nth_append)
qed

lemma source_append:
  "source nv hp (as @ bs) \<Longrightarrow> source nv hp as \<and> source nv hp bs \<and>
     (\<forall>a \<in> set as. \<forall>b \<in> set bs. ekey (hp ! a) \<noteq> ekey (hp ! b))"
  by (auto simp: source_def inj_on_Un)

lemma source_cong: "\<forall>a < nv. hp' ! a = hp ! a \<Longrightarrow> source nv hp as \<Longrightarrow> source nv hp' as"
  by (auto simp: source_def inj_on_def)

lemma base_loop_result:
  fixes hp :: "'v heap"
  assumes "growing nv j (hp, ht) cs" "list_all2 (chain hp) (drop (unat k) (h_array base)) css"
    and "length (h_array base) = unat (h_max base) + 1" "length (h_array base) < 2 ^ 32" "unat k \<le> length (h_array base)"
    and "source nv hp (concat css)" "j + length (concat css) \<le> cap"
    and "\<forall>a \<in> set (concat css). e_hash (hp ! a) = hash_of ht (ekey (hp ! a)) \<and> ekey (hp ! a) \<notin> dom (hash_map (hp, ht))"
  shows "\<exists>hp' arr cs'. base_loop cap nv base (hp, ht) j k = Some ((hp', ht\<lparr>h_array := arr\<rparr>), j + length (concat css)) \<and>
    growing nv (j + length (concat css)) (hp', ht\<lparr>h_array := arr\<rparr>) cs' \<and> (\<forall>a < nv. hp' ! a = hp ! a) \<and>
    hash_map (hp', ht\<lparr>h_array := arr\<rparr>) = hash_map (hp, ht) ++ map_of (pairs hp (concat css))"
  using assms
proof (induction css arbitrary: hp ht cs j k)
  case Nil
  then have "unat k = length (h_array base)" by simp
  then have "\<not> k \<le> h_max base" using Nil.prems(3) by (simp add: word_le_nat_alt)
  then have "base_loop cap nv base (hp, ht) j k = Some ((hp, ht), j)" by (subst base_loop.simps) simp
  moreover have "ht = ht\<lparr>h_array := h_array ht\<rparr>" by simp
  ultimately show ?case
    using Nil.prems by (intro exI [of _ hp] exI [of _ "h_array ht"] exI [of _ cs]) (simp add: pairs_def)
next
  case (Cons c css)
  note p = Cons.prems
  have k: "unat k < length (h_array base)" using p(2) by (cases "unat k < length (h_array base)") auto
  note kb = index_bounds [OF p(3,4,5)]
  have k1: "unat (k + 1) = Suc (unat k)" using kb(2) k by simp
  have le: "k \<le> h_max base" using p(3) k by (simp add: word_le_nat_alt)
  have d: "drop (unat k) (h_array base) = h_array base ! unat k # drop (unat (k + 1)) (h_array base)"
    using k by (simp add: k1 Cons_nth_drop_Suc)
  have ch: "chain hp (h_array base ! unat k) c" "list_all2 (chain hp) (drop (unat (k + 1)) (h_array base)) css"
    using p(2) unfolding d by simp_all
  have src: "source nv hp c" "source nv hp (concat css)"
    "\<forall>a \<in> set c. \<forall>b \<in> set (concat css). ekey (hp ! a) \<noteq> ekey (hp ! b)"
    using p(6) source_append [of nv hp c "concat css"] by simp_all
  have c0: "j + length c \<le> cap"
    "\<forall>a \<in> set c. e_hash (hp ! a) = hash_of ht (ekey (hp ! a)) \<and> ekey (hp ! a) \<notin> dom (hash_map (hp, ht))"
    using p(7,8) by simp_all
  obtain hp1 arr1 cs1 where b: "base_chain cap nv (hp, ht) j (h_array base ! unat k) =
        Some ((hp1, ht\<lparr>h_array := arr1\<rparr>), j + length c)"
      "growing nv (j + length c) (hp1, ht\<lparr>h_array := arr1\<rparr>) cs1" "\<forall>a < length hp. hp1 ! a = hp ! a"
      "hash_map (hp1, ht\<lparr>h_array := arr1\<rparr>) = hash_map (hp, ht) ++ map_of (pairs hp c)"
    using base_chain_result [OF p(1) ch(1) src(1) c0(1,2)] by blast
  let ?ht = "ht\<lparr>h_array := arr1\<rparr>"
  have nv: "nv \<le> length hp" using p(1) by (simp add: growing_def)
  have old: "\<forall>a < nv. hp1 ! a = hp ! a" using b(3) nv by simp
  have sl: "\<forall>a \<in> set (concat css). a < nv" using src(2) by (simp add: source_def)
  have l1: "length hp \<le> length hp1" using b(2) p(1) by (simp add: growing_def)
  have ch1: "list_all2 (chain hp1) (drop (unat (k + 1)) (h_array base)) css"
    using sl old nv l1 by (intro chains_frame [OF ch(2)]) fastforce
  have ho: "hash_of ?ht = hash_of ht" by (rule hash_of_cong) simp_all
  have ent: "\<forall>a \<in> set (concat css). e_hash (hp1 ! a) = hash_of ?ht (ekey (hp1 ! a)) \<and>
      ekey (hp1 ! a) \<notin> dom (hash_map (hp1, ?ht))"
  proof
    fix a assume a: "a \<in> set (concat css)"
    then have o: "hp1 ! a = hp ! a" using sl old by simp
    have "map_of (pairs hp c) (ekey (hp ! a)) = None"
      using src(3) a by (intro map_of_pairs_other) (metis (no_types, lifting) imageE)
    then show "e_hash (hp1 ! a) = hash_of ?ht (ekey (hp1 ! a)) \<and> ekey (hp1 ! a) \<notin> dom (hash_map (hp1, ?ht))"
      using p(8) a by (simp add: o ho b(4) domIff map_add_def)
  qed
  have "source nv hp1 (concat css)" using old src(2) by (rule source_cong)
  then obtain hp' arr' cs' where r: "base_loop cap nv base (hp1, ?ht) (j + length c) (k + 1) =
        Some ((hp', ht\<lparr>h_array := arr'\<rparr>), j + length c + length (concat css))"
      "growing nv (j + length c + length (concat css)) (hp', ht\<lparr>h_array := arr'\<rparr>) cs'" "\<forall>a < nv. hp' ! a = hp1 ! a"
      "hash_map (hp', ht\<lparr>h_array := arr'\<rparr>) = hash_map (hp1, ?ht) ++ map_of (pairs hp1 (concat css))"
    using Cons.IH [OF b(2) ch1 p(3,4) _ _ _ ent] k k1 p(7) by auto
  have "base_loop cap nv base (hp, ht) j k = base_loop cap nv base (hp1, ?ht) (j + length c) (k + 1)"
    using le b(1) by (subst base_loop.simps) simp
  moreover have "pairs hp1 (concat css) = pairs hp (concat css)" using sl old by (simp add: pairs_def)
  moreover have "map_of (pairs hp c) ++ map_of (pairs hp (concat css)) = map_of (pairs hp (concat (c # css)))"
  proof -
    have "dom (map_of (pairs hp c)) \<inter> dom (map_of (pairs hp (concat css))) = {}"
      using src(3) by (auto simp: dom_map_of_conv_image_fst pairs_def)
    then have "map_of (pairs hp c) ++ map_of (pairs hp (concat css)) = map_of (pairs hp c @ pairs hp (concat css))"
      unfolding map_of_append by (rule map_add_comm)
    then show ?thesis by (simp add: pairs_def)
  qed
  ultimately show ?case
    using r old b(4) by (intro exI [of _ hp'] exI [of _ arr'] exI [of _ cs']) (simp add: add.assoc map_add_assoc [symmetric])
qed

section \<open>Merging: the entries of the overlay\<close>

lemma find_ent_result:
  "chain hp p as \<Longrightarrow>
     find_ent hp n key p = Some (find (\<lambda>a. e_klen (hp ! a) = n \<and> take n (e_key (hp ! a)) = take n key) as)"
proof (induction as arbitrary: p)
  case Nil
  then show ?case by (subst find_ent.simps) simp
next
  case (Cons a as)
  then show ?case by (subst find_ent.simps) simp
qed

lemma hash_wf0_count:
  fixes hp :: "'v heap"
  shows "hash_wf0 (hp, ht\<lparr>h_count := c\<rparr>) cs = hash_wf0 (hp, ht) cs" "hash_map (hp, ht\<lparr>h_count := c\<rparr>) = hash_map (hp, ht)"
proof -
  have "func_ok (ht\<lparr>h_count := c\<rparr>) = func_ok ht" by (rule func_ok_cong) simp_all
  moreover have "entry_ok (ht\<lparr>h_count := c\<rparr>) = (entry_ok ht :: nat \<Rightarrow> 'v apr_hash_entry_t \<Rightarrow> bool)"
    by (rule entry_ok_cong) simp_all
  ultimately show "hash_wf0 (hp, ht\<lparr>h_count := c\<rparr>) cs = hash_wf0 (hp, ht) cs"
    by (simp add: hash_wf0_def rep_def size_ok_def buckets_ok_def)
  show "hash_map (hp, ht\<lparr>h_count := c\<rparr>) = hash_map (hp, ht)" by (simp add: hash_map_def hash_chains_def)
qed

text \<open>What one entry of the overlay does to the map.\<close>

definition merge_step ::
    "'v merger option \<Rightarrow> 'v apr_hash_entry_t \<Rightarrow> (byte list \<rightharpoonup> 'v) \<Rightarrow> (byte list \<rightharpoonup> 'v)" where
  "merge_step merger it m =
     m(ekey it \<mapsto> (case m (ekey it) of None \<Rightarrow> e_val it | Some v \<Rightarrow> merged_val merger it v))"

definition same_params :: "apr_hash_t \<Rightarrow> apr_hash_t \<Rightarrow> bool" where
  "same_params ht' ht \<longleftrightarrow> h_func ht' = h_func ht \<and> h_seed ht' = h_seed ht \<and> h_max ht' = h_max ht"

lemma merge_entry_result:
  fixes hp :: "'v heap"
  assumes g: "growing nv j (hp, ht) cs" and cnt: "h_count ht = of_nat j" and c: "j < cap"
    and a: "a < nv" "e_klen (hp ! a) \<le> length (e_key (hp ! a))"
  shows "\<exists>hp' ht' cs' j'. merge_entry merger cap nv (hp, ht) j a = Some ((hp', ht'), j') \<and>
    growing nv j' (hp', ht') cs' \<and> h_count ht' = of_nat j' \<and> j' \<le> Suc j \<and> same_params ht' ht \<and>
    (\<forall>b < nv. hp' ! b = hp ! b) \<and> hash_map (hp', ht') = merge_step merger (hp ! a) (hash_map (hp, ht))"
proof -
  let ?it = "hp ! a" and ?nk = "ekey (hp ! a)"
  define i where "i = unat (hash_of ht ?nk AND h_max ht)"
  have w0: "hash_wf0 (hp, ht) cs" and w: "hash_wf (hp, ht) cs []"
    using g cnt by (auto simp: growing_def hash_wf_iff0)
  have nk: "norm_key (e_key ?it) (KLen (e_klen ?it)) = ?nk" "klen_ok (e_key ?it) (KLen (e_klen ?it))"
    "length ?nk = e_klen ?it"
    using a(2) by (simp_all add: norm_key_def ekey_def klen_ok_def)
  have h: "hash_key ht (e_key ?it) (KLen (e_klen ?it)) = Some (hash_of ht ?nk, e_klen ?it)"
    using w0 nk by (simp add: hash_wf0_def func_ok_def hashfunc_ok_def)
  have id: "hp[a := ?it\<lparr>e_klen := e_klen ?it\<rparr>] = hp" "?it\<lparr>e_klen := e_klen ?it\<rparr> = ?it" by simp_all
  have ch: "list_all2 (chain hp) (h_array ht) cs" using w0 by (simp add: hash_wf0_def rep_def)
  have i: "i < length cs" using w0 size_index [of ht] ch by (auto simp: hash_wf0_def i_def dest!: list_all2_lengthD)
  then have "chain hp (h_array ht ! i) (cs ! i)" using ch by (simp add: list_all2_conv_all_nth)
  note fe = find_ent_result [OF this, of "e_klen ?it" "e_key ?it"]
  have ok: "entry_ok ht k (hp ! b)" if "k < length cs" "b \<in> set (cs ! k)" for k b
    using w0 that by (simp add: hash_wf0_def buckets_ok_def)
  have eq: "e_klen (hp ! b) = e_klen ?it \<and> take (e_klen ?it) (e_key (hp ! b)) = take (e_klen ?it) (e_key ?it) \<longleftrightarrow>
      ekey (hp ! b) = ?nk" if "b \<in> set (cs ! i)" for b
  proof -
    have "e_klen (hp ! b) \<le> length (e_key (hp ! b))" using ok [OF i that] by (simp add: entry_ok_def)
    then have "length (ekey (hp ! b)) = e_klen (hp ! b)" by (simp add: ekey_def)
    then show ?thesis using nk(3) by (metis ekey_def)
  qed
  show ?thesis
  proof (cases "find (\<lambda>b. e_klen (hp ! b) = e_klen ?it \<and> take (e_klen ?it) (e_key (hp ! b)) = take (e_klen ?it) (e_key ?it)) (cs ! i)")
    case (Some e)
    then have e: "e \<in> set (cs ! i)" "ekey (hp ! e) = ?nk" using eq by (auto simp: find_Some_iff in_set_conv_nth)
    then have el: "e \<in> set (concat cs)" using i by (intro in_concat [of i]) simp_all
    define v where "v = merged_val merger ?it (e_val (hp ! e))"
    have r: "hash_wf (hp[e := (hp ! e)\<lparr>e_val := v\<rparr>], ht) cs []"
      "hash_map (hp[e := (hp ! e)\<lparr>e_val := v\<rparr>], ht) = (hash_map (hp, ht))(?nk \<mapsto> v)"
      using replace_value_wf [OF w el, of v] e(2) by simp_all
    have "hash_map (hp, ht) ?nk = Some (e_val (hp ! e))" using hash_map_Some [OF w el] e(2) by simp
    then have "hash_map (hp[e := (hp ! e)\<lparr>e_val := v\<rparr>], ht) = merge_step merger ?it (hash_map (hp, ht))"
      using r(2) by (simp add: merge_step_def v_def)
    moreover have "merge_entry merger cap nv (hp, ht) j a = Some ((hp[e := (hp ! e)\<lparr>e_val := v\<rparr>], ht), j)"
      using h fe Some by (simp add: merge_entry_def id v_def Let_def flip: i_def)
    moreover have "nv \<le> e" using g el by (simp add: growing_def)
    then have "\<forall>b < nv. hp[e := (hp ! e)\<lparr>e_val := v\<rparr>] ! b = hp ! b" by (simp add: nth_upd)
    moreover have "growing nv j (hp[e := (hp ! e)\<lparr>e_val := v\<rparr>], ht) cs"
      using g r(1) by (simp add: growing_def hash_wf_iff0)
    ultimately show ?thesis using cnt by (auto simp: same_params_def)
  next
    case None
    have nd: "?nk \<notin> dom (hash_map (hp, ht))"
    proof
      assume "?nk \<in> dom (hash_map (hp, ht))"
      then obtain b where b: "b \<in> set (concat cs)" "ekey (hp ! b) = ?nk" using dom_hash_map0 [OF w0] by auto
      then obtain k where k: "k < length cs" "b \<in> set (cs ! k)"
        unfolding set_concat by (auto simp: in_set_conv_nth [of _ cs])
      then have "k = i" using ok [OF k] b(2) by (auto simp: entry_ok_def i_def)
      with k b eq None show False by (auto simp: find_None_iff)
    qed
    define it where "it = ?it\<lparr>e_hash := hash_of ht ?nk\<rparr>"
    have it: "ekey it = ?nk" "e_val it = e_val ?it" by (simp_all add: it_def ekey_def)
    then have "e_klen it \<le> length (e_key it)" "e_hash it = hash_of ht (ekey it)" "ekey it \<notin> dom (hash_map (hp, ht))"
      using a(2) nd by (simp_all add: it_def ekey_def)
    from growing_push [OF g c this] obtain e' arr cs' where
      p: "push_entry cap nv (hp, ht) j (unat (e_hash it AND h_max ht)) it = Some (hp @ [e'], ht\<lparr>h_array := arr\<rparr>)"
        "growing nv (Suc j) (hp @ [e'], ht\<lparr>h_array := arr\<rparr>) cs'"
        "hash_map (hp @ [e'], ht\<lparr>h_array := arr\<rparr>) = (hash_map (hp, ht))(?nk \<mapsto> e_val ?it)"
      unfolding it by blast
    let ?ht = "ht\<lparr>h_array := arr, h_count := h_count ht + 1\<rparr>"
    have g': "growing nv (Suc j) (hp @ [e'], ?ht) cs'"
      using p(2) by (simp add: growing_def hash_wf0_count(1) [of "hp @ [e']" "h_count ht + 1" "ht\<lparr>h_array := arr\<rparr>", simplified])
    have "hash_map (hp @ [e'], ?ht) = merge_step merger ?it (hash_map (hp, ht))"
      using p(3) nd hash_wf0_count(2) [of "hp @ [e']" "h_count ht + 1" "ht\<lparr>h_array := arr\<rparr>", simplified]
      by (simp add: merge_step_def domIff)
    moreover have "merge_entry merger cap nv (hp, ht) j a = Some ((hp @ [e'], ?ht), Suc j)"
      using h fe None p(1) by (simp add: merge_entry_def id Let_def it_def flip: i_def)
    moreover have "\<forall>b < nv. (hp @ [e']) ! b = hp ! b" using g by (simp add: growing_def nth_append)
    ultimately show ?thesis
      using g' cnt by (intro exI [of _ "hp @ [e']"] exI [of _ ?ht] exI [of _ cs'] exI [of _ "Suc j"]) (simp add: same_params_def)
  qed
qed

lemma overlay_chain_result:
  fixes hp :: "'v heap"
  assumes "growing nv j (hp, ht) cs" "h_count ht = of_nat j" "chain hp iter as" "j + length as \<le> cap"
    and "\<forall>a \<in> set as. a < nv \<and> e_klen (hp ! a) \<le> length (e_key (hp ! a))"
  shows "\<exists>hp' ht' cs' j'. overlay_chain merger cap nv (hp, ht) j iter = Some ((hp', ht'), j') \<and>
    growing nv j' (hp', ht') cs' \<and> h_count ht' = of_nat j' \<and> j' \<le> j + length as \<and> same_params ht' ht \<and>
    (\<forall>b < nv. hp' ! b = hp ! b) \<and>
    hash_map (hp', ht') = fold (\<lambda>a. merge_step merger (hp ! a)) as (hash_map (hp, ht))"
  using assms
proof (induction as arbitrary: hp ht cs j iter)
  case Nil
  have "overlay_chain merger cap nv (hp, ht) j iter = Some ((hp, ht), j)"
    using Nil.prems(3) by (subst overlay_chain.simps) simp
  with Nil.prems show ?case by (auto simp: same_params_def)
next
  case (Cons a as)
  note p = Cons.prems
  have a: "iter = Some a" "chain hp (e_next (hp ! a)) as" "a < nv" "e_klen (hp ! a) \<le> length (e_key (hp ! a))" "j < cap"
    using p(3,4,5) by auto
  obtain hp1 ht1 cs1 j1 where m: "merge_entry merger cap nv (hp, ht) j a = Some ((hp1, ht1), j1)"
    "growing nv j1 (hp1, ht1) cs1" "h_count ht1 = of_nat j1" "j1 \<le> Suc j" "same_params ht1 ht"
    "\<forall>b < nv. hp1 ! b = hp ! b" "hash_map (hp1, ht1) = merge_step merger (hp ! a) (hash_map (hp, ht))"
    using merge_entry_result [OF p(1,2) a(5,3,4)] by blast
  have "overlay_chain merger cap nv (hp, ht) j iter = overlay_chain merger cap nv (hp1, ht1) j1 (e_next (hp ! a))"
    using a(1,3) m(1,6) by (subst overlay_chain.simps) simp
  moreover have "chain hp1 (e_next (hp ! a)) as"
    using p(5) m(2,6) by (intro chain_frame [OF _ a(2)]) (auto simp: growing_def)
  moreover have "j1 + length as \<le> cap" using p(4) m(4) by simp
  moreover have "\<forall>a \<in> set as. a < nv \<and> e_klen (hp1 ! a) \<le> length (e_key (hp1 ! a))" using p(5) m(6) by simp
  moreover have "fold (\<lambda>a. merge_step merger (hp1 ! a)) as m = fold (\<lambda>a. merge_step merger (hp ! a)) as m" for m
    using p(5) m(6) by (intro fold_cong) auto
  ultimately show ?case
    using Cons.IH [OF m(2,3), of "e_next (hp ! a)"] m(4-7) by (fastforce simp: same_params_def)
qed

lemma overlay_loop_result:
  fixes hp :: "'v heap"
  assumes "growing nv j (hp, ht) cs" "h_count ht = of_nat j"
    and "list_all2 (chain hp) (drop (unat k) (h_array ov)) css"
    and "length (h_array ov) = unat (h_max ov) + 1" "length (h_array ov) < 2 ^ 32" "unat k \<le> length (h_array ov)"
    and "j + length (concat css) \<le> cap"
    and "\<forall>a \<in> set (concat css). a < nv \<and> e_klen (hp ! a) \<le> length (e_key (hp ! a))"
  shows "\<exists>hp' ht' cs' j'. overlay_loop merger cap nv ov (hp, ht) j k = Some (hp', ht') \<and>
    growing nv j' (hp', ht') cs' \<and> h_count ht' = of_nat j' \<and> j' \<le> j + length (concat css) \<and> same_params ht' ht \<and>
    (\<forall>b < nv. hp' ! b = hp ! b) \<and>
    hash_map (hp', ht') = fold (\<lambda>a. merge_step merger (hp ! a)) (concat css) (hash_map (hp, ht))"
  using assms
proof (induction css arbitrary: hp ht cs j k)
  case Nil
  then have "unat k = length (h_array ov)" by simp
  then have "\<not> k \<le> h_max ov" using Nil.prems(4) by (simp add: word_le_nat_alt)
  then have "overlay_loop merger cap nv ov (hp, ht) j k = Some (hp, ht)" by (subst overlay_loop.simps) simp
  with Nil.prems show ?case by (auto simp: same_params_def)
next
  case (Cons c css)
  note p = Cons.prems
  have k: "unat k < length (h_array ov)" using p(3) by (cases "unat k < length (h_array ov)") auto
  have k1: "unat (k + 1) = Suc (unat k)" using index_bounds(2) [OF p(4,5,6)] k by simp
  have le: "k \<le> h_max ov" using p(4) k by (simp add: word_le_nat_alt)
  have "drop (unat k) (h_array ov) = h_array ov ! unat k # drop (unat (k + 1)) (h_array ov)"
    using k by (simp add: k1 Cons_nth_drop_Suc)
  with p(3) have ch: "chain hp (h_array ov ! unat k) c" "list_all2 (chain hp) (drop (unat (k + 1)) (h_array ov)) css"
    by simp_all
  have cc: "j + length c \<le> cap" "\<forall>a \<in> set c. a < nv \<and> e_klen (hp ! a) \<le> length (e_key (hp ! a))"
    using p(7,8) by simp_all
  obtain hp1 ht1 cs1 j1 where m: "overlay_chain merger cap nv (hp, ht) j (h_array ov ! unat k) = Some ((hp1, ht1), j1)"
    "growing nv j1 (hp1, ht1) cs1" "h_count ht1 = of_nat j1" "j1 \<le> j + length c" "same_params ht1 ht"
    "\<forall>b < nv. hp1 ! b = hp ! b" "hash_map (hp1, ht1) = fold (\<lambda>a. merge_step merger (hp ! a)) c (hash_map (hp, ht))"
    using overlay_chain_result [OF p(1,2) ch(1) cc] by blast
  have nl: "nv \<le> length hp1" using m(2) by (simp add: growing_def)
  have old: "\<forall>a \<in> set (concat css). a < nv \<and> hp1 ! a = hp ! a" using p(8) m(6) by simp
  have ch1: "list_all2 (chain hp1) (drop (unat (k + 1)) (h_array ov)) css"
    using old nl by (intro chains_frame [OF ch(2)]) fastforce
  have e1: "\<forall>a \<in> set (concat css). a < nv \<and> e_klen (hp1 ! a) \<le> length (e_key (hp1 ! a))" using p(8) old by simp
  have k2: "unat (k + 1) \<le> length (h_array ov)" and j2: "j1 + length (concat css) \<le> cap"
    using k k1 p(7) m(4) by simp_all
  obtain hp' ht' cs' j' where r: "overlay_loop merger cap nv ov (hp1, ht1) j1 (k + 1) = Some (hp', ht')"
    "growing nv j' (hp', ht') cs'" "h_count ht' = of_nat j'" "j' \<le> j1 + length (concat css)" "same_params ht' ht1"
    "\<forall>b < nv. hp' ! b = hp1 ! b"
    "hash_map (hp', ht') = fold (\<lambda>a. merge_step merger (hp1 ! a)) (concat css) (hash_map (hp1, ht1))"
    using Cons.IH [OF m(2,3) ch1 p(4,5) k2 j2 e1] by blast
  have "fold (\<lambda>a. merge_step merger (hp1 ! a)) (concat css) m = fold (\<lambda>a. merge_step merger (hp ! a)) (concat css) m" for m
    using old by (intro fold_cong) auto
  then have "hash_map (hp', ht') = fold (\<lambda>a. merge_step merger (hp ! a)) (concat (c # css)) (hash_map (hp, ht))"
    using r(7) m(7) by simp
  moreover have "overlay_loop merger cap nv ov (hp, ht) j k = Some (hp', ht')"
    using le m(1) r(1) by (subst overlay_loop.simps) simp
  ultimately show ?case
    using r(2-6) m(4-6) by (intro exI [of _ hp'] exI [of _ ht'] exI [of _ cs'] exI [of _ j']) (simp add: same_params_def)
qed

section \<open>Merging\<close>

lemma merge_max_mask:
  assumes "size_ok ov" "size_ok base" "unat (h_count base) + unat (h_count ov) < 2 ^ 31"
  shows "\<exists>k \<le> 31. merge_max ov base = mask k"
proof -
  obtain k where k: "k \<le> 31" "(if h_max ov > h_max base then h_max ov else h_max base) = mask k"
    using assms(1,2) unfolding size_ok_def by (cases "h_max ov > h_max base") auto
  show ?thesis
  proof (cases "h_count base + h_count ov > mask k")
    case True
    have "unat (h_count base + h_count ov) = unat (h_count base) + unat (h_count ov)"
      using assms(3) by (subst unat_add_lem [THEN iffD1]) simp_all
    then have "(2 :: nat) ^ k < 2 ^ 31" using True assms(3) k(1) by (simp add: word_less_nat_alt unat_mask_exp)
    then have "Suc k \<le> 31" unfolding Suc_le_eq by (rule power_less_imp_less_exp [rotated]) simp
    with True k show ?thesis by (intro exI [of _ "Suc k"]) (simp add: merge_max_def Let_def double_mask)
  next
    case False
    with k show ?thesis by (auto simp: merge_max_def Let_def)
  qed
qed

lemma wf_source:
  assumes "hash_wf (hp, ht) cs fl"
  shows "source (length hp) hp (concat cs)" "\<forall>a \<in> set (concat cs). e_hash (hp ! a) = hash_of ht (ekey (hp ! a))"
proof -
  have ok: "\<exists>i. entry_ok ht i (hp ! a)" if "a \<in> set (concat cs)" for a
    using assms that unfolding set_concat by (fastforce simp: hash_wf_def buckets_ok_def in_set_conv_nth [of _ cs])
  then show "\<forall>a \<in> set (concat cs). e_hash (hp ! a) = hash_of ht (ekey (hp ! a))" by (auto simp: entry_ok_def)
  show "source (length hp) hp (concat cs)"
    using assms ok by (fastforce simp: source_def hash_wf_def rep_def keys_ok_def entry_ok_def dest: chains_less)
qed

lemma apr_hash_merge_wf:
  fixes hp :: "'v heap"
  assumes b: "hash_wf (hp, base) cb fb" and o: "hash_wf (hp, ov) co fo"
    and room: "length hp + length (concat cb) + length (concat co) < 2 ^ 31"
  shows "\<exists>hp' ht' cs'. apr_hash_merge hp ov base merger = Some (hp', ht') \<and> hash_wf (hp', ht') cs' [] \<and>
    length hp \<le> length hp' \<and> length hp' \<le> length hp + length (concat cb) + length (concat co) \<and> (\<forall>a < length hp. hp' ! a = hp ! a) \<and>
    hash_map (hp', ht') = fold (\<lambda>a. merge_step merger (hp ! a)) (concat co) (hash_map (hp, base))"
proof -
  have cnt: "unat (h_count base) = length (concat cb)" "unat (h_count ov) = length (concat co)"
    using unat_count [OF b] unat_count [OF o] room by simp_all
  have sz: "size_ok base" "size_ok ov" using b o by (simp_all add: hash_wf_def)
  obtain k where k: "k \<le> 31" "merge_max ov base = mask k"
    using merge_max_mask [OF sz(2,1)] cnt room by auto
  define cap where "cap = unat (h_count base + h_count ov)"
  have cap: "cap = length (concat cb) + length (concat co)"
    unfolding cap_def using cnt room by (subst unat_add_lem [THEN iffD1]) simp_all
  define res where "res = \<lparr>h_array = alloc_array (mask k), h_iter = idle_iter, h_count = h_count base, h_max = mask k,
    h_seed = h_seed base, h_func = h_func base, h_free = None\<rparr>"
  have fn: "func_ok res = func_ok base" "hash_of res = hash_of base"
    by (rule func_ok_cong hash_of_cong; simp add: res_def)+
  let ?nv = "length hp" and ?e = "replicate (2 ^ k) ([] :: nat list)"
  have cat: "concat ?e = []" by (induction "2 ^ k :: nat") simp_all
  have w0: "hash_wf0 (hp, res) ?e"
  proof -
    have "rep (hp, res) ?e []"
      using length_alloc_mask [OF k(1)] by (simp add: rep_def res_def cat list_all2_conv_all_nth alloc_array_def)
    moreover have "size_ok res" using k(1) length_alloc_mask [OF k(1)] by (auto simp: size_ok_def res_def)
    ultimately show ?thesis using b fn by (simp add: hash_wf0_def hash_wf_def buckets_ok_def keys_ok_def cat)
  qed
  then have g0: "growing ?nv 0 (hp, res) ?e" by (simp add: growing_def cat)
  have m0: "hash_map (hp, res) = Map.empty"
    using w0 empty_map [of "(hp, res)" ?e "[]"] cat by (simp add: hash_wf0_def)
  note szb = size_length [OF sz(1)] and szo = size_length [OF sz(2)]
  have rb: "list_all2 (chain hp) (h_array base) cb" and ro: "list_all2 (chain hp) (h_array ov) co"
    using b o by (simp_all add: hash_wf_def rep_def)
  obtain hp1 arr1 cs1 where l: "base_loop cap ?nv base (hp, res) 0 0 = Some ((hp1, res\<lparr>h_array := arr1\<rparr>), length (concat cb))"
    "growing ?nv (length (concat cb)) (hp1, res\<lparr>h_array := arr1\<rparr>) cs1" "\<forall>a < ?nv. hp1 ! a = hp ! a"
    "hash_map (hp1, res\<lparr>h_array := arr1\<rparr>) = map_of (pairs hp (concat cb))"
    using base_loop_result [OF g0, of 0 base cb cap] rb szb wf_source [OF b] cap by (auto simp: m0 fn)
  have mb: "map_of (pairs hp (concat cb)) = hash_map (hp, base)" using hash_wf_chains [OF b] by (simp add: hash_map_def)
  have src: "source ?nv hp (concat co)" by (rule wf_source [OF o])
  have old: "\<forall>a \<in> set (concat co). a < ?nv \<and> hp1 ! a = hp ! a" using src l(3) by (simp add: source_def)
  have ro1: "list_all2 (chain hp1) (drop (unat (0 :: u32)) (h_array ov)) co"
  proof -
    have "?nv \<le> length hp1" using l(2) by (simp add: growing_def)
    then have "list_all2 (chain hp1) (h_array ov) co" using old by (intro chains_frame [OF ro]) fastforce
    then show ?thesis by simp
  qed
  have c1: "h_count (res\<lparr>h_array := arr1\<rparr>) = of_nat (length (concat cb))" using b by (simp add: res_def hash_wf_def)
  have e1: "\<forall>a \<in> set (concat co). a < ?nv \<and> e_klen (hp1 ! a) \<le> length (e_key (hp1 ! a))"
    using src old by (simp add: source_def)
  obtain hp' ht' cs' j' where r: "overlay_loop merger cap ?nv ov (hp1, res\<lparr>h_array := arr1\<rparr>) (length (concat cb)) 0 = Some (hp', ht')"
    "growing ?nv j' (hp', ht') cs'" "h_count ht' = of_nat j'" "j' \<le> length (concat cb) + length (concat co)"
    "\<forall>b < ?nv. hp' ! b = hp1 ! b"
    "hash_map (hp', ht') = fold (\<lambda>a. merge_step merger (hp1 ! a)) (concat co) (hash_map (hp1, res\<lparr>h_array := arr1\<rparr>))"
    using overlay_loop_result [OF l(2) c1 ro1 _ _ _ _ e1, of cap merger] szo cap by auto
  have "fold (\<lambda>a. merge_step merger (hp1 ! a)) (concat co) m = fold (\<lambda>a. merge_step merger (hp ! a)) (concat co) m" for m
    using old by (intro fold_cong) auto
  then have "hash_map (hp', ht') = fold (\<lambda>a. merge_step merger (hp ! a)) (concat co) (hash_map (hp, base))"
    using r(6) l(4) mb by simp
  moreover have "apr_hash_merge hp ov base merger = Some (hp', ht')"
    using l(1) r(1) by (simp add: apr_hash_merge_def k(2) Let_def flip: res_def cap_def)
  moreover have "hash_wf (hp', ht') cs' []" using r(2,3) by (auto simp: growing_def hash_wf_iff0)
  moreover have "?nv \<le> length hp'" "length hp' \<le> ?nv + length (concat cb) + length (concat co)"
    using r(2,4) by (simp_all add: growing_def)
  ultimately show ?thesis using r(5) l(3) by auto
qed

text \<open>The map a merge is meant to compute.\<close>

definition merge_maps ::
    "'v merger option \<Rightarrow> (byte list \<rightharpoonup> 'v) \<Rightarrow> (byte list \<rightharpoonup> 'v) \<Rightarrow> (byte list \<rightharpoonup> 'v)" where
  "merge_maps merger mo mb k =
     (case mo k of
        None \<Rightarrow> mb k
      | Some v \<Rightarrow>
          Some (case mb k of
                  None \<Rightarrow> v
                | Some w \<Rightarrow> (case merger of None \<Rightarrow> v | Some f \<Rightarrow> f k (length k) v w)))"

text \<open>A merger that looks at the bytes of the key only.\<close>

definition merger_ok :: "'v merger option \<Rightarrow> bool" where
  "merger_ok merger \<longleftrightarrow> (case merger of None \<Rightarrow> True | Some f \<Rightarrow> \<forall>key n. n \<le> length key \<longrightarrow> f key n = f (take n key) n)"

lemma fold_merge_step:
  assumes "source nv hp as" "merger_ok merger"
  shows "fold (\<lambda>a. merge_step merger (hp ! a)) as m = merge_maps merger (map_of (pairs hp as)) m"
  using assms(1)
proof (induction as arbitrary: m)
  case Nil
  then show ?case by (simp add: merge_maps_def pairs_def fun_eq_iff)
next
  case (Cons a as)
  have src: "source nv hp as" "\<forall>b \<in> set as. ekey (hp ! a) \<noteq> ekey (hp ! b)" "e_klen (hp ! a) \<le> length (e_key (hp ! a))"
    using source_append [of nv hp "[a]" as] Cons.prems by (simp, simp, simp add: source_def)
  then have n: "map_of (pairs hp as) (ekey (hp ! a)) = None" by (intro map_of_pairs_other) auto
  have len: "length (ekey (hp ! a)) = e_klen (hp ! a)" using src(3) by (simp add: ekey_def)
  have fk: "f (e_key (hp ! a)) (e_klen (hp ! a)) = f (ekey (hp ! a)) (e_klen (hp ! a))" if "merger = Some f" for f
  proof -
    have "\<forall>key n. n \<le> length key \<longrightarrow> f key n = f (take n key) n"
      using assms(2) unfolding merger_ok_def that by (simp only: option.case)
    then show ?thesis using src(3) unfolding ekey_def by blast
  qed
  have pc: "pairs hp (a # as) = (ekey (hp ! a), e_val (hp ! a)) # pairs hp as" by (simp add: pairs_def)
  have mv: "merged_val merger (hp ! a) w =
      (case merger of None \<Rightarrow> e_val (hp ! a) | Some f \<Rightarrow> f (ekey (hp ! a)) (e_klen (hp ! a)) (e_val (hp ! a)) w)" for w
    using fk by (simp add: merged_val_def split: option.split)
  show ?case
  proof
    fix k
    show "fold (\<lambda>a. merge_step merger (hp ! a)) (a # as) m k = merge_maps merger (map_of (pairs hp (a # as))) m k"
      unfolding fold.simps comp_def Cons.IH [OF src(1)] pc
      by (cases "k = ekey (hp ! a)"; cases "m (ekey (hp ! a))")
        (simp_all add: merge_maps_def merge_step_def mv len n cong: option.case_cong)
  qed
qed

end
