(* ===== verification/Apr_Hash_Spec.thy ===== *)
theory Apr_Hash_Spec
  imports Apr_Hash_Merge
begin

text \<open>
  The contract of the hash tables of \<^verbatim>\<open>tables/apr_hash.c\<close>, over the invariant \<open>hash_inv\<close> and the map
  \<open>hash_map\<close> of \<open>Apr_Hash_Map\<close>. The room \<open>n\<close> of the invariant bounds the entries ever allocated by
  \<open>2 ^ 31\<close>, so that the 32-bit size and count of a table do not wrap.
\<close>

section \<open>Sequences of operations\<close>

lemma hash_inv_wf: "hash_inv n s \<Longrightarrow> hash_wf s (hash_chains s) (free_nodes s)"
  by (simp add: hash_inv_def)

lemma hash_inv_room: "hash_inv n s \<Longrightarrow> length (fst s) + n < 2 ^ 31"
  by (simp add: hash_inv_def)

lemma hash_set_step:
  assumes "hash_inv (Suc n) s" "klen_ok key kl"
  shows "\<exists>s'. apr_hash_set s key kl val = Some s' \<and> hash_inv n s' \<and>
    hash_map s' = (hash_map s)(norm_key key kl := val)"
proof -
  obtain s' cs fl where "apr_hash_set s key kl val = Some s'" "hash_wf s' cs fl"
    "hash_map s' = (hash_map s)(norm_key key kl := val)" "length (fst s') \<le> Suc (length (fst s))"
    using apr_hash_set_wf [OF hash_inv_wf [OF assms(1)] assms(2), of val] hash_inv_room [OF assms(1)] by auto
  then show ?thesis using hash_inv_room [OF assms(1)] hash_invI [of s' cs fl n] by auto
qed

lemma hash_get_step: "hash_inv n s \<Longrightarrow> klen_ok key kl \<Longrightarrow> apr_hash_get s key kl = Some (hash_map s (norm_key key kl))"
  by (rule apr_hash_get_map [OF hash_inv_wf])

lemma make_map:
  fixes hp :: "'v heap"
  shows "hash_wf (hp, apr_hash_make sd) (replicate 16 []) []" "hash_map (hp, apr_hash_make sd) = Map.empty"
    and "hashfunc_ok f g \<Longrightarrow> hash_wf (hp, apr_hash_make_custom sd f) (replicate 16 []) []"
    and "hashfunc_ok f g \<Longrightarrow> hash_map (hp, apr_hash_make_custom sd f) = Map.empty"
  using apr_hash_make_wf [of "apr_hash_make sd" sd hp] apr_hash_make_wf [of "apr_hash_make_custom sd f" sd hp]
  by (auto simp: apr_hash_make_def apr_hash_make_custom_def)

lemma make_inv:
  fixes hp :: "'v heap"
  assumes "length hp + n < 2 ^ 31"
  shows "hash_inv n (hp, apr_hash_make sd)"
    and "hashfunc_ok f g \<Longrightarrow> hash_inv n (hp, apr_hash_make_custom sd f)"
  using assms by (auto intro!: hash_invI [OF make_map(1)] hash_invI [OF make_map(3)])

type_synonym hkey = "byte list \<times> klen"

definition key_ok :: "hkey \<Rightarrow> bool" where
  "key_ok k = klen_ok (fst k) (snd k)"

definition key_bytes :: "hkey \<Rightarrow> byte list" where
  "key_bytes k = norm_key (fst k) (snd k)"

definition hash_look :: "'v hstate \<Rightarrow> hkey \<Rightarrow> 'v option" where
  "hash_look s k = (case apr_hash_get s (fst k) (snd k) of Some r \<Rightarrow> r | None \<Rightarrow> None)"

definition hash_put :: "'v hstate \<Rightarrow> hkey \<Rightarrow> 'v \<Rightarrow> 'v hstate" where
  "hash_put s k v = (case apr_hash_set s (fst k) (snd k) (Some v) of Some s' \<Rightarrow> s' | None \<Rightarrow> s)"

definition hash_del :: "'v hstate \<Rightarrow> hkey \<Rightarrow> 'v hstate" where
  "hash_del s k = (case apr_hash_set s (fst k) (snd k) None of Some s' \<Rightarrow> s' | None \<Rightarrow> s)"

lemma hash_look_map: "hash_inv n s \<Longrightarrow> key_ok k \<Longrightarrow> hash_look s k = hash_map s (key_bytes k)"
  by (simp add: hash_look_def key_ok_def key_bytes_def hash_get_step)

lemma hash_put_map:
  assumes "hash_inv (Suc n) s" "key_ok k"
  shows "apr_hash_set s (fst k) (snd k) (Some v) = Some (hash_put s k v)" "hash_inv n (hash_put s k v)"
    "hash_map (hash_put s k v) = (hash_map s)(key_bytes k \<mapsto> v)"
  using hash_set_step [of n s "fst k" "snd k" "Some v"] assms by (auto simp: hash_put_def key_ok_def key_bytes_def)

lemma hash_del_map:
  assumes "hash_inv (Suc n) s" "key_ok k"
  shows "apr_hash_set s (fst k) (snd k) None = Some (hash_del s k)" "hash_inv n (hash_del s k)"
    "hash_map (hash_del s k) = (hash_map s)(key_bytes k := None)"
  using hash_set_step [of n s "fst k" "snd k" None] assms by (auto simp: hash_del_def key_ok_def key_bytes_def)

interpretation hash_kv: kv_store hash_inv key_ok key_bytes hash_look hash_put hash_del
  by unfold_locales
    (simp_all add: hash_put_map(2) hash_del_map(2) hash_look_map [OF hash_put_map(2)] hash_look_map [OF hash_del_map(2)]
      hash_look_map hash_put_map(3) hash_del_map(3))

text \<open>The calls of a client, each of which has to return.\<close>

fun hash_calls :: "'v hstate \<Rightarrow> (hkey, 'v) map_op list \<Rightarrow> 'v hstate option" where
  "hash_calls s [] = Some s"
| "hash_calls s (Put k v # ops) =
     (case apr_hash_set s (fst k) (snd k) (Some v) of None \<Rightarrow> None | Some s' \<Rightarrow> hash_calls s' ops)"
| "hash_calls s (Del k # ops) =
     (case apr_hash_set s (fst k) (snd k) None of None \<Rightarrow> None | Some s' \<Rightarrow> hash_calls s' ops)"

lemma hash_calls_run:
  "hash_inv (length ops + n) s \<Longrightarrow> \<forall>op \<in> set ops. key_ok (op_key op) \<Longrightarrow>
     hash_calls s ops = Some (foldl (run_op hash_put hash_del) s ops)"
proof (induction s ops rule: hash_calls.induct)
  case (2 s k v ops)
  then show ?case using hash_put_map [of "length ops + n" s k v] by simp
next
  case (3 s k ops)
  then show ?case using hash_del_map [of "length ops + n" s k] by simp
qed simp

definition example_hash :: "nat hstate" where
  "example_hash = hash_put (hash_put ([], apr_hash_make 7) ([97, 0], APR_HASH_KEY_STRING) 1) ([98, 99], KLen 1) 2"

lemma example_hash:
  "hash_inv n example_hash" if "n < 1000"
proof -
  have "hash_inv (Suc (Suc n)) ([] :: nat heap, apr_hash_make 7)" using that by (intro make_inv) simp
  then show ?thesis
    unfolding example_hash_def by (intro hash_put_map(2)) (simp_all add: key_ok_def klen_ok_def)
qed

lemma example_hash_map: "hash_map example_hash = [[97] \<mapsto> 1, [98] \<mapsto> 2]"
proof -
  have i: "hash_inv (Suc (Suc 0)) ([] :: nat heap, apr_hash_make 7)" by (intro make_inv) simp
  have j: "hash_inv (Suc 0) (hash_put ([] :: nat heap, apr_hash_make 7) ([97, 0], APR_HASH_KEY_STRING) 1)"
    by (intro hash_put_map(2) i) (simp add: key_ok_def klen_ok_def)
  show ?thesis
    unfolding example_hash_def
    by (subst hash_put_map(3) [OF j], simp add: key_ok_def klen_ok_def,
        subst hash_put_map(3) [OF i], simp add: key_ok_def klen_ok_def,
        simp add: key_bytes_def norm_key_def make_map(2))
qed

section \<open>The theorems\<close>

text \<open>
  C2. On a well-formed table \<open>apr_hash_set\<close> returns, keeps the table well formed through recycling of
  entries and expansion of the array, and changes the map exactly at the key: a non-NULL value is
  stored, a NULL value removes the entry.
\<close>

theorem apr_hash_set_correct:
  assumes "hash_inv (Suc n) s" "klen_ok key kl"
  shows "\<exists>s'. apr_hash_set s key kl val = Some s' \<and> hash_inv n s' \<and>
    hash_map s' = (hash_map s)(norm_key key kl := val)"
  using assms by (rule hash_set_step)

theorem apr_hash_set_correct_witness:
  "\<exists>s'. apr_hash_set example_hash [97, 0, 5] APR_HASH_KEY_STRING None = Some s' \<and> hash_inv 3 s' \<and>
    hash_map s' = [[98] \<mapsto> 2]"
proof -
  have k: "klen_ok [97, 0, 5] APR_HASH_KEY_STRING" by (simp add: klen_ok_def)
  have "hash_inv (Suc 3) example_hash" by (rule example_hash) simp
  from apr_hash_set_correct [OF this k, of None] show ?thesis
    by (auto simp: example_hash_map norm_key_def fun_upd_twist)
qed

text \<open>
  C19. On a well-formed table \<open>apr_hash_get\<close> returns the value of the map at the bytes of the key, whether
  the key is given as a string or with its length.
\<close>

theorem apr_hash_get_correct:
  assumes "hash_inv n s" "klen_ok key kl"
  shows "apr_hash_get s key kl = Some (hash_map s (norm_key key kl))"
  using assms by (rule hash_get_step)

theorem apr_hash_get_correct_witness:
  "apr_hash_get example_hash [98, 0] APR_HASH_KEY_STRING = Some (Some 2)"
proof -
  have k: "klen_ok [98, 0] APR_HASH_KEY_STRING" by (simp add: klen_ok_def)
  have "hash_inv 0 example_hash" by (rule example_hash) simp
  from apr_hash_get_correct [OF this k] show ?thesis by (simp add: example_hash_map norm_key_def)
qed

text \<open>
  C7. From \<open>apr_hash_make\<close> on, any sequence of fewer than \<open>2 ^ 31\<close> calls of \<open>apr_hash_set\<close> with values and
  with NULL returns, and a lookup afterwards gives what a finite map over the bytes of the keys gives.
\<close>

theorem apr_hash_is_map:
  fixes ops :: "(hkey, 'v) map_op list"
  assumes "\<forall>op \<in> set ops. key_ok (op_key op)" "length ops < 2 ^ 31" "klen_ok key kl"
  shows "\<exists>s. hash_calls ([], apr_hash_make sd) ops = Some s \<and>
    apr_hash_get s key kl = Some (map_run key_bytes Map.empty ops (norm_key key kl))"
proof -
  define s0 where "s0 = ([] :: 'v heap, apr_hash_make sd)"
  let ?s = "foldl (run_op hash_put hash_del) s0 ops"
  have i: "hash_inv (length ops) s0" and m: "hash_map s0 = Map.empty"
    using assms(2) by (simp_all add: s0_def make_inv make_map)
  have "hash_calls s0 ops = Some ?s" using hash_calls_run [of ops 0] i assms(1) by simp
  moreover have "hash_inv 0 ?s" using hash_kv.room_run [of ops 0] i assms(1) by simp
  moreover have "hash_look ?s (key, kl) = map_run key_bytes Map.empty ops (key_bytes (key, kl))"
    using hash_kv.find_run [OF i assms(1), of Map.empty "(key, kl)"] assms(3) hash_look_map [OF i] m
    by (simp add: key_ok_def)
  ultimately show ?thesis
    using hash_look_map [of 0 ?s "(key, kl)"] hash_get_step [of 0 ?s key kl] assms(3)
    by (simp add: key_ok_def key_bytes_def s0_def)
qed

theorem apr_hash_is_map_witness:
  "\<exists>s. hash_calls ([], apr_hash_make 5) [Put ([97, 0], APR_HASH_KEY_STRING) (1 :: nat), Put ([97, 98], KLen 2) 2,
      Del ([97], KLen 1)] = Some s \<and>
    apr_hash_get s [97, 98, 0] APR_HASH_KEY_STRING = Some (Some 2)"
  using apr_hash_is_map [of "[Put ([97, 0], APR_HASH_KEY_STRING) (1 :: nat), Put ([97, 98], KLen 2) 2, Del ([97], KLen 1)]"
      "[97, 98, 0]" APR_HASH_KEY_STRING 5]
  by (simp add: key_ok_def key_bytes_def klen_ok_def norm_key_def map_run_def)

lemma entries_map:
  assumes "hash_wf s cs fl"
  shows "distinct (map (\<lambda>(key, n, v). take n key) (map (\<lambda>a. entry_of (fst s ! a)) (concat cs)))"
    "map_of (map (\<lambda>(key, n, v). (take n key, v)) (map (\<lambda>a. entry_of (fst s ! a)) (concat cs))) = hash_map s"
proof -
  have k: "map (\<lambda>(key, n, v). take n key) (map (\<lambda>a. entry_of (fst s ! a)) (concat cs)) =
      map (\<lambda>a. ekey (fst s ! a)) (concat cs)"
    by (simp add: entry_of_def ekey_def)
  show "distinct (map (\<lambda>(key, n, v). take n key) (map (\<lambda>a. entry_of (fst s ! a)) (concat cs)))"
    unfolding k using assms by (simp add: hash_wf_def rep_def keys_ok_def distinct_map)
  have "map (\<lambda>(key, n, v). (take n key, v)) (map (\<lambda>a. entry_of (fst s ! a)) (concat cs)) = pairs (fst s) (concat cs)"
    by (simp add: pairs_def entry_of_def ekey_def)
  then show "map_of (map (\<lambda>(key, n, v). (take n key, v)) (map (\<lambda>a. entry_of (fst s ! a)) (concat cs))) = hash_map s"
    using hash_wf_chains [OF assms] by (simp add: hash_map_def)
qed

lemma count_card:
  assumes "hash_inv n s"
  shows "unat (h_count (snd s)) = card (dom (hash_map s))" "unat (h_count (snd s)) = length (concat (hash_chains s))"
proof -
  note w = hash_inv_wf [OF assms]
  show c: "unat (h_count (snd s)) = length (concat (hash_chains s))"
    using unat_count [OF w] hash_inv_room [OF assms] by simp
  have "dom (hash_map s) = fst ` set (pairs (fst s) (concat (hash_chains s)))"
    by (simp add: hash_map_def dom_map_of_conv_image_fst)
  also have "\<dots> = (\<lambda>a. ekey (fst s ! a)) ` set (concat (hash_chains s))" by (simp add: pairs_def image_image)
  finally have "card (dom (hash_map s)) = card (set (concat (hash_chains s)))"
    using w by (simp add: hash_wf_def keys_ok_def card_image)
  also have "\<dots> = length (concat (hash_chains s))"
    using w by (intro distinct_card) (simp add: hash_wf_def rep_def)
  finally show "unat (h_count (snd s)) = card (dom (hash_map s))" using c by simp
qed

subsection \<open>The load of a table\<close>

text \<open>
  What \<open>apr_hash_set\<close> does to the size of the array: a removal leaves it alone, and after an insertion there
  is an element for every entry or the array has been doubled.
\<close>

lemma assign_size: "h_max (snd (assign s p v)) = h_max (snd s)" "h_count (snd (assign s p v)) = h_count (snd s)"
  by (cases s; cases p; simp)+

lemma delete_max: "h_max (snd (delete_entry s p a)) = h_max (snd s)"
  by (simp add: delete_entry_def case_prod_beta assign_size)

lemma add_max: "h_max (snd (add_entry s p e)) = h_max (snd s)"
  by (simp add: add_entry_def case_prod_beta assign_size split: option.splits)

lemma expand_max: "expand_array s = Some s' \<Longrightarrow> h_max (snd s') = h_max (snd s) * 2 + 1"
  by (auto simp: expand_array_def Let_def split: option.splits)

lemma set_none_max: "apr_hash_set s key kl None = Some s' \<Longrightarrow> h_max (snd s') = h_max (snd s)"
  by (auto simp: apr_hash_set_def find_entry_def delete_max split: option.splits)

lemma deref_add_entry:
  assumes "case p of Bucket i \<Rightarrow> i < length (h_array (snd s)) | NextOf a \<Rightarrow> a < length (fst s)"
  shows "deref (add_entry s p e) p \<noteq> None"
  using assms by (cases s; cases p) (auto simp: add_entry_def nth_append split: option.splits)

lemma find_entry_some:
  assumes "hash_wf s cs fl" "klen_ok key kl"
  shows "\<exists>s1 hep he. find_entry s key kl (Some y) = Some (s1, hep) \<and> deref s1 hep = Some he \<and> h_max (snd s1) = h_max (snd s)"
proof -
  obtain hp ht where s: "s = (hp, ht)" by (cases s)
  let ?nk = "norm_key key kl"
  note w = assms(1) [unfolded s]
  obtain us vs i where i: "i < length cs" "cs ! i = us @ vs"
    and h: "hash_key ht key kl = Some (hash_of ht ?nk, length ?nk)" "i = unat (hash_of ht ?nk AND h_max ht)"
    and sc: "scan_chain (hp, ht) (hash_of ht ?nk) (length ?nk) key (Bucket i) = Some (place_after i us)"
    using find_place [OF w assms(2)] by blast
  have c: "list_all2 (chain hp) (h_array ht) cs" using w by (simp add: hash_wf_def rep_def)
  have "a < length hp" if "a \<in> set us" for a
    using chains_less [OF c] in_concat [OF i(1), of a] i(2) that by simp
  then have "case place_after i us of Bucket j \<Rightarrow> j < length (h_array (snd s)) | NextOf a \<Rightarrow> a < length (fst s)"
    using i(1) list_all2_lengthD [OF c] by (simp add: place_after_def s)
  note d = deref_add_entry [OF this]
  define s1 where "s1 = add_entry s (place_after i us)
    \<lparr>e_next = None, e_hash = hash_of ht ?nk, e_key = key, e_klen = length ?nk, e_val = y\<rparr>"
  have "deref s1 (place_after i us) \<noteq> None" "h_max (snd s1) = h_max (snd s)" unfolding s1_def by (rule d, rule add_max)
  moreover have "find_entry s key kl (Some y) =
      (if deref s (place_after i us) \<noteq> None then Some (s, place_after i us) else Some (s1, place_after i us))"
    using h sc by (simp add: s s1_def find_entry_def)
  ultimately show ?thesis by (cases "deref s (place_after i us) = None") (auto simp del: split_paired_Ex)
qed

lemma set_some_max:
  assumes "hash_wf s cs fl" "klen_ok key kl" "apr_hash_set s key kl (Some y) = Some s'"
  shows "h_count (snd s') \<le> h_max (snd s') \<or> h_max (snd s') = h_max (snd s) * 2 + 1"
proof -
  obtain s1 hep he where f: "find_entry s key kl (Some y) = Some (s1, hep)" "deref s1 hep = Some he" "h_max (snd s1) = h_max (snd s)"
    using find_entry_some [OF assms(1,2)] by blast
  define s2 where "s2 = ((fst s1)[he := (fst s1 ! he)\<lparr>e_val := y\<rparr>], snd s1)"
  have "(if h_count (snd s2) > h_max (snd s2) then expand_array s2 else Some s2) = Some s'"
    using f assms(3) by (auto simp: apr_hash_set_def Let_def s2_def split: if_splits)
  then show ?thesis using expand_max [of s2 s'] f(3) by (auto simp: s2_def not_less split: if_splits)
qed

text \<open>One call keeps the number of entries below the number of array elements.\<close>

definition roomy :: "'v hstate \<Rightarrow> bool" where
  "roomy s \<longleftrightarrow> h_count (snd s) \<le> h_max (snd s)"

lemma hash_set_roomy:
  assumes "hash_inv (Suc n) s" "klen_ok key kl" "roomy s" "apr_hash_set s key kl val = Some s'"
  shows "roomy s'"
proof -
  have i: "hash_inv n s'" and m: "hash_map s' = (hash_map s)(norm_key key kl := val)"
    using hash_set_step [OF assms(1,2), of val] assms(4) by auto
  have f: "finite (dom (hash_map s))" by (simp add: hash_map_def finite_dom_map_of)
  have le: "unat (h_count (snd s')) \<le> unat (h_max (snd s)) + (if val = None then 0 else 1)"
  proof -
    have "dom (hash_map s') \<subseteq> (if val = None then dom (hash_map s) else insert (norm_key key kl) (dom (hash_map s)))"
      by (auto simp: m split: if_splits)
    then have "card (dom (hash_map s')) \<le> card (if val = None then dom (hash_map s) else insert (norm_key key kl) (dom (hash_map s)))"
      using f by (intro card_mono) simp_all
    also have "\<dots> \<le> card (dom (hash_map s)) + (if val = None then 0 else 1)"
      using f by (simp add: card_insert_if)
    finally have "card (dom (hash_map s')) \<le> card (dom (hash_map s)) + (if val = None then 0 else 1)" .
    then show ?thesis
      using count_card(1) [OF assms(1)] count_card(1) [OF i] assms(3) by (simp add: roomy_def word_le_nat_alt)
  qed
  show ?thesis
  proof (cases val)
    case None
    then show ?thesis using le set_none_max [of s key kl s'] assms(4) by (simp add: roomy_def word_le_nat_alt)
  next
    case (Some y)
    consider "h_count (snd s') \<le> h_max (snd s')" | "h_max (snd s') = h_max (snd s) * 2 + 1"
      using set_some_max [OF hash_inv_wf [OF assms(1)] assms(2)] assms(4) Some by blast
    then show ?thesis
    proof cases
      case 2
      obtain k where k: "k \<le> 31" "h_max (snd s) = mask k"
        using hash_inv_wf [OF assms(1)] by (auto simp: hash_wf_def size_ok_def)
      have "(mask 32 :: u32) = - 1" by (simp add: mask_eq_exp_minus_1)
      then have "unat (mask 32 :: u32) = 2 ^ 32 - 1" by (simp add: unsigned_minus_1_eq_mask mask_eq_exp_minus_1)
      then have m: "unat (mask j :: u32) = 2 ^ j - 1" if "j \<le> 32" for j
        using that unat_mask_exp [of j] by (cases "j = 32") simp_all
      obtain q where "(2 :: nat) ^ k = Suc q" using not0_implies_Suc [of "2 ^ k"] by auto
      then have "unat (h_max (snd s')) = 2 * unat (h_max (snd s)) + 1"
        using 2 k m [of k] m [of "Suc k"] unfolding k(2) double_mask by simp
      then show ?thesis using le Some by (simp add: roomy_def word_le_nat_alt)
    qed (simp add: roomy_def)
  qed
qed

lemma hash_run_map:
  fixes s :: "'v hstate"
  assumes "hash_inv (length ops + n) s" "\<forall>op \<in> set ops. key_ok (op_key op)" "roomy s"
  shows "\<exists>s'. hash_calls s ops = Some s' \<and> hash_inv n s' \<and> hash_map s' = map_run key_bytes (hash_map s) ops \<and> roomy s'"
  using assms
proof (induction s ops rule: hash_calls.induct)
  case (1 s)
  then show ?case by (simp add: map_run_def)
next
  case (2 s k v ops)
  have i: "hash_inv (Suc (length ops + n)) s" and k: "key_ok k" using "2.prems" by simp_all
  note p = hash_put_map [OF i k, of v]
  have "roomy (hash_put s k v)" using hash_set_roomy [OF i _ "2.prems"(3) p(1)] k by (simp add: key_ok_def)
  then show ?case using "2.IH" [OF p(1,2)] "2.prems"(2) p by (simp add: map_run_def del: fun_upd_apply split_paired_Ex)
next
  case (3 s k ops)
  have i: "hash_inv (Suc (length ops + n)) s" and k: "key_ok k" using "3.prems" by simp_all
  note p = hash_del_map [OF i k]
  have "roomy (hash_del s k)" using hash_set_roomy [OF i _ "3.prems"(3) p(1)] k by (simp add: key_ok_def)
  then show ?case using "3.IH" [OF p(1,2)] "3.prems"(2) p by (simp add: map_run_def del: fun_upd_apply split_paired_Ex)
qed

text \<open>
  C37. After any sequence of fewer than \<open>2 ^ 31\<close> calls of \<open>apr_hash_set\<close> on a new table, with values and with NULL,
  \<open>apr_hash_count\<close> is the number of keys of the finite map those calls describe, so that replacing a value does
  not count twice and removing an absent key does not count at all; and the array has grown in time: it has
  more elements than the table has entries.
\<close>

theorem apr_hash_count_correct:
  fixes ops :: "(hkey, 'v) map_op list"
  assumes "\<forall>op \<in> set ops. key_ok (op_key op)" "length ops < 2 ^ 31"
  shows "\<exists>s. hash_calls ([], apr_hash_make sd) ops = Some s \<and>
    unat (apr_hash_count (snd s)) = card (dom (map_run key_bytes Map.empty ops)) \<and>
    unat (apr_hash_count (snd s)) < length (h_array (snd s))"
proof -
  define s0 where "s0 = ([] :: 'v heap, apr_hash_make sd)"
  have "roomy s0" by (simp add: s0_def roomy_def apr_hash_make_def INITIAL_MAX_def)
  moreover have "hash_inv (length ops + 0) s0" "hash_map s0 = Map.empty"
    using assms(2) by (simp_all add: s0_def make_inv make_map)
  ultimately obtain s where s: "hash_calls s0 ops = Some s" "hash_inv 0 s" "hash_map s = map_run key_bytes Map.empty ops" "roomy s"
    using hash_run_map [of ops 0 s0] assms(1) by auto
  have "length (h_array (snd s)) = unat (h_max (snd s)) + 1"
    using size_length hash_inv_wf [OF s(2)] by (auto simp: hash_wf_def)
  then show ?thesis
    using s count_card(1) [OF s(2)] by (auto simp: apr_hash_count_def s0_def roomy_def word_le_nat_alt)
qed

theorem apr_hash_count_correct_witness:
  "\<exists>s. hash_calls ([], apr_hash_make 5) [Put ([97, 0], APR_HASH_KEY_STRING) (1 :: nat), Put ([97, 98], KLen 1) 2,
      Del ([98], KLen 1)] = Some s \<and>
    unat (apr_hash_count (snd s)) = 1 \<and> unat (apr_hash_count (snd s)) < length (h_array (snd s))"
  using apr_hash_count_correct [of "[Put ([97, 0], APR_HASH_KEY_STRING) (1 :: nat), Put ([97, 98], KLen 1) 2, Del ([98], KLen 1)]" 5]
  by (simp add: key_ok_def key_bytes_def klen_ok_def norm_key_def map_run_def)

text \<open>
  C32. \<open>apr_hash_do\<close> returns: it calls the callback on every entry of the table exactly once, until the
  callback returns zero, and its result says whether it did.
\<close>

theorem apr_hash_do_correct:
  assumes "hash_inv n s"
  shows "\<exists>es. apr_hash_do cb r s = Some (visit cb r es) \<and> distinct (map (\<lambda>(key, n, v). take n key) es) \<and>
    map_of (map (\<lambda>(key, n, v). (take n key, v)) es) = hash_map s"
  using apr_hash_do_visit [OF hash_inv_wf [OF assms], of cb r] entries_map [OF hash_inv_wf [OF assms]]
  by (intro exI [of _ "map (\<lambda>a. entry_of (fst s ! a)) (concat (hash_chains s))"] conjI)

theorem apr_hash_do_correct_witness:
  "\<exists>es. apr_hash_do (\<lambda>r key n v. (r + v, True)) 0 example_hash = Some (visit (\<lambda>r key n v. (r + v, True)) 0 es) \<and>
    distinct (map (\<lambda>(key, n, v). take n key) es) \<and>
    map_of (map (\<lambda>(key, n, v). (take n key, v)) es) = [[97] \<mapsto> 1, [98] \<mapsto> 2]"
proof -
  have "hash_inv 0 example_hash" by (rule example_hash) simp
  from apr_hash_do_correct [OF this] show ?thesis unfolding example_hash_map .
qed

text \<open>
  C31. \<open>apr_hash_clear\<close> ends, although it deletes the entries the iterator stands on, and leaves a
  well-formed empty table.
\<close>

theorem apr_hash_clear_ends:
  assumes "hash_inv n s"
  shows "\<exists>s'. apr_hash_clear s = Some s' \<and> hash_inv n s' \<and> hash_map s' = Map.empty \<and> apr_hash_count (snd s') = 0"
proof -
  obtain s' cs fl where c: "apr_hash_clear s = Some s'" "hash_wf s' cs fl" "concat cs = []"
    "length (fst s') = length (fst s)"
    using apr_hash_clear_wf [OF hash_inv_wf [OF assms]] by blast
  then have "hash_map s' = Map.empty" "h_count (snd s') = 0"
    using empty_map [of s' cs fl] by (simp_all add: hash_wf_def)
  with c show ?thesis using hash_inv_room [OF assms] hash_invI [of s' cs fl n] by (simp add: apr_hash_count_def)
qed

theorem apr_hash_clear_ends_witness:
  "\<exists>s'. apr_hash_clear example_hash = Some s' \<and> hash_inv 8 s' \<and> hash_map s' = Map.empty \<and> apr_hash_count (snd s') = 0"
  by (rule apr_hash_clear_ends, rule example_hash) simp

text \<open>
  \<open>apr_hash_copy\<close> writes within the block it allocates and returns a well-formed table with the same
  map in fresh entries; no entry that was there before changes, so the original and every other table
  keep their maps.
\<close>

theorem apr_hash_copy_correct:
  assumes "hash_inv n (hp, orig)" "unat (apr_hash_count orig) \<le> n"
  shows "\<exists>hp' ht'. apr_hash_copy hp orig = Some (hp', ht') \<and> hash_inv (n - unat (apr_hash_count orig)) (hp', ht') \<and>
    hash_map (hp', ht') = hash_map (hp, orig) \<and> take (length hp) hp' = hp \<and>
    (\<forall>a \<in> set (concat (hash_chains (hp', ht'))). length hp \<le> a)"
proof -
  let ?cs = "hash_chains (hp, orig)"
  have room: "length hp + n < 2 ^ 31" using hash_inv_room [OF assms(1)] by simp
  have cnt: "unat (apr_hash_count orig) = length (concat ?cs)"
    using count_card(2) [OF assms(1)] by (simp add: apr_hash_count_def)
  obtain hp' ht' where c: "apr_hash_copy hp orig = Some (hp', ht')" "hash_wf (hp', ht') (number (length hp) ?cs) []"
    "hash_map (hp', ht') = hash_map (hp, orig)" "length hp' = length hp + length (concat ?cs)"
    "\<forall>a < length hp. hp' ! a = hp ! a"
    using apr_hash_copy_wf [OF hash_inv_wf [OF assms(1)]] room by auto
  have "take (length hp) hp' = hp" using c(4,5) by (intro nth_equalityI) simp_all
  moreover have "hash_inv (n - unat (apr_hash_count orig)) (hp', ht')"
    using c(2,4) room assms(2) cnt by (intro hash_invI) simp_all
  moreover have "\<forall>a \<in> set (concat (hash_chains (hp', ht'))). length hp \<le> a"
    using hash_wf_chains [OF c(2)] by (simp add: concat_number)
  ultimately show ?thesis using c(1,3) by blast
qed

theorem apr_hash_copy_correct_witness:
  "\<exists>hp' ht'. apr_hash_copy (fst example_hash) (snd example_hash) = Some (hp', ht') \<and>
    hash_map (hp', ht') = [[97] \<mapsto> 1, [98] \<mapsto> 2] \<and> take (length (fst example_hash)) hp' = fst example_hash"
proof -
  have i: "hash_inv 10 (fst example_hash, snd example_hash)" unfolding prod.collapse by (rule example_hash) simp
  have "unat (h_count (snd example_hash)) = card (dom [[97] \<mapsto> 1, [98 :: byte] \<mapsto> (2 :: nat)])"
    using count_card(1) [OF i] by (simp add: example_hash_map)
  then have "unat (apr_hash_count (snd example_hash)) \<le> 10" by (simp add: apr_hash_count_def)
  from apr_hash_copy_correct [OF i this] show ?thesis by (auto simp: example_hash_map)
qed

lemma merge_step_all:
  assumes "hash_inv n (hp, base)" "hash_inv n (hp, overlay)" "merger_ok merger"
    and "unat (apr_hash_count base) + unat (apr_hash_count overlay) \<le> n"
  shows "\<exists>hp' ht'. apr_hash_merge hp overlay base merger = Some (hp', ht') \<and> hash_inv 0 (hp', ht') \<and>
    take (length hp) hp' = hp \<and>
    hash_map (hp', ht') = merge_maps merger (hash_map (hp, overlay)) (hash_map (hp, base))"
proof -
  note wb = hash_inv_wf [OF assms(1)] and wo = hash_inv_wf [OF assms(2)]
  have cnt: "unat (apr_hash_count base) = length (concat (hash_chains (hp, base)))"
    "unat (apr_hash_count overlay) = length (concat (hash_chains (hp, overlay)))"
    using count_card(2) [OF assms(1)] count_card(2) [OF assms(2)] by (simp_all add: apr_hash_count_def)
  have room: "length hp + length (concat (hash_chains (hp, base))) + length (concat (hash_chains (hp, overlay))) < 2 ^ 31"
    using hash_inv_room [OF assms(1)] assms(4) cnt by simp
  obtain hp' ht' cs' where m: "apr_hash_merge hp overlay base merger = Some (hp', ht')" "hash_wf (hp', ht') cs' []"
    "length hp \<le> length hp'" "length hp' \<le> length hp + length (concat (hash_chains (hp, base))) + length (concat (hash_chains (hp, overlay)))"
    "\<forall>a < length hp. hp' ! a = hp ! a"
    "hash_map (hp', ht') = fold (\<lambda>a. merge_step merger (hp ! a)) (concat (hash_chains (hp, overlay))) (hash_map (hp, base))"
    using apr_hash_merge_wf [OF wb wo room] by blast
  have "hash_map (hp', ht') = merge_maps merger (hash_map (hp, overlay)) (hash_map (hp, base))"
    unfolding m(6) fold_merge_step [OF wf_source(1) [OF wo] assms(3)] by (simp add: hash_map_def)
  moreover have "hash_inv 0 (hp', ht')" using m(2,4) room by (intro hash_invI) simp_all
  moreover have "take (length hp) hp' = hp" using m(3,5) by (intro nth_equalityI) simp_all
  ultimately show ?thesis using m(1) by blast
qed

text \<open>
  C9. \<open>apr_hash_merge\<close> never writes past the entries it allocates and returns a well-formed table whose
  map is the pointwise merge: a key of one table keeps its value, and a key of both has the value the
  merger computes. \<open>apr_hash_overlay\<close> prefers the value of the overlay. No entry of the two arguments
  changes.
\<close>

theorem apr_hash_merge_correct:
  assumes "hash_inv n (hp, base)" "hash_inv n (hp, overlay)" "merger_ok merger"
    and "unat (apr_hash_count base) + unat (apr_hash_count overlay) \<le> n"
  shows "(\<exists>hp' ht'. apr_hash_merge hp overlay base merger = Some (hp', ht') \<and> hash_inv 0 (hp', ht') \<and>
      take (length hp) hp' = hp \<and>
      hash_map (hp', ht') = merge_maps merger (hash_map (hp, overlay)) (hash_map (hp, base))) \<and>
    (\<exists>hp' ht'. apr_hash_overlay hp overlay base = Some (hp', ht') \<and> hash_inv 0 (hp', ht') \<and>
      take (length hp) hp' = hp \<and> hash_map (hp', ht') = hash_map (hp, base) ++ hash_map (hp, overlay))"
proof -
  have "merge_maps None mo mb = mb ++ mo" for mo mb :: "byte list \<rightharpoonup> 'a"
    by (simp add: fun_eq_iff merge_maps_def map_add_def split: option.split)
  moreover have "merger_ok None" by (simp add: merger_ok_def)
  ultimately show ?thesis
    using merge_step_all [OF assms] merge_step_all [OF assms(1,2), of None] assms(4) by (simp add: apr_hash_overlay_def)
qed

theorem apr_hash_merge_correct_witness:
  "\<exists>hp' ht'. apr_hash_merge (fst example_hash) (snd example_hash) (snd example_hash) (Some (\<lambda>key n v w. v + w)) =
      Some (hp', ht') \<and> hash_map (hp', ht') [98] = Some 4"
proof -
  have i: "hash_inv 10 (fst example_hash, snd example_hash)" unfolding prod.collapse by (rule example_hash) simp
  have "unat (h_count (snd example_hash)) = card (dom [[97] \<mapsto> 1, [98 :: byte] \<mapsto> (2 :: nat)])"
    using count_card(1) [OF i] by (simp add: example_hash_map)
  then have "unat (apr_hash_count (snd example_hash)) + unat (apr_hash_count (snd example_hash)) \<le> 10"
    by (simp add: apr_hash_count_def)
  from apr_hash_merge_correct [OF i i _ this, of "Some (\<lambda>key n v w. v + w)"] show ?thesis
    by (auto simp: example_hash_map merger_ok_def merge_maps_def)
qed

end
