(* ===== verification/Apr_Ctype.thy ===== *)
theory Apr_Ctype
  imports Apr_Prelude
begin

text \<open>
  What the string functions share: the character classes of \<^verbatim>\<open>ctype.h\<close> in the C locale, as the macros
  of \<^verbatim>\<open>apr_lib.h\<close> call them, and the loops that skip characters in memory. A pointer into a string is
  the list of the bytes that can be read from it on, the terminating NUL and what follows included; a
  read past the end of that list is \<open>None\<close>. A range of ASCII characters is the same for signed and
  unsigned characters.
\<close>

section \<open>Character classes\<close>

definition apr_isdigit :: "byte \<Rightarrow> bool" where
  "apr_isdigit c \<longleftrightarrow> 48 \<le> c \<and> c \<le> 57"

definition apr_isspace :: "byte \<Rightarrow> bool" where
  "apr_isspace c \<longleftrightarrow> c = 32 \<or> 9 \<le> c \<and> c \<le> 13"

definition apr_toupper :: "byte \<Rightarrow> byte" where
  "apr_toupper c = (if 97 \<le> c \<and> c \<le> 122 then c - 32 else c)"

lemma isdigit_0 [simp]: "\<not> apr_isdigit 0"
  by (simp add: apr_isdigit_def)

lemma isspace_0 [simp]: "\<not> apr_isspace 0"
  by (simp add: apr_isspace_def)

lemma toupper_0_iff [simp]: "apr_toupper c = 0 \<longleftrightarrow> c = 0"
  by (rule byte_all [where P = "\<lambda>c. apr_toupper c = 0 \<longleftrightarrow> c = 0"]) code_simp

lemma isdigit_not_space: "apr_isdigit c \<Longrightarrow> \<not> apr_isspace c"
  by (rule byte_all [where P = "\<lambda>c. apr_isdigit c \<longrightarrow> \<not> apr_isspace c", THEN mp]) code_simp

section \<open>Skipping\<close>

text \<open>\<open>while (p c) c = *++s\<close>: the pointer to the first byte that is not skipped.\<close>

fun skip_while :: "(byte \<Rightarrow> bool) \<Rightarrow> byte list \<Rightarrow> byte list option" where
  "skip_while p [] = None"
| "skip_while p (c # s) = (if p c then skip_while p s else Some (c # s))"

lemma skip_while_dropWhile: "skip_while p m = (if \<forall>c \<in> set m. p c then None else Some (dropWhile p m))"
  by (induction m) auto

lemma skip_while_stops: "\<not> p c \<Longrightarrow> skip_while p (s @ c # r) = Some (dropWhile p s @ c # r)"
  by (induction s) auto

lemma skip_while_Some:
  "skip_while p m = Some m' \<Longrightarrow> \<exists>c r. m' = c # r \<and> \<not> p c \<and> length m' \<le> length m"
  by (induction m) (auto split: if_splits)

text \<open>\<open>p[k]\<close>\<close>

definition ch :: "byte list \<Rightarrow> nat \<Rightarrow> byte option" where
  "ch p k = (if k < length p then Some (p ! k) else None)"

lemma ch_simps [simp]: "ch (c # p) 0 = Some c" "ch (c # p) (Suc k) = ch p k" "ch [] k = None"
  by (simp_all add: ch_def)

lemma ch_numeral [simp]: "ch (c # p) (numeral k) = ch p (pred_numeral k)"
  by (simp add: ch_def numeral_eq_Suc)

text \<open>The string a pointer stands for.\<close>

definition string_at :: "byte list \<Rightarrow> cstring" where
  "string_at m = takeWhile (\<lambda>c. c \<noteq> 0) m"

lemma string_at_cstr [simp]: "cstr s \<Longrightarrow> string_at (s @ 0 # r) = s"
  by (induction s) (auto simp: string_at_def)

lemma string_at_ok [simp]: "cstr (string_at m)"
  by (auto simp: string_at_def cstr_def dest: set_takeWhileD)

section \<open>Decimal numbers\<close>

text \<open>The decimal digits of a number, the reference for the functions that print and read them.\<close>

fun digits :: "nat \<Rightarrow> cstring" where
  "digits n = (if n < 10 then [word_of_nat (48 + n)] else digits (n div 10) @ [word_of_nat (48 + n mod 10)])"

declare digits.simps [simp del]

definition decimal :: "int \<Rightarrow> cstring" where
  "decimal n = (if n < 0 then 45 # digits (nat (- n)) else digits (nat n))"

definition digit_val :: "byte \<Rightarrow> nat" where
  "digit_val c = unat c - 48"

lemma digit_byte:
  assumes "d < 10"
  shows "apr_isdigit (word_of_nat (48 + d))" "unat (word_of_nat (48 + d) :: byte) = 48 + d"
    "digit_val (word_of_nat (48 + d)) = d"
proof -
  have u: "unat (word_of_nat (48 + d) :: byte) = 48 + d"
    using assms by (simp add: unsigned_of_nat take_bit_nat_eq_self del: of_nat_add)
  then show "unat (word_of_nat (48 + d) :: byte) = 48 + d" .
  then show "digit_val (word_of_nat (48 + d)) = d" "apr_isdigit (word_of_nat (48 + d))"
    using assms by (simp_all add: digit_val_def apr_isdigit_def word_le_nat_alt)
qed

lemma digits_isdigit: "list_all apr_isdigit (digits n)"
proof (induction n rule: digits.induct)
  case (1 n)
  then show ?case using digit_byte(1) [of "n mod 10"] digit_byte(1) [of n]
    by (subst digits.simps) auto
qed

definition digits_val :: "nat \<Rightarrow> cstring \<Rightarrow> nat" where
  "digits_val = foldl (\<lambda>v c. 10 * v + digit_val c)"

lemma digits_val_digits: "digits_val 0 (digits n) = n"
proof (induction n rule: digits.induct)
  case (1 n)
  then show ?case using digit_byte(3) [of "n mod 10"] digit_byte(3) [of n]
    by (subst digits.simps) (auto simp: digits_val_def)
qed

lemma digits_not_Nil [simp]: "digits n \<noteq> []"
  by (subst digits.simps) simp

lemma isdigit_cstr: "list_all apr_isdigit s \<Longrightarrow> cstr s"
  by (induction s) auto

lemma digits_cstr [simp]: "cstr (digits n)"
  by (rule isdigit_cstr) (rule digits_isdigit)

lemma decimal_cstr [simp]: "cstr (decimal n)"
  by (simp add: decimal_def)

lemma digit_val_lt: "apr_isdigit c \<Longrightarrow> digit_val c < 10"
  by (rule byte_all [where P = "\<lambda>c. apr_isdigit c \<longrightarrow> digit_val c < 10", THEN mp]) code_simp

lemma digits_val_acc: "digits_val v s = v * 10 ^ length s + digits_val 0 s"
proof (induction s arbitrary: v)
  case (Cons c s)
  show ?case using Cons [of "10 * v + digit_val c"] Cons [of "digit_val c"]
    by (simp add: digits_val_def algebra_simps)
qed (simp add: digits_val_def)

lemma digits_val_Cons: "digits_val 0 (c # s) = digit_val c * 10 ^ length s + digits_val 0 s"
  using digits_val_acc [of "digit_val c" s] by (simp add: digits_val_def)

lemma digits_val_lt: "list_all apr_isdigit s \<Longrightarrow> digits_val 0 s < 10 ^ length s"
proof (induction s)
  case (Cons c s)
  have "digit_val c * 10 ^ length s + 10 ^ length s \<le> 10 * 10 ^ length s"
    using digit_val_lt [of c] Cons.prems mult_le_mono1 [of "digit_val c + 1" 10 "10 ^ length s"] by (simp add: algebra_simps)
  with Cons have "digits_val 0 (c # s) < 10 * 10 ^ length s" unfolding digits_val_Cons list.pred_inject by linarith
  then show ?case by simp
qed (simp add: digits_val_def)

lemma digits_bounds: "n < 10 ^ length (digits n) \<and> (n \<noteq> 0 \<longrightarrow> 10 ^ (length (digits n) - 1) \<le> n)"
proof (induction n rule: digits.induct)
  case (1 n)
  show ?case
  proof (cases "n < 10")
    case False
    then have "n div 10 < 10 ^ length (digits (n div 10))" "10 ^ (length (digits (n div 10)) - 1) \<le> n div 10"
      using 1 by auto
    moreover have "n = 10 * (n div 10) + n mod 10" by simp
    moreover have "length (digits n) = length (digits (n div 10)) + 1" using False by (subst digits.simps) simp
    moreover have "Suc (length (digits (n div 10)) - 1) = length (digits (n div 10))" by simp
    then have "10 * 10 ^ (length (digits (n div 10)) - 1) = (10 :: nat) ^ length (digits (n div 10))"
      by (metis power_Suc)
    ultimately show ?thesis unfolding add_0_right by (simp only: power_add power_one_right add_diff_cancel_right') linarith
  next
    case True
    then have "length (digits n) = 1" by (subst digits.simps) simp
    with True show ?thesis by simp
  qed
qed

lemma digits_length_less:
  assumes "length (digits m) < length (digits n)" "n \<noteq> 0"
  shows "m < n"
proof -
  have "m < 10 ^ length (digits m)" using digits_bounds by blast
  also have "\<dots> \<le> 10 ^ (length (digits n) - 1)" using assms(1) by (intro power_increasing) simp_all
  also have "\<dots> \<le> n" using digits_bounds assms(2) by blast
  finally show ?thesis .
qed

lemma digits_hd: "hd (digits n) = 48 \<longleftrightarrow> n = 0"
proof (cases "n = 0")
  case False
  obtain c s where cs: "digits n = c # s" by (cases "digits n") auto
  have "c \<noteq> 48"
  proof
    assume "c = 48"
    then have "n = digits_val 0 s" using digits_val_digits [of n] by (simp add: cs digits_val_Cons digit_val_def)
    also have "\<dots> < 10 ^ length s" using digits_isdigit [of n] by (intro digits_val_lt) (simp add: cs)
    finally show False using digits_bounds [of n] False by (simp add: cs)
  qed
  with False cs show ?thesis by simp
qed (subst digits.simps, simp)

end
