(* ===== verification/Apr_Strnatcmp.thy ===== *)
theory Apr_Strnatcmp
  imports Apr_Ctype
begin

text \<open>
  The natural-order comparison of \<^verbatim>\<open>strings/apr_strnatcmp.c\<close>. The two arguments are pointers, so the
  lists go on past the terminating NUL; \<open>None\<close> is a read past their end. Characters compare signed.
\<close>

section \<open>The functions of the source\<close>

fun compare_right :: "byte list \<Rightarrow> byte list \<Rightarrow> int \<Rightarrow> int option" where
  "compare_right (a # as) (b # bs) bias =
     (if \<not> apr_isdigit a \<and> \<not> apr_isdigit b then Some bias
      else if \<not> apr_isdigit a then Some (-1)
      else if \<not> apr_isdigit b then Some 1
      else if a <s b then compare_right as bs (if bias = 0 then -1 else bias)
      else if b <s a then compare_right as bs (if bias = 0 then 1 else bias)
      else if a = 0 \<and> b = 0 then Some bias
      else compare_right as bs bias)"
| "compare_right _ _ _ = None"

fun compare_left :: "byte list \<Rightarrow> byte list \<Rightarrow> int option" where
  "compare_left (a # as) (b # bs) =
     (if \<not> apr_isdigit a \<and> \<not> apr_isdigit b then Some 0
      else if \<not> apr_isdigit a then Some (-1)
      else if \<not> apr_isdigit b then Some 1
      else if a <s b then Some (-1)
      else if b <s a then Some 1
      else compare_left as bs)"
| "compare_left _ _ = None"

text \<open>The digits of both strings at the current position, if both have one there.\<close>

definition compare_digits :: "byte list \<Rightarrow> byte list \<Rightarrow> int option" where
  "compare_digits a b =
     (if apr_isdigit (hd a) \<and> apr_isdigit (hd b)
      then if hd a = 48 \<or> hd b = 48 then compare_left a b else compare_right a b 0
      else Some 0)"

function strnatcmp0 :: "byte list \<Rightarrow> byte list \<Rightarrow> bool \<Rightarrow> int option" where
  "strnatcmp0 a b foldc =
     (case skip_while apr_isspace a of
        Some (ca # as) \<Rightarrow>
          (case skip_while apr_isspace b of
             Some (cb # bs) \<Rightarrow>
               (case compare_digits (ca # as) (cb # bs) of
                  None \<Rightarrow> None
                | Some result \<Rightarrow>
                    if result \<noteq> 0 then Some result
                    else if ca = 0 \<and> cb = 0 then Some 0
                    else
                      let ca' = (if foldc then apr_toupper ca else ca);
                          cb' = (if foldc then apr_toupper cb else cb)
                      in if ca' <s cb' then Some (-1)
                         else if cb' <s ca' then Some 1
                         else strnatcmp0 as bs foldc)
           | _ \<Rightarrow> None)
      | _ \<Rightarrow> None)"
  by pat_completeness auto
termination
  by (relation "measure (\<lambda>(a, b, f). length a)") (auto dest!: skip_while_Some)

declare strnatcmp0.simps [simp del]

definition apr_strnatcmp :: "byte list \<Rightarrow> byte list \<Rightarrow> int option" where
  "apr_strnatcmp a b = strnatcmp0 a b False"

definition apr_strnatcasecmp :: "byte list \<Rightarrow> byte list \<Rightarrow> int option" where
  "apr_strnatcasecmp a b = strnatcmp0 a b True"

section \<open>Order properties\<close>

text \<open>A terminated string: what a valid pointer to a C string can be read as.\<close>

definition terminated :: "byte list \<Rightarrow> bool" where
  "terminated m \<longleftrightarrow> 0 \<in> set m"

lemma terminated_Cons [simp]: "terminated (c # m) \<longleftrightarrow> c = 0 \<or> terminated m"
  by (auto simp: terminated_def)

lemma terminated_Nil [simp]: "\<not> terminated []"
  by (simp add: terminated_def)

lemma terminated_append [simp]: "terminated (s @ 0 # r)"
  by (simp add: terminated_def)

lemma skip_while_terminated:
  "terminated m \<Longrightarrow> \<not> p 0 \<Longrightarrow> \<exists>c r. skip_while p m = Some (c # r) \<and> \<not> p c \<and> terminated (c # r)"
  by (induction m) auto

text \<open>The results are the three signs, and exchanging the arguments negates them.\<close>

definition is_sign :: "int \<Rightarrow> bool" where
  "is_sign r \<longleftrightarrow> r = -1 \<or> r = 0 \<or> r = 1"

lemma sless_asym: "a <s b \<Longrightarrow> \<not> b <s a" for a b :: "'a::len word"
  by (simp add: word_sless_alt)

lemma sless_total: "\<not> a <s b \<Longrightarrow> \<not> b <s a \<Longrightarrow> a = b" for a b :: "'a::len word"
  by (simp add: word_sless_alt) (metis order.antisym not_le signed_word_eqI)

lemma compare_right_sign:
  "terminated a \<Longrightarrow> terminated b \<Longrightarrow> is_sign bias \<Longrightarrow>
    \<exists>r. compare_right a b bias = Some r \<and> is_sign r \<and> compare_right b a (- bias) = Some (- r)"
proof (induction a b bias rule: compare_right.induct)
  case (1 a as b bs bias)
  then show ?case
    by (cases "apr_isdigit a"; cases "apr_isdigit b"; cases "a <s b"; cases "b <s a")
      (auto simp: is_sign_def dest: sless_asym split: if_splits)
qed simp_all

lemma compare_left_sign:
  "terminated a \<Longrightarrow> terminated b \<Longrightarrow>
    \<exists>r. compare_left a b = Some r \<and> is_sign r \<and> compare_left b a = Some (- r)"
proof (induction a b rule: compare_left.induct)
  case (1 a as b bs)
  then show ?case
    by (cases "apr_isdigit a"; cases "apr_isdigit b"; cases "a <s b"; cases "b <s a")
      (auto simp: is_sign_def dest: sless_asym)
qed simp_all

lemma compare_digits_sign:
  "terminated (a # as) \<Longrightarrow> terminated (b # bs) \<Longrightarrow>
    \<exists>r. compare_digits (a # as) (b # bs) = Some r \<and> is_sign r \<and> compare_digits (b # bs) (a # as) = Some (- r)"
  using compare_right_sign [of "a # as" "b # bs" 0] compare_left_sign [of "a # as" "b # bs"]
  by (auto simp: compare_digits_def is_sign_def simp del: compare_right.simps compare_left.simps)

lemma strnatcmp0_sign:
  "terminated a \<Longrightarrow> terminated b \<Longrightarrow>
    \<exists>r. strnatcmp0 a b f = Some r \<and> is_sign r \<and> strnatcmp0 b a f = Some (- r)"
proof (induction a b f rule: strnatcmp0.induct)
  case (1 a b f)
  obtain ca as where a: "skip_while apr_isspace a = Some (ca # as)" "terminated (ca # as)"
    using skip_while_terminated [OF 1(2), of apr_isspace] by auto
  obtain cb bs where b: "skip_while apr_isspace b = Some (cb # bs)" "terminated (cb # bs)"
    using skip_while_terminated [OF 1(3), of apr_isspace] by auto
  obtain r where r: "compare_digits (ca # as) (cb # bs) = Some r" "is_sign r"
      "compare_digits (cb # bs) (ca # as) = Some (- r)"
    using compare_digits_sign [OF a(2) b(2)] by blast
  let ?ca = "if f then apr_toupper ca else ca" and ?cb = "if f then apr_toupper cb else cb"
  have ab: "strnatcmp0 a b f = (if r \<noteq> 0 then Some r else if ca = 0 \<and> cb = 0 then Some 0
      else if ?ca <s ?cb then Some (-1) else if ?cb <s ?ca then Some 1 else strnatcmp0 as bs f)"
    and ba: "strnatcmp0 b a f = (if r \<noteq> 0 then Some (- r) else if ca = 0 \<and> cb = 0 then Some 0
      else if ?cb <s ?ca then Some (-1) else if ?ca <s ?cb then Some 1 else strnatcmp0 bs as f)"
    using a(1) b(1) r(1,3) by (subst strnatcmp0.simps; simp add: Let_def conj_commute)+
  consider "r \<noteq> 0" | "r = 0" "ca = 0" "cb = 0" | "r = 0" "\<not> (ca = 0 \<and> cb = 0)" "?ca <s ?cb"
    | "r = 0" "\<not> (ca = 0 \<and> cb = 0)" "?cb <s ?ca"
    | "r = 0" "\<not> (ca = 0 \<and> cb = 0)" "\<not> ?ca <s ?cb" "\<not> ?cb <s ?ca" by blast
  then show ?case
  proof cases
    case 5
    then have "?ca = ?cb" by (intro sless_total)
    then have "ca = 0 \<longleftrightarrow> cb = 0" by (metis toupper_0_iff)
    with 5 a(2) b(2) have "terminated as" "terminated bs" by auto
    with 1(1) [OF a(1) refl b(1) refl r(1)] 5
    have "\<exists>q. strnatcmp0 as bs f = Some q \<and> is_sign q \<and> strnatcmp0 bs as f = Some (- q)" by blast
    with 5 show ?thesis unfolding ab ba by auto
  qed (use r(2) sless_asym [of ?ca ?cb] sless_asym [of ?cb ?ca] in \<open>simp_all add: ab ba is_sign_def\<close>)
qed

section \<open>Numbers\<close>

lemma sint_digit: "apr_isdigit c \<Longrightarrow> sint c = 48 + int (digit_val c)"
  by (rule byte_all [where P = "\<lambda>c. apr_isdigit c \<longrightarrow> sint c = 48 + int (digit_val c)", THEN mp]) code_simp

lemma digit_sless: "apr_isdigit a \<Longrightarrow> apr_isdigit b \<Longrightarrow> a <s b \<longleftrightarrow> digit_val a < digit_val b"
  by (simp add: word_sless_alt sint_digit)

lemma digits_val_less_iff:
  assumes "list_all apr_isdigit s" "list_all apr_isdigit t" "length s = length t"
  shows "digits_val 0 (a # s) < digits_val 0 (b # t) \<longleftrightarrow>
    digit_val a < digit_val b \<or> digit_val a = digit_val b \<and> digits_val 0 s < digits_val 0 t"
proof -
  have *: "x * P + v < y * P + w" if "x < y" "v < P" for x y v w P :: nat
  proof -
    have "x * P + v < (x + 1) * P" using that by simp
    also have "\<dots> \<le> y * P" using that by (intro mult_le_mono1) simp
    finally show ?thesis by simp
  qed
  have "digits_val 0 s < 10 ^ length t" "digits_val 0 t < 10 ^ length t"
    using assms digits_val_lt [of s] digits_val_lt [of t] by simp_all
  then show ?thesis
    using assms(3) * [of "digit_val a" "digit_val b" "digits_val 0 s" "10 ^ length t" "digits_val 0 t"]
      * [of "digit_val b" "digit_val a" "digits_val 0 t" "10 ^ length t" "digits_val 0 s"]
    by (cases "digit_val a" "digit_val b" rule: linorder_cases) (auto simp: digits_val_Cons)
qed

lemma is_sign_values: "is_sign (-1)" "is_sign 0" "is_sign 1"
  by (simp_all add: is_sign_def)

definition order_of :: "nat \<Rightarrow> nat \<Rightarrow> int" where
  "order_of m n = sgn (int m - int n)"

lemma compare_right_digits:
  "list_all apr_isdigit s \<Longrightarrow> list_all apr_isdigit t \<Longrightarrow> is_sign bias \<Longrightarrow>
   compare_right (s @ 0 # q) (t @ 0 # r) bias =
     Some (if length s \<noteq> length t then order_of (length s) (length t)
           else if bias \<noteq> 0 then bias else order_of (digits_val 0 s) (digits_val 0 t))"
proof (induction s arbitrary: t bias)
  case Nil
  then show ?case by (cases t) (auto simp: order_of_def)
next
  case (Cons a s)
  show ?case
  proof (cases t)
    case Nil
    with Cons.prems show ?thesis by (simp add: order_of_def)
  next
    case (Cons b t')
    note IH = Cons.IH [of t']
    have d: "apr_isdigit a" "apr_isdigit b" "list_all apr_isdigit s" "list_all apr_isdigit t'"
      using Cons.prems Cons by simp_all
    have l: "order_of (Suc (length s)) (Suc (length t')) = order_of (length s) (length t')"
      by (simp add: order_of_def)
    have a0: "a \<noteq> 0" using d(1) by auto
    have v: "length s = length t' \<Longrightarrow> order_of (digits_val 0 (a # s)) (digits_val 0 (b # t')) =
        (if digit_val a < digit_val b then -1 else if digit_val b < digit_val a then 1
         else order_of (digits_val 0 s) (digits_val 0 t'))"
      using digits_val_less_iff [OF d(3,4), of a b] digits_val_less_iff [OF d(4,3), of b a]
      by (auto simp: order_of_def sgn_if)
    show ?thesis
      using d Cons.prems(3) a0 v by (simp add: Cons IH l digit_sless is_sign_values)
  qed
qed

lemma compare_digits_digits:
  "compare_digits (digits m @ 0 # q) (digits n @ 0 # r) = Some (order_of m n)"
proof -
  have d: "list_all apr_isdigit (digits m)" "list_all apr_isdigit (digits n)" by (rule digits_isdigit)+
  have h: "apr_isdigit (hd (digits k))" for k using digits_isdigit [of k] by (cases "digits k") auto
  have z: "digits 0 = [48]" by (subst digits.simps) simp
  show ?thesis
  proof (cases "m = 0 \<or> n = 0")
    case True
    have left: "compare_left (48 # 0 # q) (digits k @ 0 # r) = Some (order_of 0 k)"
      "compare_left (digits k @ 0 # q) (48 # 0 # r) = Some (order_of k 0)" for k q r
    proof -
      obtain c s where cs: "digits k = c # s" by (cases "digits k") auto
      have c: "apr_isdigit c" "c = 48 \<longleftrightarrow> k = 0" using h [of k] digits_hd [of k] by (simp_all add: cs)
      have e: "apr_isdigit 48" "digit_val 48 = 0" by (simp_all add: apr_isdigit_def digit_val_def)
      have "digit_val c = 0 \<longleftrightarrow> c = 48" using c(1) sint_digit [of c] sint_digit [of 48] e signed_word_eqI [of c 48] by auto
      then show "compare_left (48 # 0 # q) (digits k @ 0 # r) = Some (order_of 0 k)"
        "compare_left (digits k @ 0 # q) (48 # 0 # r) = Some (order_of k 0)"
        using c e cs z by (auto simp: digit_sless order_of_def)
    qed
    have "hd (digits m @ 0 # q) = 48 \<or> hd (digits n @ 0 # r) = 48" using True digits_hd by auto
    then have "compare_digits (digits m @ 0 # q) (digits n @ 0 # r) = compare_left (digits m @ 0 # q) (digits n @ 0 # r)"
      by (simp add: compare_digits_def h)
    then show ?thesis using True left z by auto
  next
    case False
    then have "compare_digits (digits m @ 0 # q) (digits n @ 0 # r) = compare_right (digits m @ 0 # q) (digits n @ 0 # r) 0"
      by (simp add: compare_digits_def h digits_hd)
    then show ?thesis
      using False digits_length_less [of m n] digits_length_less [of n m]
      by (auto simp: compare_right_digits [OF d] is_sign_values digits_val_digits order_of_def sgn_if)
  qed
qed

lemma strnatcmp0_refl:
  assumes "terminated a"
  shows "strnatcmp0 a a f = Some 0"
  using strnatcmp0_sign [OF assms assms, of f] by auto

lemma strnatcmp0_space: "apr_isspace c \<Longrightarrow> strnatcmp0 (c # a) (c # b) f = strnatcmp0 a b f"
  by (subst (1 2) strnatcmp0.simps) (simp cong: option.case_cong list.case_cong)

lemma sless_irrefl: "\<not> c <s c" for c :: "'a::len word"
  using sless_asym by blast

lemma strnatcmp0_same: "\<not> apr_isdigit c \<Longrightarrow> c \<noteq> 0 \<Longrightarrow> strnatcmp0 (c # a) (c # b) f = strnatcmp0 a b f"
  by (cases "apr_isspace c")
    (simp add: strnatcmp0_space, subst strnatcmp0.simps, simp add: compare_digits_def sless_irrefl)

lemma strnatcmp0_prefix:
  "cstr p \<Longrightarrow> list_all (\<lambda>c. \<not> apr_isdigit c) p \<Longrightarrow> strnatcmp0 (p @ a) (p @ b) f = strnatcmp0 a b f"
  by (induction p) (simp_all add: strnatcmp0_same)

lemma compare_left_same: "list_all apr_isdigit s \<Longrightarrow> compare_left (s @ 0 # q) (s @ 0 # r) = Some 0"
  by (induction s) (simp_all add: sless_irrefl)

lemma strnatcmp0_numbers:
  "strnatcmp0 (digits m @ 0 # q) (digits n @ 0 # r) f = Some (order_of m n)"
proof (cases "m = n")
  case True
  have same: "strnatcmp0 (s @ 0 # q) (s @ 0 # r) f = Some 0" if "list_all apr_isdigit s" for s
    using that
  proof (induction s)
    case Nil
    show ?case by (subst strnatcmp0.simps) (simp add: compare_digits_def)
  next
    case (Cons c s)
    then show ?case
      using compare_right_digits [of "c # s" "c # s" 0 q r] compare_left_same [of "c # s" q r]
      by (subst strnatcmp0.simps)
        (simp add: compare_digits_def isdigit_not_space sless_irrefl is_sign_values order_of_def)
  qed
  show ?thesis using same [OF digits_isdigit] True by (simp add: order_of_def)
next
  case False
  obtain c s where c: "digits m = c # s" by (cases "digits m") auto
  obtain d t where d: "digits n = d # t" by (cases "digits n") auto
  have "apr_isdigit c" "apr_isdigit d" using digits_isdigit [of m] digits_isdigit [of n] c d by simp_all
  moreover have "order_of m n \<noteq> 0" using False by (simp add: order_of_def sgn_if)
  ultimately show ?thesis using compare_digits_digits [of m q n r]
    by (subst strnatcmp0.simps) (simp add: c d isdigit_not_space)
qed

section \<open>Properties\<close>

text \<open>
  C38. On two terminated strings both comparisons return, so they never read past the terminating NUL,
  with one of the results -1, 0 and 1, and exchanging the arguments negates the result.
\<close>

theorem apr_strnatcmp_antisym:
  assumes "terminated a" "terminated b"
  shows "\<exists>r r'. apr_strnatcmp a b = Some r \<and> apr_strnatcmp b a = Some (- r) \<and>
    apr_strnatcasecmp a b = Some r' \<and> apr_strnatcasecmp b a = Some (- r') \<and> {r, r'} \<subseteq> {-1, 0, 1}"
  using strnatcmp0_sign [OF assms, of False] strnatcmp0_sign [OF assms, of True]
  by (auto simp: apr_strnatcmp_def apr_strnatcasecmp_def is_sign_def)

theorem apr_strnatcmp_antisym_witness:
  "\<exists>r r'. apr_strnatcmp [97, 0] [65, 57, 0] = Some r \<and> apr_strnatcmp [65, 57, 0] [97, 0] = Some (- r) \<and>
    apr_strnatcasecmp [97, 0] [65, 57, 0] = Some r' \<and> apr_strnatcasecmp [65, 57, 0] [97, 0] = Some (- r') \<and>
    {r, r'} \<subseteq> {-1, 0, 1}"
  by (rule apr_strnatcmp_antisym) simp_all

text \<open>
  C23. After a common prefix without digits, numbers written in decimal compare by their values, whatever
  their lengths: \<open>file9\<close> comes before \<open>file10\<close>.
\<close>

theorem apr_strnatcmp_numbers:
  assumes "cstr p" "list_all (\<lambda>c. \<not> apr_isdigit c) p"
  shows "apr_strnatcmp (p @ digits m @ 0 # q) (p @ digits n @ 0 # r) = Some (sgn (int m - int n)) \<and>
    apr_strnatcasecmp (p @ digits m @ 0 # q) (p @ digits n @ 0 # r) = Some (sgn (int m - int n))"
  using strnatcmp0_prefix [OF assms] strnatcmp0_numbers
  by (simp add: apr_strnatcmp_def apr_strnatcasecmp_def order_of_def)

theorem apr_strnatcmp_numbers_witness:
  "apr_strnatcmp ([102, 32] @ digits 9 @ [0]) ([102, 32] @ digits 10 @ [0]) = Some (-1)"
  using apr_strnatcmp_numbers [of "[102, 32]" 9 "[]" 10 "[]"] by (simp add: apr_isdigit_def)

end
