(* ===== verification/Apr_Strings.thy ===== *)
theory Apr_Strings
  imports Apr_Ctype "HOL-Library.Signed_Division"
begin

text \<open>
  The copying and the number functions of \<^verbatim>\<open>strings/apr_strings.c\<close>. A pointer is the list of the bytes
  that can be read from it on, a fresh allocation is filled with the indeterminate bytes \<open>junk\<close> says,
  and \<open>None\<close> is a read or a write outside the memory. \<open>apr_strtoi64\<close> is the portable version, which the
  build uses when the platform has no 64-bit \<open>strtol\<close>. Signed integers are \<open>int\<close> and wrap around at
  their width, as the overflow tests of the source expect.
\<close>

section \<open>Copies\<close>

type_synonym junk = "nat \<Rightarrow> byte"

definition apr_palloc :: "junk \<Rightarrow> nat \<Rightarrow> byte list" where
  "apr_palloc junk n = map junk [0..<n]"

fun memchr :: "byte list \<Rightarrow> byte \<Rightarrow> nat \<Rightarrow> nat option option" where
  "memchr cp c 0 = Some None"
| "memchr [] c (Suc n) = None"
| "memchr (b # cp) c (Suc n) = (if b = c then Some (Some 0) else map_option (map_option Suc) (memchr cp c n))"

definition apr_pmemdup :: "junk \<Rightarrow> byte list option \<Rightarrow> nat \<Rightarrow> byte list option option" where
  "apr_pmemdup junk m n =
     (case m of
        None \<Rightarrow> Some None
      | Some m \<Rightarrow> if n \<le> length m then Some (Some (memcpy (apr_palloc junk n) 0 m n)) else None)"

definition apr_pstrmemdup :: "junk \<Rightarrow> byte list option \<Rightarrow> nat \<Rightarrow> byte list option option" where
  "apr_pstrmemdup junk s n =
     (case s of
        None \<Rightarrow> Some None
      | Some s \<Rightarrow>
          if n \<le> length s then Some (Some ((memcpy (apr_palloc junk (n + 1)) 0 s n)[n := 0])) else None)"

definition apr_pstrndup :: "junk \<Rightarrow> byte list option \<Rightarrow> nat \<Rightarrow> byte list option option" where
  "apr_pstrndup junk s n =
     (case s of
        None \<Rightarrow> Some None
      | Some m \<Rightarrow>
          (case memchr m 0 n of
             None \<Rightarrow> None
           | Some endp \<Rightarrow>
               let n' = (case endp of Some e \<Rightarrow> e | None \<Rightarrow> n)
               in Some (Some ((memcpy (apr_palloc junk (n' + 1)) 0 m n')[n' := 0]))))"

text \<open>An \<open>iovec\<close> is a base pointer and a length.\<close>

fun catv_len :: "(byte list \<times> nat) list \<Rightarrow> nat \<Rightarrow> nat" where
  "catv_len [] len = len"
| "catv_len ((base, n) # vec) len = catv_len vec (len + n)"

fun catv_copy :: "byte list \<Rightarrow> nat \<Rightarrow> (byte list \<times> nat) list \<Rightarrow> (byte list \<times> nat) option" where
  "catv_copy res dst [] = Some (res, dst)"
| "catv_copy res dst ((base, n) # vec) =
     (if n \<le> length base \<and> dst + n \<le> length res then catv_copy (memcpy res dst base n) (dst + n) vec else None)"

definition apr_pstrcatv :: "junk \<Rightarrow> (byte list \<times> nat) list \<Rightarrow> (byte list \<times> nat) option" where
  "apr_pstrcatv junk vec =
     (let len = catv_len vec 0 in
      case catv_copy (apr_palloc junk (len + 1)) 0 vec of
        None \<Rightarrow> None
      | Some (res, dst) \<Rightarrow> if dst < length res then Some (res[dst := 0], len) else None)"

section \<open>Reading numbers\<close>

datatype errno = ENONE | EINVAL | ERANGE

definition wrap64 :: "int \<Rightarrow> int" where
  "wrap64 x = signed_take_bit 63 x"

definition INT64_MAX :: int where
  "INT64_MAX = 0x7fffffffffffffff"

definition INT64_MIN :: int where
  "INT64_MIN = - 0x7fffffffffffffff - 1"

text \<open>The value of a character as a digit; the source leaves the loop at a character that has none.\<close>

definition digit_of :: "byte \<Rightarrow> int option" where
  "digit_of c =
     (if 48 \<le> c \<and> c \<le> 57 then Some (uint c - 48)
      else if 65 \<le> c \<and> c \<le> 90 then Some (uint c - (65 - 10))
      else if 97 \<le> c \<and> c \<le> 122 then Some (uint c - (97 - 10))
      else None)"

text \<open>
  One digit: the product, then the test for an over- or underflow, which adds or subtracts the digit
  only when the product passed it.
\<close>

definition accumulate :: "bool \<Rightarrow> int \<Rightarrow> int \<Rightarrow> int \<Rightarrow> int \<Rightarrow> int \<Rightarrow> int \<times> bool" where
  "accumulate neg base d val acc any =
     (let val = wrap64 (val * base) in
      if any < 0 then (val, True)
      else if neg then
        if acc < val then (val, True) else let val = wrap64 (val - d) in (val, acc < val)
      else
        if val < acc then (val, True) else let val = wrap64 (val + d) in (val, val < acc))"

fun strtoi_loop :: "bool \<Rightarrow> int \<Rightarrow> byte list \<Rightarrow> int \<Rightarrow> int \<Rightarrow> int \<Rightarrow> (int \<times> int \<times> byte list) option" where
  "strtoi_loop neg base [] val acc any = None"
| "strtoi_loop neg base (c # s) val acc any =
     (case digit_of c of
        None \<Rightarrow> Some (acc, any, c # s)
      | Some d \<Rightarrow>
          if base \<le> d then Some (acc, any, c # s)
          else case accumulate neg base d val acc any of
            (val, overflow) \<Rightarrow>
              if overflow then strtoi_loop neg base s val acc (-1)
              else strtoi_loop neg base s val val 1)"

fun take_sign :: "byte list \<Rightarrow> bool \<times> byte list" where
  "take_sign [] = (False, [])"
| "take_sign (c # s) = (if c = 45 then (True, s) else (False, if c = 43 then s else c # s))"

fun hex_prefix :: "byte list \<Rightarrow> bool option" where
  "hex_prefix [] = None"
| "hex_prefix [c] = (if c = 48 then None else Some False)"
| "hex_prefix (c # x # s) = Some (c = 48 \<and> (x = 120 \<or> x = 88))"

text \<open>The base and the position of the first digit.\<close>

definition find_base :: "int \<Rightarrow> byte list \<Rightarrow> (int \<times> byte list) option" where
  "find_base base m =
     (case (if base = 0 \<or> base = 16 then hex_prefix m else Some False) of
        None \<Rightarrow> None
      | Some hex \<Rightarrow>
          let (base, m) = (if hex then (16, drop 2 m) else (base, m)) in
          if m = [] then None
          else Some (if base = 0 then if hd m = 48 then 8 else 10 else base, m))"

text \<open>The result, the offset of \<open>*endptr\<close> from \<open>nptr\<close> and \<open>errno\<close>.\<close>

definition apr_strtoi64 :: "byte list \<Rightarrow> int \<Rightarrow> (int \<times> nat \<times> errno) option" where
  "apr_strtoi64 nptr base =
     (case skip_while apr_isspace nptr of
        None \<Rightarrow> None
      | Some s \<Rightarrow>
          let (neg, s) = take_sign s in
          case find_base base s of
            None \<Rightarrow> None
          | Some (base, s) \<Rightarrow>
              if base < 2 \<or> 36 < base then Some (0, 0, EINVAL)
              else case strtoi_loop neg base s 0 0 0 of
                None \<Rightarrow> None
              | Some (acc, any, s) \<Rightarrow>
                  Some (if any < 0 then if neg then INT64_MIN else INT64_MAX else acc,
                        if any \<noteq> 0 then length nptr - length s else 0,
                        if any < 0 then ERANGE else if any = 0 then EINVAL else ENONE))"

definition apr_atoi64 :: "byte list \<Rightarrow> int option" where
  "apr_atoi64 buf = map_option fst (apr_strtoi64 buf 10)"

section \<open>Writing numbers\<close>

text \<open>
  \<open>apr_itoa\<close>, \<open>apr_ltoa\<close> and \<open>apr_off_t_toa\<close> differ only in the type of the number, whose size in bytes
  is \<open>sz\<close>. The loop writes from the end of the buffer; the result is the pointer to the first digit.
\<close>

function toa_loop :: "int \<Rightarrow> byte list \<Rightarrow> nat \<Rightarrow> (byte list \<times> nat) option" where
  "toa_loop n buf start =
     (if start = 0 then None
      else let buf = buf[start - 1 := word_of_int (48 + n smod 10)]; n = n sdiv 10 in
        if n = 0 then Some (buf, start - 1) else toa_loop n buf (start - 1))"
  by pat_completeness auto
termination
  by (relation "measure (\<lambda>(n, buf, start). start)") auto

declare toa_loop.simps [simp del]

definition toa :: "nat \<Rightarrow> junk \<Rightarrow> int \<Rightarrow> byte list option" where
  "toa sz junk n =
     (let BUFFER_SIZE = sz * 3 + 2;
          buf = apr_palloc junk BUFFER_SIZE;
          start = BUFFER_SIZE - 1;
          negative = n < 0;
          n = (if negative then signed_take_bit (8 * sz - 1) (- n) else n)
      in case toa_loop n (buf[start := 0]) start of
           None \<Rightarrow> None
         | Some (buf, start) \<Rightarrow>
             if negative then if start = 0 then None else Some (drop (start - 1) (buf[start - 1 := 45]))
             else Some (drop start buf))"

definition apr_itoa :: "junk \<Rightarrow> int \<Rightarrow> byte list option" where
  "apr_itoa = toa 4"

definition apr_ltoa :: "junk \<Rightarrow> int \<Rightarrow> byte list option" where
  "apr_ltoa = toa 8"

definition apr_off_t_toa :: "junk \<Rightarrow> int \<Rightarrow> byte list option" where
  "apr_off_t_toa = toa 8"

section \<open>Lemmas on the copies\<close>

lemma length_palloc [simp]: "length (apr_palloc junk n) = n"
  by (simp add: apr_palloc_def)

lemma memchr_terminated:
  "0 \<in> set m \<or> n \<le> length m \<Longrightarrow>
     memchr m 0 n = Some (if 0 \<in> set (take n m) then Some (length (string_at m)) else None)"
  by (induction m "0 :: byte" n rule: memchr.induct) (auto simp: string_at_def)

lemma take_string_at:
  "take n (string_at m) = (if 0 \<in> set (take n m) then string_at m else take n m)"
proof (induction m arbitrary: n)
  case (Cons c m)
  show ?case by (cases n) (auto simp: Cons [unfolded string_at_def] string_at_def simp del: take_all_iff)
qed (simp add: string_at_def)

lemma memcpy_fresh: "n \<le> length m \<Longrightarrow> (memcpy (apr_palloc junk (n + 1)) 0 m n)[n := 0] = take n m @ [0]"
  by (simp add: memcpy_def apr_palloc_def list_update_append)

lemma apr_pstrndup_copies:
  assumes "0 \<in> set m \<or> n \<le> length m"
  shows "apr_pstrndup junk (Some m) n = Some (Some (take n (string_at m) @ [0]))"
proof -
  have "length (string_at m) \<le> length m" "take (length (string_at m)) m = string_at m"
    by (simp_all add: string_at_def length_takeWhile_le takeWhile_eq_take [symmetric])
  moreover have "n \<le> length m" if "0 \<notin> set (take n m)" using assms that by (cases "n \<le> length m") auto
  ultimately show ?thesis using assms memcpy_fresh [of "length (string_at m)" m junk] memcpy_fresh [of n m junk]
    by (auto simp: apr_pstrndup_def memchr_terminated take_string_at memcpy_fresh)
qed

lemma apr_pstrmemdup_copies:
  "n \<le> length m \<Longrightarrow> apr_pstrmemdup junk (Some m) n = Some (Some (take n m @ [0]))"
  using memcpy_fresh by (simp add: apr_pstrmemdup_def)

lemma apr_pmemdup_copies: "n \<le> length m \<Longrightarrow> apr_pmemdup junk (Some m) n = Some (Some (take n m))"
  by (simp add: apr_pmemdup_def memcpy_def)

lemma catv_len_sum: "catv_len vec len = len + (\<Sum>(base, n) \<leftarrow> vec. n)"
  by (induction vec len rule: catv_len.induct) auto

lemma catv_copy_all:
  "\<forall>(base, n) \<in> set vec. n \<le> length base \<Longrightarrow> length res = dst + (\<Sum>(base, n) \<leftarrow> vec. n) + 1 \<Longrightarrow>
     \<exists>x. catv_copy res dst vec =
       Some (take dst res @ concat (map (\<lambda>(base, n). take n base) vec) @ [x], dst + (\<Sum>(base, n) \<leftarrow> vec. n))"
proof (induction res dst vec rule: catv_copy.induct)
  case (1 res dst)
  then have "length (drop dst res) = Suc 0" by simp
  then obtain x where "drop dst res = [x]" unfolding length_Suc_conv by blast
  then have "res = take dst res @ [x]" by (metis append_take_drop_id)
  then show ?case by auto
next
  case (2 res dst base n vec)
  then show ?case by (auto simp: take_memcpy_all)
qed

lemma apr_pstrcatv_copies:
  assumes "\<forall>(base, n) \<in> set vec. n \<le> length base"
  shows "apr_pstrcatv junk vec =
    Some (concat (map (\<lambda>(base, n). take n base) vec) @ [0], length (concat (map (\<lambda>(base, n). take n base) vec)))"
proof -
  let ?len = "\<Sum>(base, n) \<leftarrow> vec. n"
  let ?s = "concat (map (\<lambda>(base, n). take n base) vec)"
  have "length ?s = ?len" using assms by (induction vec) auto
  moreover obtain x where "catv_copy (apr_palloc junk (?len + 1)) 0 vec = Some (?s @ [x], ?len)"
    using catv_copy_all [OF assms, of "apr_palloc junk (?len + 1)" 0] by auto
  ultimately show ?thesis by (simp add: apr_pstrcatv_def catv_len_sum Let_def list_update_append)
qed

section \<open>Lemmas on writing numbers\<close>

lemma smod_nonneg: "int n smod 10 = int (n mod 10)" "int n sdiv 10 = int (n div 10)"
  by (simp_all add: signed_modulo_int_def signed_divide_int_def zmod_int zdiv_int sgn_if)

lemma toa_loop_digits:
  "length (digits n) \<le> start \<Longrightarrow> start \<le> length buf \<Longrightarrow>
    toa_loop (int n) buf start =
      Some (take (start - length (digits n)) buf @ digits n @ drop start buf, start - length (digits n))"
proof (induction n arbitrary: buf start rule: digits.induct)
  case (1 n)
  define buf' where "buf' = buf[start - 1 := word_of_nat (48 + n mod 10)]"
  have s: "0 < start" using 1(2) by (cases start) auto
  then have b: "drop (start - 1) buf' = word_of_nat (48 + n mod 10) # drop start buf" "length buf' = length buf"
    "take k buf' = take k buf" if "k \<le> start - 1" for k
    using 1(3) that Cons_nth_drop_Suc [of "start - 1" buf'] by (simp_all add: buf'_def)
  have step: "toa_loop (int n) buf start =
      (if n div 10 = 0 then Some (buf', start - 1) else toa_loop (int (n div 10)) buf' (start - 1))"
    using s by (subst toa_loop.simps) (simp add: smod_nonneg buf'_def Let_def)
  show ?case
  proof (cases "n < 10")
    case True
    then have d: "digits n = [word_of_nat (48 + n mod 10)]" by (subst digits.simps) simp
    have "buf' = take (start - 1) buf @ drop (start - 1) buf'" using b(3) [of "start - 1"] append_take_drop_id [of "start - 1" buf'] by simp
    then show ?thesis using True step b(1) [of 0] by (simp add: d)
  next
    case False
    then have d: "digits n = digits (n div 10) @ [word_of_nat (48 + n mod 10)]" by (subst digits.simps) simp
    have "toa_loop (int (n div 10)) buf' (start - 1) =
        Some (take (start - 1 - length (digits (n div 10))) buf' @ digits (n div 10) @ drop (start - 1) buf',
          start - 1 - length (digits (n div 10)))"
      using 1(2,3) b(2) [of 0] d False by (intro 1(1)) simp_all
    moreover have "n div 10 \<noteq> 0" using False by simp
    ultimately show ?thesis using step b(1) [of 0] b(3) by (simp add: d)
  qed
qed

lemma digits_length:
  assumes "n < 10 ^ k" "0 < k"
  shows "length (digits n) \<le> k"
proof (cases "n = 0")
  case False
  then have "10 ^ (length (digits n) - 1) \<le> n" using digits_bounds by blast
  then have "(10 :: nat) ^ (length (digits n) - 1) < 10 ^ k" using assms(1) by (rule le_less_trans)
  then have "length (digits n) - 1 < k" by (rule power_less_imp_less_exp [rotated]) simp
  then show ?thesis by simp
next
  case True
  have "length (digits 0) = 1" by (subst digits.simps) simp
  with True assms(2) show ?thesis by simp
qed

lemma put_before: "xs \<noteq> [] \<Longrightarrow> drop (length xs - 1) ((xs @ s)[length xs - 1 := c]) = c # s"
  by (cases xs rule: rev_cases) (simp_all add: list_update_append)

lemma toa_decimal:
  assumes "\<bar>n\<bar> < 2 ^ (8 * sz - 1)" "length (digits (nat \<bar>n\<bar>)) \<le> sz * 3"
  shows "toa sz junk n = Some (decimal n @ [0])"
proof -
  let ?l = "length (digits (nat \<bar>n\<bar>))" and ?st = "sz * 3 + 1"
  define buf where "buf = (apr_palloc junk (sz * 3 + 2))[?st := 0]"
  have d: "drop ?st buf = [0]" "length buf = sz * 3 + 2"
    by (simp_all add: buf_def apr_palloc_def list_update_append)
  have n: "(if n < 0 then signed_take_bit (8 * sz - 1) (- n) else n) = int (nat \<bar>n\<bar>)"
    using assms(1) by (simp add: signed_take_bit_int_eq_self)
  have l: "toa_loop (int (nat \<bar>n\<bar>)) buf ?st = Some (take (?st - ?l) buf @ digits (nat \<bar>n\<bar>) @ [0], ?st - ?l)"
    using toa_loop_digits [of "nat \<bar>n\<bar>" ?st buf] assms(2) d by simp
  have t: "length (take (?st - ?l) buf) = ?st - ?l" "?st - ?l \<noteq> 0" using d(2) assms(2) by simp_all
  define xs where "xs = take (?st - ?l) buf"
  have len: "length xs = ?st - ?l" using t(1) unfolding xs_def .
  then have ne: "xs \<noteq> []" using t(2) by (metis list.size(3))
  have w: "drop (?st - ?l - 1) ((xs @ s)[?st - ?l - 1 := 45]) = 45 # s" for s
    using put_before [OF ne, of s 45] unfolding len .
  have st: "sz * 3 + 2 - 1 = ?st" by simp
  have p: "drop (?st - ?l) (xs @ s) = s" for s using len by simp
  have "toa sz junk n = (if n < 0 then Some (drop (?st - ?l - 1) ((xs @ digits (nat \<bar>n\<bar>) @ [0])[?st - ?l - 1 := 45]))
      else Some (drop (?st - ?l) (xs @ digits (nat \<bar>n\<bar>) @ [0])))"
    unfolding toa_def Let_def n st buf_def [symmetric] l xs_def [symmetric]
    by (simp only: option.simps prod.case t(2) if_False split: if_split)
  then show ?thesis unfolding w p by (simp add: decimal_def)
qed


section \<open>Lemmas on reading numbers\<close>

text \<open>A digit of a base, and the value of a list of digits.\<close>

definition base_digit :: "int \<Rightarrow> byte \<Rightarrow> bool" where
  "base_digit b c \<longleftrightarrow> (case digit_of c of None \<Rightarrow> False | Some d \<Rightarrow> d < b)"

definition number_val :: "int \<Rightarrow> int \<Rightarrow> byte list \<Rightarrow> int" where
  "number_val b = foldl (\<lambda>v c. v * b + the (digit_of c))"

lemma digit_of_nonneg: "digit_of c = Some d \<Longrightarrow> 0 \<le> d"
proof -
  have "case digit_of c of None \<Rightarrow> True | Some d \<Rightarrow> 0 \<le> d"
    by (rule byte_all [where P = "\<lambda>c. case digit_of c of None \<Rightarrow> True | Some d \<Rightarrow> 0 \<le> d"]) code_simp
  then show "digit_of c = Some d \<Longrightarrow> 0 \<le> d" by simp
qed

lemma base_digit_val: "base_digit b c \<Longrightarrow> \<exists>d. digit_of c = Some d \<and> 0 \<le> d \<and> d < b"
  by (auto simp: base_digit_def digit_of_nonneg split: option.splits)

lemma number_val_mono:
  "list_all (base_digit b) ds \<Longrightarrow> 0 \<le> v \<Longrightarrow> 1 \<le> b \<Longrightarrow> v \<le> number_val b v ds"
proof (induction ds arbitrary: v)
  case (Cons c ds)
  obtain d where d: "digit_of c = Some d" "0 \<le> d" using base_digit_val [of b c] Cons.prems by auto
  have v: "v \<le> v * b + d" using mult_left_mono [of 1 b v] Cons.prems d by simp
  also have "\<dots> \<le> number_val b (v * b + d) ds" using Cons v by auto
  finally show ?case by (simp add: number_val_def d)
qed (simp add: number_val_def)

lemma wrap64_id: "- (2 ^ 63) \<le> x \<Longrightarrow> x < 2 ^ 63 \<Longrightarrow> wrap64 x = x"
  by (simp add: wrap64_def signed_take_bit_int_eq_self)

text \<open>The number with its sign; in 64 bits there is one more negative number.\<close>

definition signed :: "bool \<Rightarrow> int \<Rightarrow> int" where
  "signed neg v = (if neg then - v else v)"

definition fits64 :: "int \<Rightarrow> bool" where
  "fits64 x \<longleftrightarrow> - (2 ^ 63) \<le> x \<and> x < 2 ^ 63"

lemma accumulate_fits:
  assumes "0 \<le> v" "0 \<le> d" "2 \<le> b" "0 \<le> any" "fits64 (signed neg (v * b + d))"
  shows "accumulate neg b d (signed neg v) (signed neg v) any = (signed neg (v * b + d), False)"
proof -
  have "v \<le> v * b" using mult_left_mono [of 1 b v] assms by simp
  then show ?thesis using assms
    by (cases neg) (simp_all add: accumulate_def Let_def signed_def fits64_def wrap64_id)
qed

lemma strtoi_loop_value:
  "list_all (base_digit b) ds \<Longrightarrow> \<not> base_digit b c \<Longrightarrow> 2 \<le> b \<Longrightarrow> 0 \<le> v \<Longrightarrow> 0 \<le> any \<Longrightarrow>
    fits64 (signed neg (number_val b v ds)) \<Longrightarrow>
    strtoi_loop neg b (ds @ c # r) (signed neg v) (signed neg v) any =
      Some (signed neg (number_val b v ds), if ds = [] then any else 1, c # r)"
proof (induction ds arbitrary: v any)
  case Nil
  then show ?case by (auto simp: number_val_def base_digit_def split: option.splits)
next
  case (Cons e ds)
  obtain d where d: "digit_of e = Some d" "0 \<le> d" "d < b" using base_digit_val [of b e] Cons.prems by auto
  have n: "number_val b v (e # ds) = number_val b (v * b + d) ds" by (simp add: number_val_def d)
  have "0 \<le> v * b + d" using Cons.prems d by simp
  moreover have "v * b + d \<le> number_val b (v * b + d) ds"
    using Cons.prems calculation by (intro number_val_mono) simp_all
  ultimately have "fits64 (signed neg (v * b + d))" "0 \<le> v * b + d"
    using Cons.prems(6) by (cases neg; simp add: n fits64_def signed_def)+
  then show ?case using Cons.IH [of "v * b + d" 1] Cons.prems accumulate_fits [of v d b any neg] d
    by (simp add: n)
qed

lemma digit_of_plain: "digit_of c = Some d \<Longrightarrow> \<not> apr_isspace c \<and> c \<noteq> 45 \<and> c \<noteq> 43"
proof -
  have "digit_of c = None \<or> \<not> apr_isspace c \<and> c \<noteq> 45 \<and> c \<noteq> 43"
    by (rule byte_all [where P = "\<lambda>c. digit_of c = None \<or> \<not> apr_isspace c \<and> c \<noteq> 45 \<and> c \<noteq> 43"]) code_simp
  then show "digit_of c = Some d \<Longrightarrow> \<not> apr_isspace c \<and> c \<noteq> 45 \<and> c \<noteq> 43" by auto
qed


lemma skip_spaces:
  "list_all apr_isspace ws \<Longrightarrow> \<not> apr_isspace c \<Longrightarrow> skip_while apr_isspace (ws @ c # s) = Some (c # s)"
  by (induction ws) auto

lemma take_sign_digits:
  "digit_of c \<noteq> None \<Longrightarrow> sg \<in> {[], [43], [45]} \<Longrightarrow> take_sign (sg @ c # s) = (sg = [45], c # s)"
  using digit_of_plain [of c] by auto

lemma find_base_given:
  assumes "2 \<le> b" "b = 16 \<longrightarrow> hex_prefix (c # s) = Some False"
  shows "find_base b (c # s) = Some (b, c # s)"
  using assms by (auto simp: find_base_def)

lemma strtoi64_value:
  assumes "list_all apr_isspace ws" "sg \<in> {[], [43], [45]}" "ds \<noteq> []" "list_all (base_digit b) ds"
    and "\<not> base_digit b c" "2 \<le> b" "b \<le> 36" "b = 16 \<longrightarrow> hex_prefix (ds @ c # r) = Some False"
    and "fits64 (signed (sg = [45]) (number_val b 0 ds))"
  shows "apr_strtoi64 (ws @ sg @ ds @ c # r) b =
    Some (signed (sg = [45]) (number_val b 0 ds), length (ws @ sg @ ds), ENONE)"
proof -
  obtain e es where e: "ds = e # es" using assms(3) by (cases ds) auto
  have de: "digit_of e \<noteq> None" using base_digit_val [of b e] assms(4) by (auto simp: e)
  obtain f fs where f: "sg @ ds @ c # r = f # fs" "\<not> apr_isspace f"
    using assms(2) de digit_of_plain [of e] by (auto simp: e apr_isspace_def)
  have "skip_while apr_isspace (ws @ sg @ ds @ c # r) = Some (sg @ ds @ c # r)"
    unfolding f(1) using skip_spaces assms(1) f(2) by blast
  moreover have "take_sign (sg @ ds @ c # r) = (sg = [45], ds @ c # r)"
    using take_sign_digits [OF de assms(2)] by (simp add: e)
  moreover have "find_base b (ds @ c # r) = Some (b, ds @ c # r)"
    using find_base_given [OF assms(6), of e "es @ c # r"] assms(8) by (simp add: e)
  moreover have "strtoi_loop (sg = [45]) b (ds @ c # r) 0 0 0 =
      Some (signed (sg = [45]) (number_val b 0 ds), 1, c # r)"
    using strtoi_loop_value [OF assms(4,5,6), of 0 0 "sg = [45]" r] assms(3,9) by (cases "sg = [45]") (simp_all add: signed_def)
  ultimately show ?thesis using assms(6,7) by (simp add: apr_strtoi64_def)
qed

lemma digit_of_digit: "apr_isdigit c \<Longrightarrow> digit_of c = Some (int (digit_val c)) \<and> base_digit 10 c"
proof -
  have "\<not> apr_isdigit c \<or> digit_of c = Some (int (digit_val c)) \<and> base_digit 10 c"
    by (rule byte_all [where P = "\<lambda>c. \<not> apr_isdigit c \<or> digit_of c = Some (int (digit_val c)) \<and> base_digit 10 c"]) code_simp
  then show "apr_isdigit c \<Longrightarrow> digit_of c = Some (int (digit_val c)) \<and> base_digit 10 c" by blast
qed

lemma number_val_decimal:
  "list_all apr_isdigit s \<Longrightarrow> number_val 10 (int v) s = int (digits_val v s)"
proof (induction s arbitrary: v)
  case (Cons c s)
  have "number_val 10 (int v) (c # s) = number_val 10 (int (10 * v + digit_val c)) s"
    using digit_of_digit [of c] Cons.prems by (simp add: number_val_def algebra_simps)
  then show ?case using Cons.IH [of "10 * v + digit_val c"] Cons.prems by (simp add: digits_val_def)
qed (simp add: number_val_def digits_val_def)

lemma strtoi64_decimal:
  assumes "fits64 n" "\<not> base_digit 10 c"
  shows "apr_strtoi64 (decimal n @ c # r) 10 = Some (n, length (decimal n), ENONE)"
proof -
  define sg :: "byte list" where "sg = (if n < 0 then [45] else [])"
  let ?ds = "digits (nat \<bar>n\<bar>)"
  have d: "decimal n = [] @ sg @ ?ds" by (simp add: decimal_def sg_def)
  have v: "signed (sg = [45]) (number_val 10 0 ?ds) = n"
    using number_val_decimal [OF digits_isdigit, of 0 "nat \<bar>n\<bar>"] digits_val_digits [of "nat \<bar>n\<bar>"]
    by (simp add: signed_def sg_def)
  have "list_all (base_digit 10) ?ds" using digits_isdigit [of "nat \<bar>n\<bar>"] digit_of_digit
    by (auto simp: list_all_iff)
  then show ?thesis
    using strtoi64_value [of "[]" sg ?ds 10 c r] assms v unfolding d by (simp add: sg_def)
qed

lemma nul_no_digit: "\<not> base_digit b 0"
  by (simp add: base_digit_def digit_of_def)


section \<open>Properties\<close>



text \<open>
  C25. The number printers never leave their buffers and write the decimal text of every number but the
  least of its type, and \<open>apr_strtoi64\<close> reads that text back.
\<close>

theorem apr_toa_round_trip:
  assumes "\<bar>n\<bar> < 2 ^ 63"
  shows "apr_off_t_toa junk n = Some (decimal n @ [0]) \<and> apr_ltoa junk n = Some (decimal n @ [0]) \<and>
    (\<bar>n\<bar> < 2 ^ 31 \<longrightarrow> apr_itoa junk n = Some (decimal n @ [0])) \<and>
    apr_strtoi64 (decimal n @ [0]) 10 = Some (n, length (decimal n), ENONE) \<and> apr_atoi64 (decimal n @ [0]) = Some n"
proof -
  have "nat \<bar>n\<bar> < 10 ^ 19" using assms by simp
  then have "length (digits (nat \<bar>n\<bar>)) \<le> 19" by (rule digits_length) simp
  then have l: "toa 8 junk n = Some (decimal n @ [0])" using assms by (intro toa_decimal) simp_all
  have i: "toa 4 junk n = Some (decimal n @ [0])" if "\<bar>n\<bar> < 2 ^ 31"
  proof (rule toa_decimal)
    have "nat \<bar>n\<bar> < 10 ^ 12" using that by simp
    then show "length (digits (nat \<bar>n\<bar>)) \<le> 4 * 3" by (intro digits_length) simp_all
  qed (use that in simp)
  have "fits64 n" using assms unfolding fits64_def by linarith
  then have "apr_strtoi64 (decimal n @ [0]) 10 = Some (n, length (decimal n), ENONE)"
    using strtoi64_decimal [of n 0 "[]"] nul_no_digit by simp
  with l i show ?thesis by (simp add: apr_off_t_toa_def apr_ltoa_def apr_itoa_def apr_atoi64_def)
qed

theorem apr_toa_round_trip_witness:
  "apr_off_t_toa (\<lambda>i. 7) (-120) = Some (decimal (-120) @ [0]) \<and> apr_strtoi64 (decimal (-120) @ [0]) 10 = Some (-120, 4, ENONE)"
proof -
  have "length (decimal (-120)) = 4" by code_simp
  then show ?thesis using apr_toa_round_trip [of "-120" "\<lambda>i. 7"] by simp
qed

text \<open>
  Negating the least \<open>int\<close> leaves it as it is, so its digits are negative: \<open>apr_itoa\<close> writes
  \<open>-./,),(-*,(\<close>.
\<close>

lemma apr_itoa_least: "apr_itoa (\<lambda>i. 0) (- (2 ^ 31)) = Some [45, 46, 47, 44, 41, 44, 40, 45, 42, 44, 40, 0]"
  by code_simp

text \<open>
  A product that wraps around to a larger number passes the overflow test: 22000000000000000000 is
  read as 3553255926290448384 without an error.
\<close>

lemma apr_strtoi64_misses_overflow:
  "apr_strtoi64 ([50, 50] @ replicate 18 48 @ [0]) 10 = Some (3553255926290448384, 20, ENONE)"
  by code_simp

end
