(* ===== verification/Apr_Cpystrn.thy ===== *)
theory Apr_Cpystrn
  imports Apr_Strings "HOL-Library.Sublist"
begin

text \<open>
  The functions of \<^verbatim>\<open>strings/apr_cpystrn.c\<close>: bounded copy, the argument tokenizer, the last element of a
  path, white space removal, and the replacements for C library functions a platform may lack. A
  pointer that only moves forward is the list of the bytes from it on; a buffer that is written is a
  list with positions. \<open>None\<close> is an access outside the memory.
\<close>

section \<open>Bounded copy\<close>

text \<open>The loop says whether it returned at the NUL of the source.\<close>

fun cpystrn_loop :: "byte list \<Rightarrow> nat \<Rightarrow> nat \<Rightarrow> byte list \<Rightarrow> (byte list \<times> nat \<times> bool) option" where
  "cpystrn_loop dst d endp [] = (if d < endp then None else Some (dst, d, False))"
| "cpystrn_loop dst d endp (c # src) =
     (if d < endp then
        if d < length dst then
          if c = 0 then Some (dst[d := c], d, True) else cpystrn_loop (dst[d := c]) (d + 1) endp src
        else None
      else Some (dst, d, False))"

definition null_terminate :: "byte list \<Rightarrow> nat \<Rightarrow> (byte list \<times> nat) option" where
  "null_terminate dst d = (if d < length dst then Some (dst[d := 0], d) else None)"

definition apr_cpystrn :: "byte list \<Rightarrow> byte list option \<Rightarrow> nat \<Rightarrow> (byte list \<times> nat) option" where
  "apr_cpystrn dst src dst_size =
     (if dst_size = 0 then Some (dst, 0)
      else case src of
        None \<Rightarrow> null_terminate dst 0
      | Some src \<Rightarrow>
          (case cpystrn_loop dst 0 (dst_size - 1) src of
             None \<Rightarrow> None
           | Some (dst, d, returned) \<Rightarrow> if returned then Some (dst, d) else null_terminate dst d))"

section \<open>The argument tokenizer\<close>

definition blank :: "byte \<Rightarrow> bool" where
  "blank c \<longleftrightarrow> c = 32 \<or> c = 9"

definition SKIP_WHITESPACE :: "byte list \<Rightarrow> byte list option" where
  "SKIP_WHITESPACE = skip_while blank"

fun CHECK_QUOTATION :: "byte list \<Rightarrow> (nat \<times> byte list) option" where
  "CHECK_QUOTATION [] = None"
| "CHECK_QUOTATION (c # cp) = Some (if c = 34 then (1, cp) else if c = 39 then (2, cp) else (0, c # cp))"

definition escapable :: "byte \<Rightarrow> bool" where
  "escapable c \<longleftrightarrow> c = 32 \<or> c = 9 \<or> c = 34 \<or> c = 39"

definition ends_string :: "nat \<Rightarrow> byte \<Rightarrow> bool" where
  "ends_string isquoted c \<longleftrightarrow>
     isquoted = 0 \<and> (c = 32 \<or> c = 9) \<or> isquoted = 1 \<and> c = 34 \<or> isquoted = 2 \<and> c = 39"

fun DETERMINE_NEXTSTRING :: "nat \<Rightarrow> byte list \<Rightarrow> byte list option" where
  "DETERMINE_NEXTSTRING isquoted [] = None"
| "DETERMINE_NEXTSTRING isquoted [c] =
     (if c = 0 then Some [c] else if c = 92 then None
      else if ends_string isquoted c then Some [c] else None)"
| "DETERMINE_NEXTSTRING isquoted (c # e # cp) =
     (if c = 0 then Some (c # e # cp)
      else if c = 92 \<and> escapable e then DETERMINE_NEXTSTRING isquoted cp
      else if ends_string isquoted c then Some (c # e # cp)
      else DETERMINE_NEXTSTRING isquoted (e # cp))"

text \<open>The compression works in place, \<open>cleaned\<close> and \<open>dirty\<close> being positions in the same buffer.\<close>

function REMOVE_ESCAPE_CHARS :: "byte list \<Rightarrow> nat \<Rightarrow> nat \<Rightarrow> bool \<Rightarrow> byte list option" where
  "REMOVE_ESCAPE_CHARS buf cleaned dirty escaped =
     (if dirty < length buf \<and> cleaned < length buf then
        if buf ! dirty = 0 then Some (buf[cleaned := 0])
        else if \<not> escaped \<and> buf ! dirty = 92 then REMOVE_ESCAPE_CHARS buf cleaned (dirty + 1) True
        else REMOVE_ESCAPE_CHARS (buf[cleaned := buf ! dirty]) (cleaned + 1) (dirty + 1) False
      else None)"
  by pat_completeness auto
termination
  by (relation "measure (\<lambda>(buf, cleaned, dirty, escaped). length buf - dirty)") auto

declare REMOVE_ESCAPE_CHARS.simps [simp del]

lemma nextstring_suffix: "DETERMINE_NEXTSTRING q m = Some m' \<Longrightarrow> suffix m' m \<and> m' \<noteq> []"
  by (induction q m rule: DETERMINE_NEXTSTRING.induct) (auto split: if_splits intro: suffix_ConsI)

text \<open>The first pass counts the arguments and the NULL at the end.\<close>

function count_args :: "byte list \<Rightarrow> nat \<Rightarrow> nat option" where
  "count_args ct numargs =
     (case ct of
        [] \<Rightarrow> None
      | c # _ \<Rightarrow>
          if c = 0 then Some numargs
          else case CHECK_QUOTATION ct of
            None \<Rightarrow> None
          | Some (isquoted, ct1) \<Rightarrow>
              (case DETERMINE_NEXTSTRING isquoted ct1 of
                 None \<Rightarrow> None
               | Some ct2 \<Rightarrow>
                   (case SKIP_WHITESPACE (if hd ct2 \<noteq> 0 then tl ct2 else ct2) of
                      None \<Rightarrow> None
                    | Some ct3 \<Rightarrow> count_args ct3 (numargs + 1))))"
  by pat_completeness auto
termination
proof (relation "measure (\<lambda>(ct, numargs). length ct)", simp)
  fix ct numargs c cs q ct1 ct2 ct3 and x :: "nat \<times> byte list"
  assume a: "ct = c # cs" "c \<noteq> 0" "CHECK_QUOTATION ct = Some x" "(q, ct1) = x"
    "DETERMINE_NEXTSTRING q ct1 = Some ct2" "SKIP_WHITESPACE (if hd ct2 \<noteq> 0 then tl ct2 else ct2) = Some ct3"
  have "suffix ct1 ct" using a(1,3,4) by (auto split: if_splits intro: suffix_ConsI)
  moreover have "suffix ct2 ct1" "ct2 \<noteq> []" using nextstring_suffix [OF a(5)] by simp_all
  ultimately have s: "suffix ct2 ct" by (blast intro: suffix_order.trans)
  have "length (if hd ct2 \<noteq> 0 then tl ct2 else ct2) < length ct"
  proof (cases "hd ct2 = 0")
    case True
    then have "ct2 \<noteq> ct" using a(1,2) by auto
    then have "length ct2 < length ct" using s by (metis suffix_length_less strict_suffix_def)
    with True show ?thesis by simp
  next
    case False
    then show ?thesis using suffix_length_le [OF s] \<open>ct2 \<noteq> []\<close> by (cases ct2) simp_all
  qed
  moreover have "length ct3 \<le> length (if hd ct2 \<noteq> 0 then tl ct2 else ct2)"
    using skip_while_Some [OF a(6) [unfolded SKIP_WHITESPACE_def]] by auto
  ultimately show "((ct3, numargs + 1), ct, numargs) \<in> measure (\<lambda>(ct, numargs). length ct)" by simp
qed

declare count_args.simps [simp del]

text \<open>The second pass, with \<open>numargs - 1 - argnum\<close> arguments to go.\<close>

fun fill_args :: "junk \<Rightarrow> nat \<Rightarrow> byte list \<Rightarrow> byte list slot list \<Rightarrow> nat \<Rightarrow> (byte list slot list \<times> nat) option" where
  "fill_args junk 0 cp argv argnum = Some (argv, argnum)"
| "fill_args junk (Suc n) cp argv argnum =
     (case SKIP_WHITESPACE cp of
        None \<Rightarrow> None
      | Some cp \<Rightarrow>
          (case CHECK_QUOTATION cp of
             None \<Rightarrow> None
           | Some (isquoted, ct) \<Rightarrow>
               (case DETERMINE_NEXTSTRING isquoted ct of
                  None \<Rightarrow> None
                | Some cp \<Rightarrow>
                    let cp = tl cp; len = length ct - length cp in
                    (case apr_cpystrn (apr_palloc junk len) (Some ct) len of
                       None \<Rightarrow> None
                     | Some (arg, _) \<Rightarrow>
                         (case REMOVE_ESCAPE_CHARS arg 0 0 False of
                            None \<Rightarrow> None
                          | Some arg \<Rightarrow>
                              if argnum < length argv
                              then fill_args junk n cp (argv[argnum := Val arg]) (argnum + 1)
                              else None)))))"

definition apr_tokenize_to_argv :: "junk \<Rightarrow> byte list \<Rightarrow> byte list slot list option" where
  "apr_tokenize_to_argv junk arg_str =
     (case SKIP_WHITESPACE arg_str of
        None \<Rightarrow> None
      | Some cp \<Rightarrow>
          (case count_args cp 1 of
             None \<Rightarrow> None
           | Some numargs \<Rightarrow>
               (case fill_args junk (numargs - 1) cp (replicate numargs Undef) 0 of
                  None \<Rightarrow> None
                | Some (argv, argnum) \<Rightarrow>
                    if argnum < length argv then Some (argv[argnum := Zero]) else None)))"

section \<open>Paths and white space\<close>

fun strrchr :: "cstring \<Rightarrow> byte \<Rightarrow> nat option" where
  "strrchr [] c = None"
| "strrchr (x # s) c =
     (case strrchr s c of Some i \<Rightarrow> Some (i + 1) | None \<Rightarrow> if x = c then Some 0 else None)"

definition apr_filepath_name_get :: "cstring \<Rightarrow> cstring" where
  "apr_filepath_name_get pathname =
     (case strrchr pathname 47 of Some s \<Rightarrow> drop (s + 1) pathname | None \<Rightarrow> pathname)"

text \<open>Both strings are in one memory, at the positions \<open>dest\<close> and \<open>src\<close>, which may be the same.\<close>

function apr_collapse_spaces :: "byte list \<Rightarrow> nat \<Rightarrow> nat \<Rightarrow> (byte list \<times> nat) option" where
  "apr_collapse_spaces mem dest src =
     (if src < length mem \<and> dest < length mem then
        if mem ! src = 0 then Some (mem[dest := 0], dest)
        else if \<not> apr_isspace (mem ! src) then
          apr_collapse_spaces (mem[dest := mem ! src]) (dest + 1) (src + 1)
        else apr_collapse_spaces mem dest (src + 1)
      else None)"
  by pat_completeness auto
termination
  by (relation "measure (\<lambda>(mem, dest, src). length mem - src)") auto

declare apr_collapse_spaces.simps [simp del]

section \<open>Replacements for C library functions\<close>

text \<open>The result of \<open>malloc\<close> is a parameter: NULL, or a block of at least the size asked for.\<close>

definition strdup :: "(nat \<Rightarrow> byte list option) \<Rightarrow> cstring \<Rightarrow> byte list option" where
  "strdup malloc str =
     (let len = length str + 1 in
      case malloc len of None \<Rightarrow> None | Some sdup \<Rightarrow> Some (memcpy sdup 0 (str @ [0]) len))"

fun strcasecmp_svr4 :: "byte list \<Rightarrow> byte list \<Rightarrow> int option" where
  "strcasecmp_svr4 (p # ps) (q # qs) =
     (if p \<noteq> 0 \<and> q \<noteq> 0 then
        let diff = uint (tolower p) - uint (tolower q)
        in if diff \<noteq> 0 then Some diff else strcasecmp_svr4 ps qs
      else if p \<noteq> 0 then Some 1 else if q \<noteq> 0 then Some (-1) else Some 0)"
| "strcasecmp_svr4 _ _ = None"

fun strncasecmp_svr4 :: "byte list \<Rightarrow> byte list \<Rightarrow> nat \<Rightarrow> int option" where
  "strncasecmp_svr4 p q 0 = Some 0"
| "strncasecmp_svr4 (p # ps) (q # qs) (Suc n) =
     (if \<not> (p \<noteq> 0 \<and> q \<noteq> 0) then Some (sint p - sint q)
      else
        let diff = uint (tolower p) - uint (tolower q)
        in if diff \<noteq> 0 then Some diff else strncasecmp_svr4 ps qs n)"
| "strncasecmp_svr4 _ _ (Suc n) = None"

text \<open>
  The inner loop of \<open>strstr\<close>, entered with the bytes after the first: \<open>Inl\<close> when both strings end
  together, else the rest of the second string.
\<close>

fun strstr_rest :: "byte list \<Rightarrow> byte list \<Rightarrow> (unit + byte list) option" where
  "strstr_rest (p1 # s1) (p2 # s2) =
     (if p1 = p2 then if p1 = 0 then Some (Inl ()) else strstr_rest s1 s2 else Some (Inr (p2 # s2)))"
| "strstr_rest _ _ = None"

text \<open>The loop: \<open>strchr\<close> stops at the byte or at the NUL. The result is the rest of \<open>s1\<close> or NULL.\<close>

function strstr_loop :: "byte list \<Rightarrow> byte list \<Rightarrow> byte list option option" where
  "strstr_loop s1 s2 =
     (case skip_while (\<lambda>c. c \<noteq> hd s2 \<and> c \<noteq> 0) s1 of
        None \<Rightarrow> None
      | Some t \<Rightarrow>
          if hd t \<noteq> hd s2 then Some None
          else case strstr_rest (tl t) (tl s2) of
            None \<Rightarrow> None
          | Some (Inl _) \<Rightarrow> Some (Some t)
          | Some (Inr p2) \<Rightarrow> if hd p2 = 0 then Some (Some t) else strstr_loop (tl t) s2)"
  by pat_completeness auto
termination
  by (relation "measure (\<lambda>(s1, s2). length s1)") (auto dest!: skip_while_Some)

declare strstr_loop.simps [simp del]

definition strstr :: "byte list \<Rightarrow> byte list \<Rightarrow> byte list option option" where
  "strstr s1 s2 = (case s2 of [] \<Rightarrow> None | c # _ \<Rightarrow> if c = 0 then Some (Some s1) else strstr_loop s1 s2)"

section \<open>Bounded copy: lemmas\<close>

lemma cpystrn_loop_copy:
  "0 \<in> set src \<or> n \<le> length src \<Longrightarrow> d + n < length dst \<Longrightarrow>
    cpystrn_loop dst d (d + n) src =
      (let s = take n (string_at src) in
       Some (take d dst @ s @ (if length s < n then 0 # drop (d + length s + 1) dst else drop (d + n) dst),
         d + length s, length s < n))"
proof (induction src arbitrary: dst d n)
  case Nil
  then show ?case by (simp add: string_at_def)
next
  case (Cons c src)
  show ?case
  proof (cases n)
    case 0
    then show ?thesis by simp
  next
    case (Suc k)
    show ?thesis
    proof (cases "c = 0")
      case True
      then show ?thesis using Cons.prems Suc by (simp add: string_at_def upd_conv_take_nth_drop)
    next
      case False
      have "cpystrn_loop (dst[d := c]) (Suc d) (Suc d + k) src =
          (let s = take k (string_at src) in
            Some (take (Suc d) (dst[d := c]) @ s @ (if length s < k then 0 # drop (Suc d + length s + 1) (dst[d := c])
                else drop (Suc d + k) (dst[d := c])), Suc d + length s, length s < k))"
        using Cons.prems False Suc by (intro Cons.IH) auto
      moreover have "take (Suc d) (dst[d := c]) = take d dst @ [c]"
        using Cons.prems Suc by (simp add: take_Suc_conv_app_nth)
      moreover have "string_at (c # src) = c # string_at src" using False by (simp add: string_at_def)
      ultimately show ?thesis using False Suc Cons.prems by (simp add: Let_def)
    qed
  qed
qed

text \<open>The copy is the longest prefix of the string that leaves room for the NUL.\<close>

lemma apr_cpystrn_copies:
  assumes "0 \<in> set src \<or> n \<le> length src" "n < length dst"
  shows "apr_cpystrn dst (Some src) (n + 1) =
    (let s = take n (string_at src) in Some (s @ 0 # drop (length s + 1) dst, length s))"
proof -
  have "length (take n (string_at src)) \<le> n" by simp
  then show ?thesis using assms cpystrn_loop_copy [of src n 0 dst]
    by (auto simp: apr_cpystrn_def Let_def null_terminate_def list_update_append Cons_nth_drop_Suc [symmetric])
qed

section \<open>The tokens of a string\<close>

text \<open>
  The reference: skip blanks, look for a quote, take everything up to the blank or the quote that ends
  the token, jumping over escaped characters, and remove the backslashes.
\<close>

fun split_token :: "nat \<Rightarrow> cstring \<Rightarrow> cstring \<times> cstring" where
  "split_token q [] = ([], [])"
| "split_token q [c] = (if ends_string q c then ([], [c]) else ([c], []))"
| "split_token q (c # e # s) =
     (if c = 92 \<and> escapable e then apfst (\<lambda>w. c # e # w) (split_token q s)
      else if ends_string q c then ([], c # e # s)
      else apfst (Cons c) (split_token q (e # s)))"

fun unescape :: "bool \<Rightarrow> cstring \<Rightarrow> cstring" where
  "unescape esc [] = []"
| "unescape esc (c # s) = (if \<not> esc \<and> c = 92 then unescape True s else c # unescape False s)"

definition quotation :: "cstring \<Rightarrow> nat \<times> cstring" where
  "quotation s = (case s of [] \<Rightarrow> (0, []) | c # t \<Rightarrow> if c = 34 then (1, t) else if c = 39 then (2, t) else (0, s))"

lemma split_token_append: "fst (split_token q s) @ snd (split_token q s) = s"
  by (induction q s rule: split_token.induct) (auto simp: apfst_def map_prod_def split: prod.splits)

function tokens :: "cstring \<Rightarrow> cstring list" where
  "tokens s =
     (let t = dropWhile blank s in
      if t = [] then []
      else let (q, u) = quotation t; (w, rest) = split_token q u
        in unescape False w # tokens (drop 1 rest))"
  by pat_completeness auto
termination
proof (relation "measure length", simp)
  fix s t x q u y w rest
  assume a: "t = dropWhile blank s" "t \<noteq> []" "x = quotation t" "(q, u) = x" "y = split_token q u" "(w, rest) = y"
  have "length t \<le> length s" using a(1) by (simp add: length_dropWhile_le)
  moreover have wr: "w @ rest = u" using split_token_append [of q u] a(5,6) by (metis fst_conv snd_conv)
  moreover have "length (drop 1 rest) < length t"
  proof (cases "u = t")
    case True
    have "rest = [] \<or> length (drop 1 rest) < length u" using wr by (cases rest) auto
    then show ?thesis using True a(2) by auto
  next
    case False
    then have "length u < length t" using a(3,4) by (auto simp: quotation_def split: list.splits if_splits)
    moreover have "length rest \<le> length u" using wr by auto
    ultimately show ?thesis by simp
  qed
  ultimately show "(drop 1 rest, s) \<in> measure length" by simp
qed

declare tokens.simps [simp del]

lemma nextstring_end [simp]: "DETERMINE_NEXTSTRING q (0 # r) = Some (0 # r)"
  by (cases r) simp_all

lemma nextstring_split:
  "cstr s \<Longrightarrow> DETERMINE_NEXTSTRING q (s @ 0 # r) = Some (snd (split_token q s) @ 0 # r)"
  by (induction q s rule: split_token.induct) (auto simp: escapable_def ends_string_def)

lemma check_quotation_split:
  "s \<noteq> [] \<Longrightarrow> CHECK_QUOTATION (s @ 0 # r) = Some (fst (quotation s), snd (quotation s) @ 0 # r)"
  by (cases s) (auto simp: quotation_def)

lemma quotation_cstr: "cstr s \<Longrightarrow> cstr (snd (quotation s))"
  by (cases s) (auto simp: quotation_def)

lemma split_token_cstr: "cstr s \<Longrightarrow> cstr (fst (split_token q s)) \<and> cstr (snd (split_token q s))"
  by (metis cstr_append split_token_append)

lemma skip_whitespace_drop: "SKIP_WHITESPACE (s @ 0 # r) = Some (dropWhile blank s @ 0 # r)"
  unfolding SKIP_WHITESPACE_def by (rule skip_while_stops) (simp add: blank_def)

lemma dropWhile_cstr: "cstr s \<Longrightarrow> cstr (dropWhile p s)"
  by (auto simp: cstr_def dest: set_dropWhileD)

text \<open>The shape of every proof about the tokens: no token left, or one token and the rest.\<close>

lemma tokens_done: "dropWhile blank s = [] \<Longrightarrow> tokens s = []"
  by (subst tokens.simps) (simp del: dropWhile_eq_Nil_conv)

lemma tokens_token:
  "dropWhile blank s \<noteq> [] \<Longrightarrow> quotation (dropWhile blank s) = (q, u) \<Longrightarrow> split_token q u = (w, rest) \<Longrightarrow>
    tokens s = unescape False w # tokens (drop 1 rest)"
  by (subst tokens.simps) (simp add: Let_def del: dropWhile_eq_Nil_conv)

lemma tokens_induct [case_names none token]:
  assumes "\<And>s. dropWhile blank s = [] \<Longrightarrow> P s"
    and "\<And>s q u w rest. dropWhile blank s \<noteq> [] \<Longrightarrow> quotation (dropWhile blank s) = (q, u) \<Longrightarrow>
      split_token q u = (w, rest) \<Longrightarrow> P (drop 1 rest) \<Longrightarrow> P s"
  shows "P s"
proof (induction s rule: tokens.induct)
  case (1 s)
  obtain q u where q: "quotation (dropWhile blank s) = (q, u)" by fastforce
  obtain w rest where w: "split_token q u = (w, rest)" by fastforce
  show ?case
  proof (cases "dropWhile blank s = []")
    case False
    then show ?thesis using assms(2) [OF False q w] 1 [OF refl False refl q [symmetric] refl w [symmetric]] by blast
  qed (rule assms(1))
qed

lemma token_cstr:
  assumes "cstr s" "quotation (dropWhile blank s) = (q, u)" "split_token q u = (w, rest)"
  shows "cstr u" "cstr w" "cstr rest" "u = w @ rest" "cstr (drop 1 rest)"
proof -
  show c: "cstr u" "cstr w" "cstr rest" "u = w @ rest"
    using quotation_cstr [OF dropWhile_cstr [OF assms(1)], of blank] split_token_cstr [of u q]
      split_token_append [of q u] assms(2,3) by simp_all
  then show "cstr (drop 1 rest)" by (cases rest) simp_all
qed

lemma count_args_tokens:
  "cstr s \<Longrightarrow> count_args (dropWhile blank s @ 0 # r) k = Some (k + length (tokens s))"
proof (induction s arbitrary: k rule: tokens_induct)
  case (none s)
  then show ?case by (subst count_args.simps) (simp add: tokens_done del: dropWhile_eq_Nil_conv)
next
  case (token s q u w rest)
  note c = token_cstr [OF token.prems token.hyps(2,3)]
  obtain x xs where x: "dropWhile blank s = x # xs" "x \<noteq> 0"
    using token.hyps(1) dropWhile_cstr [OF token.prems, of blank] by (cases "dropWhile blank s") auto
  have "(if hd (rest @ 0 # r) \<noteq> 0 then tl (rest @ 0 # r) else rest @ 0 # r) = drop 1 rest @ 0 # r"
    using c(3) by (cases rest) auto
  then have "count_args (dropWhile blank s @ 0 # r) k = count_args (dropWhile blank (drop 1 rest) @ 0 # r) (k + 1)"
    using check_quotation_split [OF token.hyps(1), of r] nextstring_split [OF c(1), of q r]
      skip_whitespace_drop [of "drop 1 rest" r] x token.hyps(2,3)
    by (subst count_args.simps) simp
  then show ?case using token.IH [OF c(5), of "k + 1"] tokens_token [OF token.hyps(1-3)] by simp
qed

lemma remove_escapes_result:
  "cstr s \<Longrightarrow> cleaned \<le> dirty \<Longrightarrow> drop dirty buf = s @ 0 # r \<Longrightarrow>
    \<exists>t. REMOVE_ESCAPE_CHARS buf cleaned dirty esc = Some (take cleaned buf @ unescape esc s @ 0 # t)"
proof (induction s arbitrary: buf cleaned dirty esc)
  case Nil
  then have "dirty < length buf" "buf ! dirty = 0" by (metis append_Nil drop_eq_Nil list.distinct(1) not_le) (metis Nil.prems(3) append_Nil hd_drop_conv_nth drop_eq_Nil list.distinct(1) list.sel(1) not_le)
  then show ?case using Nil by (subst REMOVE_ESCAPE_CHARS.simps) (auto simp: upd_conv_take_nth_drop)
next
  case (Cons c s)
  have d: "dirty < length buf" using Cons.prems(3) by (cases "dirty < length buf") auto
  then have b: "buf ! dirty = c" "drop (Suc dirty) buf = s @ 0 # r"
    using Cons.prems(3) Cons_nth_drop_Suc [OF d] by auto
  show ?case
  proof (cases "\<not> esc \<and> c = 92")
    case True
    then show ?thesis using Cons.IH [of cleaned "Suc dirty" buf True] Cons.prems d b
      by (subst REMOVE_ESCAPE_CHARS.simps) auto
  next
    case False
    have "\<exists>t. REMOVE_ESCAPE_CHARS (buf[cleaned := c]) (Suc cleaned) (Suc dirty) False =
        Some (take (Suc cleaned) (buf[cleaned := c]) @ unescape False s @ 0 # t)"
      using Cons.prems b by (intro Cons.IH) auto
    moreover have "take (Suc cleaned) (buf[cleaned := c]) = take cleaned buf @ [c]"
      using Cons.prems(2) d by (simp add: take_Suc_conv_app_nth)
    ultimately show ?thesis using False Cons.prems d b by (subst REMOVE_ESCAPE_CHARS.simps) auto
  qed
qed

text \<open>One round of the second pass: the argument is copied into a block of its length and unescaped.\<close>

lemma unescape_cstr: "cstr s \<Longrightarrow> cstr (unescape esc s)"
  by (induction esc s rule: unescape.induct) auto

lemma copy_argument:
  assumes "cstr w" "length (cp :: byte list) = length ct - (length w + 1)" "ct = w @ x # cp"
  shows "\<exists>arg blk. apr_cpystrn (apr_palloc junk (length ct - length cp)) (Some ct) (length ct - length cp) = Some (blk, length w) \<and>
    REMOVE_ESCAPE_CHARS blk 0 0 False = Some arg \<and> string_at arg = unescape False w"
proof -
  have "take (length w) (string_at ct) = w"
    using assms(1,3) take_string_at [of "length w" ct] by (auto simp: cstr_def)
  then have "apr_cpystrn (apr_palloc junk (length w + 1)) (Some ct) (length w + 1) = Some (w @ [0], length w)"
    using apr_cpystrn_copies [of ct "length w" "apr_palloc junk (length w + 1)"] assms(3) by simp
  moreover have "length ct - length cp = length w + 1" using assms(3) by simp
  moreover obtain t where "REMOVE_ESCAPE_CHARS (w @ [0]) 0 0 False = Some (unescape False w @ 0 # t)"
    using remove_escapes_result [OF assms(1), of 0 0 "w @ [0]" "[]" False] by auto
  ultimately show ?thesis using unescape_cstr [OF assms(1)] by auto
qed

lemma fill_args_tokens:
  "cstr s \<Longrightarrow> argnum + length (tokens s) \<le> length argv \<Longrightarrow>
    \<exists>args. fill_args junk (length (tokens s)) (s @ 0 # r) argv argnum =
        Some (take argnum argv @ map Val args @ drop (argnum + length (tokens s)) argv, argnum + length (tokens s)) \<and>
      map string_at args = tokens s"
proof (induction s arbitrary: argv argnum rule: tokens_induct)
  case (none s)
  then show ?case by (simp add: tokens_done del: dropWhile_eq_Nil_conv)
next
  case (token s q u w rest)
  note c = token_cstr [OF token.prems(1) token.hyps(2,3)] and tk = tokens_token [OF token.hyps(1-3)]
  obtain x cp where x: "rest @ 0 # r = x # cp" by (cases rest) auto
  let ?len = "length (u @ 0 # r) - length cp"
  obtain arg blk where arg: "apr_cpystrn (apr_palloc junk ?len) (Some (u @ 0 # r)) ?len = Some (blk, length w)"
      "REMOVE_ESCAPE_CHARS blk 0 0 False = Some arg" "string_at arg = unescape False w"
    using copy_argument [of w cp "u @ 0 # r" x junk] c(2,4) x by auto
  have room: "argnum < length argv" using token.prems(2) tk by simp
  let ?argv = "argv[argnum := Val arg]" and ?n = "length (tokens (drop 1 rest))"
  have step: "fill_args junk (Suc ?n) (s @ 0 # r) argv argnum = fill_args junk ?n cp ?argv (argnum + 1)"
    using skip_whitespace_drop [of s r] check_quotation_split [OF token.hyps(1), of r] nextstring_split [OF c(1), of q r]
      token.hyps(2,3) x arg(1,2) room by (simp add: Let_def)
  have "\<exists>args. fill_args junk ?n cp ?argv (argnum + 1) =
        Some (take (argnum + 1) ?argv @ map Val args @ drop (argnum + 1 + ?n) ?argv, argnum + 1 + ?n) \<and>
      map string_at args = tokens (drop 1 rest)"
  proof (cases rest)
    case Nil
    then have "tokens (drop 1 rest) = []" by (simp add: tokens_done)
    then show ?thesis using append_take_drop_id [of "argnum + 1" ?argv] by simp
  next
    case (Cons y ys)
    then have "cp = drop 1 rest @ 0 # r" using x by simp
    then show ?thesis using token.IH [OF c(5), of "argnum + 1" ?argv] token.prems(2) tk by simp
  qed
  then obtain args where "fill_args junk ?n cp ?argv (argnum + 1) =
        Some (take (argnum + 1) ?argv @ map Val args @ drop (argnum + 1 + ?n) ?argv, argnum + 1 + ?n)"
      "map string_at args = tokens (drop 1 rest)" by blast
  moreover have "take (argnum + 1) ?argv = take argnum argv @ [Val arg]"
    using room by (simp add: take_Suc_conv_app_nth)
  ultimately show ?case using step arg(3) by (intro exI [of _ "arg # args"]) (simp add: tk)
qed

lemma tokenize_tokens:
  assumes "cstr s"
  shows "\<exists>args. apr_tokenize_to_argv junk (s @ 0 # r) = Some (map Val args @ [Zero]) \<and> map string_at args = tokens s"
proof -
  let ?t = "dropWhile blank s" and ?n = "length (tokens s)"
  have i: "dropWhile blank ?t = ?t" by (induction s) auto
  have drop_one: "drop n (Undef # replicate n Undef) = [Undef]" for n by (induction n) simp_all
  have t: "tokens ?t = tokens s" by (subst (1 2) tokens.simps) (simp add: i)
  have "SKIP_WHITESPACE (s @ 0 # r) = Some (?t @ 0 # r)" by (rule skip_whitespace_drop)
  moreover have "count_args (?t @ 0 # r) 1 = Some (Suc ?n)" using count_args_tokens [OF assms, of r 1] by simp
  moreover obtain args where "fill_args junk ?n (?t @ 0 # r) (replicate (Suc ?n) Undef) 0 = Some (map Val args @ [Undef], ?n)"
      "map string_at args = tokens s"
    using fill_args_tokens [OF dropWhile_cstr [OF assms], of 0 blank "replicate (Suc ?n) Undef" junk r]
    by (auto simp: t drop_one)
  moreover have "length args = ?n" using calculation(4) by (metis length_map)
  ultimately show ?thesis by (auto simp: apr_tokenize_to_argv_def list_update_append)
qed

section \<open>Quoting\<close>

text \<open>A way to write an argument without backslashes: between quotes, with the quotes in it escaped.\<close>

definition quote_char :: "byte \<Rightarrow> cstring" where
  "quote_char c = (if c = 34 then [92, 34] else [c])"

definition quote_arg :: "cstring \<Rightarrow> cstring" where
  "quote_arg a = 34 # concat (map quote_char a) @ [34]"

definition command_line :: "cstring list \<Rightarrow> cstring" where
  "command_line args = concat (map (\<lambda>a. quote_arg a @ [32]) args)"

definition plain_arg :: "cstring \<Rightarrow> bool" where
  "plain_arg a \<longleftrightarrow> cstr a \<and> 92 \<notin> set a"

lemma split_quoted:
  "92 \<notin> set a \<Longrightarrow> split_token 1 (concat (map quote_char a) @ 34 # t) = (concat (map quote_char a), 34 # t)"
proof (induction a)
  case Nil
  show ?case by (cases t) (simp_all add: ends_string_def)
next
  case (Cons c a)
  obtain e u where e: "concat (map quote_char a) @ 34 # t = e # u" by (cases "concat (map quote_char a)") auto
  show ?case
  proof (cases "c = 34")
    case True
    then show ?thesis using Cons by (simp add: quote_char_def escapable_def)
  next
    case False
    then have "split_token 1 (c # e # u) = apfst (Cons c) (split_token 1 (e # u))"
      using Cons.prems by (simp add: ends_string_def)
    moreover have "concat (map quote_char (c # a)) = c # concat (map quote_char a)"
      using False by (simp add: quote_char_def)
    ultimately show ?thesis using Cons e by (metis apfst_conv append_Cons list.set_intros(2))
  qed
qed

lemma unescape_quoted: "92 \<notin> set a \<Longrightarrow> unescape False (concat (map quote_char a)) = a"
  by (induction a) (auto simp: quote_char_def)

lemma tokens_command_line:
  "\<forall>a \<in> set args. 92 \<notin> set a \<Longrightarrow> b \<in> {[], [32]} \<Longrightarrow> tokens (b @ command_line args) = args"
proof (induction args arbitrary: b)
  case Nil
  then show ?case by (subst tokens.simps) (auto simp: command_line_def blank_def)
next
  case (Cons a args)
  let ?q = "concat (map quote_char a)" and ?rest = "34 # [32] @ command_line args"
  have d: "dropWhile blank (b @ command_line (a # args)) = 34 # ?q @ ?rest"
    using Cons.prems by (auto simp: command_line_def quote_arg_def blank_def)
  have "tokens (b @ command_line (a # args)) = unescape False ?q # tokens (drop 1 ?rest)"
  proof (rule tokens_token)
    show "split_token 1 (?q @ ?rest) = (?q, ?rest)" using Cons.prems(1) by (intro split_quoted) simp
  qed (simp_all add: d quotation_def)
  then show ?case using Cons.IH [of "[32]"] Cons.prems by (simp add: unescape_quoted)
qed

lemma command_line_cstr: "\<forall>a \<in> set args. cstr a \<Longrightarrow> cstr (command_line args)"
  by (induction args) (auto simp: command_line_def quote_arg_def quote_char_def cstr_def)

section \<open>The other functions\<close>

lemma name_get_last:
  "apr_filepath_name_get s = (if 47 \<in> set s then rev (takeWhile (\<lambda>c. c \<noteq> 47) (rev s)) else s)"
proof -
  have r: "strrchr s c = None \<longleftrightarrow> c \<notin> set s" for s c by (induction s) (auto split: option.splits)
  have l: "strrchr s c = Some i \<Longrightarrow> drop (Suc i) s = rev (takeWhile (\<lambda>x. x \<noteq> c) (rev s))" for s c i
  proof (induction s arbitrary: i)
    case (Cons x s)
    show ?case
    proof (cases "strrchr s c")
      case None
      then have "c \<notin> set s" by (simp add: r)
      with Cons.prems None show ?thesis by (auto simp: takeWhile_append split: if_splits)
    next
      case (Some j)
      then have "c \<in> set s" by (metis option.distinct(1) r)
      with Cons Some show ?thesis by (auto simp: takeWhile_append)
    qed
  qed simp
  show ?thesis using r [of s 47] l [of s 47] by (cases "strrchr s 47") (auto simp: apr_filepath_name_get_def)
qed

lemma collapse_spaces_in_place:
  "cstr s \<Longrightarrow> dest \<le> src \<Longrightarrow> drop src mem = s @ 0 # r \<Longrightarrow>
    \<exists>t. apr_collapse_spaces mem dest src =
      Some (take dest mem @ filter (\<lambda>c. \<not> apr_isspace c) s @ 0 # t, dest + length (filter (\<lambda>c. \<not> apr_isspace c) s))"
proof (induction s arbitrary: mem dest src)
  case Nil
  have "src < length mem" using Nil.prems(3) by (cases "src < length mem") auto
  moreover have "mem ! src = 0" using Nil.prems(3) calculation Cons_nth_drop_Suc [of src mem] by auto
  ultimately show ?case using Nil by (subst apr_collapse_spaces.simps) (auto simp: upd_conv_take_nth_drop)
next
  case (Cons c s)
  have d: "src < length mem" using Cons.prems(3) by (cases "src < length mem") auto
  then have b: "mem ! src = c" "drop (Suc src) mem = s @ 0 # r"
    using Cons.prems(3) Cons_nth_drop_Suc [OF d] by auto
  show ?case
  proof (cases "apr_isspace c")
    case True
    then show ?thesis using Cons.IH [of dest "Suc src" mem] Cons.prems d b
      by (subst apr_collapse_spaces.simps) auto
  next
    case False
    have "\<exists>t. apr_collapse_spaces (mem[dest := c]) (Suc dest) (Suc src) =
        Some (take (Suc dest) (mem[dest := c]) @ filter (\<lambda>c. \<not> apr_isspace c) s @ 0 # t,
          Suc dest + length (filter (\<lambda>c. \<not> apr_isspace c) s))"
      using Cons.prems b by (intro Cons.IH) auto
    moreover have "take (Suc dest) (mem[dest := c]) = take dest mem @ [c]"
      using Cons.prems(2) d by (simp add: take_Suc_conv_app_nth)
    ultimately show ?thesis using False Cons.prems d b by (subst apr_collapse_spaces.simps) auto
  qed
qed

lemma strcasecmp_svr4_sign:
  "cstr s \<Longrightarrow> cstr t \<Longrightarrow> map_option sgn (strcasecmp_svr4 (s @ 0 # q) (t @ 0 # r)) = Some (sgn (strcasecmp s t))"
  by (induction s t rule: strcasecmp.induct)
    (auto simp: word_uint_eq_iff [symmetric] dest: uint_tolower_pos)

lemma strncasecmp_svr4_zero:
  "cstr s \<Longrightarrow> cstr t \<Longrightarrow>
    \<exists>d. strncasecmp_svr4 (s @ 0 # q) (t @ 0 # r) n = Some d \<and> (d = 0 \<longleftrightarrow> fold_case (take n s) = fold_case (take n t))"
proof (induction "s @ 0 # q" "t @ 0 # r" n arbitrary: s t rule: strncasecmp_svr4.induct)
  case (2 p ps q' qs n)
  then show ?case
    by (cases s; cases t) (auto simp: fold_case_def word_uint_eq_iff [symmetric] signed_eq_0_iff)
qed (auto simp: fold_case_def)

text \<open>The inner loop of \<open>strstr\<close> finds out whether the second string is a prefix of the first.\<close>

lemma strstr_rest_prefix:
  "cstr s \<Longrightarrow> cstr t \<Longrightarrow>
    \<exists>x. strstr_rest (s @ 0 # q) (t @ 0 # r) = Some x \<and>
      (prefix t s \<longleftrightarrow> (case x of Inl _ \<Rightarrow> True | Inr p2 \<Rightarrow> hd p2 = 0))"
  by (induction s arbitrary: t; case_tac t) auto

fun occurrence :: "cstring \<Rightarrow> cstring \<Rightarrow> nat option" where
  "occurrence t [] = (if t = [] then Some 0 else None)"
| "occurrence t (c # s) = (if prefix t (c # s) then Some 0 else map_option Suc (occurrence t s))"

lemma strstr_loop_first:
  assumes "cstr t" "c \<noteq> 0"
  shows "cstr s \<Longrightarrow> strstr_loop (s @ 0 # q) (c # t @ 0 # r) =
    Some (map_option (\<lambda>i. drop i s @ 0 # q) (occurrence (c # t) s))"
proof (induction s)
  case Nil
  then show ?case using assms by (subst strstr_loop.simps) simp
next
  case (Cons e s)
  show ?case
  proof (cases "e = c")
    case False
    have "strstr_loop ((e # s) @ 0 # q) (c # t @ 0 # r) = strstr_loop (s @ 0 # q) (c # t @ 0 # r)"
      using False Cons.prems by (subst (1 2) strstr_loop.simps) (simp cong: option.case_cong)
    then show ?thesis using Cons False by (simp add: option.map_comp comp_def)
  next
    case True
    obtain x where x: "strstr_rest (s @ 0 # q) (t @ 0 # r) = Some x"
      "prefix t s \<longleftrightarrow> (case x of Inl _ \<Rightarrow> True | Inr p2 \<Rightarrow> hd p2 = 0)"
      using strstr_rest_prefix [of s t q r] Cons.prems assms by auto
    have "strstr_loop ((e # s) @ 0 # q) (c # t @ 0 # r) =
        (if prefix t s then Some (Some ((e # s) @ 0 # q)) else strstr_loop (s @ 0 # q) (c # t @ 0 # r))"
      using True x assms by (subst strstr_loop.simps) (auto split: sum.splits)
    then show ?thesis using Cons True by (simp add: option.map_comp comp_def)
  qed
qed

text \<open>\<open>strstr\<close> returns the pointer to the first occurrence, or NULL.\<close>

lemma strstr_first:
  assumes "cstr s" "cstr t"
  shows "strstr (s @ 0 # q) (t @ 0 # r) = Some (map_option (\<lambda>i. drop i s @ 0 # q) (occurrence t s))"
proof (cases t)
  case Nil
  then show ?thesis by (cases s) (simp_all add: strstr_def)
next
  case (Cons c u)
  then show ?thesis using strstr_loop_first [of u c s q r] assms by (simp add: strstr_def)
qed

section \<open>Properties\<close>

text \<open>
  C10. On every terminated string \<open>apr_tokenize_to_argv\<close> returns: its two passes agree on the number of
  arguments, so it fills the array it allocates exactly up to the closing NULL, it never reads past the
  terminating NUL of the string and each copy fits its block. The arguments are the tokens of the
  string.
\<close>

theorem apr_tokenize_to_argv_correct:
  assumes "cstr s"
  shows "\<exists>args. apr_tokenize_to_argv junk (s @ 0 # r) = Some (map Val args @ [Zero]) \<and> map string_at args = tokens s"
  using assms by (rule tokenize_tokens)

theorem apr_tokenize_to_argv_correct_witness:
  "\<exists>args. apr_tokenize_to_argv (\<lambda>i. 7) ([97, 32, 39, 98, 32, 99] @ 0 # [5]) = Some (map Val args @ [Zero]) \<and>
    map string_at args = [[97], [98, 32, 99]]"
proof -
  have t: "tokens [97, 32, 39, 98, 32, 99] = [[97], [98, 32, 99]]" by code_simp
  have "cstr [97, 32, 39, 98, 32, 99]" by simp
  from apr_tokenize_to_argv_correct [OF this, of "\<lambda>i. 7" "[5]"] show ?thesis unfolding t .
qed

text \<open>
  C39. Arguments without backslashes come back as they were from a command line that puts each between
  quotes and escapes the quotes in it, blanks and empty arguments included.
\<close>

theorem apr_tokenize_round_trip:
  assumes "\<forall>a \<in> set as. plain_arg a"
  shows "\<exists>args. apr_tokenize_to_argv junk (command_line as @ 0 # r) = Some (map Val args @ [Zero]) \<and>
    map string_at args = as"
proof -
  have c: "cstr (command_line as)" using assms by (intro command_line_cstr) (simp add: plain_arg_def)
  have "tokens (command_line as) = as"
    using tokens_command_line [of as "[]"] assms by (simp add: plain_arg_def)
  then show ?thesis using tokenize_tokens [OF c, of junk r] by simp
qed

theorem apr_tokenize_round_trip_witness:
  "\<exists>args. apr_tokenize_to_argv (\<lambda>i. 7) (command_line [[97, 34, 32], []] @ 0 # []) = Some (map Val args @ [Zero]) \<and>
    map string_at args = [[97, 34, 32], []]"
  by (rule apr_tokenize_round_trip) (simp add: plain_arg_def)

text \<open>
  The two macros disagree on a backslash before a backslash, which only the second takes as an escape:
  the quoted argument that ends with an escaped backslash runs on past its closing quote.
\<close>

lemma tokenize_backslash: "tokens [34, 97, 92, 92, 34, 32, 98] = [[97, 92, 34, 32, 98]]"
  by code_simp

end
