(* ===== verification/Apr_Cstr.thy ===== *)
theory Apr_Cstr
  imports Apr_Array Apr_Strings
begin

text \<open>
  The C string functions of \<^verbatim>\<open>strings/apr_cstr.c\<close> and the tokenizer \<^verbatim>\<open>strings/apr_strtok.c\<close> they use. A
  string that is cut in place is a buffer with positions; \<open>None\<close> is an access outside it. The pointers
  that \<open>apr_cstr_split\<close> collects are pairs of a character block and an offset; the array that holds them
  is the one of \<open>Apr_Array\<close>. Separators are C strings.
\<close>

section \<open>Tokens in place\<close>

text \<open>\<open>while (p *s) ++s\<close> from a position on.\<close>

definition scan :: "(byte \<Rightarrow> bool) \<Rightarrow> byte list \<Rightarrow> nat \<Rightarrow> nat option" where
  "scan p buf i = map_option (\<lambda>m. length buf - length m) (skip_while p (drop i buf))"

text \<open>The results are the buffer, the new value of \<open>*last\<close> and the token, which may be NULL.\<close>

definition apr_strtok :: "byte list \<Rightarrow> nat option \<Rightarrow> cstring \<Rightarrow> nat \<Rightarrow> (byte list \<times> nat \<times> nat option) option" where
  "apr_strtok buf str sep lst =
     (let str = (case str of None \<Rightarrow> lst | Some i \<Rightarrow> i) in
      case scan (\<lambda>c. c \<noteq> 0 \<and> c \<in> set sep) buf str of
        None \<Rightarrow> None
      | Some token \<Rightarrow>
          if buf ! token = 0 then Some (buf, lst, None)
          else case scan (\<lambda>c. c \<noteq> 0 \<and> c \<notin> set sep) buf (token + 1) of
            None \<Rightarrow> None
          | Some e \<Rightarrow>
              if buf ! e \<noteq> 0 then Some (buf[e := 0], e + 1, Some token) else Some (buf, e, Some token))"

text \<open>\<open>str\<close> is a pointer to a pointer, both of which may be NULL.\<close>

definition apr_cstr_tokenize ::
    "cstring option \<Rightarrow> nat option option \<Rightarrow> byte list \<Rightarrow> (byte list \<times> nat option option \<times> nat option) option" where
  "apr_cstr_tokenize sep str buf =
     (case (sep, str) of
        (Some sep, Some (Some p)) \<Rightarrow>
          (case sep of
             [csep] \<Rightarrow>
               (case scan (\<lambda>c. c = csep) buf p of
                  None \<Rightarrow> None
                | Some token \<Rightarrow>
                    if buf ! token = 0 then Some (buf, str, None)
                    else case scan (\<lambda>c. c \<noteq> csep \<and> c \<noteq> 0) buf token of
                      None \<Rightarrow> None
                    | Some nxt \<Rightarrow>
                        if buf ! nxt = 0 then Some (buf, Some (Some nxt), Some token)
                        else Some (buf[nxt := 0], Some (Some (nxt + 1)), Some token))
           | _ \<Rightarrow>
               (case apr_strtok buf None sep p of
                  None \<Rightarrow> None
                | Some (buf, p, token) \<Rightarrow> Some (buf, Some (Some p), token)))
      | _ \<Rightarrow> Some (buf, str, None))"

section \<open>Splitting\<close>

text \<open>The positions run one past those of the source, so that they are never negative.\<close>

fun chop_end :: "byte list \<Rightarrow> nat \<Rightarrow> nat \<Rightarrow> nat" where
  "chop_end buf p 0 = 0"
| "chop_end buf p (Suc e) = (if p \<le> e \<and> apr_isspace (buf ! e) then chop_end buf p e else Suc e)"

definition chop_space :: "byte list \<Rightarrow> nat \<Rightarrow> (byte list \<times> nat) option" where
  "chop_space buf p =
     (case scan apr_isspace buf p of
        None \<Rightarrow> None
      | Some p \<Rightarrow>
          (case scan (\<lambda>c. c \<noteq> 0) buf p of
             None \<Rightarrow> None
           | Some nul \<Rightarrow> Some (buf[chop_end buf p nul := 0], p)))"

type_synonym ptr_array = "ptr store \<times> apr_array_header_t"

text \<open>The loop over the tokens of the block \<open>b\<close>, whose contents are \<open>buf\<close>.\<close>

partial_function (option) split_loop ::
    "nat \<Rightarrow> cstring \<Rightarrow> bool \<Rightarrow> byte list \<Rightarrow> nat option option \<Rightarrow> nat option \<Rightarrow> ptr_array \<Rightarrow> (byte list \<times> ptr_array) option" where
  "split_loop b sep_chars chop buf pats tok arr =
     (case tok of
        None \<Rightarrow> Some (buf, arr)
      | Some p \<Rightarrow>
          (case (if chop then chop_space buf p else Some (buf, p)) of
             None \<Rightarrow> None
           | Some (buf, p) \<Rightarrow>
               if length buf \<le> p then None
               else let arr = (if buf ! p \<noteq> 0 then push_val apr_array_push arr (b, p) else arr) in
                 (case apr_cstr_tokenize (Some sep_chars) pats buf of
                    None \<Rightarrow> None
                  | Some (buf, pats, tok) \<Rightarrow> split_loop b sep_chars chop buf pats tok arr)))"

text \<open>The character blocks are \<open>mem\<close>; the copy of the input is a new one.\<close>

definition apr_cstr_split_append ::
    "byte list list \<Rightarrow> ptr_array \<Rightarrow> cstring \<Rightarrow> cstring \<Rightarrow> bool \<Rightarrow> (byte list list \<times> ptr_array) option" where
  "apr_cstr_split_append mem arr input sep_chars chop =
     (let b = length mem in
      case apr_cstr_tokenize (Some sep_chars) (Some (Some 0)) (input @ [0]) of
        None \<Rightarrow> None
      | Some (buf, pats, tok) \<Rightarrow>
          (case split_loop b sep_chars chop buf pats tok arr of
             None \<Rightarrow> None
           | Some (buf, arr) \<Rightarrow> Some (mem @ [buf], arr)))"

definition apr_cstr_split ::
    "byte list list \<Rightarrow> ptr store \<Rightarrow> nat \<Rightarrow> cstring \<Rightarrow> cstring \<Rightarrow> bool \<Rightarrow> (byte list list \<times> ptr_array) option" where
  "apr_cstr_split mem st pl input sep_chars chop =
     apr_cstr_split_append mem (apr_array_make st pl 5) input sep_chars chop"

section \<open>Lists, lines and comparisons\<close>

fun apr_cstr_match_list :: "cstring \<Rightarrow> cstring list \<Rightarrow> bool" where
  "apr_cstr_match_list str [] = False"
| "apr_cstr_match_list str (this_str # list) = (if this_str = str then True else apr_cstr_match_list str list)"

fun apr_cstr_count_newlines :: "byte list \<Rightarrow> nat option" where
  "apr_cstr_count_newlines [] = None"
| "apr_cstr_count_newlines [c] = (if c = 0 then Some 0 else None)"
| "apr_cstr_count_newlines (c # d # p) =
     (if c = 0 then Some 0
      else if c = 10 then map_option Suc (apr_cstr_count_newlines (if d = 13 then p else d # p))
      else if c = 13 then map_option Suc (apr_cstr_count_newlines (if d = 10 then p else d # p))
      else apr_cstr_count_newlines (d # p))"

definition ucharmap :: "int list" where
  "ucharmap = [
     0x0, 0x1, 0x2, 0x3, 0x4, 0x5, 0x6, 0x7, 0x8, 0x9, 0xa, 0xb, 0xc, 0xd, 0xe, 0xf,
     0x10, 0x11, 0x12, 0x13, 0x14, 0x15, 0x16, 0x17, 0x18, 0x19, 0x1a, 0x1b, 0x1c, 0x1d, 0x1e, 0x1f,
     0x20, 0x21, 0x22, 0x23, 0x24, 0x25, 0x26, 0x27, 0x28, 0x29, 0x2a, 0x2b, 0x2c, 0x2d, 0x2e, 0x2f,
     0x30, 0x31, 0x32, 0x33, 0x34, 0x35, 0x36, 0x37, 0x38, 0x39, 0x3a, 0x3b, 0x3c, 0x3d, 0x3e, 0x3f,
     0x40, 0x61, 0x62, 0x63, 0x64, 0x65, 0x66, 0x67, 0x68, 0x69, 0x6a, 0x6b, 0x6c, 0x6d, 0x6e, 0x6f,
     0x70, 0x71, 0x72, 0x73, 0x74, 0x75, 0x76, 0x77, 0x78, 0x79, 0x7a, 0x5b, 0x5c, 0x5d, 0x5e, 0x5f,
     0x60, 0x61, 0x62, 0x63, 0x64, 0x65, 0x66, 0x67, 0x68, 0x69, 0x6a, 0x6b, 0x6c, 0x6d, 0x6e, 0x6f,
     0x70, 0x71, 0x72, 0x73, 0x74, 0x75, 0x76, 0x77, 0x78, 0x79, 0x7a, 0x7b, 0x7c, 0x7d, 0x7e, 0x7f,
     0x80, 0x81, 0x82, 0x83, 0x84, 0x85, 0x86, 0x87, 0x88, 0x89, 0x8a, 0x8b, 0x8c, 0x8d, 0x8e, 0x8f,
     0x90, 0x91, 0x92, 0x93, 0x94, 0x95, 0x96, 0x97, 0x98, 0x99, 0x9a, 0x9b, 0x9c, 0x9d, 0x9e, 0x9f,
     0xa0, 0xa1, 0xa2, 0xa3, 0xa4, 0xa5, 0xa6, 0xa7, 0xa8, 0xa9, 0xaa, 0xab, 0xac, 0xad, 0xae, 0xaf,
     0xb0, 0xb1, 0xb2, 0xb3, 0xb4, 0xb5, 0xb6, 0xb7, 0xb8, 0xb9, 0xba, 0xbb, 0xbc, 0xbd, 0xbe, 0xbf,
     0xc0, 0xc1, 0xc2, 0xc3, 0xc4, 0xc5, 0xc6, 0xc7, 0xc8, 0xc9, 0xca, 0xcb, 0xcc, 0xcd, 0xce, 0xcf,
     0xd0, 0xd1, 0xd2, 0xd3, 0xd4, 0xd5, 0xd6, 0xd7, 0xd8, 0xd9, 0xda, 0xdb, 0xdc, 0xdd, 0xde, 0xdf,
     0xe0, 0xe1, 0xe2, 0xe3, 0xe4, 0xe5, 0xe6, 0xe7, 0xe8, 0xe9, 0xea, 0xeb, 0xec, 0xed, 0xee, 0xef,
     0xf0, 0xf1, 0xf2, 0xf3, 0xf4, 0xf5, 0xf6, 0xf7, 0xf8, 0xf9, 0xfa, 0xfb, 0xfc, 0xfd, 0xfe, 0xff]"

fun apr_cstr_casecmp :: "byte list \<Rightarrow> byte list \<Rightarrow> int option" where
  "apr_cstr_casecmp (c1 # str1) (c2 # str2) =
     (let cmp = ucharmap ! unat c1 - ucharmap ! unat c2
      in if cmp \<noteq> 0 \<or> c1 = 0 then Some cmp else apr_cstr_casecmp str1 str2)"
| "apr_cstr_casecmp _ _ = None"

fun apr_cstr_casecmpn :: "byte list \<Rightarrow> byte list \<Rightarrow> nat \<Rightarrow> int option" where
  "apr_cstr_casecmpn s1 s2 0 = Some 0"
| "apr_cstr_casecmpn (c1 # str1) (c2 # str2) (Suc n) =
     (let cmp = ucharmap ! unat c1 - ucharmap ! unat c2
      in if cmp \<noteq> 0 \<or> c1 = 0 then Some cmp else apr_cstr_casecmpn str1 str2 n)"
| "apr_cstr_casecmpn _ _ (Suc n) = None"

section \<open>Checked numbers\<close>

text \<open>
  The status and the number, which is stored only on success. \<open>*endptr\<close> is the byte at the offset that
  \<open>apr_strtoi64\<close> returns.
\<close>

definition apr_cstr_strtoui64 :: "byte list \<Rightarrow> int \<Rightarrow> int \<Rightarrow> int \<Rightarrow> (apr_status_t \<times> int option) option" where
  "apr_cstr_strtoui64 str minval maxval base =
     (case apr_strtoi64 str base of
        None \<Rightarrow> None
      | Some (val, endptr, err) \<Rightarrow>
          if length str \<le> endptr then None
          else if err = EINVAL \<or> endptr = 0 \<or> str ! 0 = 0 \<or> str ! endptr \<noteq> 0 then Some (APR_EINVAL, None)
          else if err = ERANGE \<and> (val = INT64_MIN \<or> val = INT64_MAX) \<or> val < 0 \<or> val < minval \<or> maxval < val
          then Some (APR_ERANGE, None)
          else Some (APR_SUCCESS, Some val))"

definition apr_cstr_atoui64 :: "byte list \<Rightarrow> (apr_status_t \<times> int option) option" where
  "apr_cstr_atoui64 str = apr_cstr_strtoui64 str 0 (2 ^ 64 - 1) 10"

definition apr_cstr_atoui :: "byte list \<Rightarrow> (apr_status_t \<times> int option) option" where
  "apr_cstr_atoui str = apr_cstr_strtoui64 str 0 (2 ^ 32 - 1) 10"

definition apr_cstr_strtoi64 :: "byte list \<Rightarrow> int \<Rightarrow> int \<Rightarrow> int \<Rightarrow> (apr_status_t \<times> int option) option" where
  "apr_cstr_strtoi64 str minval maxval base =
     (case apr_strtoi64 str base of
        None \<Rightarrow> None
      | Some (val, endptr, err) \<Rightarrow>
          if length str \<le> endptr then None
          else if err = EINVAL \<or> endptr = 0 \<or> str ! 0 = 0 \<or> str ! endptr \<noteq> 0 then Some (APR_EINVAL, None)
          else if err = ERANGE \<and> (val = INT64_MIN \<or> val = INT64_MAX) \<or> val < minval \<or> maxval < val
          then Some (APR_ERANGE, None)
          else Some (APR_SUCCESS, Some val))"

definition apr_cstr_atoi64 :: "byte list \<Rightarrow> (apr_status_t \<times> int option) option" where
  "apr_cstr_atoi64 str = apr_cstr_strtoi64 str INT64_MIN INT64_MAX 10"

definition apr_cstr_atoi :: "byte list \<Rightarrow> (apr_status_t \<times> int option) option" where
  "apr_cstr_atoi str = apr_cstr_strtoi64 str (- (2 ^ 31)) (2 ^ 31 - 1) 10"

text \<open>The rest of the string after the prefix, or NULL.\<close>

definition apr_cstr_skip_prefix :: "cstring \<Rightarrow> cstring \<Rightarrow> cstring option" where
  "apr_cstr_skip_prefix str prefx =
     (let len = length prefx in if take len str = prefx then Some (drop len str) else None)"

section \<open>Tokens\<close>

declare dropWhile_eq_Nil_conv [simp del]

lemma hd_end: "cstr u \<Longrightarrow> hd (u @ [0]) = 0 \<longleftrightarrow> u = []"
  by (cases u) auto

lemma hd_nonzero: "cstr u \<Longrightarrow> u \<noteq> [] \<Longrightarrow> hd u \<noteq> 0"
  by (cases u) auto

lemma scan_span:
  assumes "drop i buf = s @ 0 # r" "\<not> p 0"
  shows "scan p buf i = Some (i + length (takeWhile p s))"
    "drop (i + length (takeWhile p s)) buf = dropWhile p s @ 0 # r"
    "i + length s < length buf" "buf ! (i + length (takeWhile p s)) = hd (dropWhile p s @ [0])"
proof -
  have l: "length buf - i = length s + Suc (length r)" using arg_cong [OF assms(1), of length] by simp
  show d: "drop (i + length (takeWhile p s)) buf = dropWhile p s @ 0 # r"
    using assms(1) by (metis add.commute append.assoc append_eq_conv_conj drop_drop takeWhile_dropWhile_id)
  show "i + length s < length buf" using l by simp
  have "length s = length (takeWhile p s) + length (dropWhile p s)"
    by (metis length_append takeWhile_dropWhile_id)
  then show "scan p buf i = Some (i + length (takeWhile p s))"
    using l by (simp add: scan_def assms skip_while_stops)
  show "buf ! (i + length (takeWhile p s)) = hd (dropWhile p s @ [0])"
    using hd_drop_conv_nth [of "i + length (takeWhile p s)" buf] d l \<open>i + length s < length buf\<close>
      length_takeWhile_le [of p s] by (cases "dropWhile p s") simp_all
qed

text \<open>What one call of a tokenizer does at the position \<open>p\<close>, where the string \<open>s\<close> is.\<close>

definition token_result :: "cstring \<Rightarrow> byte list \<Rightarrow> nat \<Rightarrow> cstring \<Rightarrow> byte list \<times> nat \<times> nat option" where
  "token_result sep buf p s =
     (let t = dropWhile (\<lambda>c. c \<in> set sep) s; i = p + length (takeWhile (\<lambda>c. c \<in> set sep) s);
          e = i + length (takeWhile (\<lambda>c. c \<notin> set sep) t)
      in if t = [] then (buf, p, None)
         else if dropWhile (\<lambda>c. c \<notin> set sep) t = [] then (buf, e, Some i)
         else (buf[e := 0], e + 1, Some i))"

lemma takeWhile_nonzero: "cstr s \<Longrightarrow> takeWhile (\<lambda>c. c \<noteq> 0 \<and> p c) s = takeWhile p s"
  and dropWhile_nonzero: "cstr s \<Longrightarrow> dropWhile (\<lambda>c. c \<noteq> 0 \<and> p c) s = dropWhile p s"
  by (induction s) auto

lemma dropWhile_cstr': "cstr s \<Longrightarrow> cstr (dropWhile p s)"
  by (auto simp: cstr_def dest: set_dropWhileD)

lemma strtok_result:
  assumes "drop p buf = s @ 0 # r" "cstr s"
  shows "apr_strtok buf None sep p = Some (token_result sep buf p s)"
proof -
  let ?in = "\<lambda>c. c \<in> set sep" and ?out = "\<lambda>c. c \<notin> set sep"
  let ?t = "dropWhile ?in s" and ?i = "p + length (takeWhile ?in s)"
  note s = scan_span [OF assms(1), of "\<lambda>c. c \<noteq> 0 \<and> ?in c", unfolded takeWhile_nonzero [OF assms(2)] dropWhile_nonzero [OF assms(2)]]
  show ?thesis
  proof (cases ?t)
    case Nil
    then show ?thesis using s by (simp add: apr_strtok_def token_result_def)
  next
    case (Cons c t)
    have c: "c \<noteq> 0" "?out c" "cstr t" using dropWhile_cstr' [OF assms(2), of ?in] hd_dropWhile [of ?in s] Cons by simp_all
    have "drop (?i + 1) buf = t @ 0 # r" using s(2) Cons
      by (metis Suc_eq_plus1 append_Cons drop_Suc list.sel(3) not_Cons_self simp_thms(6) tl_drop)
    note e = scan_span [OF this, of "\<lambda>c. c \<noteq> 0 \<and> ?out c", unfolded takeWhile_nonzero [OF c(3)] dropWhile_nonzero [OF c(3)]]
    have "hd (dropWhile ?out t @ [0]) = 0 \<longleftrightarrow> dropWhile ?out t = []"
      by (rule hd_end [OF dropWhile_cstr' [OF c(3)]])
    then show ?thesis using s(1,4) e(1,4) c Cons
      by (auto simp: apr_strtok_def token_result_def Let_def)
  qed
qed

text \<open>The tokenizer for one separator does the same as the general one.\<close>

lemma tokenize_result:
  assumes "drop p buf = s @ 0 # r" "cstr s" "cstr sep"
  shows "apr_cstr_tokenize (Some sep) (Some (Some p)) buf =
    (case token_result sep buf p s of (buf', p', tok) \<Rightarrow> Some (buf', Some (Some p'), tok))"
proof (cases "\<exists>c. sep = [c]")
  case False
  then have "apr_cstr_tokenize (Some sep) (Some (Some p)) buf =
      (case apr_strtok buf None sep p of None \<Rightarrow> None | Some (buf, p, token) \<Rightarrow> Some (buf, Some (Some p), token))"
    by (simp add: apr_cstr_tokenize_def split: list.split)
  then show ?thesis unfolding strtok_result [OF assms(1,2), of sep] by simp
next
  case True
  then obtain c where c: "sep = [c]" by blast
  have c0: "\<not> (\<lambda>x. x = c) 0" "\<not> (\<lambda>x. x \<noteq> c \<and> x \<noteq> 0) 0" using assms(3) unfolding c by auto
  let ?t = "dropWhile (\<lambda>x. x = c) s" and ?i = "p + length (takeWhile (\<lambda>x. x = c) s)"
  note s = scan_span [where p = "\<lambda>x. x = c", OF assms(1) c0(1)]
  have sw: "takeWhile (\<lambda>x. x \<noteq> c \<and> x \<noteq> 0) ?t = takeWhile (\<lambda>x. x \<noteq> c) ?t"
    "dropWhile (\<lambda>x. x \<noteq> c \<and> x \<noteq> 0) ?t = dropWhile (\<lambda>x. x \<noteq> c) ?t"
    using takeWhile_nonzero [OF dropWhile_cstr' [OF assms(2)], of "\<lambda>x. x \<noteq> c"]
      dropWhile_nonzero [OF dropWhile_cstr' [OF assms(2)], of "\<lambda>x. x \<noteq> c"]
    unfolding conj_commute [of "_ \<noteq> c"] by blast+
  note e = scan_span [where p = "\<lambda>x. x \<noteq> c \<and> x \<noteq> 0", OF s(2) c0(2), unfolded sw]
  note z = hd_nonzero [OF dropWhile_cstr' [OF assms(2), of "\<lambda>x. x = c"]]
    and z' = hd_nonzero [OF dropWhile_cstr' [OF dropWhile_cstr' [OF assms(2), of "\<lambda>x. x = c"], of "\<lambda>x. x \<noteq> c"]]
  show ?thesis
    unfolding apr_cstr_tokenize_def token_result_def Let_def c using s(1,4) e(1,4)
    by (cases "?t = []"; cases "dropWhile (\<lambda>x. x \<noteq> c) ?t = []") (simp_all add: z z')
qed

section \<open>Fields\<close>

text \<open>The reference: the maximal runs of characters that are no separators.\<close>

function fields :: "cstring \<Rightarrow> cstring \<Rightarrow> cstring list" where
  "fields sep s =
     (let t = dropWhile (\<lambda>c. c \<in> set sep) s in
      if t = [] then [] else takeWhile (\<lambda>c. c \<notin> set sep) t # fields sep (drop 1 (dropWhile (\<lambda>c. c \<notin> set sep) t)))"
  by pat_completeness auto
termination
proof (relation "measure (\<lambda>(sep, s). length s)")
  fix sep s t :: cstring
  assume t: "t = dropWhile (\<lambda>c. c \<in> set sep) s" "t \<noteq> []"
  have "length t \<le> length s" using t(1) by (simp add: length_dropWhile_le)
  moreover have "length (dropWhile (\<lambda>c. c \<notin> set sep) t) \<le> length t" by (rule length_dropWhile_le)
  moreover have "0 < length t" using t(2) by simp
  ultimately show "((sep, drop 1 (dropWhile (\<lambda>c. c \<notin> set sep) t)), sep, s) \<in> measure (\<lambda>(sep, s). length s)"
    by (simp del: length_greater_0_conv)
qed simp

declare fields.simps [simp del]

definition trim_end :: "cstring \<Rightarrow> cstring" where
  "trim_end s = rev (dropWhile apr_isspace (rev s))"

definition trim :: "cstring \<Rightarrow> cstring" where
  "trim s = trim_end (dropWhile apr_isspace s)"

definition pieces :: "bool \<Rightarrow> cstring list \<Rightarrow> cstring list" where
  "pieces chop ws = filter (\<lambda>w. w \<noteq> []) (map (if chop then trim else id) ws)"

lemma trim_end_take: "trim_end s = take (length (trim_end s)) s"
  by (metis append_eq_conv_conj dropWhile_eq_drop rev_append rev_rev_ident takeWhile_dropWhile_id trim_end_def)

lemma chop_end_trim:
  assumes "drop q buf = v @ z"
  shows "chop_end buf q (q + length v) = q + length (trim_end v)"
  using assms
proof (induction v arbitrary: z rule: rev_induct)
  case Nil
  then show ?case by (cases q) (simp_all add: trim_end_def)
next
  case (snoc c v)
  have "q + length v < length buf" using arg_cong [OF snoc.prems, of length] by simp
  then have "buf ! (q + length v) = c" using arg_cong [OF snoc.prems, of "\<lambda>xs. xs ! length v"] by (simp add: nth_append)
  moreover have "chop_end buf q (q + length v) = q + length (trim_end v)" using snoc.IH [of "c # z"] snoc.prems by simp
  ultimately show ?case by (simp add: trim_end_def)
qed

lemma chop_space_trim:
  assumes "drop p buf = w @ 0 # x" "cstr w"
  shows "\<exists>buf' q y. chop_space buf p = Some (buf', q) \<and> length buf' = length buf \<and> p \<le> q \<and>
    take p buf' = take p buf \<and> drop (p + length w) buf' = drop (p + length w) buf \<and>
    drop q buf' = trim w @ 0 # y \<and> q + length (trim w) \<le> p + length w"
proof -
  let ?v = "dropWhile apr_isspace w" and ?q = "p + length (takeWhile apr_isspace w)"
  note s = scan_span [where p = apr_isspace, OF assms(1) isspace_0]
  have v: "takeWhile (\<lambda>c. c \<noteq> 0) ?v = ?v" using dropWhile_cstr' [OF assms(2), of apr_isspace] by (auto simp: takeWhile_eq_all_conv cstr_def)
  have e: "scan (\<lambda>c. c \<noteq> 0) buf ?q = Some (?q + length ?v)" using scan_span(1) [where p = "\<lambda>c. c \<noteq> 0", OF s(2)] v by simp
  have len: "?q + length ?v = p + length w" by (metis add.assoc length_append takeWhile_dropWhile_id)
  let ?e = "?q + length (trim w)"
  have ce: "chop_end buf ?q (?q + length ?v) = ?e" using chop_end_trim [OF s(2)] by (simp add: trim_def)
  have le: "length (trim w) \<le> length ?v" by (metis length_dropWhile_le length_rev trim_def trim_end_def)
  have c: "chop_space buf p = Some (buf[?e := 0], ?q)" using s(1) e ce by (simp add: chop_space_def)
  have "?e < length buf" using s(3) le len by simp
  then have "drop ?q (buf[?e := 0]) = (drop ?q buf)[length (trim w) := 0]" by (simp add: drop_update_swap)
  also have "\<dots> = take (length (trim w)) (?v @ 0 # x) @ 0 # drop (Suc (length (trim w))) (?v @ 0 # x)"
    unfolding s(2) using le by (intro upd_conv_take_nth_drop) simp
  also have "take (length (trim w)) (?v @ 0 # x) = trim w"
    using le trim_end_take [of ?v] unfolding trim_def [symmetric] by simp
  finally have d: "drop ?q (buf[?e := 0]) = trim w @ 0 # drop (Suc (length (trim w))) (?v @ 0 # x)" .
  have "drop (p + length w) (buf[?e := 0]) = drop (p + length w) buf"
  proof (cases "?e = p + length w")
    case True
    have "buf ! (p + length w) = 0" using arg_cong [OF assms(1), of "\<lambda>xs. xs ! length w"] s(3) by (simp add: nth_append)
    then show ?thesis unfolding True by (metis list_update_id)
  qed (use le len in simp)
  then show ?thesis using c d le len
    by (intro exI [of _ "buf[?e := 0]"], intro exI [of _ ?q], intro exI [of _ "drop (Suc (length (trim w))) (?v @ 0 # x)"]) simp
qed

lemma string_frame:
  assumes "drop q buf = w @ 0 # y" "cstr w" "q + length w < k" "take k buf' = take k buf"
  shows "string_at (drop q buf') = w"
proof -
  have "take (k - q) (drop q buf') = take (k - q) (drop q buf)" using assms(4) by (metis drop_take)
  also have "\<dots> = w @ 0 # take (k - q - length w - 1) y"
    using assms(1,3) by (simp add: take_Cons')
  finally have "drop q buf' = w @ 0 # take (k - q - length w - 1) y @ drop (k - q) (drop q buf')"
    by (metis append.assoc append_Cons append_take_drop_id)
  then show ?thesis using assms(2) by simp
qed

lemma fields_none: "dropWhile (\<lambda>c. c \<in> set sep) s = [] \<Longrightarrow> fields sep s = []"
  by (subst fields.simps) simp

lemma token_word:
  assumes "drop p buf = s @ 0 # r" "cstr s" "t = dropWhile (\<lambda>c. c \<in> set sep) s" "t \<noteq> []"
    and "w = takeWhile (\<lambda>c. c \<notin> set sep) t" "rest = dropWhile (\<lambda>c. c \<notin> set sep) t"
  obtains buf1 p1 i x where "token_result sep buf p s = (buf1, p1, Some i)" "p \<le> i" "length buf1 = length buf"
    "take i buf1 = take i buf" "drop i buf1 = w @ 0 # x" "drop p1 buf1 = drop 1 rest @ 0 # r"
    "if rest = [] then p1 = i + length w else p1 = i + length w + 1"
proof -
  let ?i = "p + length (takeWhile (\<lambda>c. c \<in> set sep) s)"
  let ?e = "?i + length w"
  have d: "drop ?i buf = t @ 0 # r"
    using assms(1,3) by (metis add.commute append.assoc append_eq_conv_conj drop_drop takeWhile_dropWhile_id)
  have t: "t = w @ rest" by (simp add: assms(5,6))
  have de: "drop ?e buf = rest @ 0 # r" using d unfolding t by (metis add.commute append.assoc append_eq_conv_conj drop_drop)
  have tr: "token_result sep buf p s = (if rest = [] then (buf, ?e, Some ?i) else (buf[?e := 0], ?e + 1, Some ?i))"
    unfolding token_result_def Let_def assms(3) [symmetric] assms(5,6) [symmetric] using assms(4) by simp
  show ?thesis
  proof (cases rest)
    case Nil
    show ?thesis by (rule that [of buf ?e ?i r]) (use tr d de t Nil in simp_all)
  next
    case (Cons c cs)
    have "?e < length buf" using arg_cong [OF de, of length] Cons by simp
    then have "drop ?i (buf[?e := 0]) = (drop ?i buf)[length w := 0]" by (simp add: drop_update_swap)
    also have "\<dots> = w @ 0 # cs @ 0 # r" unfolding d t Cons by (simp add: list_update_append)
    finally have di: "drop ?i (buf[?e := 0]) = w @ 0 # cs @ 0 # r" .
    have "drop (?e + 1) (buf[?e := 0]) = drop (?e + 1) buf" by simp
    also have "\<dots> = tl (drop ?e buf)" by (metis Suc_eq_plus1 drop_Suc tl_drop)
    also have "\<dots> = cs @ 0 # r" unfolding de Cons by simp
    finally show ?thesis by (intro that [of "buf[?e := 0]" "?e + 1" ?i "cs @ 0 # r"]) (use tr di Cons in simp_all)
  qed
qed

lemma split_loop_fields:
  "drop p buf = s @ 0 # r \<Longrightarrow> cstr s \<Longrightarrow> cstr sep \<Longrightarrow> token_result sep buf p s = (buf1, p1, tok) \<Longrightarrow>
    \<exists>buf' ps. split_loop b sep chop buf1 (Some (Some p1)) tok arr =
        Some (buf', foldl (push_val apr_array_push) arr (map (Pair b) ps)) \<and>
      take p buf' = take p buf \<and> (s = [] \<longrightarrow> buf' = buf) \<and>
      map (\<lambda>q. string_at (drop q buf')) ps = pieces chop (fields sep s)"
proof (induction sep s arbitrary: p buf buf1 p1 tok arr rule: fields.induct)
  case (1 sep s)
  define t where "t = dropWhile (\<lambda>c. c \<in> set sep) s"
  define w where "w = takeWhile (\<lambda>c. c \<notin> set sep) t"
  define rest where "rest = dropWhile (\<lambda>c. c \<notin> set sep) t"
  show ?case
  proof (cases "t = []")
    case True
    then have "buf1 = buf" "tok = None" "fields sep s = []"
      using 1(5) fields_none [of sep s] by (auto simp: token_result_def t_def)
    then show ?thesis by (subst split_loop.simps) (auto simp: pieces_def)
  next
    case False
    obtain buf0 p0 i x where T: "token_result sep buf p s = (buf0, p0, Some i)" "p \<le> i" "length buf0 = length buf"
        "take i buf0 = take i buf" "drop i buf0 = w @ 0 # x" "drop p0 buf0 = drop 1 rest @ 0 # r"
        "if rest = [] then p0 = i + length w else p0 = i + length w + 1"
      by (rule token_word [OF 1(2,3) t_def False w_def rest_def])
    have eq: "buf0 = buf1" "p0 = p1" and tk: "tok = Some i" using T(1) 1(5) by simp_all
    note tok = tk T(2-7) [unfolded eq]
    have c: "cstr w" "cstr rest" using dropWhile_cstr' [OF 1(3), of "\<lambda>c. c \<in> set sep"]
      unfolding w_def rest_def t_def by (metis cstr_append takeWhile_dropWhile_id)+
    define w' where "w' = (if chop then trim w else w)"
    obtain buf2 q y where ch: "(if chop then chop_space buf1 i else Some (buf1, i)) = Some (buf2, q)"
      "length buf2 = length buf1" "i \<le> q" "take i buf2 = take i buf1" "drop (i + length w) buf2 = drop (i + length w) buf1"
      "drop q buf2 = w' @ 0 # y" "q + length w' \<le> i + length w"
      using chop_space_trim [OF tok(5) c(1)] tok(5) unfolding w'_def by (cases chop) auto
    have w': "cstr w'" using c(1) dropWhile_cstr' [of "rev (dropWhile apr_isspace w)" apr_isspace] dropWhile_cstr' [OF c(1), of apr_isspace]
      by (simp add: w'_def trim_def trim_end_def cstr_def)
    have d2: "drop p1 buf2 = drop 1 rest @ 0 # r"
    proof -
      have "i + length w \<le> p1" using tok(7) by (auto split: if_splits)
      then show ?thesis using ch(5) tok(6) by (metis drop_drop le_add_diff_inverse2)
    qed
    obtain buf3 p3 tok3 where t3: "token_result sep buf2 p1 (drop 1 rest) = (buf3, p3, tok3)" by (cases "token_result sep buf2 p1 (drop 1 rest)")
    have r1: "cstr (drop 1 rest)" using c(2) by (cases rest) simp_all
    let ?arr = "if buf2 ! q \<noteq> 0 then push_val apr_array_push arr (b, q) else arr"
    obtain buf' ps where ih: "split_loop b sep chop buf3 (Some (Some p3)) tok3 ?arr =
        Some (buf', foldl (push_val apr_array_push) ?arr (map (Pair b) ps))"
      "take p1 buf' = take p1 buf2" "drop 1 rest = [] \<longrightarrow> buf' = buf2"
      "map (\<lambda>q. string_at (drop q buf')) ps = pieces chop (fields sep (drop 1 rest))"
      using 1(1) [OF t_def False, of p1 buf2 buf3 p3 tok3 ?arr] d2 r1 1(4) t3 unfolding rest_def by blast
    have ql: "q < length buf2" using arg_cong [OF ch(6), of length] by simp
    have bq: "buf2 ! q \<noteq> 0 \<longleftrightarrow> w' \<noteq> []"
      using hd_drop_conv_nth [OF ql] ch(6) w' by (cases w') auto
    have loop: "split_loop b sep chop buf1 (Some (Some p1)) tok arr =
        Some (buf', foldl (push_val apr_array_push) ?arr (map (Pair b) ps))"
      using ch(1) ql ih(1) tokenize_result [OF d2 r1 1(4)] t3
      by (subst split_loop.simps) (simp add: tok(1) Let_def)
    have sq: "string_at (drop q buf') = w'"
    proof (cases "rest = []")
      case True
      then show ?thesis using ih(3) ch(6) w' by simp
    next
      case False
      then show ?thesis using string_frame [OF ch(6) w' _ ih(2)] ch(7) tok(7) by simp
    qed
    have f: "fields sep s = w # fields sep (drop 1 rest)"
      using False by (subst fields.simps) (simp add: t_def w_def rest_def Let_def)
    have "take p buf' = take p buf"
    proof -
      have "p \<le> p1" using tok(2,7) by (auto split: if_splits)
      then have "take p buf' = take p buf2" using ih(2) by (metis min.absorb1 take_take)
      also have "\<dots> = take p buf" using ch(4) tok(2,4) by (metis min.absorb1 take_take)
      finally show ?thesis .
    qed
    moreover have "s \<noteq> []" using False by (auto simp: t_def)
    ultimately show ?thesis using loop sq ih(4) bq
      by (intro exI [of _ buf'] exI [of _ "if w' \<noteq> [] then q # ps else ps"])
        (auto simp: f pieces_def w'_def)
  qed
qed

section \<open>Comparisons and numbers\<close>

text \<open>The table of the source is \<open>tolower\<close>, so both comparisons agree with \<open>strcasecmp\<close>.\<close>

lemma ucharmap_tolower: "ucharmap ! unat c = uint (tolower c)"
  by (rule byte_all [where P = "\<lambda>c. ucharmap ! unat c = uint (tolower c)"]) code_simp

lemma ucharmap_0 [simp]: "ucharmap ! 0 = 0"
  by (simp add: ucharmap_def)

lemma casecmp_strcasecmp:
  "cstr s \<Longrightarrow> cstr t \<Longrightarrow> apr_cstr_casecmp (s @ 0 # q) (t @ 0 # r) = Some (strcasecmp s t)"
  by (induction s t rule: strcasecmp.induct)
    (auto simp: ucharmap_tolower Let_def word_uint_eq_iff [symmetric] dest: uint_tolower_pos)

lemma casecmpn_strcasecmp:
  "cstr s \<Longrightarrow> cstr t \<Longrightarrow> apr_cstr_casecmpn (s @ 0 # q) (t @ 0 # r) n = Some (strcasecmp (take n s) (take n t))"
proof (induction s t arbitrary: n rule: strcasecmp.induct)
  case 1
  then show ?case by (cases n) (auto simp: ucharmap_tolower)
next
  case 2
  then show ?case by (cases n) (auto simp: ucharmap_tolower tolower_def)
next
  case 3
  then show ?case by (cases n) (auto simp: ucharmap_tolower Let_def tolower_def dest: uint_tolower_pos)
next
  case 4
  then show ?case by (cases n) (auto simp: ucharmap_tolower Let_def word_uint_eq_iff)
qed

section \<open>Properties\<close>

text \<open>
  C22. \<open>apr_cstr_split\<close> returns an array of pointers into its copy of the input whose strings are the
  runs of characters between the separators, with the white space around each chopped off if that is
  asked for, and without the empty ones; cutting one string off never damages another.
\<close>

theorem apr_cstr_split_correct:
  assumes "cstr input" "cstr sep"
  shows "\<exists>buf ps st' arr. apr_cstr_split mem st pl input sep chop = Some (mem @ [buf], st', arr) \<and>
    arr_wf st' arr \<and> arr_view st' arr = map (\<lambda>p. Val (length mem, p)) ps \<and>
    map (\<lambda>p. string_at (drop p buf)) ps = pieces chop (fields sep input)"
proof -
  let ?b = "length mem" and ?a = "apr_array_make st pl 5 :: ptr_array"
  have a: "arr_wf (fst ?a) (snd ?a)" "arr_view (fst ?a) (snd ?a) = []"
    using make_array_core_spec [of st pl 5 True "fst ?a" "snd ?a"] by (simp_all add: apr_array_make_def)
  have d: "drop 0 (input @ [0]) = input @ 0 # []" by simp
  obtain buf1 p1 tok where t: "token_result sep (input @ [0]) 0 input = (buf1, p1, tok)" by (metis prod_cases3)
  obtain buf ps where l: "split_loop ?b sep chop buf1 (Some (Some p1)) tok ?a =
      Some (buf, foldl (push_val apr_array_push) ?a (map (Pair ?b) ps))"
      "map (\<lambda>q. string_at (drop q buf)) ps = pieces chop (fields sep input)"
    using split_loop_fields [OF d assms t, of ?b chop ?a] by blast
  obtain st' arr where f: "foldl (push_val apr_array_push) ?a (map (Pair ?b) ps) = (st', arr)" by (metis surj_pair)
  have "apr_cstr_split mem st pl input sep chop = Some (mem @ [buf], st', arr)"
    using tokenize_result [OF d assms] t l(1) f by (simp add: apr_cstr_split_def apr_cstr_split_append_def Let_def)
  moreover have "arr_wf st' arr" using push.inv_foldl [OF a(1), of "map (Pair ?b) ps"] f by simp
  moreover have "arr_view st' arr = map (\<lambda>p. Val (?b, p)) ps"
    using push.view_foldl [OF a(1), of "map (Pair ?b) ps"] f a(2) by simp
  ultimately show ?thesis using l(2) by blast
qed

theorem apr_cstr_split_correct_witness:
  "\<exists>buf ps st' arr. apr_cstr_split [] [] 0 [32, 97, 44, 44, 32, 44, 98, 32, 99, 9] [44] True = Some ([] @ [buf], st', arr) \<and>
    arr_wf st' arr \<and> arr_view st' arr = map (\<lambda>p. Val (length ([] :: byte list list), p)) ps \<and>
    map (\<lambda>p. string_at (drop p buf)) ps = [[97], [98, 32, 99]]"
proof -
  have p: "pieces True (fields [44] [32, 97, 44, 44, 32, 44, 98, 32, 99, 9]) = [[97], [98, 32, 99]]" by code_simp
  have "cstr [32, 97, 44, 44, 32, 44, 98, 32, 99, 9]" "cstr [44]" by simp_all
  from apr_cstr_split_correct [OF this, of "[]" "[]" 0 True] show ?thesis unfolding p .
qed

text \<open>
  C40. On the decimal text of a number that fits a signed 64-bit integer, \<open>apr_cstr_atoi\<close> and \<open>apr_cstr_atoui\<close>
  succeed exactly for the numbers in the range of \<open>int\<close> and \<open>unsigned int\<close> and answer \<open>APR_ERANGE\<close> for the
  others, \<open>apr_cstr_atoi64\<close> succeeds, and \<open>apr_cstr_atoui64\<close>, whose documented limit is the largest signed
  number, succeeds exactly if the number is not negative. A character after the digits gives
  \<open>APR_EINVAL\<close>. A number is stored on success only. Texts of numbers that do not fit are outside this
  claim: \<open>apr_strtoi64\<close> does not recognise all of them.
\<close>

theorem apr_cstr_numbers:
  assumes "fits64 n" "\<not> base_digit 10 c"
  shows "apr_cstr_atoi (decimal n @ c # r) = Some (if c \<noteq> 0 then (APR_EINVAL, None)
      else if - (2 ^ 31) \<le> n \<and> n < 2 ^ 31 then (APR_SUCCESS, Some n) else (APR_ERANGE, None)) \<and>
    apr_cstr_atoui (decimal n @ c # r) = Some (if c \<noteq> 0 then (APR_EINVAL, None)
      else if 0 \<le> n \<and> n < 2 ^ 32 then (APR_SUCCESS, Some n) else (APR_ERANGE, None)) \<and>
    apr_cstr_atoi64 (decimal n @ c # r) = Some (if c \<noteq> 0 then (APR_EINVAL, None) else (APR_SUCCESS, Some n)) \<and>
    apr_cstr_atoui64 (decimal n @ c # r) = Some (if c \<noteq> 0 then (APR_EINVAL, None)
      else if 0 \<le> n then (APR_SUCCESS, Some n) else (APR_ERANGE, None))"
proof -
  have "decimal n \<noteq> []" by (simp add: decimal_def)
  then obtain d ds where d: "decimal n = d # ds" "d \<noteq> 0" using decimal_cstr [of n] by (cases "decimal n") auto
  show ?thesis
    using strtoi64_decimal [OF assms, of r] d assms(1) unfolding apr_cstr_atoi_def apr_cstr_atoui_def apr_cstr_atoi64_def
      apr_cstr_atoui64_def apr_cstr_strtoi64_def apr_cstr_strtoui64_def
    by (intro conjI) (auto simp: fits64_def INT64_MIN_def INT64_MAX_def nth_append)
qed

theorem apr_cstr_numbers_witness:
  "apr_cstr_atoi (decimal (2 ^ 31) @ [0]) = Some (APR_ERANGE, None) \<and>
   apr_cstr_atoi64 (decimal (2 ^ 31) @ [0]) = Some (APR_SUCCESS, Some (2 ^ 31)) \<and>
   apr_cstr_atoui (decimal (-1) @ [120]) = Some (APR_EINVAL, None)"
proof -
  have "\<not> base_digit 10 120" by code_simp
  then show ?thesis
    using apr_cstr_numbers [of "2 ^ 31" 0 "[]"] apr_cstr_numbers [of "-1" 120 "[]"] nul_no_digit [of 10]
    by (simp add: fits64_def)
qed

end
