(* ===== verification/Apr_Filepath.thy ===== *)
theory Apr_Filepath
  imports Apr_Cstr
begin

text \<open>
  The path functions of \<^verbatim>\<open>file_io/unix/filepath.c\<close> and \<^verbatim>\<open>file_io/unix/filepath_util.c\<close>. Paths that are
  only read are C strings; the path being built is a buffer of the size the source allocates, and
  \<open>None\<close> is an access outside it. The result of \<open>getcwd\<close> and the platform's \<open>PATH_MAX\<close> are parameters;
  an error of \<open>getcwd\<close> is its \<open>errno\<close>.
\<close>

section \<open>Merging paths\<close>

definition APR_FILEPATH_NOTABOVEROOT :: u32 where "APR_FILEPATH_NOTABOVEROOT = 0x01"
definition APR_FILEPATH_SECUREROOTTEST :: u32 where "APR_FILEPATH_SECUREROOTTEST = 0x02"
definition APR_FILEPATH_NOTRELATIVE :: u32 where "APR_FILEPATH_NOTRELATIVE = 0x04"
definition APR_FILEPATH_NOTABSOLUTE :: u32 where "APR_FILEPATH_NOTABSOLUTE = 0x08"

definition fp_flag :: "u32 \<Rightarrow> u32 \<Rightarrow> bool" where
  "fp_flag flags f \<longleftrightarrow> flags AND f \<noteq> 0"

definition apr_filepath_get :: "apr_status_t + cstring \<Rightarrow> apr_status_t + cstring" where
  "apr_filepath_get getcwd =
     (case getcwd of
        Inl errno \<Rightarrow> if errno = APR_ERANGE then Inl APR_ENAMETOOLONG else Inl errno
      | Inr path \<Rightarrow> Inr path)"

text \<open>The status, \<open>*rootpath\<close> and \<open>*inpath\<close>.\<close>

definition apr_filepath_root :: "cstring \<Rightarrow> apr_status_t \<times> cstring option \<times> cstring" where
  "apr_filepath_root inpath =
     (case inpath of
        c # s \<Rightarrow> if c = 47 then (APR_SUCCESS, Some [47], dropWhile (\<lambda>c. c = 47) s) else (APR_ERELATIVE, None, inpath)
      | [] \<Rightarrow> (APR_ERELATIVE, None, inpath))"

text \<open>\<open>do --pathlen while (pathlen && path[pathlen - 1] != '/')\<close>\<close>

fun crop :: "byte list \<Rightarrow> nat \<Rightarrow> nat" where
  "crop path 0 = 0"
| "crop path (Suc n) = (if n \<noteq> 0 \<and> path ! (n - 1) \<noteq> 47 then crop path n else n)"

text \<open>Writing \<open>n\<close> bytes at the end of the path.\<close>

definition put :: "byte list \<Rightarrow> nat \<Rightarrow> byte list \<Rightarrow> (byte list \<times> nat) option" where
  "put path pathlen s =
     (if pathlen + length s \<le> length path then Some (memcpy path pathlen s (length s), pathlen + length s) else None)"

text \<open>The path ends with a backpath or is empty.\<close>

definition backpathed :: "byte list \<Rightarrow> nat \<Rightarrow> bool" where
  "backpathed path pathlen \<longleftrightarrow>
     pathlen = 0 \<or> pathlen = 3 \<and> take 3 path = [46, 46, 47] \<or>
     3 < pathlen \<and> take 4 (drop (pathlen - 4) path) = [47, 46, 46, 47]"

text \<open>A segment \<open>..\<close>; \<open>slashed\<close> says whether a slash follows it. The results are the path and its lengths.\<close>

definition backpath ::
    "u32 \<Rightarrow> bool \<Rightarrow> byte list \<Rightarrow> nat \<Rightarrow> nat \<Rightarrow> (apr_status_t + byte list \<times> nat \<times> nat) option" where
  "backpath flags slashed path pathlen keptlen =
     (let secure = fp_flag flags APR_FILEPATH_SECUREROOTTEST;
          moved =
            (if pathlen = 1 \<and> path ! 0 = 47 then
               if secure then Some (Inl APR_EABOVEROOT) else Some (Inr (path, pathlen, 0))
             else if backpathed path pathlen then
               if secure then Some (Inl APR_EABOVEROOT)
               else map_option (\<lambda>(path, pathlen). Inr (path, pathlen, keptlen))
                      (put path pathlen (if slashed then [46, 46, 47] else [46, 46]))
             else Some (Inr (path, crop path pathlen, keptlen)))
      in case moved of
           None \<Rightarrow> None
         | Some (Inl rv) \<Rightarrow> Some (Inl rv)
         | Some (Inr (path, pathlen, keptlen)) \<Rightarrow>
             if pathlen < keptlen then
               if secure then Some (Inl APR_EABOVEROOT) else Some (Inr (path, pathlen, pathlen))
             else Some (Inr (path, pathlen, keptlen)))"

lemma rest_shorter: "addpath \<noteq> [] \<Longrightarrow> length (drop 1 (dropWhile p addpath)) < length addpath"
  using length_dropWhile_le [of p addpath] by (cases "dropWhile p addpath") simp_all

function segment_loop ::
    "u32 \<Rightarrow> byte list \<Rightarrow> nat \<Rightarrow> nat \<Rightarrow> cstring \<Rightarrow> (apr_status_t + byte list \<times> nat \<times> nat) option" where
  "segment_loop flags path pathlen keptlen addpath =
     (if addpath = [] then Some (Inr (path, pathlen, keptlen))
      else
        let seg = takeWhile (\<lambda>c. c \<noteq> 47) addpath;
            nxt = dropWhile (\<lambda>c. c \<noteq> 47) addpath;
            rest = drop 1 nxt
        in
        if seg = [] \<or> seg = [46] then segment_loop flags path pathlen keptlen rest
        else if seg = [46, 46] then
          (case backpath flags (nxt \<noteq> []) path pathlen keptlen of
             None \<Rightarrow> None
           | Some (Inl rv) \<Rightarrow> Some (Inl rv)
           | Some (Inr (path, pathlen, keptlen)) \<Rightarrow> segment_loop flags path pathlen keptlen rest)
        else
          (case put path pathlen (seg @ take 1 nxt) of
             None \<Rightarrow> None
           | Some (path, pathlen) \<Rightarrow> segment_loop flags path pathlen keptlen rest))"
  by pat_completeness auto
termination
  by (relation "measure (\<lambda>(flags, path, pathlen, keptlen, addpath). length addpath)")
    (simp_all only: wf_measure in_measure prod.case, (rule rest_shorter, assumption)+)

declare segment_loop.simps [simp del]

text \<open>
  The path before the first segment of the added path: a slash, or the root path with a slash at its
  end. The results are the buffer, \<open>pathlen\<close> and \<open>keptlen\<close>.
\<close>

definition merge_start :: "byte list \<Rightarrow> cstring \<Rightarrow> bool \<Rightarrow> (byte list \<times> nat \<times> nat) option" where
  "merge_start path rootpath rooted =
     (if rooted then map_option (\<lambda>(path, pathlen). (path, pathlen, 0)) (put path 0 [47])
      else case put path 0 rootpath of
        None \<Rightarrow> None
      | Some (path, keptlen) \<Rightarrow>
          if keptlen \<noteq> 0 \<and> path ! (keptlen - 1) \<noteq> 47
          then map_option (\<lambda>(path, keptlen). (path, keptlen, keptlen)) (put path keptlen [47])
          else Some (path, keptlen, keptlen))"

text \<open>The test after the loop that the result is still below the root.\<close>

definition above_root :: "u32 \<Rightarrow> cstring \<Rightarrow> byte list \<Rightarrow> nat \<Rightarrow> bool" where
  "above_root flags rootpath path keptlen \<longleftrightarrow>
     fp_flag flags APR_FILEPATH_NOTABOVEROOT \<and> keptlen < length rootpath \<and>
     (let rootlen = length rootpath in
      take rootlen (string_at path) \<noteq> rootpath \<or>
      rootpath ! (rootlen - 1) \<noteq> 47 \<and> path ! rootlen \<noteq> 0 \<and> path ! rootlen \<noteq> 47)"

definition merge_paths ::
    "junk \<Rightarrow> nat \<Rightarrow> cstring \<Rightarrow> cstring \<Rightarrow> u32 \<Rightarrow> (apr_status_t \<times> byte list option) option" where
  "merge_paths junk path_max rootpath addpath flags =
     (let rooted = (addpath \<noteq> [] \<and> hd addpath = 47);
          maxlen = length rootpath + length addpath + 4
      in
      if path_max < maxlen then Some (APR_ENAMETOOLONG, None)
      else if \<not> rooted \<and> (rootpath = [] \<or> hd rootpath \<noteq> 47) \<and> fp_flag flags APR_FILEPATH_NOTRELATIVE
      then Some (APR_ERELATIVE, None)
      else
        case merge_start (apr_palloc junk maxlen) rootpath rooted of
          None \<Rightarrow> None
        | Some (path, pathlen, keptlen) \<Rightarrow>
            (case segment_loop flags path pathlen keptlen (if rooted then dropWhile (\<lambda>c. c = 47) addpath else addpath) of
               None \<Rightarrow> None
             | Some (Inl rv) \<Rightarrow> Some (rv, None)
             | Some (Inr (path, pathlen, keptlen)) \<Rightarrow>
                 if length path \<le> pathlen then None
                 else let path = path[pathlen := 0] in
                   if above_root flags rootpath path keptlen then Some (APR_EABOVEROOT, None)
                   else Some (APR_SUCCESS, Some path)))"

text \<open>The checks of the flags, and the working directory in place of a missing root path.\<close>

definition apr_filepath_merge ::
    "junk \<Rightarrow> nat \<Rightarrow> apr_status_t + cstring \<Rightarrow> cstring option \<Rightarrow> cstring option \<Rightarrow> u32 \<Rightarrow>
       (apr_status_t \<times> byte list option) option" where
  "apr_filepath_merge junk path_max getcwd rootpath addpath flags =
     (let addpath = (case addpath of None \<Rightarrow> [] | Some a \<Rightarrow> a) in
      case (if addpath \<noteq> [] \<and> hd addpath = 47 then
              if fp_flag flags APR_FILEPATH_SECUREROOTTEST then Inl APR_EABOVEROOT
              else if fp_flag flags APR_FILEPATH_NOTABSOLUTE then Inl APR_EABSOLUTE
              else if rootpath = None \<and> \<not> fp_flag flags APR_FILEPATH_NOTABOVEROOT then Inr (Some [])
              else Inr rootpath
            else if fp_flag flags APR_FILEPATH_NOTABSOLUTE then
              (case rootpath of
                 None \<Rightarrow> Inr (Some [])
               | Some r \<Rightarrow> if r \<noteq> [] \<and> hd r = 47 then Inl APR_EABSOLUTE else Inr rootpath)
            else Inr rootpath) of
        Inl rv \<Rightarrow> Some (rv, None)
      | Inr (Some r) \<Rightarrow> merge_paths junk path_max r addpath flags
      | Inr None \<Rightarrow>
          (case apr_filepath_get getcwd of
             Inl rv \<Rightarrow> Some (projl getcwd, None)
           | Inr r \<Rightarrow> merge_paths junk path_max r addpath flags))"

section \<open>Lists of paths\<close>

fun count_elts :: "byte \<Rightarrow> cstring \<Rightarrow> nat" where
  "count_elts separator [] = 1"
| "count_elts separator (c # s) = (if c = separator then Suc (count_elts separator s) else count_elts separator s)"

text \<open>The tokens are never empty, so the test for that never fails.\<close>

partial_function (option) path_list_loop ::
    "nat \<Rightarrow> byte \<Rightarrow> byte list \<Rightarrow> nat option \<Rightarrow> nat \<Rightarrow> ptr_array \<Rightarrow> (byte list \<times> ptr_array) option" where
  "path_list_loop b separator buf path lst arr =
     (case apr_strtok buf path [separator] lst of
        None \<Rightarrow> None
      | Some (buf, lst, None) \<Rightarrow> Some (buf, arr)
      | Some (buf, lst, Some part) \<Rightarrow>
          if buf ! part = 0 then path_list_loop b separator buf path lst arr
          else path_list_loop b separator buf None lst (push_val apr_array_push arr (b, part)))"

definition apr_filepath_list_split_impl ::
    "byte list list \<Rightarrow> ptr store \<Rightarrow> nat \<Rightarrow> cstring \<Rightarrow> byte \<Rightarrow> (byte list list \<times> ptr_array) option" where
  "apr_filepath_list_split_impl mem st pl liststr separator =
     (case path_list_loop (length mem) separator (liststr @ [0]) (Some 0) 0
             (apr_array_make st pl (int (count_elts separator liststr))) of
        None \<Rightarrow> None
      | Some (buf, arr) \<Rightarrow> Some (mem @ [buf], arr))"

definition apr_filepath_list_split ::
    "byte list list \<Rightarrow> ptr store \<Rightarrow> nat \<Rightarrow> cstring \<Rightarrow> (byte list list \<times> ptr_array) option" where
  "apr_filepath_list_split mem st pl liststr = apr_filepath_list_split_impl mem st pl liststr 58"

fun list_merge_loop :: "byte \<Rightarrow> cstring list \<Rightarrow> nat \<Rightarrow> byte list \<Rightarrow> nat \<Rightarrow> (byte list \<times> nat) option" where
  "list_merge_loop separator [] i path pos = Some (path, pos)"
| "list_merge_loop separator (part # parts) i path pos =
     (if part = [] then list_merge_loop separator parts (i + 1) path pos
      else case put path pos ((if 0 < i then [separator] else []) @ part) of
        None \<Rightarrow> None
      | Some (path, pos) \<Rightarrow> list_merge_loop separator parts (i + 1) path pos)"

text \<open>The elements of the array are given by their strings; \<open>None\<close> inside is a NULL list.\<close>

definition apr_filepath_list_merge_impl :: "junk \<Rightarrow> cstring list \<Rightarrow> byte \<Rightarrow> byte list option option" where
  "apr_filepath_list_merge_impl junk pathelts separator =
     (let size = sum_list (map length pathelts) in
      if size = 0 then Some None
      else
        let path_size = size + (if 0 < length pathelts then length pathelts - 1 else 0) in
        case list_merge_loop separator pathelts 0 (apr_palloc junk (path_size + 1)) 0 of
          None \<Rightarrow> None
        | Some (path, pos) \<Rightarrow> if pos < length path then Some (Some (path[pos := 0])) else None)"

definition apr_filepath_list_merge :: "junk \<Rightarrow> cstring list \<Rightarrow> byte list option option" where
  "apr_filepath_list_merge junk pathelts = apr_filepath_list_merge_impl junk pathelts 58"

section \<open>The buffer\<close>

lemma put_Some:
  assumes "put path n s = Some (path', n')" "n \<le> length path"
  shows "length path' = length path" "n' = n + length s" "n' \<le> length path" "take n' path' = take n path @ s"
  using assms by (auto simp: put_def split: if_splits)

lemma put_fits: "n + length s \<le> length path \<Longrightarrow> \<exists>path'. put path n s = Some (path', n + length s)"
  by (simp add: put_def)

lemma crop_le: "crop path n \<le> n"
  by (induction n) auto

lemma crop_less: "n \<noteq> 0 \<Longrightarrow> crop path n < n"
  using crop_le le_imp_less_Suc by (cases n) (auto simp: less_Suc_eq_le)

lemma segment_lengths:
  "length (takeWhile p a @ take 1 (dropWhile p a)) + length (drop 1 (dropWhile p a)) = length a"
proof -
  have "length a = length (takeWhile p a) + length (dropWhile p a)" by (metis length_append takeWhile_dropWhile_id)
  then show ?thesis by (cases "dropWhile p a") simp_all
qed

lemma backpath_bounds:
  assumes "pathlen + (if slashed then 3 else 2) \<le> length path"
  shows "\<exists>x. backpath flags slashed path pathlen keptlen = Some x \<and>
    (case x of Inl rv \<Rightarrow> rv = APR_EABOVEROOT
     | Inr (path', pathlen', keptlen') \<Rightarrow> length path' = length path \<and> pathlen' \<le> pathlen + (if slashed then 3 else 2))"
proof -
  obtain path' where "put path pathlen (if slashed then [46, 46, 47] else [46, 46]) = Some (path', pathlen + (if slashed then 3 else 2))"
    "length path' = length path"
    using put_fits [of pathlen "if slashed then [46, 46, 47] else [46, 46]" path] assms
      put_Some(1) [of path pathlen "if slashed then [46, 46, 47] else [46, 46]"] by (auto split: if_splits)
  moreover have "crop path pathlen \<le> pathlen + (if slashed then 3 else 2)" using crop_le [of path pathlen] by simp
  ultimately show ?thesis by (auto simp: backpath_def Let_def)
qed

lemma segment_loop_bounds:
  "pathlen + length addpath < length path \<Longrightarrow>
    \<exists>x. segment_loop flags path pathlen keptlen addpath = Some x \<and>
      (case x of Inl rv \<Rightarrow> rv = APR_EABOVEROOT
       | Inr (path', pathlen', keptlen') \<Rightarrow> length path' = length path \<and> pathlen' < length path)"
proof (induction flags path pathlen keptlen addpath rule: segment_loop.induct)
  case (1 flags path pathlen keptlen addpath)
  let ?p = "\<lambda>c. c \<noteq> (47 :: byte)"
  let ?seg = "takeWhile ?p addpath" and ?nxt = "dropWhile ?p addpath"
  let ?rest = "drop 1 ?nxt"
  note len = segment_lengths [of ?p addpath]
  consider "addpath = []" | "addpath \<noteq> []" "?seg = [] \<or> ?seg = [46]"
    | "addpath \<noteq> []" "?seg = [46, 46]" | "addpath \<noteq> []" "\<not> (?seg = [] \<or> ?seg = [46])" "?seg \<noteq> [46, 46]" by blast
  then show ?case
  proof cases
    case 1
    then show ?thesis using "1.prems" by (subst segment_loop.simps) simp
  next
    case 2
    have "pathlen + length ?rest < length path" using "1.prems" len by simp
    then show ?thesis using "1.IH"(1) [OF 2(1) refl refl refl 2(2)] 2 by (subst segment_loop.simps) (simp add: Let_def)
  next
    case 3
    have n: "(if ?nxt \<noteq> [] then 3 else 2) + length ?rest = length addpath" using len 3(2) by (cases ?nxt) simp_all
    have "pathlen + (if ?nxt \<noteq> [] then 3 else 2) \<le> length path" using n "1.prems" by (simp split: if_splits)
    from backpath_bounds [OF this, of flags keptlen] obtain x where
      x: "backpath flags (?nxt \<noteq> []) path pathlen keptlen = Some x"
        "case x of Inl rv \<Rightarrow> rv = APR_EABOVEROOT
         | Inr (path', pathlen', keptlen') \<Rightarrow> length path' = length path \<and> pathlen' \<le> pathlen + (if ?nxt \<noteq> [] then 3 else 2)"
      by blast
    show ?thesis
    proof (cases x)
      case (Inl rv)
      then show ?thesis using 3 x by (subst segment_loop.simps) (simp add: Let_def)
    next
      case (Inr y)
      obtain path' pathlen' keptlen' where y: "y = (path', pathlen', keptlen')" by (metis prod_cases3)
      have b: "pathlen' + length ?rest < length path'" "length path' = length path" using x(2) n "1.prems" Inr y by simp_all
      have "\<not> (?seg = [] \<or> ?seg = [46])" using 3(2) by simp
      from "1.IH"(2) [OF 3(1) refl refl refl this 3(2) x(1) Inr y [symmetric] refl b(1), unfolded b(2)]
      show ?thesis using 3 x(1) Inr y b(2) by (subst segment_loop.simps) (simp add: Let_def)
    qed
  next
    case 4
    obtain path' where p: "put path pathlen (?seg @ take 1 ?nxt) = Some (path', pathlen + length (?seg @ take 1 ?nxt))"
      using put_fits [of pathlen "?seg @ take 1 ?nxt" path] "1.prems" len by auto
    then have l: "length path' = length path" using put_Some(1) "1.prems" by simp
    have "pathlen + length (?seg @ take 1 ?nxt) + length ?rest < length path'" using "1.prems" len l by simp
    from "1.IH"(3) [OF 4(1) refl refl refl 4(2,3) p refl this, unfolded l]
    show ?thesis using 4 p l by (subst segment_loop.simps) (simp add: Let_def)
  qed
qed

lemma put_whole: "put path 0 s = Some (path', n) \<Longrightarrow> length path' = length path \<and> n = length s \<and> take n path' = s"
  using put_Some [of path 0 s path' n] by simp

lemma merge_start_bounds:
  assumes "length path = length r + k + 4"
  shows "\<exists>path' pathlen keptlen. merge_start path r rooted = Some (path', pathlen, keptlen) \<and> length path' = length path \<and>
    pathlen \<le> length r + 1"
proof (cases rooted)
  case True
  obtain path' where "put path 0 [47] = Some (path', 1)" using put_fits [of 0 "[47]" path] assms by auto
  then show ?thesis using put_whole [of path "[47]" path' 1] True by (simp add: merge_start_def)
next
  case False
  obtain path' where p: "put path 0 r = Some (path', length r)" using put_fits [of 0 r path] assms by auto
  then have l: "length path' = length path" using put_whole by blast
  obtain path'' where q: "put path' (length r) [47] = Some (path'', length r + 1)"
    using put_fits [of "length r" "[47]" path'] assms l by auto
  then have "length path'' = length path" using put_Some(1) [OF q] l assms by simp
  then show ?thesis using False p q l by (simp add: merge_start_def)
qed

lemma merge_paths_bounds:
  "\<exists>rv out. merge_paths junk path_max r a flags = Some (rv, out) \<and>
    (case out of None \<Rightarrow> True | Some p \<Rightarrow> rv = APR_SUCCESS \<and> length p \<le> path_max \<and> 0 \<in> set p)"
proof -
  let ?rooted = "a \<noteq> [] \<and> hd a = 47" and ?maxlen = "length r + length a + 4"
  let ?a = "if ?rooted then dropWhile (\<lambda>c. c = 47) a else a"
  obtain path pathlen keptlen where s: "merge_start (apr_palloc junk ?maxlen) r ?rooted = Some (path, pathlen, keptlen)"
      "length path = ?maxlen" "pathlen \<le> length r + 1"
    using merge_start_bounds [of "apr_palloc junk ?maxlen" r "length a" ?rooted] by auto
  have "length ?a \<le> length a" using length_dropWhile_le [of "\<lambda>c. c = 47" a] by simp
  then have "pathlen + length ?a < length path" using s(2,3) by linarith
  from segment_loop_bounds [OF this, of flags keptlen] obtain x where x: "segment_loop flags path pathlen keptlen ?a = Some x"
      "case x of Inl rv \<Rightarrow> rv = APR_EABOVEROOT
       | Inr (path', pathlen', keptlen') \<Rightarrow> length path' = length path \<and> pathlen' < length path" by blast
  show ?thesis
  proof (cases x)
    case (Inl rv)
    then show ?thesis using s(1) x(1) unfolding merge_paths_def Let_def by simp
  next
    case (Inr y)
    obtain path' pathlen' keptlen' where y: "y = (path', pathlen', keptlen')" by (metis prod_cases3)
    then have "length path' = ?maxlen" "pathlen' < length path'" using x(2) Inr s(2) by simp_all
    moreover from this have "0 \<in> set (path'[pathlen' := 0])" by (simp add: set_update_memI)
    ultimately show ?thesis using s(1) x(1) Inr y unfolding merge_paths_def Let_def by simp
  qed
qed

section \<open>Segments on a stack\<close>

text \<open>
  The reference for a merge that may not leave the root: the segments of the added path, each with
  its slash, on a stack. An empty segment and \<open>.\<close> do nothing, \<open>..\<close> removes the last segment and fails
  when there is none.
\<close>

function norm_path :: "cstring \<Rightarrow> cstring list \<Rightarrow> cstring list option" where
  "norm_path a st =
     (if a = [] then Some st
      else
        let seg = takeWhile (\<lambda>c. c \<noteq> 47) a; nxt = dropWhile (\<lambda>c. c \<noteq> 47) a; rest = drop 1 nxt in
        if seg = [] \<or> seg = [46] then norm_path rest st
        else if seg = [46, 46] then if st = [] then None else norm_path rest (butlast st)
        else norm_path rest (st @ [seg @ take 1 nxt]))"
  by pat_completeness auto
termination
  by (relation "measure (\<lambda>(a, st). length a)")
    (simp_all only: wf_measure in_measure prod.case, (rule rest_shorter, assumption)+)

declare norm_path.simps [simp del]

text \<open>A segment of a normal path: neither empty nor \<open>.\<close> nor \<open>..\<close>, with or without its slash.\<close>

definition clean_name :: "cstring \<Rightarrow> bool" where
  "clean_name s \<longleftrightarrow> s \<notin> {[], [46], [46, 46]} \<and> 47 \<notin> set s \<and> cstr s"

definition clean :: "cstring \<Rightarrow> bool" where
  "clean s \<longleftrightarrow> (\<exists>t. clean_name t \<and> (s = t \<or> s = t @ [47]))"

definition slashed_clean :: "cstring \<Rightarrow> bool" where
  "slashed_clean s \<longleftrightarrow> (\<exists>t. clean_name t \<and> s = t @ [47])"

definition ends_slash :: "cstring \<Rightarrow> bool" where
  "ends_slash s \<longleftrightarrow> s = [] \<or> last s = 47"

lemma crop_segment:
  assumes "take (length (pre @ seg @ [47])) path = pre @ seg @ [47]" "ends_slash pre" "47 \<notin> set seg"
  shows "crop path (length (pre @ seg @ [47])) = length pre"
proof -
  have "crop path (Suc (length (pre @ t))) = length pre" if "take (length (pre @ t)) path = pre @ t" "47 \<notin> set t" for t
    using that
  proof (induction t rule: rev_induct)
    case Nil
    then have "pre \<noteq> [] \<Longrightarrow> path ! (length pre - 1) = last pre"
      by (metis append_Nil2 diff_less last_conv_nth length_greater_0_conv nth_take zero_less_one)
    then show ?case using assms(2) by (auto simp: ends_slash_def)
  next
    case (snoc c t)
    have "take (length (pre @ t)) path = pre @ t"
      using arg_cong [OF snoc.prems(1), of "take (length (pre @ t))"] by simp
    moreover have "path ! length (pre @ t) = c"
      using arg_cong [OF snoc.prems(1), of "\<lambda>xs. xs ! length (pre @ t)"] by (simp add: nth_append)
    ultimately show ?case using snoc by simp
  qed
  from this [of seg] show ?thesis
    using arg_cong [OF assms(1), of "take (length (pre @ seg))"] assms(3) by simp
qed

lemma not_backpathed:
  assumes "take n path = pre @ t @ [47]" "n \<le> length path" "clean_name t"
  shows "\<not> backpathed path n"
proof
  assume b: "backpathed path n"
  have n: "n = length pre + length t + 1" using arg_cong [OF assms(1), of length] assms(2) by simp
  have t: "t \<noteq> []" "47 \<notin> set t" "t \<noteq> [46]" "t \<noteq> [46, 46]" using assms(3) by (auto simp: clean_name_def)
  from b n consider "n = 3" "take 3 path = [46, 46, 47]" | "3 < n" "take 4 (drop (n - 4) path) = [47, 46, 46, 47]"
    by (auto simp: backpathed_def)
  then show False
  proof cases
    case 1
    then have "pre @ t = [46, 46]" using assms(1) by simp
    then show False using t by (auto simp: append_eq_Cons_conv)
  next
    case 2
    have "take 4 (drop (n - 4) path) = drop (n - 4) (take n path)" using 2(1) by (simp add: drop_take)
    then have "drop (n - 4) (pre @ t @ [47]) = [47, 46, 46, 47]" using 2(2) assms(1) by simp
    moreover have "pre @ t @ [47] = take (n - 4) (pre @ t @ [47]) @ drop (n - 4) (pre @ t @ [47])" by (rule append_take_drop_id [symmetric])
    ultimately have "pre @ t = take (n - 4) (pre @ t @ [47]) @ [47, 46, 46]"
      by (metis append.assoc append_Cons butlast_append butlast_snoc list.distinct(1) butlast.simps(2))
    then obtain z where "pre @ t = z @ [47, 46, 46]" by blast
    then show False using t by (auto simp: append_eq_append_conv2 append_eq_Cons_conv Cons_eq_append_conv)
  qed
qed

lemma slashed_butlast: "list_all slashed_clean st \<Longrightarrow> list_all slashed_clean (butlast st)"
  by (auto simp: list_all_iff dest: in_set_butlastD)

lemma ends_slash_concat: "ends_slash root \<Longrightarrow> list_all slashed_clean st \<Longrightarrow> ends_slash (root @ concat st)"
  by (cases st rule: rev_cases) (auto simp: ends_slash_def slashed_clean_def)

lemma backpath_secure:
  assumes "fp_flag flags APR_FILEPATH_SECUREROOTTEST" "ends_slash root" "list_all slashed_clean st"
    and "take (length (root @ concat st)) path = root @ concat st" "length (root @ concat st) \<le> length path"
  shows "backpath flags slashed path (length (root @ concat st)) (length root) =
    Some (if st = [] then Inl APR_EABOVEROOT else Inr (path, length (root @ concat (butlast st)), length root))"
proof (cases st rule: rev_cases)
  case Nil
  have "\<not> backpathed path (length root) \<Longrightarrow> crop path (length root) < length root"
    using crop_less [of "length root" path] by (auto simp: backpathed_def)
  then show ?thesis using Nil assms(1) by (simp add: backpath_def Let_def)
next
  case (snoc st' s)
  obtain t where t: "clean_name t" "s = t @ [47]" using assms(3) snoc by (auto simp: slashed_clean_def)
  let ?pre = "root @ concat st'"
  let ?n = "length (root @ concat st)"
  have e: "root @ concat st = ?pre @ t @ [47]" using snoc t by simp
  have n: "?n = length (?pre @ t @ [47])" unfolding e ..
  have tk: "take ?n path = ?pre @ t @ [47]" using assms(4) unfolding e .
  have "\<not> backpathed path ?n" using not_backpathed [OF tk assms(5) t(1)] .
  moreover have "?n \<noteq> 1" using t(1) unfolding n by (auto simp: clean_name_def)
  moreover have "ends_slash ?pre" using ends_slash_concat [OF assms(2)] assms(3) snoc by simp
  then have "crop path ?n = length ?pre"
    using crop_segment [of ?pre t path] tk t(1) unfolding n by (simp add: clean_name_def)
  ultimately have "backpath flags slashed path ?n (length root) = Some (Inr (path, length ?pre, length root))"
    unfolding backpath_def Let_def by simp
  then show ?thesis using snoc by simp
qed

lemma segment_loop_secure:
  assumes "fp_flag flags APR_FILEPATH_SECUREROOTTEST" "ends_slash root"
  shows "take (length (root @ concat st)) path = root @ concat st \<Longrightarrow>
    length (root @ concat st) + length a < length path \<Longrightarrow> cstr a \<Longrightarrow> list_all slashed_clean st \<Longrightarrow>
    (case norm_path a st of
       None \<Rightarrow> segment_loop flags path (length (root @ concat st)) (length root) a = Some (Inl APR_EABOVEROOT)
     | Some st' \<Rightarrow> list_all clean st' \<and>
         (\<exists>path'. segment_loop flags path (length (root @ concat st)) (length root) a =
             Some (Inr (path', length (root @ concat st'), length root)) \<and>
           take (length (root @ concat st')) path' = root @ concat st' \<and> length (root @ concat st') < length path' \<and>
           length path' = length path))"
proof (induction a st arbitrary: path rule: norm_path.induct)
  case (1 a st)
  let ?p = "\<lambda>c. c \<noteq> (47 :: byte)"
  let ?seg = "takeWhile ?p a" and ?nxt = "dropWhile ?p a"
  let ?rest = "drop 1 ?nxt"
  let ?n = "length (root @ concat st)"
  note len = segment_lengths [of ?p a]
  have cr: "cstr ?rest" using "1.prems"(3) by (auto simp: cstr_def dest!: in_set_dropD set_dropWhileD)
  consider "a = []" | "a \<noteq> []" "?seg = [] \<or> ?seg = [46]"
    | "a \<noteq> []" "?seg = [46, 46]" | "a \<noteq> []" "\<not> (?seg = [] \<or> ?seg = [46])" "?seg \<noteq> [46, 46]" by blast
  then show ?case
  proof cases
    case 1
    have "list_all clean st" using "1.prems"(4) by (auto simp: list_all_iff slashed_clean_def clean_def)
    then show ?thesis using 1 "1.prems" by (simp add: segment_loop.simps [of _ _ _ _ "[]"] norm_path.simps [of "[]"])
  next
    case 2
    have m: "segment_loop flags path ?n (length root) a = segment_loop flags path ?n (length root) ?rest"
      using 2 by (subst segment_loop.simps) (simp add: Let_def)
    have s: "norm_path a st = norm_path ?rest st" using 2 by (subst norm_path.simps) (simp add: Let_def)
    have "?n + length ?rest < length path" using "1.prems"(2) len by simp
    then show ?thesis using "1.IH"(1) [OF 2(1) refl refl refl 2(2) "1.prems"(1) _ cr "1.prems"(4)] unfolding m s by blast
  next
    case 3
    have ns: "\<not> (?seg = [] \<or> ?seg = [46])" using 3(2) by simp
    note b = backpath_secure [OF assms "1.prems"(4,1), of "?nxt \<noteq> []"]
    have le: "?n \<le> length path" using "1.prems"(2) by simp
    show ?thesis
    proof (cases "st = []")
      case True
      then have "norm_path a st = None" using 3 by (subst norm_path.simps) (simp add: Let_def)
      moreover have "segment_loop flags path ?n (length root) a = Some (Inl APR_EABOVEROOT)"
        using 3 b [OF le] True by (subst segment_loop.simps) (simp add: Let_def)
      ultimately show ?thesis by simp
    next
      case False
      let ?st = "butlast st"
      have s: "norm_path a st = norm_path ?rest ?st" using 3 False by (subst norm_path.simps) (simp add: Let_def)
      have m: "segment_loop flags path ?n (length root) a = segment_loop flags path (length (root @ concat ?st)) (length root) ?rest"
        using 3 b [OF le] False by (subst segment_loop.simps) (simp add: Let_def)
      have c: "root @ concat st = (root @ concat ?st) @ last st" using append_butlast_last_id [OF False] by (metis append.assoc concat_append concat.simps append_Nil2)
      have "take (length (root @ concat ?st)) path = root @ concat ?st"
        using arg_cong [OF "1.prems"(1), of "take (length (root @ concat ?st))"] unfolding c by simp
      moreover have "length (root @ concat ?st) + length ?rest < length path" using "1.prems"(2) len c by simp
      ultimately show ?thesis
        using "1.IH"(2) [OF 3(1) refl refl refl ns 3(2) False _ _ cr slashed_butlast [OF "1.prems"(4)]] unfolding m s by blast
    qed
  next
    case 4
    let ?s = "?seg @ take 1 ?nxt"
    let ?st = "st @ [?s]"
    have fit: "?n + length ?s \<le> length path" using "1.prems"(2) len by simp
    then obtain path' where p: "put path ?n ?s = Some (path', ?n + length ?s)" using put_fits by blast
    have le: "?n \<le> length path" using fit by simp
    note pp = put_Some [OF p le]
    have t: "take (length (root @ concat ?st)) path' = root @ concat ?st" using pp(4) "1.prems"(1) by (simp add: add.assoc)
    have s: "norm_path a st = norm_path ?rest ?st" using 4 by (subst norm_path.simps) (simp add: Let_def)
    have m: "segment_loop flags path ?n (length root) a = segment_loop flags path' (length (root @ concat ?st)) (length root) ?rest"
      using 4 p by (subst segment_loop.simps) (simp add: Let_def add.assoc)
    have l: "length (root @ concat ?st) + length ?rest < length path'" using "1.prems"(2) len pp(1) by simp
    have cn: "clean_name ?seg" using 4 "1.prems"(3) by (auto simp: clean_name_def cstr_def dest: set_takeWhileD)
    show ?thesis
    proof (cases ?nxt)
      case Nil
      then have "clean ?s" using cn by (auto simp: clean_def)
      moreover have "list_all clean st" using "1.prems"(4) by (auto simp: list_all_iff slashed_clean_def clean_def)
      moreover have "?rest = []" using Nil by simp
      ultimately show ?thesis unfolding m s using t l pp(1)
        by (simp add: segment_loop.simps [of _ _ _ _ "[]"] norm_path.simps [of "[]"])
    next
      case (Cons x xs)
      then have "x = 47" using hd_dropWhile [of ?p a] by simp
      then have "slashed_clean ?s" using cn Cons by (auto simp: slashed_clean_def)
      then have "list_all slashed_clean ?st" using "1.prems"(4) by simp
      from "1.IH"(3) [OF 4(1) refl refl refl 4(2,3) t l cr this] show ?thesis unfolding m s pp(1) .
    qed
  qed
qed

definition with_slash :: "cstring \<Rightarrow> cstring" where
  "with_slash r = (if r \<noteq> [] \<and> last r \<noteq> 47 then r @ [47] else r)"

lemma with_slash_ends: "ends_slash (with_slash r)"
  by (simp add: with_slash_def ends_slash_def)

lemma merge_start_root:
  assumes "length path = length r + k + 4"
  shows "\<exists>path'. merge_start path r False = Some (path', length (with_slash r), length (with_slash r)) \<and>
    take (length (with_slash r)) path' = with_slash r \<and> length path' = length path"
proof -
  obtain path' where p: "put path 0 r = Some (path', length r)" using put_fits [of 0 r path] assms by auto
  note pp = put_whole [OF p]
  have last: "path' ! (length r - 1) = last r" if "r \<noteq> []"
    using pp that by (metis diff_less last_conv_nth length_greater_0_conv nth_take zero_less_one)
  have le: "length r \<le> length path'" using pp assms by simp
  obtain path'' where q: "put path' (length r) [47] = Some (path'', length r + 1)"
    using put_fits [of "length r" "[47]" path'] assms pp by auto
  note qq = put_Some [OF q le]
  show ?thesis
  proof (cases "r \<noteq> [] \<and> last r \<noteq> 47")
    case True
    then show ?thesis using p q last pp qq by (simp add: merge_start_def with_slash_def)
  next
    case False
    then have "r = [] \<or> path' ! (length r - 1) = 47" using last by metis
    then show ?thesis using False p pp by (auto simp: merge_start_def with_slash_def)
  qed
qed

lemma string_at_take:
  assumes "take n path = s" "n < length path" "cstr s"
  shows "string_at (path[n := 0]) = s"
proof -
  have "path[n := 0] = s @ 0 # drop (Suc n) path" using assms(1,2) by (simp add: upd_conv_take_nth_drop)
  then show ?thesis using assms(3) by simp
qed

lemma clean_cstr: "list_all clean st \<Longrightarrow> cstr (concat st)"
  by (induction st) (auto simp: clean_def clean_name_def)

lemma merge_paths_secure:
  assumes "cstr r" "cstr a" "fp_flag flags APR_FILEPATH_SECUREROOTTEST" "length r + length a + 4 \<le> path_max"
    and "a = [] \<or> hd a \<noteq> 47" "fp_flag flags APR_FILEPATH_NOTRELATIVE \<longrightarrow> r \<noteq> [] \<and> hd r = 47"
  shows "case norm_path a [] of
      None \<Rightarrow> merge_paths junk path_max r a flags = Some (APR_EABOVEROOT, None)
    | Some st \<Rightarrow> list_all clean st \<and> (\<exists>path. merge_paths junk path_max r a flags = Some (APR_SUCCESS, Some path) \<and>
        string_at path = with_slash r @ concat st)"
proof -
  let ?r = "with_slash r"
  have rooted: "(a \<noteq> [] \<and> hd a = 47) = False" using assms(5) by auto
  obtain path where p: "merge_start (apr_palloc junk (length r + length a + 4)) r False = Some (path, length ?r, length ?r)"
      "take (length ?r) path = ?r" "length path = length r + length a + 4"
    using merge_start_root [of "apr_palloc junk (length r + length a + 4)" r "length a"] by auto
  have l: "length (?r @ concat []) + length a < length path" using p(3) by (simp add: with_slash_def)
  have len: "\<not> length ?r < length r" by (simp add: with_slash_def)
  have cr: "cstr ?r" using assms(1) by (simp add: with_slash_def)
  have t: "take (length (?r @ concat [])) path = ?r @ concat []" using p(2) by simp
  have step: "merge_paths junk path_max r a flags = (case segment_loop flags path (length ?r) (length ?r) a of
      None \<Rightarrow> None | Some (Inl rv) \<Rightarrow> Some (rv, None)
    | Some (Inr (path, pathlen, keptlen)) \<Rightarrow>
        if length path \<le> pathlen then None
        else if above_root flags r (path[pathlen := 0]) keptlen then Some (APR_EABOVEROOT, None)
        else Some (APR_SUCCESS, Some (path[pathlen := 0])))"
    unfolding merge_paths_def Let_def rooted using p(1) assms(4,6) by (auto split: option.split sum.split)
  have nil: "list_all slashed_clean []" by simp
  note ml = segment_loop_secure [OF assms(3) with_slash_ends [of r] t l assms(2) nil]
  show ?thesis
  proof (cases "norm_path a []")
    case None
    then show ?thesis using ml step by simp
  next
    case (Some st)
    then obtain path' where m: "segment_loop flags path (length ?r) (length ?r) a = Some (Inr (path', length (?r @ concat st), length ?r))"
      "take (length (?r @ concat st)) path' = ?r @ concat st" "length (?r @ concat st) < length path'" "list_all clean st"
      using ml by auto
    have "merge_paths junk path_max r a flags = Some (APR_SUCCESS, Some (path'[length (?r @ concat st) := 0]))"
      using step m(1,3) len by (simp add: above_root_def)
    moreover have "string_at (path'[length (?r @ concat st) := 0]) = ?r @ concat st"
      using m clean_cstr cr by (intro string_at_take) simp_all
    ultimately show ?thesis using Some m(4) by simp
  qed
qed

section \<open>Properties\<close>


text \<open>
  C4. With \<open>APR_FILEPATH_SECUREROOTTEST\<close> and a relative added path \<open>apr_filepath_merge\<close> does what the
  stack of segments says: it fails with \<open>APR_EABOVEROOT\<close> exactly when a \<open>..\<close> finds no segment of the
  added path to remove, and otherwise the result is the root path followed by segments none of which is
  empty, \<open>.\<close> or \<open>..\<close>, so it never leaves the root. The two paths together are at least four bytes shorter
  than \<open>PATH_MAX\<close>, and the root path passes the tests the other flags ask for: it is absolute with
  \<open>APR_FILEPATH_NOTRELATIVE\<close> and not absolute with \<open>APR_FILEPATH_NOTABSOLUTE\<close>.
\<close>

theorem apr_filepath_merge_secure:
  assumes "cstr r" "cstr a" "fp_flag flags APR_FILEPATH_SECUREROOTTEST" "length r + length a + 4 \<le> path_max"
    and "a = [] \<or> hd a \<noteq> 47" "fp_flag flags APR_FILEPATH_NOTRELATIVE \<longrightarrow> r \<noteq> [] \<and> hd r = 47"
    and "fp_flag flags APR_FILEPATH_NOTABSOLUTE \<longrightarrow> r = [] \<or> hd r \<noteq> 47"
  shows "case norm_path a [] of
      None \<Rightarrow> apr_filepath_merge junk path_max getcwd (Some r) (Some a) flags = Some (APR_EABOVEROOT, None)
    | Some st \<Rightarrow> list_all clean st \<and>
        (\<exists>path. apr_filepath_merge junk path_max getcwd (Some r) (Some a) flags = Some (APR_SUCCESS, Some path) \<and>
          string_at path = with_slash r @ concat st)"
proof -
  have "apr_filepath_merge junk path_max getcwd (Some r) (Some a) flags = merge_paths junk path_max r a flags"
    using assms(5,7) by (auto simp: apr_filepath_merge_def)
  then show ?thesis using merge_paths_secure [OF assms(1-6), of junk] by (simp only:)
qed

theorem apr_filepath_merge_secure_witness:
  "\<exists>path. apr_filepath_merge (\<lambda>i. 7) 20 (Inr [47]) (Some [47, 97]) (Some [98, 47, 46, 46, 47, 99, 47, 46]) 3 =
      Some (APR_SUCCESS, Some path) \<and> string_at path = [47, 97, 47, 99, 47]"
proof -
  have n: "norm_path [98, 47, 46, 46, 47, 99, 47, 46] [] = Some [[99, 47]]" by code_simp
  have f: "fp_flag 3 APR_FILEPATH_SECUREROOTTEST" "\<not> fp_flag 3 APR_FILEPATH_NOTRELATIVE" "\<not> fp_flag 3 APR_FILEPATH_NOTABSOLUTE"
    by code_simp+
  show ?thesis
    using apr_filepath_merge_secure [of "[47, 97]" "[98, 47, 46, 46, 47, 99, 47, 46]" 3 20 "\<lambda>i. 7" "Inr [47]"] f
    by (simp add: n with_slash_def)
qed

text \<open>
  Without \<open>APR_FILEPATH_SECUREROOTTEST\<close>, \<open>APR_FILEPATH_NOTABOVEROOT\<close> alone lets a path above the root
  pass when the root itself is a backpath: the root \<open>..\<close> and the added path \<open>..\<close> give \<open>../..\<close>.
\<close>

lemma merge_above_backpath:
  "apr_filepath_merge (\<lambda>i. 0) 20 (Inr [47]) (Some [46, 46]) (Some [46, 46]) APR_FILEPATH_NOTABOVEROOT =
    Some (APR_SUCCESS, Some [46, 46, 47, 46, 46, 0, 0, 0])"
  by code_simp

text \<open>
  Merging a list of paths skips an empty element but not its separator when it is the first one.
\<close>

lemma list_merge_leading_separator: "apr_filepath_list_merge (\<lambda>i. 0) [[], [97]] = Some (Some [58, 97, 0])"
  by code_simp

end
