(* ===== verification/Apr_Fnmatch.thy ===== *)
theory Apr_Fnmatch
  imports Apr_Cstr "HOL-Library.Monad_Syntax"
begin

text \<open>
  The glob patterns of \<^verbatim>\<open>strings/apr_fnmatch.c\<close>. A pattern pointer is the list of the bytes from it on,
  the NUL included; the string is one list and the pointers into it are positions. \<open>None\<close> is a read
  outside an object or a loop that does not end. A \<open>result\<close> is \<open>True\<close> where the source has
  \<open>APR_FNM_NOMATCH\<close>. The functions of \<^verbatim>\<open>ctype.h\<close> leave bytes outside ASCII alone.
\<close>

section \<open>One character\<close>

definition APR_FNM_NOMATCH :: int where "APR_FNM_NOMATCH = 1"
definition APR_FNM_NOESCAPE :: u32 where "APR_FNM_NOESCAPE = 0x01"
definition APR_FNM_PATHNAME :: u32 where "APR_FNM_PATHNAME = 0x02"
definition APR_FNM_PERIOD :: u32 where "APR_FNM_PERIOD = 0x04"
definition APR_FNM_CASE_BLIND :: u32 where "APR_FNM_CASE_BLIND = 0x08"

definition f_nocase :: "u32 \<Rightarrow> bool" where
  "f_nocase flags \<longleftrightarrow> flags AND APR_FNM_CASE_BLIND \<noteq> 0"

definition f_escape :: "u32 \<Rightarrow> bool" where
  "f_escape flags \<longleftrightarrow> flags AND APR_FNM_NOESCAPE = 0"

definition f_slash :: "u32 \<Rightarrow> bool" where
  "f_slash flags \<longleftrightarrow> flags AND APR_FNM_PATHNAME \<noteq> 0"

definition f_period :: "u32 \<Rightarrow> bool" where
  "f_period flags \<longleftrightarrow> flags AND APR_FNM_PERIOD \<noteq> 0"

definition isupper :: "byte \<Rightarrow> bool" where
  "isupper c \<longleftrightarrow> 65 \<le> c \<and> c \<le> 90"

definition same_ch :: "u32 \<Rightarrow> byte \<Rightarrow> byte \<Rightarrow> bool" where
  "same_ch flags x c \<longleftrightarrow> x = c \<or> f_nocase flags \<and> (isupper x \<or> isupper c) \<and> tolower x = tolower c"

definition in_range :: "u32 \<Rightarrow> byte \<Rightarrow> byte \<Rightarrow> byte \<Rightarrow> bool" where
  "in_range flags x lo hi \<longleftrightarrow>
     sint lo \<le> sint x \<and> sint x \<le> sint hi \<or>
     f_nocase flags \<and> (isupper x \<or> isupper lo \<or> isupper hi) \<and>
     sint (tolower lo) \<le> sint (tolower x) \<and> sint (tolower x) \<le> sint (tolower hi)"

text \<open>
  The body of the loop from the label \<open>leadingclosebrace\<close> on: a range or a character of a bracket
  expression, compared with \<open>x\<close>. \<open>Some None\<close> leaves the loop.
\<close>

definition bracket_item :: "u32 \<Rightarrow> byte \<Rightarrow> bool \<Rightarrow> byte list \<Rightarrow> (bool \<times> byte list) option option" where
  "bracket_item flags x result p = do {
     c \<leftarrow> ch p 0;
     d \<leftarrow> ch p 1;
     ranged \<leftarrow> (if d = 45 then do { e \<leftarrow> ch p 2; Some (e \<noteq> 93) } else Some False);
     if ranged then do {
       e \<leftarrow> ch p 2;
       let k = (if f_escape flags \<and> e = 92 then 3 else 2);
       h \<leftarrow> ch p k;
       if h = 0 \<or> f_slash flags \<and> h = 47 then Some None
       else Some (Some (result \<and> \<not> in_range flags x c h, drop (k + 1) p))
     }
     else Some (Some (result \<and> \<not> same_ch flags x c, drop 1 p))
   }"

lemma bracket_item_shorter:
  "bracket_item flags x result p = Some (Some (result', p')) \<Longrightarrow> length p' < length p"
  by (auto simp: bracket_item_def ch_def Let_def bind_eq_Some_conv split: if_splits)

function bracket_loop :: "u32 \<Rightarrow> byte \<Rightarrow> bool \<Rightarrow> byte list \<Rightarrow> (bool \<times> byte list) option option" where
  "bracket_loop flags x result p = do {
     c \<leftarrow> ch p 0;
     if c = 0 then Some None
     else if c = 93 then Some (Some (result, drop 1 p))
     else do {
       let p1 = (if f_escape flags \<and> c = 92 then drop 1 p else p);
       c1 \<leftarrow> ch p1 0;
       if c1 = 0 \<or> f_slash flags \<and> c1 = 47 then Some None
       else
         case bracket_item flags x result p1 of
           None \<Rightarrow> None
         | Some None \<Rightarrow> Some None
         | Some (Some (result', p')) \<Rightarrow> bracket_loop flags x result' p'
     }
   }"
  by pat_completeness auto
termination
  by (relation "measure (\<lambda>(flags, x, result, p). length p)")
    (auto simp: ch_def split: if_splits dest!: bracket_item_shorter)

declare bracket_loop.simps [simp del]

text \<open>The comparison with a character that is no wildcard, and the advance over both.\<close>

definition literal_ch :: "u32 \<Rightarrow> byte list \<Rightarrow> byte list \<Rightarrow> nat \<Rightarrow> (bool \<times> byte list \<times> nat) option" where
  "literal_ch flags p t i = do {
     c \<leftarrow> ch p 0;
     x \<leftarrow> ch t i;
     let result = (\<not> same_ch flags x c);
     if x = 0 \<or> c = 0 \<or> f_slash flags \<and> (x = 47 \<or> c = 47) then Some (result, p, i)
     else Some (result, drop 1 p, i + 1)
   }"

definition fnmatch_ch :: "u32 \<Rightarrow> byte list \<Rightarrow> byte list \<Rightarrow> nat \<Rightarrow> (bool \<times> byte list \<times> nat) option" where
  "fnmatch_ch flags p t i = do {
     c \<leftarrow> ch p 0;
     x \<leftarrow> ch t i;
     if c = 91 then do {
       n \<leftarrow> ch p 1;
       let negate = (n = 33 \<or> n = 94);
       let q = drop (if negate then 2 else 1) p;
       d \<leftarrow> ch q 0;
       r \<leftarrow> (if d = 93 then
               case bracket_item flags x True q of
                 None \<Rightarrow> None
               | Some None \<Rightarrow> Some None
               | Some (Some (result, p')) \<Rightarrow> bracket_loop flags x result p'
             else bracket_loop flags x True q);
       case r of
         Some (result, p') \<Rightarrow> Some (result \<noteq> negate, p', i + 1)
       | None \<Rightarrow> literal_ch flags p t i
     }
     else if c = 63 then
       if x = 0 \<or> f_slash flags \<and> x = 47 then Some (True, p, i) else Some (False, drop 1 p, i + 1)
     else if f_escape flags \<and> c = 92 then do {
       d \<leftarrow> ch p 1;
       literal_ch flags (if d \<noteq> 0 then drop 1 p else p) t i
     }
     else literal_ch flags p t i
   }"

section \<open>The matcher\<close>

text \<open>The pattern is at a slash, or at an escaped slash, that ends a segment.\<close>

definition at_slash :: "u32 \<Rightarrow> byte list \<Rightarrow> bool option" where
  "at_slash flags p = do {
     c \<leftarrow> ch p 0;
     if \<not> f_slash flags then Some False
     else if c = 47 then Some True
     else if f_escape flags \<and> c = 92 then do { d \<leftarrow> ch p 1; Some (d = 47) }
     else Some False
   }"

text \<open>The group of \<open>*\<close> and \<open>?\<close>. From here on \<open>Some None\<close> is the return of \<open>APR_FNM_NOMATCH\<close>.\<close>

fun wild_group :: "nat \<Rightarrow> bool \<Rightarrow> byte list \<Rightarrow> nat \<Rightarrow> (bool \<times> byte list \<times> nat) option option" where
  "wild_group strendseg wild [] i = None"
| "wild_group strendseg wild (c # p) i =
     (if c = 42 then wild_group strendseg True p i
      else if c = 63 then if i < strendseg then wild_group strendseg wild p (i + 1) else Some None
      else Some (Some (wild, c # p, i)))"

definition dummystring :: "byte list" where
  "dummystring = [32, 0]"

text \<open>The loop that counts the characters up to the next \<open>*\<close>: the string position, \<open>wild\<close> and \<open>matchlen\<close>.\<close>

partial_function (option) count_fixed ::
    "u32 \<Rightarrow> nat \<Rightarrow> nat \<Rightarrow> byte list \<Rightarrow> nat \<Rightarrow> (nat \<times> bool \<times> nat) option option" where
  "count_fixed flags strendseg i m matchlen = do {
     c \<leftarrow> ch m 0;
     slash \<leftarrow> at_slash flags m;
     if c = 0 \<or> slash then
       if strendseg < i + matchlen then Some None else Some (Some (strendseg - matchlen, False, matchlen))
     else if c = 42 then
       if strendseg < i + matchlen then Some None else Some (Some (i, True, matchlen))
     else do {
       escaped \<leftarrow> (if f_escape flags \<and> c = 92 then do { d \<leftarrow> ch m 1; Some (d \<noteq> 0) } else Some False);
       if escaped then count_fixed flags strendseg i (drop 2 m) (matchlen + 1)
       else if c = 91 then do {
         (result, m', j) \<leftarrow> fnmatch_ch flags m dummystring 0;
         count_fixed flags strendseg i m' (matchlen + 1)
       }
       else count_fixed flags strendseg i (drop 1 m) (matchlen + 1)
     }
   }"

text \<open>The loop that matches the string against the pattern up to the next \<open>*\<close>.\<close>

partial_function (option) match_loop ::
    "u32 \<Rightarrow> byte list \<Rightarrow> nat \<Rightarrow> bool \<Rightarrow> byte list \<Rightarrow> nat \<Rightarrow> nat \<Rightarrow> byte list \<Rightarrow> nat \<Rightarrow> (byte list \<times> nat) option option" where
  "match_loop flags t strendseg wild mismatch matchlen strstartseg p i = do {
     c \<leftarrow> ch p 0;
     if c = 0 \<or> strendseg \<le> i \<or> c = 42 then Some (Some (p, i))
     else do {
       x \<leftarrow> ch t i;
       slash \<leftarrow> at_slash flags p;
       if f_slash flags \<and> x = 47 \<or> slash then Some (Some (p, i))
       else do {
         (result, p', i') \<leftarrow> fnmatch_ch flags p t i;
         if \<not> result then match_loop flags t strendseg wild mismatch matchlen strstartseg p' i'
         else if wild then
           if strendseg < strstartseg + 1 + matchlen then Some None
           else match_loop flags t strendseg wild mismatch matchlen (strstartseg + 1) mismatch (strstartseg + 1)
         else Some None
       }
     }
   }"

text \<open>The loop over the wildcard groups of a segment.\<close>

partial_function (option) group_loop ::
    "u32 \<Rightarrow> byte list \<Rightarrow> nat \<Rightarrow> byte list \<Rightarrow> nat \<Rightarrow> (byte list \<times> nat) option option" where
  "group_loop flags t strendseg p i = do {
     c \<leftarrow> ch p 0;
     slash \<leftarrow> at_slash flags p;
     if c = 0 \<or> strendseg < i \<or> i = strendseg \<and> c \<noteq> 42 \<or> slash then Some (Some (p, i))
     else do {
       g \<leftarrow> wild_group strendseg False p i;
       case g of
         None \<Rightarrow> Some None
       | Some (wild, p1, i1) \<Rightarrow> do {
           s \<leftarrow> (if wild then count_fixed flags strendseg i1 p1 0 else Some (Some (i1, False, 0)));
           case s of
             None \<Rightarrow> Some None
           | Some (i2, wild2, matchlen) \<Rightarrow> do {
               r \<leftarrow> match_loop flags t strendseg wild2 p1 matchlen i1 p1 i2;
               case r of
                 None \<Rightarrow> Some None
               | Some (p3, i3) \<Rightarrow> group_loop flags t strendseg p3 i3
             }
         }
     }
   }"

text \<open>\<open>strchr\<close> for a slash, or the end of the string: the position where the segment from \<open>i\<close> on ends.\<close>

definition segment_end :: "u32 \<Rightarrow> byte list \<Rightarrow> nat \<Rightarrow> nat" where
  "segment_end flags t i =
     i + length (takeWhile (\<lambda>x. x \<noteq> 0 \<and> \<not> (f_slash flags \<and> x = 47)) (drop i t))"

text \<open>The leading period of a segment.\<close>

definition leading_period :: "u32 \<Rightarrow> byte list \<Rightarrow> byte list \<Rightarrow> nat \<Rightarrow> (byte list \<times> nat) option option" where
  "leading_period flags t p i = do {
     x \<leftarrow> ch t i;
     if f_period flags \<and> x = 46 then do {
       c \<leftarrow> ch p 0;
       if c = 46 then Some (Some (drop 1 p, i + 1))
       else if f_escape flags \<and> c = 92 then do {
         d \<leftarrow> ch p 1;
         if d = 46 then Some (Some (drop 2 p, i + 1)) else Some None
       }
       else Some None
     }
     else Some (Some (p, i))
   }"

text \<open>The tests after a segment, and the body of the outer loop from the label \<open>firstsegment\<close> on.\<close>

definition segment_tests :: "u32 \<Rightarrow> byte list \<Rightarrow> byte list \<Rightarrow> nat \<Rightarrow> (byte list \<times> nat) option option" where
  "segment_tests flags t p i = do {
     x \<leftarrow> ch t i;
     c \<leftarrow> ch p 0;
     slash \<leftarrow> at_slash flags p;
     if x \<noteq> 0 \<and> \<not> (f_slash flags \<and> x = 47) then Some None
     else if c \<noteq> 0 \<and> \<not> slash then Some None
     else Some (Some (p, i))
   }"

definition match_segment :: "u32 \<Rightarrow> byte list \<Rightarrow> byte list \<Rightarrow> nat \<Rightarrow> (byte list \<times> nat) option option" where
  "match_segment flags t p i = do {
     l \<leftarrow> leading_period flags t p i;
     case l of
       None \<Rightarrow> Some None
     | Some (p1, i1) \<Rightarrow> do {
         r \<leftarrow> group_loop flags t (segment_end flags t i1) p1 i1;
         case r of
           None \<Rightarrow> Some None
         | Some (p2, i2) \<Rightarrow> segment_tests flags t p2 i2
       }
   }"

partial_function (option) fnmatch_loop :: "u32 \<Rightarrow> byte list \<Rightarrow> byte list \<Rightarrow> nat \<Rightarrow> int option" where
  "fnmatch_loop flags t p i = do {
     c \<leftarrow> ch p 0;
     x \<leftarrow> ch t i;
     if c = 0 \<or> x = 0 then Some (if x = 0 \<and> c = 0 then 0 else APR_FNM_NOMATCH)
     else do {
       escaped \<leftarrow> (if f_slash flags \<and> f_escape flags \<and> c = 92 then do { d \<leftarrow> ch p 1; Some (d = 47) } else Some False);
       let p1 = (if escaped then drop 1 p else p);
       c1 \<leftarrow> ch p1 0;
       let both = (f_slash flags \<and> c1 = 47 \<and> x = 47);
       r \<leftarrow> match_segment flags t (if both then drop 1 p1 else p1) (if both then i + 1 else i);
       case r of
         None \<Rightarrow> Some APR_FNM_NOMATCH
       | Some (p2, i2) \<Rightarrow> fnmatch_loop flags t p2 i2
     }
   }"

definition apr_fnmatch :: "byte list \<Rightarrow> byte list \<Rightarrow> u32 \<Rightarrow> int option" where
  "apr_fnmatch pattern string flags = do {
     c \<leftarrow> ch pattern 0;
     if c = 42 then do {
       r \<leftarrow> match_segment flags string pattern 0;
       case r of
         None \<Rightarrow> Some APR_FNM_NOMATCH
       | Some (p, i) \<Rightarrow> fnmatch_loop flags string p i
     }
     else fnmatch_loop flags string pattern 0
   }"

text \<open>\<open>apr_fnmatch_test\<close>\<close>

fun fnmatch_test_loop :: "nat \<Rightarrow> byte list \<Rightarrow> bool option" where
  "fnmatch_test_loop nesting [] = None"
| "fnmatch_test_loop nesting (c # p) =
     (if c = 0 then Some False
      else if c = 63 \<or> c = 42 then Some True
      else if c = 92 then
        (case p of
           [] \<Rightarrow> None
         | d # p' \<Rightarrow> if d = 0 then Some False else fnmatch_test_loop nesting p')
      else if c = 91 then fnmatch_test_loop (nesting + 1) p
      else if c = 93 \<and> nesting \<noteq> 0 then Some True
      else fnmatch_test_loop nesting p)"

definition apr_fnmatch_test :: "byte list \<Rightarrow> bool option" where
  "apr_fnmatch_test pattern = fnmatch_test_loop 0 pattern"

text \<open>\<open>apr_cstr_match_glob_list\<close> of \<^verbatim>\<open>strings/apr_cstr.c\<close>, on the list of the patterns.\<close>

fun apr_cstr_match_glob_list :: "byte list \<Rightarrow> byte list list \<Rightarrow> bool option" where
  "apr_cstr_match_glob_list str [] = Some False"
| "apr_cstr_match_glob_list str (this_pattern # list) = do {
     r \<leftarrow> apr_fnmatch this_pattern str 0;
     if r = 0 then Some True else apr_cstr_match_glob_list str list
   }"

text \<open>
  \<open>apr_match_glob\<close>: opening and reading the directory are parameters; \<open>apr_dir_open\<close> gives an error or the names
  that \<open>apr_dir_read\<close> returns before it fails. The position after the last \<open>/\<close>, or after the last \<open>\\<close>, or 0:
\<close>

definition after_last :: "byte \<Rightarrow> cstring \<Rightarrow> nat" where
  "after_last c s = length s - length (takeWhile (\<lambda>b. b \<noteq> c) (rev s))"

fun match_glob_loop :: "byte list \<Rightarrow> cstring list \<Rightarrow> cstring list \<Rightarrow> cstring list option" where
  "match_glob_loop pattern result [] = Some result"
| "match_glob_loop pattern result (name # names) = do {
     r \<leftarrow> apr_fnmatch pattern (name @ [0]) 0;
     match_glob_loop pattern (if r = 0 then result @ [name] else result) names
   }"

definition apr_match_glob ::
    "(cstring \<Rightarrow> apr_status_t + cstring list) \<Rightarrow> cstring \<Rightarrow> (apr_status_t \<times> cstring list) option" where
  "apr_match_glob apr_dir_open pattern = (
     let idx = (if after_last 47 pattern \<noteq> 0 then after_last 47 pattern else after_last 92 pattern);
         path = (if idx = 0 then [46] else take (idx - 1) pattern)
     in case apr_dir_open path of
          Inl rv \<Rightarrow> Some (rv, [])
        | Inr names \<Rightarrow> do {
            result \<leftarrow> match_glob_loop (drop idx pattern @ [0]) [] names;
            Some (APR_SUCCESS, result)
          })"

end
