(* ===== verification/Apr_Fnmatch_Spec.thy ===== *)
theory Apr_Fnmatch_Spec
  imports Apr_Fnmatch
begin

text \<open>
  What the patterns of \<^verbatim>\<open>strings/apr_fnmatch.c\<close> match: a reference that reads a pattern into elements and
  tries every way to match them, and the proof that the matcher, which never goes back before its last
  \<open>*\<close>, gives the same answer, always returns and reads nothing outside pattern and string.
\<close>

section \<open>What a pattern means\<close>

text \<open>
  The references: a pattern is read into elements, a bracket expression into a negation and ranges, and
  the elements are matched by trying every length for a \<open>*\<close>. With \<open>APR_FNM_PATHNAME\<close> the elements are
  split at separators and the string at slashes, and the parts are matched in pairs.
\<close>

datatype glob =
    Any_String
  | Any_Char
  | Literal byte
  | Bracket bool "(byte \<times> byte) list"
  | Separator

definition range_ok :: "u32 \<Rightarrow> byte \<Rightarrow> byte \<times> byte \<Rightarrow> bool" where
  "range_ok flags x r \<longleftrightarrow>
     (let within = (\<lambda>f. sint (f (fst r)) \<le> sint (f x) \<and> sint (f x) \<le> sint (f (snd r)))
      in within (\<lambda>c. c) \<or> f_nocase flags \<and> within tolower)"

text \<open>A character of a bracket expression, escaped or not.\<close>

fun quoted :: "u32 \<Rightarrow> cstring \<Rightarrow> (byte \<times> cstring) option" where
  "quoted flags [] = None"
| "quoted flags (c # u) =
     (if f_escape flags \<and> c = 92 then
        case u of [] \<Rightarrow> None | d # v \<Rightarrow> if f_slash flags \<and> d = 47 then None else Some (d, v)
      else if f_slash flags \<and> c = 47 then None else Some (c, u))"

definition range_from :: "u32 \<Rightarrow> byte \<Rightarrow> cstring \<Rightarrow> ((byte \<times> byte) \<times> cstring) option" where
  "range_from flags lo u =
     (case u of
        [] \<Rightarrow> Some ((lo, lo), u)
      | d # v \<Rightarrow>
          if d = 45 \<and> (v = [] \<or> hd v \<noteq> 93) then map_option (\<lambda>(hi, w). ((lo, hi), w)) (quoted flags v)
          else Some ((lo, lo), u))"

definition bracket_range :: "u32 \<Rightarrow> cstring \<Rightarrow> ((byte \<times> byte) \<times> cstring) option" where
  "bracket_range flags u = Option.bind (quoted flags u) (\<lambda>(lo, v). range_from flags lo v)"

lemma quoted_shorter: "quoted flags u = Some (c, v) \<Longrightarrow> length v < length u"
  by (cases u) (auto split: if_splits list.splits)

lemma range_from_shorter: "range_from flags c u = Some (r, v) \<Longrightarrow> length v \<le> length u"
  by (auto simp: range_from_def split: list.splits if_splits dest!: quoted_shorter)

lemma bracket_range_shorter: "bracket_range flags u = Some (r, v) \<Longrightarrow> length v < length u"
  by (auto simp: bracket_range_def bind_eq_Some_conv dest!: quoted_shorter range_from_shorter)

text \<open>The ranges up to the closing bracket, which does not close at the first position.\<close>

function bracket_ranges :: "u32 \<Rightarrow> bool \<Rightarrow> cstring \<Rightarrow> ((byte \<times> byte) list \<times> cstring) option" where
  "bracket_ranges flags leading u =
     (if \<not> leading \<and> u \<noteq> [] \<and> hd u = 93 then Some ([], tl u)
      else case bracket_range flags u of
        None \<Rightarrow> None
      | Some (r, v) \<Rightarrow> map_option (\<lambda>(rs, w). (r # rs, w)) (bracket_ranges flags False v))"
  by pat_completeness auto
termination
  by (relation "measure (\<lambda>(flags, leading, u). length u)") (auto dest: bracket_range_shorter)

declare bracket_ranges.simps [simp del]

definition negated :: "cstring \<Rightarrow> bool" where
  "negated u \<longleftrightarrow> u \<noteq> [] \<and> (hd u = 33 \<or> hd u = 94)"

definition bracket :: "u32 \<Rightarrow> cstring \<Rightarrow> (glob \<times> cstring) option" where
  "bracket flags u =
     map_option (\<lambda>(rs, w). (Bracket (negated u) rs, w))
       (bracket_ranges flags True (if negated u then tl u else u))"

definition element :: "u32 \<Rightarrow> byte \<Rightarrow> glob" where
  "element flags c = (if f_slash flags \<and> c = 47 then Separator else Literal c)"

text \<open>
  An element and the rest of the pattern. A \<open>[\<close> without a closing bracket stands for itself, as the comment
  at the head of \<^verbatim>\<open>apr_fnmatch.c\<close> says; \<^verbatim>\<open>apr_fnmatch.h\<close> says that it never matches (see
  \<open>documented_elements\<close> below).
\<close>

definition token :: "u32 \<Rightarrow> byte \<Rightarrow> cstring \<Rightarrow> glob \<times> cstring" where
  "token flags c u =
     (if c = 42 then (Any_String, u)
      else if c = 63 then (Any_Char, u)
      else if c = 91 then (case bracket flags u of None \<Rightarrow> (Literal 91, u) | Some gw \<Rightarrow> gw)
      else if f_escape flags \<and> c = 92 \<and> u \<noteq> [] then (element flags (hd u), tl u)
      else (element flags c, u))"

lemma bracket_ranges_shorter: "bracket_ranges flags l u = Some (rs, v) \<Longrightarrow> length v < length u"
proof (induction flags l u arbitrary: rs v rule: bracket_ranges.induct)
  case (1 flags l u)
  show ?case
  proof (cases "\<not> l \<and> u \<noteq> [] \<and> hd u = 93")
    case True
    with 1(2) show ?thesis unfolding bracket_ranges.simps [of flags l u] if_P [OF True] by (cases u) auto
  next
    case False
    with 1(2) obtain r v' rs' where "bracket_range flags u = Some (r, v')" "bracket_ranges flags False v' = Some (rs', v)"
      unfolding bracket_ranges.simps [of flags l u] if_not_P [OF False] by (auto split: option.splits)
    with 1(1) [OF False this(1) refl this(2)] show ?thesis by (auto dest: bracket_range_shorter)
  qed
qed

lemma token_shorter: "length (snd (token flags c u)) \<le> length u"
  by (auto simp: token_def bracket_def negated_def split: option.splits if_splits dest!: bracket_ranges_shorter)

function elements :: "u32 \<Rightarrow> cstring \<Rightarrow> glob list" where
  "elements flags [] = []"
| "elements flags (c # u) = fst (token flags c u) # elements flags (snd (token flags c u))"
  by pat_completeness auto
termination
  by (relation "measure (\<lambda>(flags, u). length u)") (auto simp: token_shorter less_Suc_eq_le)

text \<open>
  The reading of \<^verbatim>\<open>apr_fnmatch.h\<close>. It differs from that of the code in the brackets: an unclosed class
  never matches, \<open>[]\<close> never matches, and \<open>[^]\<close> and \<open>[!]\<close> match without consuming a character, where the code
  takes an unclosed \<open>[\<close>, and a \<open>]\<close> at the start of a class, as ordinary characters. The element that
  never matches is a class without ranges.
\<close>

definition class_text :: "cstring \<Rightarrow> cstring" where
  "class_text u = (if negated u then tl u else u)"

definition empty_class :: "cstring \<Rightarrow> bool" where
  "empty_class u \<longleftrightarrow> class_text u \<noteq> [] \<and> hd (class_text u) = 93"

lemma class_text_shorter: "length (class_text u) \<le> length u"
  by (simp add: class_text_def)

lemma bracket_shorter: "bracket flags u = Some (g, w) \<Longrightarrow> length w < length u"
  by (auto simp: bracket_def negated_def split: if_splits dest!: bracket_ranges_shorter)

function documented_elements :: "u32 \<Rightarrow> cstring \<Rightarrow> glob list" where
  "documented_elements flags [] = []"
| "documented_elements flags (c # u) =
     (if c = 91 then
        if empty_class u then
          (if negated u then [] else [Bracket False []]) @ documented_elements flags (tl (class_text u))
        else
          (case bracket flags u of
             None \<Rightarrow> [Bracket False []]
           | Some (g, w) \<Rightarrow> g # documented_elements flags w)
      else fst (token flags c u) # documented_elements flags (snd (token flags c u)))"
  by pat_completeness auto
termination
proof (relation "measure (\<lambda>(flags, u). length u)", goal_cases)
  case (2 flags c u)
  then show ?case using class_text_shorter [of u] by (simp add: less_Suc_eq_le)
qed (auto simp: token_shorter less_Suc_eq_le dest: bracket_shorter)

text \<open>The patterns the code and the header read alike: every class is closed and not empty.\<close>

function closed_classes :: "u32 \<Rightarrow> cstring \<Rightarrow> bool" where
  "closed_classes flags [] \<longleftrightarrow> True"
| "closed_classes flags (c # u) \<longleftrightarrow>
     (c = 91 \<longrightarrow> bracket flags u \<noteq> None \<and> \<not> empty_class u) \<and> closed_classes flags (snd (token flags c u))"
  by pat_completeness auto
termination
  by (relation "measure (\<lambda>(flags, u). length u)") (auto simp: token_shorter less_Suc_eq_le)

lemma elements_documented: "closed_classes flags u \<Longrightarrow> elements flags u = documented_elements flags u"
proof (induction flags u rule: closed_classes.induct)
  case (2 flags c u)
  then show ?case by (cases "c = 91") (auto simp: token_def)
qed simp

fun element_ok :: "u32 \<Rightarrow> glob \<Rightarrow> byte \<Rightarrow> bool" where
  "element_ok flags Any_String x = False"
| "element_ok flags Any_Char x = True"
| "element_ok flags (Literal c) x = range_ok flags x (c, c)"
| "element_ok flags (Bracket n rs) x = (list_ex (range_ok flags x) rs \<noteq> n)"
| "element_ok flags Separator x = False"

primrec elements_match :: "u32 \<Rightarrow> glob list \<Rightarrow> cstring \<Rightarrow> bool" where
  "elements_match flags [] s \<longleftrightarrow> s = []"
| "elements_match flags (g # gs) s \<longleftrightarrow>
     (if g = Any_String then list_ex (\<lambda>k. elements_match flags gs (drop k s)) [0..<Suc (length s)]
      else s \<noteq> [] \<and> element_ok flags g (hd s) \<and> elements_match flags gs (tl s))"

text \<open>The parts between the elements that satisfy \<open>P\<close>.\<close>

function splits :: "('a \<Rightarrow> bool) \<Rightarrow> 'a list \<Rightarrow> 'a list list" where
  "splits P xs =
     takeWhile (\<lambda>x. \<not> P x) xs # (if list_ex P xs then splits P (tl (dropWhile (\<lambda>x. \<not> P x) xs)) else [])"
  by pat_completeness auto
termination
proof (relation "measure (length \<circ> snd)")
  fix P and xs :: "'a list" assume "list_ex P xs"
  then have "dropWhile (\<lambda>x. \<not> P x) xs \<noteq> []" by (auto simp: list_ex_iff)
  then show "((P, tl (dropWhile (\<lambda>x. \<not> P x) xs)), (P, xs)) \<in> measure (length \<circ> snd)"
    using length_dropWhile_le [of "\<lambda>x. \<not> P x" xs] by (cases "dropWhile (\<lambda>x. \<not> P x) xs") auto
qed simp

declare splits.simps [simp del]

text \<open>With \<open>APR_FNM_PERIOD\<close> only a literal period matches a leading one.\<close>

definition segment_matches :: "u32 \<Rightarrow> glob list \<Rightarrow> cstring \<Rightarrow> bool" where
  "segment_matches flags gs s \<longleftrightarrow>
     (f_period flags \<and> s \<noteq> [] \<and> hd s = 46 \<longrightarrow> gs \<noteq> [] \<and> hd gs = Literal 46) \<and> elements_match flags gs s"

definition glob_matches :: "u32 \<Rightarrow> cstring \<Rightarrow> cstring \<Rightarrow> bool" where
  "glob_matches flags pattern s \<longleftrightarrow>
     list_all2 (segment_matches flags) (splits (\<lambda>g. g = Separator) (elements flags pattern))
       (splits (\<lambda>x. f_slash flags \<and> x = 47) s)"

text \<open>The same with the reading of the header.\<close>

definition documented_matches :: "u32 \<Rightarrow> cstring \<Rightarrow> cstring \<Rightarrow> bool" where
  "documented_matches flags pattern s \<longleftrightarrow>
     list_all2 (segment_matches flags) (splits (\<lambda>g. g = Separator) (documented_elements flags pattern))
       (splits (\<lambda>x. f_slash flags \<and> x = 47) s)"

section \<open>One character against one element\<close>

lemma isupper_tolower: "\<not> isupper c \<Longrightarrow> tolower c = c"
  by (simp add: isupper_def tolower_def)

lemma same_ch_range: "same_ch flags x c = range_ok flags x (c, c)"
proof -
  have "sint a \<le> sint b \<and> sint b \<le> sint a \<longleftrightarrow> b = a" for a b :: byte
    using signed_word_eqI [of b a, where 'a = int] by auto
  then show ?thesis using isupper_tolower [of x] isupper_tolower [of c]
    unfolding same_ch_def range_ok_def Let_def fst_conv snd_conv
    by (cases "isupper x"; cases "isupper c") auto
qed

lemma in_range_range: "in_range flags x lo hi = range_ok flags x (lo, hi)"
  using isupper_tolower [of x] isupper_tolower [of lo] isupper_tolower [of hi]
  unfolding in_range_def range_ok_def Let_def fst_conv snd_conv
  by (cases "isupper x"; cases "isupper lo"; cases "isupper hi") auto

lemma bracket_item_spec:
  assumes "cstr (c # u)"
  shows "bracket_item flags x result (c # u @ [0]) =
    Some (map_option (\<lambda>(r, w). (result \<and> \<not> range_ok flags x r, w @ [0])) (range_from flags c u))"
  using assms
  by (cases u; cases "tl u"; cases "tl (tl u)")
    (auto simp: bracket_item_def range_from_def same_ch_range in_range_range Let_def split: if_splits)

lemma quoted_cstr: "quoted flags u = Some (c, v) \<Longrightarrow> cstr u \<Longrightarrow> cstr (c # v)"
  by (cases u) (auto split: if_splits list.splits)

lemma range_from_cstr: "range_from flags c u = Some (r, v) \<Longrightarrow> cstr u \<Longrightarrow> cstr v"
  by (auto simp: range_from_def split: if_splits list.splits dest: quoted_cstr)

text \<open>One round of the loop.\<close>

lemma bracket_loop_step:
  assumes "cstr u" "u \<noteq> []" "hd u \<noteq> 93"
  shows "bracket_loop flags x result (u @ [0]) =
    (case bracket_range flags u of
       None \<Rightarrow> Some None
     | Some (r, w) \<Rightarrow> bracket_loop flags x (result \<and> \<not> range_ok flags x r) (w @ [0]))"
proof (cases "quoted flags u")
  case None
  with assms show ?thesis
    by (cases u) (auto simp: bracket_range_def bracket_loop.simps [of _ _ _ "_ # _"] split: list.splits if_splits)
next
  case (Some cv)
  obtain c v where cv: "cv = (c, v)" by force
  have *: "bracket_item flags x result (c # v @ [0]) =
      Some (map_option (\<lambda>(r, w). (result \<and> \<not> range_ok flags x r, w @ [0])) (range_from flags c v))"
    by (rule bracket_item_spec) (use Some cv quoted_cstr [of flags u c v] assms(1) in simp)
  have "bracket_loop flags x result (u @ [0]) =
      (case bracket_item flags x result (c # v @ [0]) of
         None \<Rightarrow> None
       | Some None \<Rightarrow> Some None
       | Some (Some (result', p')) \<Rightarrow> bracket_loop flags x result' p')"
    using assms Some cv by (cases u) (auto simp: bracket_loop.simps [of _ _ _ "_ # _"] split: list.splits if_splits)
  then show ?thesis unfolding * using Some cv by (auto simp: bracket_range_def split: option.splits)
qed

lemma bracket_range_cstr: "bracket_range flags u = Some (r, v) \<Longrightarrow> cstr u \<Longrightarrow> cstr v"
  by (auto simp: bracket_range_def bind_eq_Some_conv dest!: quoted_cstr dest: range_from_cstr)

lemma bracket_loop_spec:
  "cstr u \<Longrightarrow> bracket_loop flags x result (u @ [0]) =
    Some (map_option (\<lambda>(rs, w). (result \<and> \<not> list_ex (range_ok flags x) rs, w @ [0])) (bracket_ranges flags False u))"
proof (induction "length u" arbitrary: u result rule: less_induct)
  case less
  consider "u = []" | "u \<noteq> []" "hd u = 93" | "u \<noteq> []" "hd u \<noteq> 93" by blast
  then show ?case
  proof cases
    case 1
    then show ?thesis by (simp add: bracket_loop.simps [of _ _ _ "_ # _"] bracket_ranges.simps [of flags False] bracket_range_def)
  next
    case 2
    then show ?thesis by (cases u) (simp_all add: bracket_loop.simps [of _ _ _ "_ # _"] bracket_ranges.simps [of flags False "_ # _"])
  next
    case 3
    show ?thesis
    proof (cases "bracket_range flags u")
      case None
      then show ?thesis using bracket_loop_step [OF less.prems 3] 3 by (simp add: bracket_ranges.simps [of flags False u])
    next
      case (Some rv)
      obtain r v where rv: "rv = (r, v)" by (cases rv)
      have "bracket_loop flags x result (u @ [0]) = bracket_loop flags x (result \<and> \<not> range_ok flags x r) (v @ [0])"
        using bracket_loop_step [OF less.prems 3] Some rv by simp
      also have "\<dots> = Some (map_option (\<lambda>(rs, w). ((result \<and> \<not> range_ok flags x r) \<and> \<not> list_ex (range_ok flags x) rs, w @ [0]))
          (bracket_ranges flags False v))"
        using Some rv less.prems by (intro less.hyps) (auto dest: bracket_range_shorter bracket_range_cstr)
      finally show ?thesis using 3 Some rv
        by (simp add: bracket_ranges.simps [of flags False u] option.map_comp o_def case_prod_unfold)
    qed
  qed
qed

lemma literal_ch_spec:
  "c \<noteq> 0 \<Longrightarrow> ch t i = Some x \<Longrightarrow> x \<noteq> 0 \<Longrightarrow> \<not> (f_slash flags \<and> (x = 47 \<or> c = 47)) \<Longrightarrow>
    literal_ch flags (c # p) t i = Some (\<not> range_ok flags x (c, c), p, i + 1)"
  by (auto simp: literal_ch_def same_ch_range)

text \<open>The loop starts in the middle at a leading bracket; for the reference it is one list of ranges.\<close>

definition bracket_body :: "u32 \<Rightarrow> byte \<Rightarrow> byte list \<Rightarrow> (bool \<times> byte list) option option" where
  "bracket_body flags x q = do {
     d \<leftarrow> ch q 0;
     if d = 93 then
       case bracket_item flags x True q of
         None \<Rightarrow> None
       | Some None \<Rightarrow> Some None
       | Some (Some (result, p')) \<Rightarrow> bracket_loop flags x result p'
     else bracket_loop flags x True q
   }"

lemma bracket_body_spec:
  assumes "cstr u"
  shows "bracket_body flags x (u @ [0]) =
    Some (map_option (\<lambda>(rs, w). (\<not> list_ex (range_ok flags x) rs, w @ [0])) (bracket_ranges flags True u))"
proof (cases "u \<noteq> [] \<and> hd u = 93")
  case True
  then obtain v where u: "u = 93 # v" by (cases u) auto
  have "bracket_range flags u = range_from flags 93 v" by (simp add: u bracket_range_def)
  then show ?thesis using assms
    by (auto simp: u bracket_body_def bracket_item_spec bracket_ranges.simps [of flags True] bracket_loop_spec range_from_cstr
        option.map_comp o_def case_prod_unfold split: option.splits)
next
  case False
  then have "bracket_ranges flags True u = bracket_ranges flags False u"
    unfolding bracket_ranges.simps [of flags True u] bracket_ranges.simps [of flags False u] by auto
  moreover have "bracket_body flags x (u @ [0]) = bracket_loop flags x True (u @ [0])"
    using False by (cases u) (auto simp: bracket_body_def)
  ultimately show ?thesis using bracket_loop_spec [OF assms, of flags x True] by simp
qed

lemma fnmatch_ch_bracket:
  assumes "ch t i = Some x"
  shows "fnmatch_ch flags (91 # u @ [0]) t i =
    (case bracket_body flags x ((if negated u then tl u else u) @ [0]) of
       None \<Rightarrow> None
     | Some None \<Rightarrow> literal_ch flags (91 # u @ [0]) t i
     | Some (Some (result, p')) \<Rightarrow> Some (result \<noteq> negated u, p', i + 1))"
proof -
  let ?n = "if u = [] then 0 else hd u" and ?q = "(if negated u then tl u else u) @ [0]"
  have "ch (91 # u @ [0]) 0 = Some 91" "ch (91 # u @ [0]) 1 = Some ?n" by (cases u; simp)+
  moreover have "drop (if negated u then 2 else 1) (91 # u @ [0]) = ?q" "(?n = 33 \<or> ?n = 94) = negated u"
    by (cases u; auto simp: negated_def)+
  ultimately have "fnmatch_ch flags (91 # u @ [0]) t i = do {
      r \<leftarrow> bracket_body flags x ?q;
      case r of Some (result, p') \<Rightarrow> Some (result \<noteq> negated u, p', i + 1) | None \<Rightarrow> literal_ch flags (91 # u @ [0]) t i }"
    unfolding fnmatch_ch_def bracket_body_def Let_def by (simp only: assms bind.bind_lunit if_True bind_assoc simp_thms)
  then show ?thesis by (simp split: option.split)
qed

lemma fnmatch_ch_spec:
  assumes "cstr (c # u)" "token flags c u = (g, v)" "g \<noteq> Any_String" "g \<noteq> Separator"
    and x: "ch t i = Some x" "x \<noteq> 0" "\<not> (f_slash flags \<and> x = 47)"
  shows "fnmatch_ch flags (c # u @ [0]) t i = Some (\<not> element_ok flags g x, v @ [0], i + 1)"
proof (cases "c = 91")
  case True
  have "cstr (if negated u then tl u else u)" using assms(1) by (cases u) auto
  from bracket_body_spec [OF this, of flags x] show ?thesis using assms True
    unfolding token_def bracket_def
    by (cases "bracket_ranges flags True (if negated u then tl u else u)")
      (auto simp: fnmatch_ch_bracket literal_ch_spec simp del: if_split)
next
  case False
  then show ?thesis using assms
    by (cases u) (auto simp: fnmatch_ch_def token_def element_def literal_ch_spec split: if_splits)
qed

section \<open>Elements and pointers\<close>

definition single :: "glob \<Rightarrow> bool" where
  "single g \<longleftrightarrow> g \<noteq> Any_String \<and> g \<noteq> Separator"

text \<open>The pattern after its first \<open>k\<close> elements.\<close>

fun advance :: "u32 \<Rightarrow> nat \<Rightarrow> cstring \<Rightarrow> cstring" where
  "advance flags 0 u = u"
| "advance flags (Suc k) [] = []"
| "advance flags (Suc k) (c # u) = advance flags k (snd (token flags c u))"

lemma elements_advance [simp]: "elements flags (advance flags k u) = drop k (elements flags u)"
  by (induction flags k u rule: advance.induct) auto

lemma advance_Nil [simp]: "advance flags k [] = []"
  by (cases k) auto

lemma advance_advance [simp]: "advance flags k (advance flags j u) = advance flags (j + k) u"
  by (induction flags j u rule: advance.induct) auto

lemma elements_Nil_iff [simp]: "elements flags u = [] \<longleftrightarrow> u = []"
  by (cases u) auto

lemma bracket_ranges_cstr: "bracket_ranges flags l u = Some (rs, v) \<Longrightarrow> cstr u \<Longrightarrow> cstr v"
proof (induction flags l u arbitrary: rs v rule: bracket_ranges.induct)
  case (1 flags l u)
  show ?case
  proof (cases "\<not> l \<and> u \<noteq> [] \<and> hd u = 93")
    case True
    with 1(2,3) show ?thesis unfolding bracket_ranges.simps [of flags l u] if_P [OF True] by (cases u) auto
  next
    case False
    with 1(2) obtain r v' rs' where "bracket_range flags u = Some (r, v')" "bracket_ranges flags False v' = Some (rs', v)"
      unfolding bracket_ranges.simps [of flags l u] if_not_P [OF False] by (auto split: option.splits)
    with 1(1) [OF False this(1) refl this(2)] 1(3) show ?thesis by (auto dest: bracket_range_cstr)
  qed
qed

lemma cstr_tl: "cstr u \<Longrightarrow> cstr (tl u)"
  by (cases u) auto

lemma glob_token_cstr: "cstr u \<Longrightarrow> cstr (snd (token flags c u))"
  by (auto simp: token_def bracket_def cstr_tl split: option.splits if_splits dest!: bracket_ranges_cstr)

lemma advance_cstr [simp]: "cstr u \<Longrightarrow> cstr (advance flags k u)"
  by (induction flags k u rule: advance.induct) (auto intro: glob_token_cstr)

lemma token_kind:
  "fst (token flags c u) = Any_String \<longleftrightarrow> c = 42"
  "fst (token flags c u) = Any_Char \<longleftrightarrow> c = 63"
  by (auto simp: token_def bracket_def element_def split: option.splits)

lemma ch_first: "ch (u @ [0]) 0 = Some (if u = [] then 0 else hd u)"
  by (cases u) auto

lemma first_star: "u \<noteq> [] \<Longrightarrow> hd u = 42 \<longleftrightarrow> hd (elements flags u) = Any_String"
  by (cases u) (auto simp: token_kind)

lemma at_slash_spec:
  "at_slash flags (u @ [0]) = Some (u \<noteq> [] \<and> hd (elements flags u) = Separator)"
  by (cases u; cases "tl u") (auto simp: at_slash_def token_def element_def bracket_def split: option.splits)

lemma single_token:
  "single (fst (token flags c u)) \<longleftrightarrow> c \<noteq> 42 \<and> at_slash flags (c # u @ [0]) = Some False"
  using at_slash_spec [of flags "c # u"] by (auto simp: single_def token_kind)

section \<open>What the loops do\<close>

definition wildcard :: "glob \<Rightarrow> bool" where
  "wildcard g \<longleftrightarrow> g = Any_String \<or> g = Any_Char"

lemma wild_group_spec:
  assumes "cstr u" "i \<le> strendseg"
  shows "wild_group strendseg wild (u @ [0]) i =
    (let gs = takeWhile wildcard (elements flags u); q = count_list gs Any_Char
     in Some (if i + q \<le> strendseg then Some (wild \<or> Any_String \<in> set gs, advance flags (length gs) u @ [0], i + q) else None))"
  using assms
proof (induction u arbitrary: wild i)
  case (Cons c u)
  consider "c = 42" | "c = 63" | "c \<noteq> 42" "c \<noteq> 63" by blast
  then show ?case
  proof cases
    case 1
    then show ?thesis using Cons.IH [of i True] Cons.prems by (simp add: token_def wildcard_def Let_def)
  next
    case 2
    then show ?thesis using Cons.IH [of "i + 1" wild] Cons.prems by (auto simp: token_def wildcard_def Let_def)
  next
    case 3
    then have "\<not> wildcard (fst (token flags c u))" by (simp add: wildcard_def token_kind)
    then show ?thesis using 3 Cons.prems by (simp add: Let_def)
  qed
qed (simp add: Let_def)

lemma token_next:
  assumes "cstr (c # u)" "single (fst (token flags c u))"
  shows "snd (token flags c u) @ [0] =
    (if f_escape flags \<and> c = 92 \<and> u \<noteq> [] then drop 2 (c # u @ [0])
     else if c = 91 then (case fnmatch_ch flags (c # u @ [0]) dummystring 0 of Some (r, m, j) \<Rightarrow> m | None \<Rightarrow> [])
     else drop 1 (c # u @ [0]))"
proof (cases "c = 91")
  case True
  have "fnmatch_ch flags (c # u @ [0]) dummystring 0 =
      Some (\<not> element_ok flags (fst (token flags c u)) 32, snd (token flags c u) @ [0], 0 + 1)"
    using assms by (intro fnmatch_ch_spec) (auto simp: single_def dummystring_def)
  with True show ?thesis by simp
next
  case False
  then show ?thesis by (cases u) (auto simp: token_def)
qed


text \<open>The characters of a segment of the string, which ends at \<open>e\<close>.\<close>

definition open_seg :: "u32 \<Rightarrow> byte list \<Rightarrow> nat \<Rightarrow> nat \<Rightarrow> bool" where
  "open_seg flags t b e \<longleftrightarrow> b \<le> e \<and> e < length t \<and> (\<forall>j. b \<le> j \<and> j < e \<longrightarrow> t ! j \<noteq> 0 \<and> \<not> (f_slash flags \<and> t ! j = 47))"

lemma open_seg_later: "open_seg flags t b e \<Longrightarrow> b \<le> i \<Longrightarrow> i \<le> e \<Longrightarrow> open_seg flags t i e"
  by (auto simp: open_seg_def)

abbreviation fixed :: "u32 \<Rightarrow> cstring \<Rightarrow> glob list" where
  "fixed flags u \<equiv> takeWhile single (elements flags u)"

lemma count_fixed_spec:
  assumes "cstr u"
  shows "count_fixed flags e i (u @ [0]) len =
    (let n = len + length (fixed flags u); more = drop (length (fixed flags u)) (elements flags u)
     in Some (if e < i + n then None
         else Some (if more \<noteq> [] \<and> hd more = Any_String then (i, True, n) else (e - n, False, n))))"
  using assms
proof (induction flags u arbitrary: len rule: elements.induct)
  case (1 flags)
  then show ?case using at_slash_spec [of flags "[]"] by (subst count_fixed.simps) (simp add: Let_def)
next
  case (2 flags c u)
  let ?g = "fst (token flags c u)" and ?v = "snd (token flags c u)"
  show ?case
  proof (cases "single ?g")
    case True
    then have s: "at_slash flags (c # u @ [0]) = Some False" "c \<noteq> 42" by (simp_all add: single_token)
    have ch1: "ch (u @ [0]) 0 = Some (if u = [] then 0 else hd u)" by (rule ch_first)
    have "count_fixed flags e i (c # u @ [0]) len = count_fixed flags e i (?v @ [0]) (len + 1)"
    proof (cases "c = 91")
      case True
      have "fnmatch_ch flags (c # u @ [0]) dummystring 0 = Some (\<not> element_ok flags ?g 32, ?v @ [0], 0 + 1)"
        using 2(2) \<open>single ?g\<close> by (intro fnmatch_ch_spec) (auto simp: single_def dummystring_def)
      then show ?thesis using True s 2(2) by (subst count_fixed.simps) simp
    next
      case False
      then show ?thesis using token_next [OF 2(2) True] s 2(2) ch1
        by (subst count_fixed.simps) (cases u; auto simp: numeral_2_eq_2)
    qed
    then show ?thesis using 2 True glob_token_cstr [of u flags c] by (simp add: Let_def)
  next
    case False
    then show ?thesis using at_slash_spec [of flags "c # u"] 2(2)
      by (subst count_fixed.simps) (auto simp: Let_def single_def token_kind)
  qed
qed

lemma match_stop:
  assumes "e \<le> i \<or> fixed flags u = []" "e < length t"
  shows "match_loop flags t e wild m n s (u @ [0]) i = Some (Some (u @ [0], i))"
proof (cases "u = [] \<or> e \<le> i \<or> hd u = 42")
  case True
  then show ?thesis by (subst match_loop.simps) (auto simp: ch_first)
next
  case False
  then have "hd (elements flags u) = Separator" using assms(1) by (cases u) (auto simp: single_def token_kind split: if_splits)
  then have "at_slash flags (u @ [0]) = Some True" using False by (simp add: at_slash_spec)
  then show ?thesis using False assms(2) by (subst match_loop.simps) (simp add: ch_first, simp add: ch_def)
qed

lemma match_step:
  assumes "cstr u" "open_seg flags t i e" "i < e" "elements flags u = g # gs" "single g"
  shows "match_loop flags t e wild m n s (u @ [0]) i =
    (if element_ok flags g (t ! i) then match_loop flags t e wild m n s (advance flags 1 u @ [0]) (i + 1)
     else if wild then
       if e < s + 1 + n then Some None else match_loop flags t e wild m n (s + 1) m (s + 1)
     else Some None)"
proof -
  obtain c v where u: "u = c # v" using assms(4) by (cases u) auto
  have x: "ch t i = Some (t ! i)" "t ! i \<noteq> 0" "\<not> (f_slash flags \<and> t ! i = 47)"
    using assms(2,3) by (auto simp: open_seg_def ch_def)
  have g: "g = fst (token flags c v)" using assms(4) u by simp
  have f: "fnmatch_ch flags (c # v @ [0]) t i = Some (\<not> element_ok flags g (t ! i), advance flags 1 u @ [0], i + 1)"
    using assms(1,5) u x g by (intro fnmatch_ch_spec) (auto simp: single_def)
  have "at_slash flags (c # v @ [0]) = Some False" "c \<noteq> 42" using assms(5) g by (simp_all add: single_token)
  then show ?thesis using x f assms(1,3) u
    by (cases "f_slash flags") (subst match_loop.simps, simp)+
qed


text \<open>The elements \<open>f\<close> match the characters from \<open>j\<close> on.\<close>

definition hits :: "u32 \<Rightarrow> byte list \<Rightarrow> glob list \<Rightarrow> nat \<Rightarrow> bool" where
  "hits flags t f j \<longleftrightarrow> (\<forall>m < length f. element_ok flags (f ! m) (t ! (j + m)))"

lemma hits_Nil [simp]: "hits flags t [] j"
  by (simp add: hits_def)

lemma hits_Cons [simp]: "hits flags t (g # f) j \<longleftrightarrow> element_ok flags g (t ! j) \<and> hits flags t f (Suc j)"
  by (auto simp: hits_def All_less_Suc2)

lemma match_loop_fixed:
  assumes "cstr u" "open_seg flags t i e"
  shows "match_loop flags t e False m n s (u @ [0]) i =
    (let f = take (e - i) (fixed flags u)
     in Some (if hits flags t f i then Some (advance flags (length f) u @ [0], i + length f) else None))"
  using assms
proof (induction "length (fixed flags u)" arbitrary: u i)
  case 0
  then show ?case using match_stop [of e i flags u t] by (simp add: open_seg_def)
next
  case (Suc k)
  show ?case
  proof (cases "i < e")
    case False
    then show ?thesis using match_stop [of e i flags u t] Suc.prems by (simp add: open_seg_def)
  next
    case True
    obtain g gs where g: "elements flags u = g # gs" "single g"
      using Suc.hyps(2) by (cases "elements flags u") (auto split: if_splits)
    have "match_loop flags t e False m n s (u @ [0]) i =
        (if element_ok flags g (t ! i) then match_loop flags t e False m n s (advance flags 1 u @ [0]) (i + 1) else Some None)"
      using match_step [OF Suc.prems True g] by simp
    also have "match_loop flags t e False m n s (advance flags 1 u @ [0]) (i + 1) =
        (let f = take (e - (i + 1)) (fixed flags (advance flags 1 u))
         in Some (if hits flags t f (i + 1) then Some (advance flags (length f) (advance flags 1 u) @ [0], i + 1 + length f) else None))"
      using Suc.hyps(2) g Suc.prems True by (intro Suc.hyps(1)) (auto intro: open_seg_later)
    moreover obtain d where "e - i = Suc d" "e - (i + 1) = d" using True by (cases "e - i") auto
    ultimately show ?thesis using g by (simp add: Let_def)
  qed
qed

text \<open>The loop with \<open>wild\<close> finds the first position where the fixed part matches.\<close>

lemma match_loop_wild:
  assumes "cstr u" "open_seg flags t b e" "b \<le> s" "k \<le> length (fixed flags u)" "s + length (fixed flags u) \<le> e"
    and "hits flags t (take k (fixed flags u)) s"
  shows "\<exists>r. match_loop flags t e True (u @ [0]) (length (fixed flags u)) s (advance flags k u @ [0]) (s + k) = Some r \<and>
    (case r of
       None \<Rightarrow> \<forall>j \<ge> s. j + length (fixed flags u) \<le> e \<longrightarrow> \<not> hits flags t (fixed flags u) j
     | Some (p, i) \<Rightarrow> \<exists>j \<ge> s. j + length (fixed flags u) \<le> e \<and> hits flags t (fixed flags u) j \<and>
         (\<forall>l \<ge> s. l < j \<longrightarrow> \<not> hits flags t (fixed flags u) l) \<and>
         p = advance flags (length (fixed flags u)) u @ [0] \<and> i = j + length (fixed flags u))"
  (is "\<exists>r. ?loop s k = Some r \<and> ?good s r")
  using assms(3-)
proof (induction "(e - s, length (fixed flags u) - k)" arbitrary: s k rule: wf_induct_rule [OF wf_lex_prod [OF wf_less_than wf_less_than]])
  case (1 s k)
  let ?f = "fixed flags u" and ?n = "length (fixed flags u)"
  show ?case
  proof (cases "k = ?n")
    case True
    have "drop ?n (elements flags u) = dropWhile single (elements flags u)"
      by (metis dropWhile_eq_drop)
    then have "takeWhile single (drop ?n (elements flags u)) = []"
      using hd_dropWhile [of single "elements flags u"] by (cases "dropWhile single (elements flags u)") auto
    then have "?loop s k = Some (Some (advance flags ?n u @ [0], s + ?n))"
      using True assms(2) match_stop [of e "s + ?n" flags "advance flags ?n u" t] by (simp add: open_seg_def)
    then show ?thesis using 1 True by force
  next
    case False
    then have k: "k < ?n" using 1 by simp
    have el: "elements flags (advance flags k u) = ?f ! k # drop (Suc k) (elements flags u)"
      using k length_takeWhile_le [of single "elements flags u"] takeWhile_nth [of k single "elements flags u"]
      by (simp add: Cons_nth_drop_Suc)
    have "single (?f ! k)" using k nth_mem set_takeWhileD by metis
    note step = match_step [OF advance_cstr [OF assms(1)] open_seg_later [OF assms(2)] _ el this, of "s + k" True "u @ [0]" ?n s]
    have tk: "take (Suc k) ?f = take k ?f @ [?f ! k]" using k by (simp add: take_Suc_conv_app_nth)
    show ?thesis
    proof (cases "element_ok flags (?f ! k) (t ! (s + k))")
      case True
      have "?loop s k = ?loop s (Suc k)" using step True k 1 by simp
      moreover have "hits flags t (take (Suc k) ?f) s" using 1 True k by (auto simp: hits_def less_Suc_eq)
      ultimately show ?thesis using 1(1) [of s "Suc k"] 1(2-) k by (simp add: lex_prod_def)
    next
      case False
      then have no: "\<not> hits flags t ?f s" using k by (auto simp: hits_def)
      have st: "?loop s k = (if e < s + 1 + ?n then Some None else ?loop (s + 1) 0)" using step False k 1 by simp
      show ?thesis
      proof (cases "e < s + 1 + ?n")
        case True
        then have "j = s" if "s \<le> j" "j + ?n \<le> e" for j using that by linarith
        with no have "\<forall>j \<ge> s. j + ?n \<le> e \<longrightarrow> \<not> hits flags t ?f j" by blast
        then show ?thesis using st True by auto
      next
        case False
        then have "e - (s + 1) < e - s" using k by linarith
        then have "\<exists>r. ?loop (s + 1) 0 = Some r \<and> ?good (s + 1) r"
          using 1(2) False by (intro 1(1)) (auto simp: lex_prod_def)
        then obtain r where r: "?loop (s + 1) 0 = Some r" "?good (s + 1) r" by blast
        have "?good s r"
          using r(2) no by (auto split: option.splits simp: Suc_le_eq) (metis Suc_leI le_neq_implies_less le_less)+
        then show ?thesis using st False r(1) by auto
      qed
    qed
  qed
qed


section \<open>Matching a segment\<close>

lemma match_star:
  "elements_match flags (Any_String # gs) s \<longleftrightarrow> (\<exists>k \<le> length s. elements_match flags gs (drop k s))"
  by (auto simp: list_ex_iff less_Suc_eq_le simp del: upt_Suc)

lemma match_single:
  "g \<noteq> Any_String \<Longrightarrow> elements_match flags (g # gs) s \<longleftrightarrow> s \<noteq> [] \<and> element_ok flags g (hd s) \<and> elements_match flags gs (tl s)"
  by simp

declare elements_match.simps(2) [simp del]

lemma match_wildcards:
  assumes "list_all wildcard lead"
  shows "elements_match flags (lead @ gs) s \<longleftrightarrow>
    count_list lead Any_Char \<le> length s \<and>
    (let s' = drop (count_list lead Any_Char) s
     in if Any_String \<in> set lead then elements_match flags (Any_String # gs) s' else elements_match flags gs s')"
  using assms
proof (induction lead arbitrary: s)
  case (Cons g lead)
  let ?q = "count_list lead Any_Char"
  show ?case
  proof (cases "g = Any_String")
    case True
    have "elements_match flags (g # lead @ gs) s \<longleftrightarrow> (\<exists>k \<le> length s. elements_match flags (lead @ gs) (drop k s))"
      by (simp add: True match_star)
    also have "\<dots> \<longleftrightarrow> ?q \<le> length s \<and> (\<exists>k \<le> length s - ?q. elements_match flags gs (drop (?q + k) s))" (is "?l = ?r")
    proof
      assume ?l
      then obtain k where k: "k \<le> length s" "elements_match flags (lead @ gs) (drop k s)" by blast
      have "list_all wildcard lead" using Cons.prems by simp
      with Cons.IH [of "drop k s", unfolded Let_def drop_drop length_drop] k(2) have q: "?q \<le> length s - k" and
        m: "if Any_String \<in> set lead then elements_match flags (Any_String # gs) (drop (?q + k) s)
            else elements_match flags gs (drop (?q + k) s)"
        by blast+
      from m obtain j where "?q + k + j \<le> length s" "elements_match flags gs (drop (?q + k + j) s)"
      proof (cases "Any_String \<in> set lead")
        case True
        with m obtain j where "j \<le> length s - (?q + k)" "elements_match flags gs (drop (?q + k + j) s)"
          by (auto simp: match_star add_ac)
        with q k(1) that [of j] show ?thesis by linarith
      next
        case False
        with m q k(1) that [of 0] show ?thesis by simp
      qed
      then show ?r by (auto intro!: exI [of _ "k + j"] simp: add.assoc)
    next
      assume ?r
      then obtain k where k: "?q + k \<le> length s" "elements_match flags gs (drop (?q + k) s)" by (auto simp: le_diff_conv2 add.commute)
      then have "elements_match flags (lead @ gs) (drop k s)"
        using Cons.IH [of "drop k s"] Cons.prems by (auto simp: Let_def match_star intro!: exI [of _ 0])
      then show ?l using k(1) by (intro exI [of _ k]) simp
    qed
    finally show ?thesis using True by (simp add: Let_def match_star add.commute)
  next
    case False
    then have "g = Any_Char" using Cons.prems by (simp add: wildcard_def)
    then show ?thesis using Cons by (cases s) (auto simp: match_single Let_def)
  qed
qed simp

lemma match_fixed:
  assumes "list_all single f"
  shows "elements_match flags (f @ gs) s \<longleftrightarrow>
    length f \<le> length s \<and> list_all2 (element_ok flags) f (take (length f) s) \<and> elements_match flags gs (drop (length f) s)"
  using assms
proof (induction f arbitrary: s)
  case (Cons g f)
  then show ?case by (cases s) (auto simp: match_single single_def)
qed simp

text \<open>The part of the string from \<open>i\<close> to \<open>e\<close>.\<close>

definition piece :: "byte list \<Rightarrow> nat \<Rightarrow> nat \<Rightarrow> cstring" where
  "piece t i e = take (e - i) (drop i t)"

lemma piece_length: "i \<le> e \<Longrightarrow> e < length t \<Longrightarrow> length (piece t i e) = e - i"
  by (simp add: piece_def)

lemma drop_piece [simp]: "drop k (piece t i e) = piece t (i + k) e"
  by (simp add: piece_def drop_take add.commute)

lemma hits_piece:
  assumes "i + length f \<le> e" "e < length t"
  shows "list_all2 (element_ok flags) f (take (length f) (piece t i e)) \<longleftrightarrow> hits flags t f i"
  using assms by (auto simp: list_all2_conv_all_nth hits_def piece_def)

lemma match_fixed_piece:
  assumes "list_all single f" "i \<le> e" "e < length t"
  shows "elements_match flags (f @ gs) (piece t i e) \<longleftrightarrow>
    i + length f \<le> e \<and> hits flags t f i \<and> elements_match flags gs (piece t (i + length f) e)"
  using match_fixed [OF assms(1), of flags gs "piece t i e"] hits_piece [OF _ assms(3), of i f flags] piece_length [OF assms(2,3)] assms(2)
  by (auto simp: le_diff_conv2 add.commute)

lemma match_star_piece:
  assumes "i \<le> e" "e < length t"
  shows "elements_match flags (Any_String # gs) (piece t i e) \<longleftrightarrow> (\<exists>j \<ge> i. j \<le> e \<and> elements_match flags gs (piece t j e))"
  using assms unfolding match_star piece_length [OF assms] drop_piece
  by (metis add_diff_inverse_nat add_le_imp_le_diff diff_add_inverse le_add1 le_add_diff_inverse nat_add_left_cancel_le not_less)


abbreviation first_segment :: "u32 \<Rightarrow> cstring \<Rightarrow> glob list" where
  "first_segment flags u \<equiv> takeWhile (\<lambda>g. g \<noteq> Separator) (elements flags u)"

definition outcome :: "u32 \<Rightarrow> byte list \<Rightarrow> nat \<Rightarrow> cstring \<Rightarrow> nat \<Rightarrow> (byte list \<times> nat) option \<Rightarrow> bool" where
  "outcome flags t e u i r \<longleftrightarrow>
     (if elements_match flags (first_segment flags u) (piece t i e)
      then r = Some (advance flags (length (first_segment flags u)) u @ [0], e)
      else \<forall>p j. r = Some (p, j) \<longrightarrow>
        (\<exists>v. p = v @ [0] \<and> cstr v \<and> i \<le> j \<and> j \<le> e \<and> (j < e \<or> v \<noteq> [] \<and> hd (elements flags v) \<noteq> Separator)))"

lemma outcome_None: "outcome flags t e u i None \<longleftrightarrow> \<not> elements_match flags (first_segment flags u) (piece t i e)"
  by (simp add: outcome_def)

lemma takeWhile_take:
  "\<forall>x \<in> set (take k xs). Q x \<Longrightarrow> takeWhile Q xs = take k xs @ takeWhile Q (drop k xs)"
  using takeWhile_append2 [of "take k xs" Q "drop k xs"] by simp

lemma outcome_later:
  assumes "outcome flags t e (advance flags k u) j r" "i \<le> j" "k \<le> length (elements flags u)"
    and "\<forall>g \<in> set (take k (elements flags u)). g \<noteq> Separator"
    and "elements_match flags (first_segment flags u) (piece t i e) \<longleftrightarrow>
      elements_match flags (first_segment flags (advance flags k u)) (piece t j e)"
  shows "outcome flags t e u i r"
  using assms(1,2,3,5) takeWhile_take [OF assms(4)] unfolding outcome_def
  by (auto split: if_splits)

lemma group_loop_stop:
  assumes "cstr u" "open_seg flags t i e" "u = [] \<or> i = e \<and> hd u \<noteq> 42 \<or> hd (elements flags u) = Separator"
  shows "\<exists>r. group_loop flags t e (u @ [0]) i = Some r \<and> outcome flags t e u i r"
proof -
  have ie: "i \<le> e" "e < length t" using assms(2) by (simp_all add: open_seg_def)
  have "group_loop flags t e (u @ [0]) i = Some (Some (u @ [0], i))"
    using assms(3) by (subst group_loop.simps) (auto simp: ch_first at_slash_spec)
  moreover have "outcome flags t e u i (Some (u @ [0], i))"
  proof (cases "first_segment flags u = []")
    case True
    have "piece t i e = [] \<longleftrightarrow> i = e" using piece_length [OF ie] ie(1) by auto
    then show ?thesis using True assms(1) ie(1) by (auto simp: outcome_def)
  next
    case False
    then have u: "u \<noteq> []" "hd (elements flags u) \<noteq> Separator" by (cases u; auto)+
    then have "i = e" "hd (elements flags u) \<noteq> Any_String" using assms(3) first_star [of u flags] by auto
    moreover have "piece t e e = []" by (simp add: piece_def)
    ultimately have "\<not> elements_match flags (first_segment flags u) (piece t i e)"
      using u by (cases "elements flags u") (auto simp: match_single)
    then show ?thesis using u assms(1) \<open>i = e\<close> by (auto simp: outcome_def)
  qed
  ultimately show ?thesis by blast
qed

text \<open>The rest of a round after the group, up to the next \<open>*\<close>.\<close>

definition after_group :: "u32 \<Rightarrow> byte list \<Rightarrow> nat \<Rightarrow> bool \<Rightarrow> byte list \<Rightarrow> nat \<Rightarrow> (byte list \<times> nat) option option" where
  "after_group flags t e wild p i = do {
     s \<leftarrow> (if wild then count_fixed flags e i p 0 else Some (Some (i, False, 0)));
     case s of
       None \<Rightarrow> Some None
     | Some (i2, wild2, matchlen) \<Rightarrow> match_loop flags t e wild2 p matchlen i p i2
   }"

lemma group_loop_round:
  assumes "u \<noteq> []" "i \<le> e" "\<not> (i = e \<and> hd u \<noteq> 42)" "hd (elements flags u) \<noteq> Separator"
    and "wild_group e False (u @ [0]) i = Some g" "cstr u"
  shows "group_loop flags t e (u @ [0]) i =
    (case g of
       None \<Rightarrow> Some None
     | Some (wild, p, j) \<Rightarrow> do {
         r \<leftarrow> after_group flags t e wild p j;
         case r of
           None \<Rightarrow> Some None
         | Some (p3, i3) \<Rightarrow> group_loop flags t e p3 i3
       })"
proof -
  have "hd u \<noteq> 0" using assms(1,6) by (cases u) auto
  then show ?thesis using assms
  by (subst group_loop.simps) (auto simp: ch_first at_slash_spec after_group_def split: option.splits bind_splits)
qed

definition wild_elements :: "bool \<Rightarrow> glob list \<Rightarrow> glob list" where
  "wild_elements wild gs = (if wild then Any_String # gs else gs)"

lemma fixed_single: "list_all single (fixed flags u)"
  by (auto simp: list_all_iff dest: set_takeWhileD)

lemma fixed_prefix:
  "first_segment flags u = take k (fixed flags u) @ first_segment flags (advance flags (length (take k (fixed flags u))) u)"
proof -
  let ?g = "take k (fixed flags u)"
  have "fixed flags u = take (length (fixed flags u)) (elements flags u)" by (rule takeWhile_eq_take)
  then have g: "take (length ?g) (elements flags u) = ?g" by (metis length_take min.commute take_take)
  have "\<forall>x \<in> set ?g. x \<noteq> Separator" by (auto simp: single_def dest!: in_set_takeD set_takeWhileD)
  then show ?thesis using takeWhile_take [of "length ?g" "elements flags u" "\<lambda>g. g \<noteq> Separator"] unfolding g by simp
qed

lemma fixed_segment:
  "first_segment flags u = fixed flags u @ first_segment flags (advance flags (length (fixed flags u)) u)"
  using fixed_prefix [of flags u "length (fixed flags u)"] by simp

lemma fixed_stop:
  assumes "v = advance flags (length (fixed flags u)) u"
  shows "v = [] \<or> hd (elements flags v) = Separator \<or> hd (elements flags v) = Any_String"
proof -
  have "elements flags v = dropWhile single (elements flags u)" unfolding assms elements_advance by (metis dropWhile_eq_drop)
  moreover have "v = [] \<longleftrightarrow> elements flags v = []" by simp
  ultimately show ?thesis using hd_dropWhile [of single "elements flags u"] by (auto simp: single_def)
qed

text \<open>
  A round leads to no match, or to a pattern and a position from which on the rest has to match.
\<close>

lemma after_group_spec:
  assumes "cstr u" "open_seg flags t i e"
  shows "\<exists>r. after_group flags t e wild (u @ [0]) i = Some r \<and>
    (case r of
       None \<Rightarrow> \<not> elements_match flags (wild_elements wild (first_segment flags u)) (piece t i e)
     | Some (p, j) \<Rightarrow> \<exists>k \<le> length (fixed flags u). p = advance flags k u @ [0] \<and> i \<le> j \<and> j \<le> e \<and>
         (\<not> wild \<longrightarrow> i < e \<longrightarrow> fixed flags u \<noteq> [] \<longrightarrow> 0 < k) \<and>
         (elements_match flags (wild_elements wild (first_segment flags u)) (piece t i e) \<longleftrightarrow>
          elements_match flags (first_segment flags (advance flags k u)) (piece t j e)))"
  (is "\<exists>r. _ = Some r \<and> ?good r")
proof -
  let ?f = "fixed flags u" and ?n = "length (fixed flags u)" and ?v = "advance flags (length (fixed flags u)) u"
  have ie: "i \<le> e" "e < length t" using assms(2) by (simp_all add: open_seg_def)
  note split = fixed_segment [of flags u] and stop = fixed_stop [OF refl, of flags u]
  have star: "elements_match flags (wild_elements True (first_segment flags u)) (piece t i e) \<longleftrightarrow>
      (\<exists>j \<ge> i. j + ?n \<le> e \<and> hits flags t ?f j \<and> elements_match flags (first_segment flags ?v) (piece t (j + ?n) e))"
    unfolding wild_elements_def if_True match_star_piece [OF ie] 
    by (subst split) (auto simp: match_fixed_piece [OF fixed_single _ ie(2)] simp del: elements_advance)
  consider (plain) "\<not> wild" | (short) "wild" "e < i + ?n"
    | (last) "wild" "i + ?n \<le> e" "first_segment flags ?v = []" "elements flags ?v = [] \<or> hd (elements flags ?v) \<noteq> Any_String"
    | (wild) gs where "wild" "i + ?n \<le> e" "first_segment flags ?v = Any_String # gs" "elements flags ?v \<noteq> []" "hd (elements flags ?v) = Any_String"
    using stop by (cases "elements flags ?v") (force simp del: elements_advance)+
  then show ?thesis
  proof cases
    case plain
    let ?g = "take (e - i) ?f"
    have "after_group flags t e wild (u @ [0]) i =
        Some (if hits flags t ?g i then Some (advance flags (length ?g) u @ [0], i + length ?g) else None)"
      using plain match_loop_fixed [OF assms] by (simp add: after_group_def Let_def)
    moreover have "list_all single ?g" using fixed_single [of flags u] by (auto simp: list_all_iff dest: in_set_takeD)
    from match_fixed_piece [OF this ie, of flags "first_segment flags (advance flags (length ?g) u)"]
    have "elements_match flags (first_segment flags u) (piece t i e) \<longleftrightarrow> i + length ?g \<le> e \<and> hits flags t ?g i \<and>
       elements_match flags (first_segment flags (advance flags (length ?g) u)) (piece t (i + length ?g) e)"
      unfolding fixed_prefix [of flags u "e - i", symmetric] .
    moreover have "length ?g \<le> ?n" "i + length ?g \<le> e" "i < e \<longrightarrow> ?f \<noteq> [] \<longrightarrow> 0 < length ?g" using ie by auto
    ultimately show ?thesis using plain by (auto simp: wild_elements_def simp del: length_take elements_advance intro!: exI [of _ "length ?g"])
  next
    case short
    then show ?thesis using count_fixed_spec [OF assms(1), of flags e i 0] star
      by (auto simp: after_group_def Let_def)
  next
    case last
    have "after_group flags t e wild (u @ [0]) i = match_loop flags t e False (u @ [0]) ?n i (u @ [0]) (e - ?n)"
      using last count_fixed_spec [OF assms(1), of flags e i 0] by (auto simp: after_group_def Let_def)
    also have "\<dots> = Some (if hits flags t ?f (e - ?n) then Some (?v @ [0], e) else None)"
      using last match_loop_fixed [OF assms(1) open_seg_later [OF assms(2)], of "e - ?n"] by (simp add: Let_def)
    finally have m: "after_group flags t e wild (u @ [0]) i = Some (if hits flags t ?f (e - ?n) then Some (?v @ [0], e) else None)" .
    have "(i \<le> j \<and> j + ?n \<le> e \<and> hits flags t ?f j \<and> piece t (j + ?n) e = []) \<longleftrightarrow> j = e - ?n \<and> hits flags t ?f j" for j
      using last ie piece_length [of "j + ?n" e t] by auto
    then have "elements_match flags (wild_elements wild (first_segment flags u)) (piece t i e) \<longleftrightarrow> hits flags t ?f (e - ?n)"
      using last star by auto
    moreover have "piece t e e = []" by (simp add: piece_def)
    ultimately show ?thesis using m last ie(1) by (auto intro!: exI [of _ ?n] simp del: elements_advance)
  next
    case wild
    have "after_group flags t e wild (u @ [0]) i = match_loop flags t e True (u @ [0]) ?n i (u @ [0]) i"
      using wild count_fixed_spec [OF assms(1), of flags e i 0] by (auto simp: after_group_def Let_def)
    with match_loop_wild [OF assms, of i 0] wild(2) obtain r where r: "after_group flags t e wild (u @ [0]) i = Some r"
      "case r of
         None \<Rightarrow> \<forall>j \<ge> i. j + ?n \<le> e \<longrightarrow> \<not> hits flags t ?f j
       | Some (p, l) \<Rightarrow> \<exists>j \<ge> i. j + ?n \<le> e \<and> hits flags t ?f j \<and> (\<forall>l \<ge> i. l < j \<longrightarrow> \<not> hits flags t ?f l) \<and>
           p = ?v @ [0] \<and> l = j + ?n"
      by auto
    show ?thesis
    proof (cases r)
      case None
      with r star wild(1) show ?thesis by auto
    next
      case (Some pl)
      with r(2) obtain j where j: "pl = (?v @ [0], j + ?n)" "i \<le> j" "j + ?n \<le> e" "hits flags t ?f j"
        "\<And>l. i \<le> l \<Longrightarrow> l < j \<Longrightarrow> \<not> hits flags t ?f l" by auto
      have "elements_match flags (first_segment flags ?v) (piece t (j + ?n) e)"
        if "i \<le> l" "l + ?n \<le> e" "hits flags t ?f l" "elements_match flags (first_segment flags ?v) (piece t (l + ?n) e)" for l
      proof -
        have "j \<le> l" using j(5) [of l] that by fastforce
        then show ?thesis using that(4) unfolding wild(3) match_star_piece [OF that(2) ie(2)] match_star_piece [OF j(3) ie(2)]
          by (meson add_le_mono1 le_trans)
      qed
      then have "elements_match flags (wild_elements wild (first_segment flags u)) (piece t i e) \<longleftrightarrow>
          elements_match flags (first_segment flags ?v) (piece t (j + ?n) e)"
        using star wild(1) j by auto
      then show ?thesis using r(1) Some j wild(1) by (auto intro!: exI [of _ ?n] simp del: elements_advance)
    qed
  qed
qed

lemma group_loop_spec:
  assumes "cstr u" "open_seg flags t i e"
  shows "\<exists>r. group_loop flags t e (u @ [0]) i = Some r \<and> outcome flags t e u i r"
  using assms
proof (induction "length (elements flags u)" arbitrary: u i rule: less_induct)
  case less
  show ?case
  proof (cases "u = [] \<or> i = e \<and> hd u \<noteq> 42 \<or> hd (elements flags u) = Separator")
    case True
    then show ?thesis by (rule group_loop_stop [OF less.prems])
  next
    case False
    let ?lead = "takeWhile wildcard (elements flags u)"
    let ?q = "count_list ?lead Any_Char" and ?u = "advance flags (length ?lead) u" and ?w = "Any_String \<in> set ?lead"
    have ie: "i \<le> e" "e < length t" using less.prems by (simp_all add: open_seg_def)
    have un: "u \<noteq> []" "\<not> (i = e \<and> hd u \<noteq> 42)" "hd (elements flags u) \<noteq> Separator" using False by auto
    have group: "wild_group e False (u @ [0]) i = Some (if i + ?q \<le> e then Some (?w, ?u @ [0], i + ?q) else None)"
      using wild_group_spec [OF less.prems(1) ie(1), of False flags] by (simp add: Let_def)
    have tl: "take (length ?lead) (elements flags u) = ?lead" by (rule takeWhile_eq_take [symmetric])
    have wl: "list_all wildcard ?lead" by (auto simp: list_all_iff dest: set_takeWhileD)
    then have nl: "\<forall>g \<in> set ?lead. g \<noteq> Separator" by (auto simp: list_all_iff wildcard_def)
    then have lead: "first_segment flags u = ?lead @ first_segment flags ?u"
      using takeWhile_take [of "length ?lead" "elements flags u" "\<lambda>g. g \<noteq> Separator"] unfolding tl by simp
    have em: "elements_match flags (first_segment flags u) (piece t i e) \<longleftrightarrow> i + ?q \<le> e \<and>
        elements_match flags (wild_elements ?w (first_segment flags ?u)) (piece t (i + ?q) e)"
      using match_wildcards [OF wl, of flags "first_segment flags ?u" "piece t i e"] ie
      unfolding lead [symmetric] piece_length [OF ie] drop_piece Let_def
      by (auto simp: wild_elements_def le_diff_conv2 add.commute)
    show ?thesis
    proof (cases "i + ?q \<le> e")
      case False
      then show ?thesis using group_loop_round [OF un(1) ie(1) un(2,3) group less.prems(1)] em by (simp add: outcome_None)
    next
      case True
      have os: "open_seg flags t (i + ?q) e" using less.prems(2) True by (auto intro: open_seg_later)
      obtain r where r: "after_group flags t e ?w (?u @ [0]) (i + ?q) = Some r" 
        "case r of
           None \<Rightarrow> \<not> elements_match flags (wild_elements ?w (first_segment flags ?u)) (piece t (i + ?q) e)
         | Some (p, j) \<Rightarrow> \<exists>k \<le> length (fixed flags ?u). p = advance flags k ?u @ [0] \<and> i + ?q \<le> j \<and> j \<le> e \<and>
             (\<not> ?w \<longrightarrow> i + ?q < e \<longrightarrow> fixed flags ?u \<noteq> [] \<longrightarrow> 0 < k) \<and>
             (elements_match flags (wild_elements ?w (first_segment flags ?u)) (piece t (i + ?q) e) \<longleftrightarrow>
              elements_match flags (first_segment flags (advance flags k ?u)) (piece t j e))"
        using after_group_spec [OF advance_cstr [OF less.prems(1)] os, of ?w] by blast
      have round: "group_loop flags t e (u @ [0]) i = (case r of None \<Rightarrow> Some None | Some (p, j) \<Rightarrow> group_loop flags t e p j)"
        using group_loop_round [OF un(1) ie(1) un(2,3) group less.prems(1), of t] True r(1) by simp
      show ?thesis
      proof (cases r)
        case None
        with r(2) round em show ?thesis by (auto simp: outcome_None)
      next
        case (Some pj)
        with r(2) obtain k j where k: "k \<le> length (fixed flags ?u)" "pj = (advance flags k ?u @ [0], j)" "i + ?q \<le> j" "j \<le> e"
          "\<not> ?w \<Longrightarrow> i + ?q < e \<Longrightarrow> fixed flags ?u \<noteq> [] \<Longrightarrow> 0 < k"
          "elements_match flags (wild_elements ?w (first_segment flags ?u)) (piece t (i + ?q) e) \<longleftrightarrow>
           elements_match flags (first_segment flags (advance flags k ?u)) (piece t j e)" by auto
        let ?k = "length ?lead + k"
        have "0 < ?k"
        proof (cases "?lead = []")
          case True
          then have "hd (elements flags u) \<noteq> Any_String" "single (hd (elements flags u))" "elements flags u \<noteq> []"
            using un by (cases "elements flags u"; auto simp: wildcard_def single_def split: if_splits)+
          moreover then have "i < e" "fixed flags u \<noteq> []" using un first_star [of u flags] ie(1) by (auto simp: takeWhile_eq_Nil_iff)
          ultimately show ?thesis using k(5) True by simp
        qed simp
        have len: "?k \<le> length (elements flags u)"
          using k(1) length_takeWhile_le [of single "elements flags ?u"] length_takeWhile_le [of wildcard "elements flags u"] by simp
        have "length (elements flags (advance flags ?k u)) < length (elements flags u)"
          using \<open>0 < ?k\<close> len unfolding elements_advance length_drop by linarith
        then have "\<exists>r. group_loop flags t e (advance flags ?k u @ [0]) j = Some r \<and> outcome flags t e (advance flags ?k u) j r"
          using less.prems k(3,4) by (intro less.hyps) (auto intro: open_seg_later)
        then obtain r' where "group_loop flags t e (u @ [0]) i = Some r'" "outcome flags t e (advance flags ?k u) j r'"
          using round Some k(2) by auto
        moreover have "outcome flags t e u i r'"
        proof (rule outcome_later [OF calculation(2) _ len])
          have "set (take k (elements flags ?u)) \<subseteq> set (fixed flags ?u)"
            using set_take_subset_set_take [OF k(1), of "elements flags ?u"] takeWhile_eq_take [of single "elements flags ?u"] by simp
          then have "\<forall>g \<in> set (take k (elements flags ?u)). g \<noteq> Separator" by (auto simp: single_def dest!: set_takeWhileD subsetD)
          then show "\<forall>g \<in> set (take ?k (elements flags u)). g \<noteq> Separator" using nl unfolding take_add tl by auto
        qed (use k em True in auto)
        ultimately show ?thesis by blast
      qed
    qed
  qed
qed


text \<open>The tests after the loop.\<close>

lemma segment_tests_outcome:
  assumes "outcome flags t e u i r" "open_seg flags t i e" "t ! e = 0 \<or> f_slash flags \<and> t ! e = 47" "cstr u"
  shows "(case r of None \<Rightarrow> Some None | Some (p2, i2) \<Rightarrow> segment_tests flags t p2 i2) =
    Some (if elements_match flags (first_segment flags u) (piece t i e)
          then Some (advance flags (length (first_segment flags u)) u @ [0], e) else None)"
proof (cases "elements_match flags (first_segment flags u) (piece t i e)")
  case True
  let ?v = "advance flags (length (first_segment flags u)) u"
  have "elements flags ?v = dropWhile (\<lambda>g. g \<noteq> Separator) (elements flags u)"
    unfolding elements_advance by (metis dropWhile_eq_drop)
  then have "?v = [] \<or> hd (elements flags ?v) = Separator"
    using hd_dropWhile [of "\<lambda>g. g \<noteq> Separator" "elements flags u"] elements_Nil_iff [of flags ?v] by auto
  moreover have "ch t e = Some (t ! e)" using assms(2) by (simp add: open_seg_def ch_def)
  moreover have "r = Some (?v @ [0], e)" using assms(1) True by (simp add: outcome_def)
  ultimately show ?thesis using True assms(3) by (auto simp: segment_tests_def ch_first at_slash_spec simp del: elements_advance)
next
  case False
  show ?thesis
  proof (cases r)
    case None
    with False show ?thesis by simp
  next
    case (Some pj)
    then obtain v j where v: "pj = (v @ [0], j)" "cstr v" "i \<le> j" "j \<le> e"
      "j < e \<or> v \<noteq> [] \<and> hd (elements flags v) \<noteq> Separator"
      using assms(1) False by (cases pj) (auto simp: outcome_def)
    have "ch t j = Some (t ! j)" using v(4) assms(2) by (simp add: open_seg_def ch_def)
    moreover have "t ! j \<noteq> 0 \<and> \<not> (f_slash flags \<and> t ! j = 47)" if "j < e" using that assms(2) v(3) by (auto simp: open_seg_def)
    moreover have "v \<noteq> [] \<Longrightarrow> hd v \<noteq> 0" using v(2) by (cases v) auto
    ultimately show ?thesis using False Some v(1,5) by (auto simp: segment_tests_def ch_first at_slash_spec)
  qed
qed

abbreviation part :: "u32 \<Rightarrow> cstring \<Rightarrow> nat \<Rightarrow> cstring" where
  "part flags s i \<equiv> takeWhile (\<lambda>x. \<not> (f_slash flags \<and> x = 47)) (drop i s)"

lemma segment_end_part:
  assumes "cstr s" "i \<le> length s"
  shows "segment_end flags (s @ [0]) i = i + length (part flags s i)"
    "open_seg flags (s @ [0]) i (segment_end flags (s @ [0]) i)"
    "(s @ [0]) ! segment_end flags (s @ [0]) i = 0 \<or> f_slash flags \<and> (s @ [0]) ! segment_end flags (s @ [0]) i = 47"
    "piece (s @ [0]) i (segment_end flags (s @ [0]) i) = part flags s i"
proof -
  let ?P = "\<lambda>x. x \<noteq> 0 \<and> \<not> (f_slash flags \<and> x = 47)" and ?e = "segment_end flags (s @ [0]) i"
  define w where "w = part flags s i"
  define r where "r = dropWhile (\<lambda>x. \<not> (f_slash flags \<and> x = 47)) (drop i s)"
  have dr: "drop i s = w @ r" by (simp add: w_def r_def)
  have w: "\<forall>x \<in> set w. ?P x"
    using assms(1) unfolding w_def by (auto simp: cstr_def dest!: set_takeWhileD in_set_dropD)
  have r: "r = [] \<or> f_slash flags \<and> hd r = 47"
    unfolding r_def using hd_dropWhile [of "\<lambda>x. \<not> (f_slash flags \<and> x = 47)" "drop i s"] by blast
  have d: "drop i (s @ [0]) = w @ r @ [0]" using assms(2) dr by simp
  have "takeWhile ?P (r @ [0]) = []" unfolding takeWhile_eq_Nil_iff using r by (cases r) auto
  then have "takeWhile ?P (w @ r @ [0]) = w" using takeWhile_append2 [of w ?P "r @ [0]"] w by simp
  then have e: "?e = i + length w" using d by (simp add: segment_end_def)
  then show "?e = i + length (part flags s i)" by (simp add: w_def)
  have at: "(s @ [0]) ! (i + j) = (w @ r @ [0]) ! j" for j
    unfolding d [symmetric] using assms(2) by (simp del: drop_append)
  show "(s @ [0]) ! ?e = 0 \<or> f_slash flags \<and> (s @ [0]) ! ?e = 47"
    unfolding e at using r by (cases r) auto
  show "piece (s @ [0]) i ?e = part flags s i" unfolding e piece_def d w_def [symmetric] by simp
  have "i + length w \<le> length s" using arg_cong [OF dr, of length] assms(2) by simp
  moreover have "?P ((s @ [0]) ! j)" if "i \<le> j" "j < i + length w" for j
    using that at [of "j - i"] w nth_mem [of "j - i" w] by (auto simp: nth_append)
  ultimately show "open_seg flags (s @ [0]) i ?e" unfolding e open_seg_def by auto
qed


lemma part_Cons: "i < length s \<Longrightarrow> \<not> (f_slash flags \<and> s ! i = 47) \<Longrightarrow> part flags s i = s ! i # part flags s (i + 1)"
  by (simp add: Cons_nth_drop_Suc [symmetric])

lemma literal_period: "fst (token flags c u) = Literal 46 \<longleftrightarrow> c = 46 \<or> f_escape flags \<and> c = 92 \<and> u \<noteq> [] \<and> hd u = 46"
  by (auto simp: token_def element_def bracket_def split: option.splits)

lemma match_segment_period:
  "leading_period flags t p i = Some (Some (p1, i1)) \<Longrightarrow>
    match_segment flags t p i = Option.bind (group_loop flags t (segment_end flags t i1) p1 i1)
      (\<lambda>r. case r of None \<Rightarrow> Some None | Some (p2, i2) \<Rightarrow> segment_tests flags t p2 i2)"
  by (simp add: match_segment_def)

lemma segment_body_spec:
  assumes "cstr u" "cstr s" "i \<le> length s"
  shows "Option.bind (group_loop flags (s @ [0]) (segment_end flags (s @ [0]) i) (u @ [0]) i)
      (\<lambda>r. case r of None \<Rightarrow> Some None | Some (p2, i2) \<Rightarrow> segment_tests flags (s @ [0]) p2 i2) =
    Some (if elements_match flags (first_segment flags u) (part flags s i)
          then Some (advance flags (length (first_segment flags u)) u @ [0], i + length (part flags s i)) else None)"
proof -
  note e = segment_end_part [OF assms(2,3), of flags]
  obtain r where "group_loop flags (s @ [0]) (segment_end flags (s @ [0]) i) (u @ [0]) i = Some r"
    "outcome flags (s @ [0]) (segment_end flags (s @ [0]) i) u i r"
    using group_loop_spec [OF assms(1) e(2)] by blast
  then show ?thesis using segment_tests_outcome [OF _ e(2,3) assms(1), of r] unfolding e(4) by (simp add: e(1))
qed

lemma leading_period_spec:
  assumes "i \<le> length s"
  shows "leading_period flags (s @ [0]) (u @ [0]) i = Some (
    if f_period flags \<and> i < length s \<and> s ! i = 46 then
      if u \<noteq> [] \<and> hd (elements flags u) = Literal 46 then Some (advance flags 1 u @ [0], i + 1) else None
    else Some (u @ [0], i))"
proof -
  have "ch (s @ [0]) i = Some (if i < length s then s ! i else 0)" using assms by (auto simp: ch_def nth_append)
  moreover have "token flags 46 v = (Literal 46, v)" "f_escape flags \<Longrightarrow> token flags 92 (46 # v) = (Literal 46, v)" for v
    by (simp_all add: token_def element_def)
  ultimately show ?thesis
    by (cases u; cases "tl u") (auto simp: leading_period_def literal_period)
qed

lemma match_segment_spec:
  assumes "cstr u" "cstr s" "i \<le> length s"
  shows "match_segment flags (s @ [0]) (u @ [0]) i =
    Some (if segment_matches flags (first_segment flags u) (part flags s i)
          then Some (advance flags (length (first_segment flags u)) u @ [0], i + length (part flags s i)) else None)"
proof (cases "f_period flags \<and> i < length s \<and> s ! i = 46")
  case True
  then have w: "part flags s i = 46 # part flags s (i + 1)" using part_Cons [of i s flags] by simp
  show ?thesis
  proof (cases "u \<noteq> [] \<and> hd (elements flags u) = Literal 46")
    case lit: True
    then have u: "first_segment flags u = Literal 46 # first_segment flags (advance flags 1 u)"
      by (cases "elements flags u") auto
    have "range_ok flags 46 (46, 46)" by (simp add: range_ok_def)
    moreover have "leading_period flags (s @ [0]) (u @ [0]) i = Some (Some (advance flags 1 u @ [0], i + 1))"
      using True lit by (simp add: leading_period_spec [OF assms(3)])
    note match_segment_period [OF this]
    ultimately show ?thesis using True lit segment_body_spec [of "advance flags 1 u" s "i + 1" flags] assms
      unfolding segment_matches_def w u by (simp add: match_single)
  next
    case False
    then have "\<not> (first_segment flags u \<noteq> [] \<and> hd (first_segment flags u) = Literal 46)"
      by (cases u) auto
    moreover have "leading_period flags (s @ [0]) (u @ [0]) i = Some None"
      using True False by (auto simp: leading_period_spec [OF assms(3)])
    ultimately show ?thesis using True unfolding match_segment_def segment_matches_def w by auto
  qed
next
  case False
  then have "\<not> (f_period flags \<and> part flags s i \<noteq> [] \<and> hd (part flags s i) = 46)"
    using assms(3) by (cases "i < length s") (auto simp: Cons_nth_drop_Suc [symmetric] split: if_splits)
  moreover have "leading_period flags (s @ [0]) (u @ [0]) i = Some (Some (u @ [0], i))"
    using False by (auto simp: leading_period_spec [OF assms(3)])
  ultimately show ?thesis using match_segment_period segment_body_spec [OF assms, of flags]
    unfolding segment_matches_def by auto
qed

section \<open>Matching the segments\<close>

text \<open>The rest of pattern and string at the end of a segment.\<close>

definition rest_matches :: "u32 \<Rightarrow> glob list \<Rightarrow> cstring \<Rightarrow> bool" where
  "rest_matches flags gs s \<longleftrightarrow>
     (if gs = [] \<or> s = [] then gs = [] \<and> s = []
      else list_all2 (segment_matches flags) (splits (\<lambda>g. g = Separator) (tl gs)) (splits (\<lambda>x. f_slash flags \<and> x = 47) (tl s)))"

lemma list_ex_dropWhile: "list_ex P xs \<longleftrightarrow> dropWhile (\<lambda>x. \<not> P x) xs \<noteq> []"
  by (auto simp: list_ex_iff)

lemma splits_not_Nil: "splits P xs \<noteq> []"
  by (simp add: splits.simps [of P xs])

lemma splits_match:
  "list_all2 (segment_matches flags) (splits (\<lambda>g. g = Separator) gs) (splits (\<lambda>x. f_slash flags \<and> x = 47) s) \<longleftrightarrow>
    segment_matches flags (takeWhile (\<lambda>g. g \<noteq> Separator) gs) (takeWhile (\<lambda>x. \<not> (f_slash flags \<and> x = 47)) s) \<and>
    rest_matches flags (dropWhile (\<lambda>g. g \<noteq> Separator) gs) (dropWhile (\<lambda>x. \<not> (f_slash flags \<and> x = 47)) s)"
  unfolding splits.simps [of "\<lambda>g. g = Separator" gs] splits.simps [of "\<lambda>x. f_slash flags \<and> x = 47" s]
    list_ex_dropWhile rest_matches_def list.rel_inject
  by (cases "dropWhile (\<lambda>g. g \<noteq> Separator) gs"; cases "dropWhile (\<lambda>x. \<not> (f_slash flags \<and> x = 47)) s")
    (simp_all only: list.rel_distinct list.rel_inject list.distinct if_True if_False splits_not_Nil list_all2_Nil list_all2_Nil2
      not_True_eq_False not_False_eq_True simp_thms)


definition pattern_matches :: "u32 \<Rightarrow> glob list \<Rightarrow> cstring \<Rightarrow> bool" where
  "pattern_matches flags gs s \<longleftrightarrow>
     list_all2 (segment_matches flags) (splits (\<lambda>g. g = Separator) gs) (splits (\<lambda>x. f_slash flags \<and> x = 47) s)"

lemma segment_then_rest:
  assumes "cstr u" "cstr s" "i \<le> length s" "\<And>v j. cstr v \<Longrightarrow> i \<le> j \<Longrightarrow> j \<le> length s \<Longrightarrow>
    v = [] \<or> hd (elements flags v) = Separator \<Longrightarrow> drop j s = [] \<or> f_slash flags \<and> hd (drop j s) = 47 \<Longrightarrow>
    fnmatch_loop flags (s @ [0]) (v @ [0]) j = Some (if rest_matches flags (elements flags v) (drop j s) then 0 else APR_FNM_NOMATCH)"
  shows "do {
     r \<leftarrow> match_segment flags (s @ [0]) (u @ [0]) i;
     case r of
       None \<Rightarrow> Some APR_FNM_NOMATCH
     | Some (p, j) \<Rightarrow> fnmatch_loop flags (s @ [0]) p j
   } = Some (if pattern_matches flags (elements flags u) (drop i s) then 0 else APR_FNM_NOMATCH)"
proof -
  let ?gs = "first_segment flags u" and ?w = "part flags s i"
  let ?v = "advance flags (length ?gs) u" and ?j = "i + length ?w"
  let ?r = "dropWhile (\<lambda>x. \<not> (f_slash flags \<and> x = 47)) (drop i s)"
  have v: "elements flags ?v = dropWhile (\<lambda>g. g \<noteq> Separator) (elements flags u)"
    by (simp only: elements_advance dropWhile_eq_drop)
  then have "?v = [] \<or> hd (elements flags ?v) = Separator"
    using hd_dropWhile [of "\<lambda>g. g \<noteq> Separator" "elements flags u"] elements_Nil_iff [of flags ?v] by metis
  moreover have d: "drop ?j s = ?r" by (simp only: dropWhile_eq_drop drop_drop add.commute)
  moreover have "?r = [] \<or> f_slash flags \<and> hd ?r = 47"
    using hd_dropWhile [of "\<lambda>x. \<not> (f_slash flags \<and> x = 47)" "drop i s"] by blast
  moreover have "?j \<le> length s"
    using assms(3) length_takeWhile_le [of "\<lambda>x. \<not> (f_slash flags \<and> x = 47)" "drop i s"] unfolding length_drop by linarith
  ultimately have "fnmatch_loop flags (s @ [0]) (?v @ [0]) ?j =
      Some (if rest_matches flags (elements flags ?v) (drop ?j s) then 0 else APR_FNM_NOMATCH)"
    using assms(1) by (intro assms(4)) (simp_all del: elements_advance)
  then show ?thesis
    unfolding match_segment_spec [OF assms(1-3)] pattern_matches_def splits_match v d by simp
qed

text \<open>A pattern and a string that both begin with a slash.\<close>

lemma fnmatch_loop_slashes:
  assumes "cstr u" "i < length s" "cstr s" "u \<noteq> []" "hd (elements flags u) = Separator" "f_slash flags" "s ! i = 47"
  shows "fnmatch_loop flags (s @ [0]) (u @ [0]) i = do {
     r \<leftarrow> match_segment flags (s @ [0]) (advance flags 1 u @ [0]) (i + 1);
     case r of
       None \<Rightarrow> Some APR_FNM_NOMATCH
     | Some (p, j) \<Rightarrow> fnmatch_loop flags (s @ [0]) p j
   }"
proof -
  have x: "ch (s @ [0]) i = Some 47" using assms by (simp add: ch_def nth_append)
  obtain c v where u: "u = c # v" using assms(4) by (cases u) auto
  have "token flags c v = (Separator, v) \<and> c = 47 \<or> f_escape flags \<and> c = 92 \<and> v \<noteq> [] \<and> hd v = 47 \<and> token flags c v = (Separator, tl v)"
    using assms(5) u by (auto simp: token_def element_def bracket_def split: option.splits if_splits)
  then show ?thesis using x u assms(6) by (subst fnmatch_loop.simps) (cases v; auto)
qed

lemma fnmatch_loop_rest:
  assumes "cstr u" "cstr s" "i \<le> length s" "u = [] \<or> hd (elements flags u) = Separator"
    and "drop i s = [] \<or> f_slash flags \<and> hd (drop i s) = 47"
  shows "fnmatch_loop flags (s @ [0]) (u @ [0]) i =
    Some (if rest_matches flags (elements flags u) (drop i s) then 0 else APR_FNM_NOMATCH)"
  using assms
proof (induction "length s - i" arbitrary: u i rule: less_induct)
  case less
  show ?case
  proof (cases "u = [] \<or> i = length s")
    case True
    have "hd u \<noteq> 0" if "u \<noteq> []" using less.prems(1) that by (cases u) auto
    moreover have "ch (s @ [0]) i = Some (if i < length s then s ! i else 0)" using less.prems(3) by (auto simp: ch_def nth_append)
    moreover have "i < length s \<Longrightarrow> s ! i \<noteq> 0" using less.prems(2) by (metis cstr_def nth_mem)
    ultimately show ?thesis using True less.prems(3)
      by (subst fnmatch_loop.simps) (auto simp: ch_first rest_matches_def)
  next
    case False
    then have i: "i < length s" using less.prems(3) by simp
    then have "f_slash flags" "s ! i = 47" "drop i s = 47 # drop (i + 1) s" "drop i s \<noteq> []"
      using less.prems(5) by (simp_all add: hd_drop_conv_nth Cons_nth_drop_Suc [symmetric])
    moreover have "rest_matches flags (elements flags u) (drop i s) \<longleftrightarrow> pattern_matches flags (elements flags (advance flags 1 u)) (drop (i + 1) s)"
      using False i calculation(3) by (simp add: rest_matches_def pattern_matches_def drop_Suc tl_drop)
    moreover note fnmatch_loop_slashes [OF less.prems(1) i less.prems(2) _ _ calculation(1,2)]
    moreover note segment_then_rest [OF advance_cstr [OF less.prems(1)] less.prems(2), of "i + 1" flags flags 1]
    ultimately show ?thesis using False less i by (simp add: Suc_le_eq diff_less_mono2)
  qed
qed


lemma glob_matches_pattern: "glob_matches flags u s \<longleftrightarrow> pattern_matches flags (elements flags u) s"
  by (simp add: glob_matches_def pattern_matches_def)

text \<open>An escaped slash is a slash.\<close>

lemma fnmatch_loop_start:
  assumes "cstr u" "cstr s" "u \<noteq> []" "s \<noteq> []" "\<not> (hd (elements flags u) = Separator \<and> f_slash flags \<and> hd s = 47)"
  shows "fnmatch_loop flags (s @ [0]) (u @ [0]) 0 = do {
     r \<leftarrow> match_segment flags (s @ [0]) (u @ [0]) 0;
     case r of
       None \<Rightarrow> Some APR_FNM_NOMATCH
     | Some (p, j) \<Rightarrow> fnmatch_loop flags (s @ [0]) p j
   }"
proof -
  obtain c v x w where uv: "u = c # v" "s = x # w" using assms(3,4) by (metis list.exhaust)
  have nz: "c \<noteq> 0" "x \<noteq> 0" using assms(1,2) uv by auto
  show ?thesis
  proof (cases "f_slash flags \<and> f_escape flags \<and> c = 92 \<and> v \<noteq> [] \<and> hd v = 47")
    case True
    then obtain v' where v: "v = 47 # v'" by (cases v) auto
    have t: "token flags c v = (Separator, v')" "token flags 47 v' = (Separator, v')" using True v by (simp_all add: token_def element_def)
    have "x \<noteq> 47" using assms(5) t uv True by simp
    then have none: "match_segment flags (s @ [0]) (y @ [0]) 0 = Some None" if "elements flags y = Separator # gs" "cstr y" for y gs
      using match_segment_spec [of y s 0 flags] that assms(2) uv by (simp add: segment_matches_def)
    have "match_segment flags (s @ [0]) (u @ [0]) 0 = Some None" "match_segment flags (s @ [0]) (v @ [0]) 0 = Some None"
      using none [of u "elements flags v'"] none [of v "elements flags v'"] t uv v assms(1) by auto
    then show ?thesis using True uv v nz \<open>x \<noteq> 47\<close> by (subst fnmatch_loop.simps) simp
  next
    case False
    have "\<not> (f_slash flags \<and> c = 47 \<and> x = 47)"
      using assms(5) uv by (auto simp: token_def element_def)
    moreover have "ch (v @ [0]) 0 = Some (if v = [] then 0 else hd v)" by (rule ch_first)
    ultimately show ?thesis using False uv nz by (subst fnmatch_loop.simps) (auto split: if_splits)
  qed
qed

lemma no_match_empty:
  assumes "u \<noteq> []" "hd u \<noteq> 42"
  shows "\<not> pattern_matches flags (elements flags u) []"
proof -
  obtain g gs where g: "elements flags u = g # gs" "g \<noteq> Any_String" using assms first_star [of u flags] by (cases "elements flags u") auto
  then show ?thesis unfolding pattern_matches_def splits_match
    by (cases "g = Separator") (auto simp: segment_matches_def match_single rest_matches_def)
qed

lemma apr_fnmatch_spec:
  assumes "cstr pattern" "cstr s"
  shows "apr_fnmatch (pattern @ [0]) (s @ [0]) flags = Some (if glob_matches flags pattern s then 0 else APR_FNM_NOMATCH)"
proof -
  have seg: "do {
       r \<leftarrow> match_segment flags (s @ [0]) (pattern @ [0]) 0;
       case r of
         None \<Rightarrow> Some APR_FNM_NOMATCH
       | Some (p, j) \<Rightarrow> fnmatch_loop flags (s @ [0]) p j
     } = Some (if glob_matches flags pattern s then 0 else APR_FNM_NOMATCH)"
    using segment_then_rest [OF assms, of 0 flags] fnmatch_loop_rest [OF _ assms(2)] by (simp add: glob_matches_pattern)
  consider "pattern \<noteq> []" "hd pattern = 42" | "pattern = [] \<or> s = [] \<and> hd pattern \<noteq> 42"
    | "pattern \<noteq> []" "hd pattern \<noteq> 42" "s \<noteq> []" "hd (elements flags pattern) = Separator \<and> f_slash flags \<and> hd s = 47"
    | "pattern \<noteq> []" "hd pattern \<noteq> 42" "s \<noteq> []" "\<not> (hd (elements flags pattern) = Separator \<and> f_slash flags \<and> hd s = 47)"
    by blast
  then show ?thesis
  proof cases
    case 1
    then show ?thesis using seg by (simp add: apr_fnmatch_def ch_first)
  next
    case 2
    have "pattern_matches flags [] s \<longleftrightarrow> s = []" unfolding pattern_matches_def splits_match
      by (cases s) (auto simp: segment_matches_def rest_matches_def)
    moreover have "pattern \<noteq> [] \<Longrightarrow> hd pattern \<noteq> 0" "s \<noteq> [] \<Longrightarrow> hd s \<noteq> 0" using assms by (cases pattern; cases s; simp)+
    ultimately show ?thesis using 2 no_match_empty [of pattern flags] unfolding apr_fnmatch_def glob_matches_pattern
      by (subst fnmatch_loop.simps) (auto simp: ch_first)
  next
    case 3
    then have "fnmatch_loop flags (s @ [0]) (pattern @ [0]) 0 =
        Some (if rest_matches flags (elements flags pattern) (drop 0 s) then 0 else APR_FNM_NOMATCH)"
      by (intro fnmatch_loop_rest assms) auto
    moreover have "pattern_matches flags (elements flags pattern) s \<longleftrightarrow> rest_matches flags (elements flags pattern) s"
      using 3 unfolding pattern_matches_def splits_match by (cases "elements flags pattern"; cases s) (auto simp: segment_matches_def)
    ultimately show ?thesis using 3 by (simp add: apr_fnmatch_def ch_first glob_matches_pattern)
  next
    case 4
    then show ?thesis using fnmatch_loop_start [OF assms 4(1,3,4)] seg by (simp add: apr_fnmatch_def ch_first)
  qed
qed

section \<open>Lists of patterns, directories and plain patterns\<close>

lemma match_glob_list_spec:
  "list_all cstr ps \<Longrightarrow> cstr s \<Longrightarrow>
    apr_cstr_match_glob_list (s @ [0]) (map (\<lambda>p. p @ [0]) ps) = Some (list_ex (\<lambda>p. glob_matches 0 p s) ps)"
  by (induction ps) (simp_all add: apr_fnmatch_spec APR_FNM_NOMATCH_def)

lemma match_glob_loop_spec:
  "cstr p \<Longrightarrow> list_all cstr names \<Longrightarrow>
    match_glob_loop (p @ [0]) result names = Some (result @ filter (glob_matches 0 p) names)"
  by (induction names arbitrary: result) (auto simp: apr_fnmatch_spec APR_FNM_NOMATCH_def)

lemma after_last_split:
  assumes "c \<notin> set t"
  shows "after_last c (s @ c # t) = length s + 1" "after_last c t = 0"
proof -
  have "takeWhile (\<lambda>b. b \<noteq> c) (rev t) = rev t" unfolding takeWhile_eq_all_conv using assms by auto
  moreover have "takeWhile (\<lambda>b. b \<noteq> c) (rev (s @ c # t)) = rev t"
    using assms takeWhile_append2 [of "rev t" "\<lambda>b. b \<noteq> c" "c # rev s"] by auto
  ultimately show "after_last c (s @ c # t) = length s + 1" "after_last c t = 0" by (simp_all only: after_last_def length_append length_rev list.size)
qed

text \<open>The string that a pattern without wildcards stands for.\<close>

fun unquote :: "cstring \<Rightarrow> cstring" where
  "unquote [] = []"
| "unquote [c] = [c]"
| "unquote (c # d # u) = (if c = 92 then d # unquote u else c # unquote (d # u))"

lemma test_quoted:
  assumes "quoted flags u = Some (c, v)" "f_escape flags" "cstr u" "fnmatch_test_loop (Suc n) (u @ [0]) = Some False"
  shows "\<exists>n. fnmatch_test_loop (Suc n) (v @ [0]) = Some False"
  using assms by (cases u) (auto split: if_splits list.splits)

lemma test_bracket_range:
  assumes "bracket_range flags u = Some (r, v)" "f_escape flags" "cstr u" "fnmatch_test_loop (Suc n) (u @ [0]) = Some False"
  shows "\<exists>n. fnmatch_test_loop (Suc n) (v @ [0]) = Some False"
proof -
  obtain c w where c: "quoted flags u = Some (c, w)" "range_from flags c w = Some (r, v)"
    using assms(1) by (auto simp: bracket_range_def bind_eq_Some_conv)
  obtain n where n: "fnmatch_test_loop (Suc n) (w @ [0]) = Some False" using test_quoted [OF c(1) assms(2-)] by blast
  have w: "cstr w" using quoted_cstr [OF c(1) assms(3)] by simp
  show ?thesis
  proof (cases "v = w")
    case False
    then obtain y hi where "w = 45 # y" "quoted flags y = Some (hi, v)"
      using c(2) by (auto simp: range_from_def split: list.splits if_splits)
    then show ?thesis using test_quoted [of flags y hi v n] assms(2) w n by simp
  qed (use n in auto)
qed

lemma test_bracket_ranges:
  "fnmatch_test_loop (Suc n) (u @ [0]) = Some False \<Longrightarrow> f_escape flags \<Longrightarrow> cstr u \<Longrightarrow> bracket_ranges flags l u = None"
proof (induction flags l u arbitrary: n rule: bracket_ranges.induct)
  case (1 flags l u)
  have "\<not> (u \<noteq> [] \<and> hd u = 93)" using 1(2) by (cases u) auto
  then have *: "\<not> (\<not> l \<and> u \<noteq> [] \<and> hd u = 93)" by blast
  show ?case
  proof (cases "bracket_range flags u")
    case (Some rv)
    obtain r v where rv: "rv = (r, v)" by (cases rv)
    then obtain n' where "fnmatch_test_loop (Suc n') (v @ [0]) = Some False"
      using test_bracket_range [OF _ 1(3,4,2)] Some by blast
    then have "bracket_ranges flags False v = None"
      using 1(1) [OF * Some rv [symmetric]] 1(3,4) bracket_range_cstr [of flags u r v] Some rv by blast
    then show ?thesis using Some rv * by (simp add: bracket_ranges.simps [of flags l u])
  qed (use * in \<open>simp add: bracket_ranges.simps [of flags l u]\<close>)
qed

lemma test_elements:
  "fnmatch_test_loop n (u @ [0]) = Some False \<Longrightarrow> f_escape flags \<Longrightarrow> \<not> f_slash flags \<Longrightarrow> cstr u \<Longrightarrow>
    elements flags u = map Literal (unquote u)"
proof (induction u arbitrary: n rule: unquote.induct)
  case (3 c d u)
  show ?case
  proof (cases "c = 91")
    case True
    then have *: "fnmatch_test_loop (Suc n) ((d # u) @ [0]) = Some False" using 3(3) by simp
    have "fnmatch_test_loop (Suc n) ((if negated (d # u) then u else d # u) @ [0]) = Some False"
      using * by (auto simp: negated_def)
    then have "bracket_ranges flags True (if negated (d # u) then u else d # u) = None"
      by (rule test_bracket_ranges [OF _ 3(4)]) (use 3(6) in simp)
    then have "bracket flags (d # u) = None" by (simp add: bracket_def split: if_splits)
    then show ?thesis using True 3(2) [OF _ *] 3(4-) by (simp add: token_def)
  next
    case False
    then show ?thesis using 3 by (auto simp: token_def element_def split: if_splits)
  qed
qed (auto simp: token_def element_def bracket_def negated_def bracket_ranges.simps [of _ _ "[]"] bracket_range_def)

lemma match_literals: "\<not> f_nocase flags \<Longrightarrow> elements_match flags (map Literal cs) s \<longleftrightarrow> s = cs"
proof (induction cs arbitrary: s)
  case (Cons c cs)
  have "range_ok flags x (c, c) \<longleftrightarrow> x = c" for x using Cons.prems same_ch_range [of flags x c] by (simp add: same_ch_def)
  then show ?case using Cons by (cases s) (auto simp: match_single)
qed simp

lemma plain_pattern:
  assumes "cstr p" "apr_fnmatch_test (p @ [0]) = Some False"
  shows "glob_matches 0 p s \<longleftrightarrow> s = unquote p"
proof -
  have f: "\<not> f_nocase 0" "f_escape 0" "\<not> f_slash 0" "\<not> f_period 0"
    by (simp_all add: f_nocase_def f_escape_def f_slash_def f_period_def)
  have "elements 0 p = map Literal (unquote p)" using assms f by (intro test_elements) (auto simp: apr_fnmatch_test_def)
  moreover have "splits (\<lambda>g. g = Separator) (map Literal cs) = [map Literal cs]" "splits (\<lambda>x. False) s = [s]" for cs
    by (auto simp: splits.simps list_ex_iff)
  ultimately show ?thesis using f by (simp add: glob_matches_def segment_matches_def match_literals)
qed

lemma fnmatch_test_returns: "\<exists>b. fnmatch_test_loop n (p @ [0]) = Some b"
proof (induction p arbitrary: n rule: unquote.induct)
  case (3 c d u)
  show ?case
  proof (cases "c = 92")
    case False
    then obtain b b' where "fnmatch_test_loop n ((d # u) @ [0]) = Some b" "fnmatch_test_loop (n + 1) ((d # u) @ [0]) = Some b'"
      using 3(2) by blast
    then show ?thesis using False by (auto simp del: fnmatch_test_loop.simps simp: fnmatch_test_loop.simps(2) [of _ c])
  qed (use 3(1) in auto)
qed auto

section \<open>Properties\<close>

lemma bracket_examples:
  "glob_matches 0 [91] [91]" "glob_matches 0 [91, 93] [91, 93]" "\<not> glob_matches 0 [91, 94, 93] []"
  "glob_matches 0 [91, 93, 97, 93] [93]" "\<not> documented_matches 0 [91] [91]" "\<not> documented_matches 0 [91, 93] [91, 93]"
  "documented_matches 0 [91, 94, 93] []" "\<not> documented_matches 0 [91, 93, 97, 93] [93]"
  by code_simp+

text \<open>
  C3. \<open>apr_fnmatch\<close> returns, without reading outside its arguments, and its answer is whether the pattern matches
  the string under the flags as \<^verbatim>\<open>apr_fnmatch.h\<close> describes it: the elements of the pattern are split at separators, the
  string at slashes, each part of the string has to match its part of the pattern with some choice of lengths for the
  \<open>*\<close>, and a leading period has to be explicit when the flags say so. This is for patterns in which every \<open>[\<close> that
  starts a class has its closing bracket and the class does not begin with \<open>]\<close>; on the others the code and the
  header differ.
\<close>

theorem apr_fnmatch_correct:
  assumes "cstr pattern" "cstr s" "closed_classes flags pattern"
  shows "apr_fnmatch (pattern @ [0]) (s @ [0]) flags = Some (if documented_matches flags pattern s then 0 else APR_FNM_NOMATCH)"
  using apr_fnmatch_spec [OF assms(1,2), of flags]
  by (simp add: documented_matches_def glob_matches_def elements_documented [OF assms(3)])

theorem apr_fnmatch_correct_witness:
  "closed_classes APR_FNM_PATHNAME [97, 42, 91, 33, 48, 45, 57, 93, 42, 47, 63] \<and>
   apr_fnmatch ([97, 42, 91, 33, 48, 45, 57, 93, 42, 47, 63] @ [0]) ([97, 49, 98, 50, 99, 47, 120] @ [0]) APR_FNM_PATHNAME = Some 0"
proof -
  have d: "closed_classes APR_FNM_PATHNAME [97, 42, 91, 33, 48, 45, 57, 93, 42, 47, 63]" by code_simp
  have "documented_matches APR_FNM_PATHNAME [97, 42, 91, 33, 48, 45, 57, 93, 42, 47, 63] [97, 49, 98, 50, 99, 47, 120]" by code_simp
  then show ?thesis
    using apr_fnmatch_correct [OF _ _ d, of "[97, 49, 98, 50, 99, 47, 120]"] d by simp
qed

text \<open>
  The other patterns: an unclosed \<open>[\<close> matches itself, \<open>[]\<close> and \<open>[^]\<close> match themselves, and \<open>[]a]\<close> matches \<open>]\<close>, where
  the header has no match, no match, a match of the empty string and no match.
\<close>

lemma apr_fnmatch_brackets:
  "apr_fnmatch [91, 0] [91, 0] 0 = Some 0" "\<not> documented_matches 0 [91] [91]"
  "apr_fnmatch [91, 93, 0] [91, 93, 0] 0 = Some 0" "\<not> documented_matches 0 [91, 93] [91, 93]"
  "apr_fnmatch [91, 94, 93, 0] [0] 0 = Some APR_FNM_NOMATCH" "documented_matches 0 [91, 94, 93] []"
  "apr_fnmatch [91, 93, 97, 93, 0] [93, 0] 0 = Some 0" "\<not> documented_matches 0 [91, 93, 97, 93] [93]"
  using apr_fnmatch_spec [of "[91]" "[91]" 0] apr_fnmatch_spec [of "[91, 93]" "[91, 93]" 0]
    apr_fnmatch_spec [of "[91, 94, 93]" "[]" 0] apr_fnmatch_spec [of "[91, 93, 97, 93]" "[93]" 0]
  by (simp_all add: bracket_examples)

text \<open>
  A pattern in which \<open>apr_fnmatch_test\<close> finds no wildcard matches exactly one string, the pattern with its
  escapes removed.
\<close>

theorem apr_fnmatch_test_correct:
  assumes "cstr pattern" "cstr s"
  shows "\<exists>b. apr_fnmatch_test (pattern @ [0]) = Some b \<and>
    (\<not> b \<longrightarrow> apr_fnmatch (pattern @ [0]) (s @ [0]) 0 = Some (if s = unquote pattern then 0 else APR_FNM_NOMATCH))"
  using fnmatch_test_returns [of 0 pattern] plain_pattern [OF assms(1), of s] apr_fnmatch_spec [OF assms, of 0]
  by (auto simp: apr_fnmatch_test_def)

theorem apr_fnmatch_test_correct_witness:
  "apr_fnmatch ([97, 92, 42] @ [0]) ([97, 42] @ [0]) 0 = Some 0"
proof -
  have "apr_fnmatch_test ([97, 92, 42] @ [0]) = Some False" by code_simp
  then show ?thesis using apr_fnmatch_test_correct [of "[97, 92, 42]" "[97, 42]"] by auto
qed

text \<open>
  A string is matched by a list of patterns when one of them matches it, and the names of a directory that match the
  last component of a pattern are found in their order.
\<close>

lemma apr_cstr_match_glob_list_correct:
  assumes "list_all cstr ps" "cstr s"
  shows "apr_cstr_match_glob_list (s @ [0]) (map (\<lambda>p. p @ [0]) ps) = Some (list_ex (\<lambda>p. glob_matches 0 p s) ps)"
  by (rule match_glob_list_spec [OF assms])

lemma apr_match_glob_correct:
  assumes "cstr p" "47 \<notin> set p" "apr_dir_open dir = Inr names" "list_all cstr names"
  shows "apr_match_glob apr_dir_open (dir @ 47 # p) = Some (APR_SUCCESS, filter (glob_matches 0 p) names)"
proof -
  have "after_last 47 (dir @ 47 # p) = length dir + 1" by (rule after_last_split(1) [OF assms(2)])
  then show ?thesis using assms match_glob_loop_spec [of p names "[]"] by (simp add: apr_match_glob_def)
qed

end
