(* ===== verification/Apr_Escape.thy ===== *)
theory Apr_Escape
  imports Apr_Ctype "HOL-Library.Monad_Syntax"
begin

text \<open>
  The escaping functions of \<^verbatim>\<open>encoding/apr_escape.c\<close>, for the ASCII configuration of Unix, with the table of
  character classes that the build generates by \<^verbatim>\<open>tools/gen_test_char.c\<close>. Every function has two loops,
  one that writes to the destination and one that only counts, for a NULL destination; the model has
  both. The arguments are whether there is a destination, the memory of the source, and \<open>slen\<close>; the
  results are the status, the bytes written and \<open>*len\<close>. \<open>None\<close> is a read outside the source.
\<close>

section \<open>Character classes\<close>

definition T_ESCAPE_SHELL_CMD :: byte where "T_ESCAPE_SHELL_CMD = 0x01"
definition T_ESCAPE_PATH_SEGMENT :: byte where "T_ESCAPE_PATH_SEGMENT = 0x02"
definition T_OS_ESCAPE_PATH :: byte where "T_OS_ESCAPE_PATH = 0x04"
definition T_ESCAPE_ECHO :: byte where "T_ESCAPE_ECHO = 0x08"
definition T_ESCAPE_URLENCODED :: byte where "T_ESCAPE_URLENCODED = 0x10"
definition T_ESCAPE_XML :: byte where "T_ESCAPE_XML = 0x20"
definition T_ESCAPE_LDAP_DN :: byte where "T_ESCAPE_LDAP_DN = 0x40"
definition T_ESCAPE_LDAP_FILTER :: byte where "T_ESCAPE_LDAP_FILTER = 0x80"

definition isalnum :: "byte \<Rightarrow> bool" where
  "isalnum c \<longleftrightarrow> 48 \<le> c \<and> c \<le> 57 \<or> 65 \<le> c \<and> c \<le> 90 \<or> 97 \<le> c \<and> c \<le> 122"

definition isprint :: "byte \<Rightarrow> bool" where
  "isprint c \<longleftrightarrow> 32 \<le> c \<and> c \<le> 126"

definition iscntrl :: "byte \<Rightarrow> bool" where
  "iscntrl c \<longleftrightarrow> c < 32 \<or> c = 127"

text \<open>\<open>strchr\<close> in a literal finds the terminating NUL, too.\<close>

definition in_str :: "byte \<Rightarrow> cstring \<Rightarrow> bool" where
  "in_str c s \<longleftrightarrow> c = 0 \<or> c \<in> set s"

text \<open>The flags that \<open>gen_test_char\<close> prints for a character.\<close>

definition test_char_table :: "byte \<Rightarrow> byte" where
  "test_char_table c =
     (let flag = (\<lambda>b f. if b then f else 0)
      in flag (c \<noteq> 0 \<and> in_str c [38, 59, 96, 39, 34, 124, 42, 63, 126, 60, 62, 94, 40, 41, 91, 93, 123, 125, 36, 92, 10]) T_ESCAPE_SHELL_CMD OR
         flag (\<not> isalnum c \<and> \<not> in_str c [36, 45, 95, 46, 43, 33, 42, 39, 40, 41, 44, 58, 64, 38, 61, 126]) T_ESCAPE_PATH_SEGMENT OR
         flag (\<not> isalnum c \<and> \<not> in_str c [36, 45, 95, 46, 43, 33, 42, 39, 40, 41, 44, 58, 64, 38, 61, 47, 126]) T_OS_ESCAPE_PATH OR
         flag (\<not> isalnum c \<and> \<not> in_str c [46, 45, 42, 95, 32]) T_ESCAPE_URLENCODED OR
         flag (c \<noteq> 0 \<and> (\<not> isprint c \<or> c = 34 \<or> c = 92 \<or> iscntrl c)) T_ESCAPE_ECHO OR
         flag (in_str c [60, 62, 38, 34]) T_ESCAPE_XML OR
         flag (\<not> isprint c \<or> in_str c [34, 43, 44, 59, 60, 62, 92]) T_ESCAPE_LDAP_DN OR
         flag (\<not> isprint c \<or> in_str c [42, 40, 41, 92]) T_ESCAPE_LDAP_FILTER)"

definition TEST_CHAR :: "byte \<Rightarrow> byte \<Rightarrow> bool" where
  "TEST_CHAR c f \<longleftrightarrow> test_char_table c AND f \<noteq> 0"

section \<open>Escaping\<close>

type_synonym escaping = "apr_status_t \<times> byte list \<times> nat option"

definition APR_ESCAPE_STRING :: int where "APR_ESCAPE_STRING = -1"

text \<open>
  \<open>while ((c = *s) && slen)\<close>: the loop that writes, with the bytes, the size and \<open>found\<close> of a round as a
  function of the character, and the loop that counts.
\<close>

fun write_loop :: "(byte \<Rightarrow> byte list \<times> nat \<times> bool) \<Rightarrow> byte list \<Rightarrow> int \<Rightarrow> (byte list \<times> nat \<times> bool) option" where
  "write_loop f [] slen = None"
| "write_loop f (c # s) slen =
     (if c = 0 \<or> slen = 0 then Some ([], 0, False)
      else do {
        (out, size, found) \<leftarrow> write_loop f s (slen - 1);
        let (w, n, b) = f c;
        Some (w @ out, n + size, b \<or> found)
      })"

fun count_loop :: "(byte \<Rightarrow> nat \<times> bool) \<Rightarrow> byte list \<Rightarrow> int \<Rightarrow> (nat \<times> bool) option" where
  "count_loop f [] slen = None"
| "count_loop f (c # s) slen =
     (if c = 0 \<or> slen = 0 then Some (0, False)
      else do {
        (size, found) \<leftarrow> count_loop f s (slen - 1);
        let (n, b) = f c;
        Some (n + size, b \<or> found)
      })"

definition found_status :: "bool \<Rightarrow> apr_status_t" where
  "found_status found = (if found then APR_SUCCESS else APR_NOTFOUND)"

text \<open>What the functions share after their declarations: \<open>size\<close> starts with 1 for the NUL.\<close>

definition escape_with ::
    "(byte \<Rightarrow> byte list \<times> nat \<times> bool) \<Rightarrow> (byte \<Rightarrow> nat \<times> bool) \<Rightarrow> bool \<Rightarrow> byte list option \<Rightarrow> int \<Rightarrow> escaping option" where
  "escape_with w k dest str slen =
     (case str of
        None \<Rightarrow> Some (APR_NOTFOUND, [], Some 1)
      | Some s \<Rightarrow>
          if dest then do {
            (out, size, found) \<leftarrow> write_loop w s slen;
            Some (found_status found, out @ [0], Some (1 + size))
          }
          else do {
            (size, found) \<leftarrow> count_loop k s slen;
            Some (found_status found, [], Some (1 + size))
          })"

text \<open>
  The functions that allocate from a pool return the argument, NULL, or the allocation: its size and the
  bytes written to it.
\<close>

datatype pescaped = Argument | Null_Pointer | Allocated nat "byte list"

definition pescape :: "(bool \<Rightarrow> escaping option) \<Rightarrow> pescaped option" where
  "pescape f = do {
     (rv, _, len) \<leftarrow> f False;
     case (rv, len) of
       (APR_SUCCESS, Some n) \<Rightarrow> do { (_, out, _) \<leftarrow> f True; Some (Allocated n out) }
     | (APR_EINVAL, _) \<Rightarrow> Some Null_Pointer
     | (APR_BADCH, _) \<Rightarrow> Some Null_Pointer
     | _ \<Rightarrow> Some Argument
   }"

subsection \<open>Shell commands\<close>

definition shell_write :: "byte \<Rightarrow> byte list \<times> nat \<times> bool" where
  "shell_write c = (if TEST_CHAR c T_ESCAPE_SHELL_CMD then ([92, c], 2, True) else ([c], 1, False))"

definition shell_count :: "byte \<Rightarrow> nat \<times> bool" where
  "shell_count c = (if TEST_CHAR c T_ESCAPE_SHELL_CMD then (2, True) else (1, False))"

definition apr_escape_shell :: "bool \<Rightarrow> byte list option \<Rightarrow> int \<Rightarrow> escaping option" where
  "apr_escape_shell = escape_with shell_write shell_count"

definition apr_pescape_shell :: "byte list option \<Rightarrow> pescaped option" where
  "apr_pescape_shell str = pescape (\<lambda>dest. apr_escape_shell dest str APR_ESCAPE_STRING)"

subsection \<open>URLs\<close>

definition c2x_table :: "byte list" where
  "c2x_table = [48, 49, 50, 51, 52, 53, 54, 55, 56, 57, 97, 98, 99, 100, 101, 102]"

definition hex_digits :: "byte \<Rightarrow> byte list" where
  "hex_digits c = [c2x_table ! unat (drop_bit 4 c), c2x_table ! unat (c AND 0xf)]"

definition c2x :: "byte \<Rightarrow> byte \<Rightarrow> byte list" where
  "c2x what prefix = prefix # hex_digits what"

definition segment_write :: "byte \<Rightarrow> byte list \<times> nat \<times> bool" where
  "segment_write c = (if TEST_CHAR c T_ESCAPE_PATH_SEGMENT then (c2x c 37, 3, True) else ([c], 1, False))"

definition segment_count :: "byte \<Rightarrow> nat \<times> bool" where
  "segment_count c = (if TEST_CHAR c T_ESCAPE_PATH_SEGMENT then (3, True) else (1, False))"

definition apr_escape_path_segment :: "bool \<Rightarrow> byte list option \<Rightarrow> int \<Rightarrow> escaping option" where
  "apr_escape_path_segment = escape_with segment_write segment_count"

definition apr_pescape_path_segment :: "byte list option \<Rightarrow> pescaped option" where
  "apr_pescape_path_segment str = pescape (\<lambda>dest. apr_escape_path_segment dest str APR_ESCAPE_STRING)"

definition path_write :: "byte \<Rightarrow> byte list \<times> nat \<times> bool" where
  "path_write c = (if TEST_CHAR c T_OS_ESCAPE_PATH then (c2x c 37, 3, True) else ([c], 1, False))"

definition path_count :: "byte \<Rightarrow> nat \<times> bool" where
  "path_count c = (if TEST_CHAR c T_OS_ESCAPE_PATH then (3, True) else (1, False))"

text \<open>\<open>strchr\<close>: the position, if there is one.\<close>

fun strchr :: "byte list \<Rightarrow> byte \<Rightarrow> nat option option" where
  "strchr [] c = None"
| "strchr (x # m) c = (if x = c then Some (Some 0) else if x = 0 then Some None else map_option (map_option Suc) (strchr m c))"

text \<open>A colon before the first slash would make the start of the path a scheme.\<close>

definition colon_first :: "nat option \<Rightarrow> nat option \<Rightarrow> bool" where
  "colon_first colon slash =
     (case colon of None \<Rightarrow> False | Some i \<Rightarrow> (case slash of None \<Rightarrow> True | Some j \<Rightarrow> i < j))"

definition apr_escape_path :: "bool \<Rightarrow> byte list option \<Rightarrow> int \<Rightarrow> bool \<Rightarrow> escaping option" where
  "apr_escape_path dest path slen partial =
     (case path of
        None \<Rightarrow> Some (APR_NOTFOUND, [], None)
      | Some s \<Rightarrow> do {
          prefixed \<leftarrow> (if partial then Some False
            else do { colon \<leftarrow> strchr s 58; slash \<leftarrow> strchr s 47; Some (colon_first colon slash) });
          (rv, out, len) \<leftarrow> escape_with path_write path_count dest (Some s) slen;
          Some (if prefixed then (APR_SUCCESS, if dest then [46, 47] @ out else [], map_option (\<lambda>n. 2 + n) len) else (rv, out, len))
        })"

definition apr_pescape_path :: "byte list option \<Rightarrow> bool \<Rightarrow> pescaped option" where
  "apr_pescape_path str partial = pescape (\<lambda>dest. apr_escape_path dest str APR_ESCAPE_STRING partial)"

definition urlencoded_write :: "byte \<Rightarrow> byte list \<times> nat \<times> bool" where
  "urlencoded_write c =
     (if TEST_CHAR c T_ESCAPE_URLENCODED then (c2x c 37, 3, True)
      else if c = 32 then ([43], 1, True) else ([c], 1, False))"

definition urlencoded_count :: "byte \<Rightarrow> nat \<times> bool" where
  "urlencoded_count c =
     (if TEST_CHAR c T_ESCAPE_URLENCODED then (3, True) else if c = 32 then (1, True) else (1, False))"

definition apr_escape_urlencoded :: "bool \<Rightarrow> byte list option \<Rightarrow> int \<Rightarrow> escaping option" where
  "apr_escape_urlencoded = escape_with urlencoded_write urlencoded_count"

definition apr_pescape_urlencoded :: "byte list option \<Rightarrow> pescaped option" where
  "apr_pescape_urlencoded str = pescape (\<lambda>dest. apr_escape_urlencoded dest str APR_ESCAPE_STRING)"

subsection \<open>Entities\<close>

text \<open>
  \<open>apr_snprintf\<close> for a given text of the formatter: at most \<open>len - 1\<close> characters are written and
  their number is returned.
\<close>

definition apr_snprintf :: "nat \<Rightarrow> cstring \<Rightarrow> byte list \<times> nat" where
  "apr_snprintf len text = (take (len - 1) text, if len \<noteq> 0 \<and> len - 1 < length text then len - 1 else length text)"

text \<open>\<open>"&#%3.3d;"\<close>\<close>

definition entity_text :: "byte \<Rightarrow> cstring" where
  "entity_text c = (let ds = digits (unat c) in [38, 35] @ replicate (3 - length ds) 48 @ ds @ [59])"

definition entity_write :: "bool \<Rightarrow> byte \<Rightarrow> byte list \<times> nat \<times> bool" where
  "entity_write toasc c =
     (if TEST_CHAR c T_ESCAPE_XML then
        (if c = 62 then ([38, 103, 116, 59], 4, True)
         else if c = 60 then ([38, 108, 116, 59], 4, True)
         else if c = 38 then ([38, 97, 109, 112, 59], 5, True)
         else if c = 34 then ([38, 113, 117, 111, 116, 59], 6, True)
         else if c = 39 then ([38, 97, 112, 111, 115, 59], 6, True)
         else ([], 0, True))
      else if toasc \<and> 128 \<le> c then
        (let (out, offset) = apr_snprintf 6 (entity_text c) in (out, offset, True))
      else ([c], 1, False))"

definition entity_count :: "bool \<Rightarrow> byte \<Rightarrow> nat \<times> bool" where
  "entity_count toasc c =
     (if TEST_CHAR c T_ESCAPE_XML then
        (if c = 62 then (4, True) else if c = 60 then (4, True) else if c = 38 then (5, True)
         else if c = 34 then (6, True) else if c = 39 then (6, True) else (0, True))
      else if toasc \<and> 128 \<le> c then (snd (apr_snprintf 6 (entity_text c)), True)
      else (1, False))"

definition apr_escape_entity :: "bool \<Rightarrow> byte list option \<Rightarrow> int \<Rightarrow> bool \<Rightarrow> escaping option" where
  "apr_escape_entity dest str slen toasc = escape_with (entity_write toasc) (entity_count toasc) dest str slen"

definition apr_pescape_entity :: "byte list option \<Rightarrow> bool \<Rightarrow> pescaped option" where
  "apr_pescape_entity str toasc = pescape (\<lambda>dest. apr_escape_entity dest str APR_ESCAPE_STRING toasc)"

subsection \<open>Control characters\<close>

definition echo_letter :: "byte \<Rightarrow> byte option" where
  "echo_letter c = map_of [(7, 97), (8, 98), (12, 102), (10, 110), (13, 114), (9, 116), (11, 118), (92, 92)] c"

definition echo_write :: "bool \<Rightarrow> byte \<Rightarrow> byte list \<times> nat \<times> bool" where
  "echo_write quote c =
     (if TEST_CHAR c T_ESCAPE_ECHO then
        case echo_letter c of
          Some l \<Rightarrow> ([92, l], 2, True)
        | None \<Rightarrow>
            if c = 34 then if quote then ([92, c], 2, True) else ([c], 1, False)
            else (92 # c2x c 120, 4, True)
      else ([c], 1, False))"

definition echo_count :: "bool \<Rightarrow> byte \<Rightarrow> nat \<times> bool" where
  "echo_count quote c =
     (if TEST_CHAR c T_ESCAPE_ECHO then
        case echo_letter c of
          Some l \<Rightarrow> (2, True)
        | None \<Rightarrow> if c = 34 then if quote then (2, True) else (1, False) else (4, True)
      else (1, False))"

definition apr_escape_echo :: "bool \<Rightarrow> byte list option \<Rightarrow> int \<Rightarrow> bool \<Rightarrow> escaping option" where
  "apr_escape_echo dest str slen quote = escape_with (echo_write quote) (echo_count quote) dest str slen"

definition apr_pescape_echo :: "byte list option \<Rightarrow> bool \<Rightarrow> pescaped option" where
  "apr_pescape_echo str quote = pescape (\<lambda>dest. apr_escape_echo dest str APR_ESCAPE_STRING quote)"

subsection \<open>Distinguished names and filters\<close>

definition APR_ESCAPE_LDAP_DN :: u32 where "APR_ESCAPE_LDAP_DN = 0x01"
definition APR_ESCAPE_LDAP_FILTER :: u32 where "APR_ESCAPE_LDAP_FILTER = 0x02"
definition APR_ESCAPE_LDAP_ALL :: u32 where "APR_ESCAPE_LDAP_ALL = 0x03"

definition ldap_special :: "u32 \<Rightarrow> byte \<Rightarrow> bool" where
  "ldap_special flags c \<longleftrightarrow>
     flags AND APR_ESCAPE_LDAP_DN \<noteq> 0 \<and> TEST_CHAR c T_ESCAPE_LDAP_DN \<or>
     flags AND APR_ESCAPE_LDAP_FILTER \<noteq> 0 \<and> TEST_CHAR c T_ESCAPE_LDAP_FILTER"

text \<open>\<open>while (((c = *s) && slen) || (slen > 0))\<close>\<close>

fun ldap_write :: "u32 \<Rightarrow> byte list \<Rightarrow> int \<Rightarrow> (byte list \<times> nat \<times> bool) option" where
  "ldap_write flags [] slen = None"
| "ldap_write flags (c # s) slen =
     (if c \<noteq> 0 \<and> slen \<noteq> 0 \<or> 0 < slen then do {
        (out, size, found) \<leftarrow> ldap_write flags s (slen - 1);
        if ldap_special flags c then Some (c2x c 92 @ out, 3 + size, True) else Some (c # out, 1 + size, found)
      }
      else Some ([], 0, False))"

fun ldap_count :: "u32 \<Rightarrow> byte list \<Rightarrow> int \<Rightarrow> (nat \<times> bool) option" where
  "ldap_count flags [] slen = None"
| "ldap_count flags (c # s) slen =
     (if c \<noteq> 0 \<and> slen \<noteq> 0 \<or> 0 < slen then do {
        (size, found) \<leftarrow> ldap_count flags s (slen - 1);
        if ldap_special flags c then Some (3 + size, True) else Some (1 + size, found)
      }
      else Some (0, False))"

definition apr_escape_ldap :: "bool \<Rightarrow> byte list option \<Rightarrow> int \<Rightarrow> u32 \<Rightarrow> escaping option" where
  "apr_escape_ldap dest str slen flags =
     (case str of
        None \<Rightarrow> Some (APR_NOTFOUND, [], Some 1)
      | Some s \<Rightarrow>
          if dest then do {
            (out, size, found) \<leftarrow> ldap_write flags s slen;
            Some (found_status found, out @ [0], Some (1 + size))
          }
          else do {
            (size, found) \<leftarrow> ldap_count flags s slen;
            Some (found_status found, [], Some (1 + size))
          })"

definition apr_pescape_ldap :: "byte list option \<Rightarrow> int \<Rightarrow> u32 \<Rightarrow> pescaped option" where
  "apr_pescape_ldap src srclen flags = pescape (\<lambda>dest. apr_escape_ldap dest src srclen flags)"

section \<open>Unescaping\<close>

subsection \<open>URLs\<close>

definition apr_isxdigit :: "byte \<Rightarrow> bool" where
  "apr_isxdigit c \<longleftrightarrow> 48 \<le> c \<and> c \<le> 57 \<or> 65 \<le> c \<and> c \<le> 70 \<or> 97 \<le> c \<and> c \<le> 102"

text \<open>The arithmetic of \<open>char\<close>.\<close>

definition x2c_digit :: "byte \<Rightarrow> byte" where
  "x2c_digit c = (if 65 \<le>s c then ((c AND 0xdf) - 65) + 10 else c - 48)"

definition x2c :: "byte \<Rightarrow> byte \<Rightarrow> byte" where
  "x2c a b = x2c_digit a * 16 + x2c_digit b"

definition among :: "cstring option \<Rightarrow> byte \<Rightarrow> bool" where
  "among s c = (case s of None \<Rightarrow> False | Some s \<Rightarrow> c \<in> set s)"

text \<open>An escape that can be decoded: two hexadecimal digits follow.\<close>

definition escape_at :: "byte list \<Rightarrow> (byte \<times> byte) option option" where
  "escape_at s = do {
     a \<leftarrow> ch s 0;
     if \<not> apr_isxdigit a then Some None
     else do { b \<leftarrow> ch s 1; Some (if apr_isxdigit b then Some (a, b) else None) }
   }"

text \<open>The bytes, the size, \<open>found\<close>, \<open>badesc\<close> and \<open>badpath\<close>.\<close>

fun unescape_write ::
    "cstring option \<Rightarrow> cstring option \<Rightarrow> bool \<Rightarrow> byte list \<Rightarrow> int \<Rightarrow> (byte list \<times> nat \<times> bool \<times> bool \<times> bool) option" where
  "unescape_write forbid reserved plus_sign [] slen = None"
| "unescape_write forbid reserved plus_sign (c # s) slen =
     (if c = 0 \<or> slen = 0 then Some ([], 0, False, False, False)
      else if plus_sign \<and> c = 43 then do {
        (out, size, found, badesc, badpath) \<leftarrow> unescape_write forbid reserved plus_sign s (slen - 1);
        Some (32 # out, 1 + size, True, badesc, badpath)
      }
      else if c \<noteq> 37 then do {
        (out, size, found, badesc, badpath) \<leftarrow> unescape_write forbid reserved plus_sign s (slen - 1);
        Some (c # out, 1 + size, found, badesc, badpath)
      }
      else do {
        e \<leftarrow> escape_at s;
        case e of
          None \<Rightarrow> do {
            (out, size, found, badesc, badpath) \<leftarrow> unescape_write forbid reserved plus_sign s (slen - 1);
            Some (37 # out, 1 + size, found, True, badpath)
          }
        | Some (a, b) \<Rightarrow>
            let decoded = x2c a b in
            if decoded = 0 \<or> among forbid decoded then do {
              (out, size, found, badesc, badpath) \<leftarrow> unescape_write forbid reserved plus_sign (drop 2 s) (slen - 3);
              Some (decoded # out, 1 + size, found, badesc, True)
            }
            else if among reserved decoded then do {
              (out, size, found, badesc, badpath) \<leftarrow> unescape_write forbid reserved plus_sign (drop 2 s) (slen - 1);
              Some (c # a # b # out, 3 + size, found, badesc, badpath)
            }
            else do {
              (out, size, found, badesc, badpath) \<leftarrow> unescape_write forbid reserved plus_sign (drop 2 s) (slen - 3);
              Some (decoded # out, 1 + size, True, badesc, badpath)
            }
      })"

fun unescape_count ::
    "cstring option \<Rightarrow> cstring option \<Rightarrow> bool \<Rightarrow> byte list \<Rightarrow> int \<Rightarrow> (nat \<times> bool \<times> bool \<times> bool) option" where
  "unescape_count forbid reserved plus_sign [] slen = None"
| "unescape_count forbid reserved plus_sign (c # s) slen =
     (if c = 0 \<or> slen = 0 then Some (0, False, False, False)
      else if plus_sign \<and> c = 43 then do {
        (size, found, badesc, badpath) \<leftarrow> unescape_count forbid reserved plus_sign s (slen - 1);
        Some (1 + size, True, badesc, badpath)
      }
      else if c \<noteq> 37 then do {
        (size, found, badesc, badpath) \<leftarrow> unescape_count forbid reserved plus_sign s (slen - 1);
        Some (1 + size, found, badesc, badpath)
      }
      else do {
        e \<leftarrow> escape_at s;
        case e of
          None \<Rightarrow> do {
            (size, found, badesc, badpath) \<leftarrow> unescape_count forbid reserved plus_sign s (slen - 1);
            Some (1 + size, found, True, badpath)
          }
        | Some (a, b) \<Rightarrow>
            let decoded = x2c a b in
            if decoded = 0 \<or> among forbid decoded then do {
              (size, found, badesc, badpath) \<leftarrow> unescape_count forbid reserved plus_sign (drop 2 s) (slen - 3);
              Some (1 + size, found, badesc, True)
            }
            else if among reserved decoded then do {
              (size, found, badesc, badpath) \<leftarrow> unescape_count forbid reserved plus_sign (drop 2 s) (slen - 3);
              Some (3 + size, found, badesc, badpath)
            }
            else do {
              (size, found, badesc, badpath) \<leftarrow> unescape_count forbid reserved plus_sign (drop 2 s) (slen - 3);
              Some (1 + size, True, badesc, badpath)
            }
      })"

definition unescape_status :: "bool \<Rightarrow> bool \<Rightarrow> bool \<Rightarrow> apr_status_t" where
  "unescape_status found badesc badpath =
     (if badesc then APR_EINVAL else if badpath then APR_BADCH else found_status found)"

definition apr_unescape_url ::
    "bool \<Rightarrow> byte list option \<Rightarrow> int \<Rightarrow> cstring option \<Rightarrow> cstring option \<Rightarrow> bool \<Rightarrow> escaping option" where
  "apr_unescape_url dest url slen forbid reserved plus_sign =
     (case url of
        None \<Rightarrow> Some (APR_NOTFOUND, [], None)
      | Some s \<Rightarrow>
          if dest then do {
            (out, size, found, badesc, badpath) \<leftarrow> unescape_write forbid reserved plus_sign s slen;
            Some (unescape_status found badesc badpath, out @ [0], Some (1 + size))
          }
          else do {
            (size, found, badesc, badpath) \<leftarrow> unescape_count forbid reserved plus_sign s slen;
            Some (unescape_status found badesc badpath, [], Some (1 + size))
          })"

definition apr_punescape_url :: "byte list option \<Rightarrow> cstring option \<Rightarrow> cstring option \<Rightarrow> bool \<Rightarrow> pescaped option" where
  "apr_punescape_url url forbid reserved plus_sign =
     pescape (\<lambda>dest. apr_unescape_url dest url APR_ESCAPE_STRING forbid reserved plus_sign)"

subsection \<open>Entities\<close>

definition ascii :: "string \<Rightarrow> cstring" where
  "ascii s = map of_char s"

text \<open>
  The names of each length with the character they stand for, Latin 1 in the source's octal escapes;
  \<open>entlist[j]\<close> is NULL for other lengths.
\<close>

definition entlist_table :: "(nat \<times> (string \<times> byte) list) list" where
  "entlist_table =
    [  (2, [(''lt'', 0x3C), (''gt'', 0x3E)]),
       (3, [(''amp'', 0x26), (''ETH'', 0xD0), (''eth'', 0xF0)]),
       (4, [(''quot'', 0x22), (''Auml'', 0xC4), (''Euml'', 0xCB), (''Iuml'', 0xCF), (''Ouml'', 0xD6),
       (''Uuml'', 0xDC), (''auml'', 0xE4), (''euml'', 0xEB), (''iuml'', 0xEF), (''ouml'', 0xF6),
       (''uuml'', 0xFC), (''yuml'', 0xFF)]),
       (5, [(''Acirc'', 0xC2), (''Aring'', 0xC5), (''AElig'', 0xC6), (''Ecirc'', 0xCA), (''Icirc'', 0xCE),
       (''Ocirc'', 0xD4), (''Ucirc'', 0xDB), (''THORN'', 0xDE), (''szlig'', 0xDF), (''acirc'', 0xE2),
       (''aring'', 0xE5), (''aelig'', 0xE6), (''ecirc'', 0xEA), (''icirc'', 0xEE), (''ocirc'', 0xF4),
       (''ucirc'', 0xFB), (''thorn'', 0xFE)]),
       (6, [(''Agrave'', 0xC0), (''Aacute'', 0xC1), (''Atilde'', 0xC3), (''Ccedil'', 0xC7),
       (''Egrave'', 0xC8), (''Eacute'', 0xC9), (''Igrave'', 0xCC), (''Iacute'', 0xCD),
       (''Ntilde'', 0xD1), (''Ograve'', 0xD2), (''Oacute'', 0xD3), (''Otilde'', 0xD5),
       (''Oslash'', 0xD8), (''Ugrave'', 0xD9), (''Uacute'', 0xDA), (''Yacute'', 0xDD),
       (''agrave'', 0xE0), (''aacute'', 0xE1), (''atilde'', 0xE3), (''ccedil'', 0xE7),
       (''egrave'', 0xE8), (''eacute'', 0xE9), (''igrave'', 0xEC), (''iacute'', 0xED),
       (''ntilde'', 0xF1), (''ograve'', 0xF2), (''oacute'', 0xF3), (''otilde'', 0xF5),
       (''oslash'', 0xF8), (''ugrave'', 0xF9), (''uacute'', 0xFA), (''yacute'', 0xFD)])]"

definition entlist :: "nat \<Rightarrow> (cstring \<times> byte) list option" where
  "entlist j = map_option (map (\<lambda>(s, c). (ascii s, c))) (map_of entlist_table j)"

definition MAXENTLEN :: nat where "MAXENTLEN = 6"

text \<open>The search for the end of the entity from \<open>s[i]\<close> on, and the number after \<open>&#\<close> (an \<open>int\<close>, which wraps around).\<close>

function entity_end :: "byte list \<Rightarrow> int \<Rightarrow> nat \<Rightarrow> nat option" where
  "entity_end s slen i = do {
     x \<leftarrow> ch s i;
     if x \<noteq> 59 \<and> x \<noteq> 0 \<and> slen - int i \<noteq> 0 then entity_end s slen (i + 1) else Some i
   }"
  by pat_completeness auto
termination
  by (relation "measure (\<lambda>(s, slen, i). length s - i)") (auto simp: ch_def split: if_splits)

declare entity_end.simps [simp del]

function entity_number :: "byte list \<Rightarrow> nat \<Rightarrow> nat \<Rightarrow> int \<Rightarrow> nat \<times> int" where
  "entity_number s i j val =
     (if j < i \<and> apr_isdigit (s ! j) then entity_number s i (j + 1) (signed_take_bit 31 (val * 10 + sint (s ! j) - 48))
      else (j, val))"
  by pat_completeness auto
termination
  by (relation "measure (\<lambda>(s, i, j, val). i - j)") auto

declare entity_number.simps [simp del]

definition no_character :: "nat \<Rightarrow> nat \<Rightarrow> int \<Rightarrow> bool" where
  "no_character j i val \<longleftrightarrow> j < i \<or> val \<le> 8 \<or> 11 \<le> val \<and> val \<le> 31 \<or> 127 \<le> val \<and> val \<le> 160 \<or> 256 \<le> val"

text \<open>
  A round of the loops: the byte to write if there is one, \<open>found\<close>, and how far \<open>s\<close> advances and \<open>slen\<close>
  falls apart from the one step of the loop head.
\<close>

definition entity_step :: "byte list \<Rightarrow> int \<Rightarrow> (byte option \<times> bool \<times> nat \<times> nat) option" where
  "entity_step s slen = do {
     c \<leftarrow> ch s 0;
     if c \<noteq> 38 then Some (Some c, False, 0, 0)
     else do {
       i \<leftarrow> entity_end s slen 1;
       x \<leftarrow> ch s i;
       if x = 0 \<or> slen - int i = 0 then Some (Some c, False, 0, 0)
       else if s ! 1 = 35 then
         let (j, val) = entity_number s i 2 0 in
         if no_character j i val then Some (None, False, i, 0) else Some (Some (word_of_int val), True, i, 0)
       else
         let j = i - 1 in
         case (if MAXENTLEN < j then None else entlist j) of
           None \<Rightarrow> Some (Some 38, False, 0, 0)
         | Some ents \<Rightarrow>
             (case map_of ents (take j (drop 1 s)) of
                None \<Rightarrow> Some (Some 38, False, 0, 0)
              | Some code \<Rightarrow> Some (Some code, True, i, i))
     }
   }"

text \<open>The same round of the loop that counts: whether the size grows, \<open>found\<close> and the two advances.\<close>

definition entity_count_step :: "byte list \<Rightarrow> int \<Rightarrow> (bool \<times> bool \<times> nat \<times> nat) option" where
  "entity_count_step s slen = do {
     c \<leftarrow> ch s 0;
     if c \<noteq> 38 then Some (True, False, 0, 0)
     else do {
       i \<leftarrow> entity_end s slen 1;
       x \<leftarrow> ch s i;
       if x = 0 \<or> slen - int i = 0 then Some (True, False, 0, 0)
       else if s ! 1 = 35 then
         let (j, val) = entity_number s i 2 0 in
         if no_character j i val then Some (False, False, i, 0) else Some (True, True, i, 0)
       else
         let j = i - 1 in
         case (if MAXENTLEN < j then None else entlist j) of
           None \<Rightarrow> Some (True, False, 0, 0)
         | Some ents \<Rightarrow>
             (case map_of ents (take j (drop 1 s)) of
                None \<Rightarrow> Some (True, False, 0, 0)
              | Some code \<Rightarrow> Some (True, True, i, i))
     }
   }"

function unentity_write :: "byte list \<Rightarrow> int \<Rightarrow> (byte list \<times> nat \<times> bool) option" where
  "unentity_write s slen = do {
     c \<leftarrow> ch s 0;
     if c = 0 \<or> slen = 0 then Some ([], 0, False)
     else do {
       (w, b, adv, less) \<leftarrow> entity_step s slen;
       (out, size, found) \<leftarrow> unentity_write (drop (adv + 1) s) (slen - int less - 1);
       Some (case w of None \<Rightarrow> (out, size, b \<or> found) | Some x \<Rightarrow> (x # out, 1 + size, b \<or> found))
     }
   }"
  by pat_completeness auto
termination
  by (relation "measure (\<lambda>(s, slen). length s)") (auto simp: ch_def split: if_splits)

declare unentity_write.simps [simp del]

function unentity_count :: "byte list \<Rightarrow> int \<Rightarrow> (nat \<times> bool) option" where
  "unentity_count s slen = do {
     c \<leftarrow> ch s 0;
     if c = 0 \<or> slen = 0 then Some (0, False)
     else do {
       (grows, b, adv, less) \<leftarrow> entity_count_step s slen;
       (size, found) \<leftarrow> unentity_count (drop (adv + 1) s) (slen - int less - 1);
       Some (if grows then 1 + size else size, b \<or> found)
     }
   }"
  by pat_completeness auto
termination
  by (relation "measure (\<lambda>(s, slen). length s)") (auto simp: ch_def split: if_splits)

declare unentity_count.simps [simp del]

definition apr_unescape_entity :: "bool \<Rightarrow> byte list option \<Rightarrow> int \<Rightarrow> escaping option" where
  "apr_unescape_entity dest str slen =
     (case str of
        None \<Rightarrow> Some (APR_NOTFOUND, [], Some 1)
      | Some s \<Rightarrow>
          if dest then do {
            (out, size, found) \<leftarrow> unentity_write s slen;
            Some (found_status found, out @ [0], Some (1 + size))
          }
          else do {
            (size, found) \<leftarrow> unentity_count s slen;
            Some (found_status found, [], Some (1 + size))
          })"

definition apr_punescape_entity :: "byte list option \<Rightarrow> pescaped option" where
  "apr_punescape_entity str = pescape (\<lambda>dest. apr_unescape_entity dest str APR_ESCAPE_STRING)"

section \<open>Hexadecimal text\<close>

definition apr_escape_hex :: "bool \<Rightarrow> byte list option \<Rightarrow> nat \<Rightarrow> bool \<Rightarrow> escaping option" where
  "apr_escape_hex dest src srclen colon =
     (case src of
        None \<Rightarrow> Some (APR_NOTFOUND, [], None)
      | Some m \<Rightarrow>
          if dest \<and> length m < srclen then None
          else
            let out = concat (map (\<lambda>size. (if colon \<and> size \<noteq> 0 then [58] else []) @ hex_digits (m ! size)) [0..<srclen])
            in Some (APR_SUCCESS, if dest then out @ [0] else [],
                 Some (if colon \<and> srclen \<noteq> 0 then srclen * 3 else srclen * 2 + 1)))"

definition apr_pescape_hex :: "byte list option \<Rightarrow> nat \<Rightarrow> bool \<Rightarrow> pescaped option" where
  "apr_pescape_hex src srclen colon = pescape (\<lambda>dest. apr_escape_hex dest src srclen colon)"

definition hex_value :: "byte \<Rightarrow> byte option" where
  "hex_value c =
     (if apr_isdigit c then Some (c - 48)
      else if 65 \<le> c \<and> c \<le> 90 \<and> c \<le> 70 then Some (c - 55)
      else if 97 \<le> c \<and> c \<le> 122 \<and> c \<le> 102 then Some (c - 87)
      else None)"

text \<open>
  The loop that writes: whether all characters were good, the bytes touched and the size. The first
  digit of a pair is stored at \<open>*d\<close>, too, without advancing.
\<close>

fun unhex_write :: "bool \<Rightarrow> byte list \<Rightarrow> int \<Rightarrow> bool \<Rightarrow> byte \<Rightarrow> (bool \<times> byte list \<times> nat) option" where
  "unhex_write colon [] slen flip u = None"
| "unhex_write colon (c # s) slen flip u =
     (let half = (if flip then [u] else []); u = (if flip then u else 0) in
      if c = 0 \<or> slen = 0 then Some (True, half, 0)
      else if colon \<and> c = 58 \<and> \<not> flip then unhex_write colon s (slen - 1) flip u
      else case hex_value c of
        None \<Rightarrow> Some (False, half, 0)
      | Some v \<Rightarrow>
          if flip then do {
            (good, out, size) \<leftarrow> unhex_write colon s (slen - 1) False (u OR v);
            Some (good, (u OR v) # out, 1 + size)
          }
          else unhex_write colon s (slen - 1) True (push_bit 4 (u OR v)))"

fun unhex_count :: "bool \<Rightarrow> byte list \<Rightarrow> int \<Rightarrow> bool \<Rightarrow> (bool \<times> nat) option" where
  "unhex_count colon [] slen flip = None"
| "unhex_count colon (c # s) slen flip =
     (if c = 0 \<or> slen = 0 then Some (True, 0)
      else if colon \<and> c = 58 \<and> \<not> flip then unhex_count colon s (slen - 1) flip
      else if hex_value c = None then Some (False, 0)
      else if flip then do {
        (good, size) \<leftarrow> unhex_count colon s (slen - 1) False;
        Some (good, 1 + size)
      }
      else unhex_count colon s (slen - 1) True)"

text \<open>After a bad character \<open>*len\<close> is not set.\<close>

definition apr_unescape_hex :: "bool \<Rightarrow> byte list option \<Rightarrow> int \<Rightarrow> bool \<Rightarrow> escaping option" where
  "apr_unescape_hex dest str slen colon =
     (case str of
        None \<Rightarrow> Some (APR_NOTFOUND, [], Some 0)
      | Some s \<Rightarrow>
          if dest then do {
            (good, out, size) \<leftarrow> unhex_write colon s slen False 0;
            Some (if good then (APR_SUCCESS, out, Some size) else (APR_BADCH, out, None))
          }
          else do {
            (good, size) \<leftarrow> unhex_count colon s slen False;
            Some (if good then (APR_SUCCESS, [], Some size) else (APR_BADCH, [], None))
          })"

text \<open>The result with \<open>*len\<close>, which the second call sets.\<close>

definition apr_punescape_hex :: "byte list option \<Rightarrow> bool \<Rightarrow> (pescaped \<times> nat option) option" where
  "apr_punescape_hex str colon = do {
     (rv, _, size) \<leftarrow> apr_unescape_hex False str APR_ESCAPE_STRING colon;
     case (rv, size) of
       (APR_SUCCESS, Some n) \<Rightarrow> do {
         (_, out, len) \<leftarrow> apr_unescape_hex True str APR_ESCAPE_STRING colon;
         Some (Allocated n out, len)
       }
     | _ \<Rightarrow> Some (Null_Pointer, None)
   }"

end
