(* ===== verification/Apr_Escape_Spec.thy ===== *)
theory Apr_Escape_Spec
  imports Apr_Escape
begin

text \<open>
  What the functions of \<^verbatim>\<open>encoding/apr_escape.c\<close> promise: the pass that counts agrees with the pass that
  writes (the locale \<open>two_pass\<close>, interpreted on the six functions that share their loops), URLs,
  entities and hexadecimal text come back from the inverse functions, and the inputs on which the
  functions write or read outside their buffers.
\<close>

section \<open>The two passes\<close>

text \<open>What the loops see of a source, and when they do not read outside it.\<close>

definition esc_source :: "byte list \<Rightarrow> int \<Rightarrow> byte list" where
  "esc_source m slen = (if slen < 0 then string_at m else take (nat slen) (string_at m))"

definition readable :: "byte list \<Rightarrow> int \<Rightarrow> bool" where
  "readable m slen \<longleftrightarrow> 0 \<in> set m \<and> (slen < 0 \<or> nat slen < length m)"

lemma source_string [simp]: "cstr s \<Longrightarrow> esc_source (s @ [0]) APR_ESCAPE_STRING = s" "readable (s @ [0]) APR_ESCAPE_STRING"
  by (simp_all add: esc_source_def readable_def APR_ESCAPE_STRING_def)

lemma source_Cons:
  "c \<noteq> 0 \<Longrightarrow> slen \<noteq> 0 \<Longrightarrow> esc_source (c # m) slen = c # esc_source m (slen - 1)"
  by (cases "nat slen") (auto simp: esc_source_def string_at_def nat_diff_distrib)

lemma source_stop: "c = 0 \<or> slen = 0 \<Longrightarrow> esc_source (c # m) slen = []"
  by (auto simp: esc_source_def string_at_def)

lemma readable_Cons: "readable (c # m) slen \<Longrightarrow> c \<noteq> 0 \<Longrightarrow> slen \<noteq> 0 \<Longrightarrow> readable m (slen - 1)"
  by (auto simp: readable_def)

lemma not_readable_Nil [simp]: "\<not> readable [] slen"
  by (simp add: readable_def)

lemma write_loop_source:
  "readable m slen \<Longrightarrow> write_loop f m slen =
    Some (concat (map (\<lambda>c. fst (f c)) (esc_source m slen)), sum_list (map (\<lambda>c. fst (snd (f c))) (esc_source m slen)),
      list_ex (\<lambda>c. snd (snd (f c))) (esc_source m slen))"
proof (induction f m slen rule: write_loop.induct)
  case (2 f c m slen)
  then show ?case by (cases "c = 0 \<or> slen = 0") (auto simp: source_stop source_Cons split_beta dest: readable_Cons)
qed simp

lemma count_loop_source:
  "readable m slen \<Longrightarrow> count_loop f m slen =
    Some (sum_list (map (\<lambda>c. fst (f c)) (esc_source m slen)), list_ex (\<lambda>c. snd (f c)) (esc_source m slen))"
proof (induction f m slen rule: count_loop.induct)
  case (2 f c m slen)
  then show ?case by (cases "c = 0 \<or> slen = 0") (auto simp: source_stop source_Cons split_beta dest: readable_Cons)
qed simp

text \<open>The contract of the two bodies: the second counts what the first writes.\<close>

locale two_pass =
  fixes w :: "byte \<Rightarrow> byte list \<times> nat \<times> bool" and k :: "byte \<Rightarrow> nat \<times> bool"
  assumes counts: "k c = snd (w c)" and exact: "fst (snd (w c)) = length (fst (w c))"
begin

definition text_of :: "byte list \<Rightarrow> byte list" where
  "text_of s = concat (map (\<lambda>c. fst (w c)) s)"

definition found_in :: "byte list \<Rightarrow> bool" where
  "found_in s = list_ex (\<lambda>c. snd (snd (w c))) s"

lemma sizes: "sum_list (map (\<lambda>c. fst (snd (w c))) s) = length (text_of s)" "sum_list (map (\<lambda>c. fst (k c)) s) = length (text_of s)"
  by (simp_all add: text_of_def exact counts length_concat o_def)

lemma passes:
  assumes "readable m slen"
  shows "escape_with w k True (Some m) slen =
      Some (found_status (found_in (esc_source m slen)), text_of (esc_source m slen) @ [0], Some (Suc (length (text_of (esc_source m slen)))))"
    and "escape_with w k False (Some m) slen =
      Some (found_status (found_in (esc_source m slen)), [], Some (Suc (length (text_of (esc_source m slen)))))"
  using write_loop_source [OF assms, of w] count_loop_source [OF assms, of k]
  by (simp_all add: escape_with_def sizes text_of_def [symmetric] found_in_def counts)

lemma pooled:
  assumes "cstr s"
  shows "pescape (\<lambda>dest. escape_with w k dest (Some (s @ [0])) APR_ESCAPE_STRING) =
    Some (if found_in s then Allocated (Suc (length (text_of s))) (text_of s @ [0]) else Argument)"
  using assms by (simp add: pescape_def passes found_status_def)

lemma two_passes:
  assumes "readable m slen"
  shows "\<exists>rv out. escape_with w k True (Some m) slen = Some (rv, out, Some (length out)) \<and>
    escape_with w k False (Some m) slen = Some (rv, [], Some (length out))"
  using passes [OF assms] by auto

end

interpretation shell: two_pass shell_write shell_count
  by unfold_locales (auto simp: shell_write_def shell_count_def)

interpretation segment: two_pass segment_write segment_count
  by unfold_locales (auto simp: segment_write_def segment_count_def c2x_def hex_digits_def)

interpretation path: two_pass path_write path_count
  by unfold_locales (auto simp: path_write_def path_count_def c2x_def hex_digits_def)

interpretation urlencoded: two_pass urlencoded_write urlencoded_count
  by unfold_locales (auto simp: urlencoded_write_def urlencoded_count_def c2x_def hex_digits_def)

interpretation entity: two_pass "entity_write toasc" "entity_count toasc" for toasc
  by unfold_locales (auto simp: entity_write_def entity_count_def apr_snprintf_def)

interpretation echo: two_pass "echo_write quote" "echo_count quote" for quote
  by unfold_locales (auto simp: echo_write_def echo_count_def c2x_def hex_digits_def split: option.splits)

text \<open>The paths, with the \<open>./\<close> before a colon, and the LDAP loop, which does not stop at a NUL.\<close>

lemma strchr_returns: "0 \<in> set m \<Longrightarrow> \<exists>r. strchr m c = Some r"
  by (induction m) auto

lemma escape_path_passes:
  assumes "readable m slen"
  shows "\<exists>rv out. apr_escape_path True (Some m) slen partial = Some (rv, out, Some (length out)) \<and>
    apr_escape_path False (Some m) slen partial = Some (rv, [], Some (length out))"
proof -
  obtain a b where "strchr m 58 = Some a" "strchr m 47 = Some b" using strchr_returns assms unfolding readable_def by blast
  then show ?thesis using path.two_passes [OF assms] by (auto simp: apr_escape_path_def)
qed

lemma ldap_loops:
  "(if slen < 0 then 0 \<in> set m else nat slen < length m) \<Longrightarrow>
    \<exists>out found. ldap_write flags m slen = Some (out, length out, found) \<and> ldap_count flags m slen = Some (length out, found)"
proof (induction m arbitrary: slen)
  case (Cons c m)
  show ?case
  proof (cases "c \<noteq> 0 \<and> slen \<noteq> 0 \<or> 0 < slen")
    case True
    then have "if slen - 1 < 0 then 0 \<in> set m else nat (slen - 1) < length m" using Cons.prems by (auto split: if_splits)
    then obtain out found where "ldap_write flags m (slen - 1) = Some (out, length out, found)" "ldap_count flags m (slen - 1) = Some (length out, found)"
      using Cons.IH by blast
    then show ?thesis using True by (auto simp: c2x_def hex_digits_def)
  qed auto
qed (simp split: if_splits)

lemma escape_ldap_passes:
  assumes "readable m slen"
  shows "\<exists>rv out. apr_escape_ldap True (Some m) slen flags = Some (rv, out, Some (length out)) \<and>
    apr_escape_ldap False (Some m) slen flags = Some (rv, [], Some (length out))"
proof -
  obtain out found where "ldap_write flags m slen = Some (out, length out, found)" "ldap_count flags m slen = Some (length out, found)"
    using ldap_loops [of slen m flags] assms unfolding readable_def by (metis (full_types))
  then show ?thesis by (simp add: apr_escape_ldap_def)
qed

section \<open>URLs\<close>

text \<open>The bytes that may stand for a byte in an escaped URL.\<close>

definition url_code :: "bool \<Rightarrow> byte \<Rightarrow> byte list \<Rightarrow> bool" where
  "url_code pl c u \<longleftrightarrow> c \<noteq> 0 \<and> (u = [c] \<and> c \<noteq> 37 \<and> \<not> (pl \<and> c = 43) \<or> u = c2x c 37 \<or> pl \<and> c = 32 \<and> u = [43])"

lemma hex_digits_x2c:
  "apr_isxdigit (hd (hex_digits c))" "apr_isxdigit (hex_digits c ! 1)" "x2c (hd (hex_digits c)) (hex_digits c ! 1) = c"
proof -
  have "apr_isxdigit (hd (hex_digits c)) \<and> apr_isxdigit (hex_digits c ! 1) \<and> x2c (hd (hex_digits c)) (hex_digits c ! 1) = c"
    by (rule byte_all [where P = "\<lambda>c. apr_isxdigit (hd (hex_digits c)) \<and> apr_isxdigit (hex_digits c ! 1) \<and>
      x2c (hd (hex_digits c)) (hex_digits c ! 1) = c"]) code_simp
  then show "apr_isxdigit (hd (hex_digits c))" "apr_isxdigit (hex_digits c ! 1)" "x2c (hd (hex_digits c)) (hex_digits c ! 1) = c" by simp_all
qed

lemma escape_at_hex: "escape_at (hex_digits c @ m) = Some (Some (hd (hex_digits c), hex_digits c ! 1))"
  using hex_digits_x2c [of c] by (simp add: escape_at_def hex_digits_def)

lemma unescape_write_negative:
  "slen < 0 \<Longrightarrow> sl < 0 \<Longrightarrow> unescape_write forbid reserved pl m slen = unescape_write forbid reserved pl m sl"
proof (induction "length m" arbitrary: m slen sl rule: less_induct)
  case less
  show ?case
  proof (cases m)
    case (Cons c s)
    have eq: "unescape_write forbid reserved pl s' (slen - 1) = unescape_write forbid reserved pl s' (sl - 1)"
      "unescape_write forbid reserved pl s' (slen - 3) = unescape_write forbid reserved pl s' (sl - 3)" if "length s' < length m" for s'
      using less.prems by (auto intro!: less.hyps [OF that])
    have "unescape_write forbid reserved pl s (slen - 1) = unescape_write forbid reserved pl s (sl - 1)"
      "unescape_write forbid reserved pl (drop 2 s) (slen - 1) = unescape_write forbid reserved pl (drop 2 s) (sl - 1)"
      "unescape_write forbid reserved pl (drop 2 s) (slen - 3) = unescape_write forbid reserved pl (drop 2 s) (sl - 3)"
      by (rule eq; simp add: Cons)+
    moreover have "(slen = 0) = False" "(sl = 0) = False" using less.prems by simp_all
    ultimately show ?thesis by (simp only: Cons unescape_write.simps)
  qed simp
qed

text \<open>For a terminated source the passes agree.\<close>

definition agree :: "(nat \<times> 'f) option \<Rightarrow> (byte list \<times> nat \<times> 'f) option \<Rightarrow> bool" where
  "agree k w \<longleftrightarrow> k = None \<and> w = None \<or> (\<exists>out flags. k = Some (length out, flags) \<and> w = Some (out, length out, flags))"

lemma agree_bind:
  assumes "agree k w" "\<And>out flags. agree (f (length out, flags)) (g (out, length out, flags))"
  shows "agree (Option.bind k f) (Option.bind w g)"
  using assms(1) unfolding agree_def [of k w] by (elim disjE exE conjE) (simp_all add: assms(2) agree_def [of None])

lemma agree_Some: "agree (Some (n, flags)) (Some (out, n', flags')) \<longleftrightarrow> n = length out \<and> n' = length out \<and> flags = flags'"
  by (auto simp: agree_def)

lemma agree_None [simp]: "agree None None"
  by (simp add: agree_def)

lemma unescape_passes:
  "slen < 0 \<Longrightarrow> agree (unescape_count forbid reserved pl m slen) (unescape_write forbid reserved pl m slen)"
proof (induction "length m" arbitrary: m slen rule: less_induct)
  case less
  show ?case
  proof (cases m)
    case (Cons c s)
    have "agree (unescape_count forbid reserved pl s (slen - 1)) (unescape_write forbid reserved pl s (slen - 1))"
      "agree (unescape_count forbid reserved pl (drop 2 s) (slen - 3)) (unescape_write forbid reserved pl (drop 2 s) (slen - 3))"
      using less.prems Cons by (auto intro!: less.hyps)
    moreover have "unescape_write forbid reserved pl (drop 2 s) (slen - 1) = unescape_write forbid reserved pl (drop 2 s) (slen - 3)"
      by (rule unescape_write_negative) (use less.prems in auto)
    ultimately show ?thesis unfolding Cons unescape_write.simps unescape_count.simps
      by (cases "escape_at s") (auto simp: agree_Some Let_def split: option.split intro!: agree_bind)
  qed simp
qed

text \<open>Decoding the codes of the bytes of a string gives the string.\<close>

lemma unescape_write_codes:
  "list_all2 (url_code pl) s us \<Longrightarrow> slen < 0 \<Longrightarrow>
    unescape_write None None pl (concat us @ [0]) slen = Some (s, length s, us \<noteq> map (\<lambda>c. [c]) s, False, False)"
proof (induction s us arbitrary: slen rule: list_all2_induct)
  case (Cons c s u us)
  let ?m = "concat us @ [0]"
  have IH: "unescape_write None None pl ?m (slen - k) = Some (s, length s, us \<noteq> map (\<lambda>c. [c]) s, False, False)" if "0 \<le> k" for k
    using Cons.IH Cons.prems that by simp
  consider "u = [c]" "c \<noteq> 37" "\<not> (pl \<and> c = 43)" | "u = c2x c 37" | "pl" "c = 32" "u = [43]"
    using Cons.hyps(1) by (auto simp: url_code_def)
  then have "unescape_write None None pl (u @ ?m) slen = Some (c # s, Suc (length s), u # us \<noteq> [c] # map (\<lambda>c. [c]) s, False, False)"
  proof cases
    case 1
    then show ?thesis using IH [of 1] Cons by (auto simp: url_code_def)
  next
    case 2
    have d: "drop 2 (hex_digits c @ ?m) = ?m" by (simp add: hex_digits_def)
    have "hex_digits c \<noteq> []" by (simp add: hex_digits_def)
    moreover have "c \<noteq> 0" using Cons.hyps(1) by (simp add: url_code_def)
    ultimately show ?thesis using IH [of 3] Cons.prems hex_digits_x2c(3) [of c] unfolding 2 c2x_def append_Cons unescape_write.simps escape_at_hex d
      by (simp add: among_def)
  next
    case 3
    then show ?thesis using IH [of 1] Cons.prems by simp
  qed
  then show ?case by simp
qed simp


text \<open>What a pointer returned by a function with a pool points to.\<close>

fun contents :: "byte list \<Rightarrow> pescaped \<Rightarrow> byte list" where
  "contents m Argument = m"
| "contents m Null_Pointer = []"
| "contents m (Allocated n out) = (if n = length out then out else [])"

lemma punescape_codes:
  assumes "list_all2 (url_code pl) s us"
  shows "\<exists>r. apr_punescape_url (Some (concat us @ [0])) None None pl = Some r \<and> contents (concat us @ [0]) r = s @ [0]"
proof -
  have w: "unescape_write None None pl (concat us @ [0]) (-1) = Some (s, length s, us \<noteq> map (\<lambda>c. [c]) s, False, False)"
    using unescape_write_codes [OF assms, of "-1"] by simp
  moreover have "unescape_count None None pl (concat us @ [0]) (-1) = Some (length s, us \<noteq> map (\<lambda>c. [c]) s, False, False)"
    using unescape_passes [of "-1" None None pl "concat us @ [0]"] w by (auto simp: agree_def)
  ultimately show ?thesis
    by (cases "us = map (\<lambda>c. [c]) s")
      (auto simp: apr_punescape_url_def pescape_def apr_unescape_url_def unescape_status_def found_status_def APR_ESCAPE_STRING_def)
qed

text \<open>An escaping function whose codes can be decoded, followed by the decoding.\<close>

lemma url_round_trip:
  assumes "cstr s" "\<And>c. c \<noteq> 0 \<Longrightarrow> url_code pl c (fst (w c))" "\<And>c. \<not> snd (snd (w c)) \<Longrightarrow> fst (w c) = [c]"
    and "esc = Some (if list_ex (\<lambda>c. snd (snd (w c))) s
      then Allocated (Suc (length (concat (map (\<lambda>c. fst (w c)) s)))) (concat (map (\<lambda>c. fst (w c)) s) @ [0]) else Argument)"
  shows "\<exists>r r'. esc = Some r \<and> apr_punescape_url (Some (contents (s @ [0]) r)) None None pl = Some r' \<and>
    contents (contents (s @ [0]) r) r' = s @ [0]"
proof -
  let ?us = "map (\<lambda>c. fst (w c)) s"
  have "concat ?us = s" if "\<not> list_ex (\<lambda>c. snd (snd (w c))) s" using that assms(3) by (induction s) auto
  then have "\<exists>r. esc = Some r \<and> contents (s @ [0]) r = concat ?us @ [0]" using assms(4) by auto
  moreover have "list_all2 (url_code pl) s ?us"
    using assms(1) by (auto simp: list_all2_map2 list.rel_refl_strong cstr_def intro!: list.rel_refl_strong assms(2))
  ultimately show ?thesis using punescape_codes [of pl s ?us] by auto
qed

text \<open>The characters of the classes.\<close>

lemma flag_and: "(if b then x else 0) AND f = (if b then x AND f else 0)" for x f :: byte
  by simp

lemma test_classes:
  "TEST_CHAR c T_ESCAPE_SHELL_CMD \<longleftrightarrow>
     c \<noteq> 0 \<and> in_str c [38, 59, 96, 39, 34, 124, 42, 63, 126, 60, 62, 94, 40, 41, 91, 93, 123, 125, 36, 92, 10]"
  "TEST_CHAR c T_ESCAPE_PATH_SEGMENT \<longleftrightarrow>
     \<not> isalnum c \<and> \<not> in_str c [36, 45, 95, 46, 43, 33, 42, 39, 40, 41, 44, 58, 64, 38, 61, 126]"
  "TEST_CHAR c T_OS_ESCAPE_PATH \<longleftrightarrow>
     \<not> isalnum c \<and> \<not> in_str c [36, 45, 95, 46, 43, 33, 42, 39, 40, 41, 44, 58, 64, 38, 61, 47, 126]"
  "TEST_CHAR c T_ESCAPE_URLENCODED \<longleftrightarrow> \<not> isalnum c \<and> \<not> in_str c [46, 45, 42, 95, 32]"
  "TEST_CHAR c T_ESCAPE_ECHO \<longleftrightarrow> c \<noteq> 0 \<and> (\<not> isprint c \<or> c = 34 \<or> c = 92 \<or> iscntrl c)"
  "TEST_CHAR c T_ESCAPE_XML \<longleftrightarrow> in_str c [60, 62, 38, 34]"
proof -
  note defs = TEST_CHAR_def test_char_table_def Let_def bit.conj_disj_distrib2 flag_and
    T_ESCAPE_SHELL_CMD_def T_ESCAPE_PATH_SEGMENT_def T_OS_ESCAPE_PATH_def T_ESCAPE_ECHO_def T_ESCAPE_URLENCODED_def
    T_ESCAPE_XML_def T_ESCAPE_LDAP_DN_def T_ESCAPE_LDAP_FILTER_def
  show "TEST_CHAR c T_ESCAPE_SHELL_CMD \<longleftrightarrow>
     c \<noteq> 0 \<and> in_str c [38, 59, 96, 39, 34, 124, 42, 63, 126, 60, 62, 94, 40, 41, 91, 93, 123, 125, 36, 92, 10]"
    unfolding defs by (simp cong: if_cong)
  show "TEST_CHAR c T_ESCAPE_PATH_SEGMENT \<longleftrightarrow>
     \<not> isalnum c \<and> \<not> in_str c [36, 45, 95, 46, 43, 33, 42, 39, 40, 41, 44, 58, 64, 38, 61, 126]"
    unfolding defs by (simp cong: if_cong)
  show "TEST_CHAR c T_OS_ESCAPE_PATH \<longleftrightarrow>
     \<not> isalnum c \<and> \<not> in_str c [36, 45, 95, 46, 43, 33, 42, 39, 40, 41, 44, 58, 64, 38, 61, 47, 126]"
    unfolding defs by (simp cong: if_cong)
  show "TEST_CHAR c T_ESCAPE_URLENCODED \<longleftrightarrow> \<not> isalnum c \<and> \<not> in_str c [46, 45, 42, 95, 32]"
    unfolding defs by (simp cong: if_cong)
  show "TEST_CHAR c T_ESCAPE_ECHO \<longleftrightarrow> c \<noteq> 0 \<and> (\<not> isprint c \<or> c = 34 \<or> c = 92 \<or> iscntrl c)"
    unfolding defs by (simp cong: if_cong)
  show "TEST_CHAR c T_ESCAPE_XML \<longleftrightarrow> in_str c [60, 62, 38, 34]"
    unfolding defs by (simp cong: if_cong)
qed

lemma segment_codes: "c \<noteq> 0 \<Longrightarrow> url_code False c (fst (segment_write c))" "\<not> snd (snd (segment_write c)) \<Longrightarrow> fst (segment_write c) = [c]"
  by (auto simp: segment_write_def url_code_def test_classes isalnum_def in_str_def)

lemma path_codes: "c \<noteq> 0 \<Longrightarrow> url_code False c (fst (path_write c))" "\<not> snd (snd (path_write c)) \<Longrightarrow> fst (path_write c) = [c]"
  by (auto simp: path_write_def url_code_def test_classes isalnum_def in_str_def)

lemma urlencoded_codes:
  "c \<noteq> 0 \<Longrightarrow> url_code True c (fst (urlencoded_write c))" "\<not> snd (snd (urlencoded_write c)) \<Longrightarrow> fst (urlencoded_write c) = [c]"
  by (auto simp: urlencoded_write_def url_code_def test_classes isalnum_def in_str_def)

section \<open>Entities\<close>

lemma entity_count_step_map:
  "entity_count_step s slen = map_option (\<lambda>(w, b, adv, less). (w \<noteq> None, b, adv, less)) (entity_step s slen)"
  unfolding entity_count_step_def entity_step_def
  by (cases "ch s 0"; cases "entity_end s slen 1") (auto simp: Let_def split: option.splits prod.splits bind_splits)

lemma unentity_passes: "agree (unentity_count m slen) (unentity_write m slen)"
proof (induction m slen rule: unentity_write.induct)
  case (1 s slen)
  show ?case
  proof (cases "ch s 0")
    case None
    then show ?thesis by (simp add: unentity_count.simps [of s] unentity_write.simps [of s])
  next
    case (Some c)
    show ?thesis
    proof (cases "entity_step s slen")
      case step: None
      then show ?thesis using Some by (simp add: unentity_count.simps [of s] unentity_write.simps [of s] entity_count_step_map agree_Some)
    next
      case step: (Some r)
      obtain w b adv less where r: "r = (w, b, adv, less)" by (cases r)
      show ?thesis
      proof (cases "c = 0 \<or> slen = 0")
        case True
        then show ?thesis using Some by (simp add: unentity_count.simps [of s] unentity_write.simps [of s] agree_Some)
      next
        case False
        then have "agree (unentity_count (drop (adv + 1) s) (slen - int less - 1)) (unentity_write (drop (adv + 1) s) (slen - int less - 1))"
          using 1 [OF Some] step r by simp
        then show ?thesis using Some step r False
          by (cases w) (auto simp: unentity_count.simps [of s] unentity_write.simps [of s] entity_count_step_map agree_Some intro!: agree_bind)
      qed
    qed
  qed
qed


text \<open>The entity \<open>&name;\<close> at the start of a text.\<close>

lemma entity_end_skip:
  "59 \<notin> set u \<Longrightarrow> 0 \<notin> set u \<Longrightarrow> slen < 0 \<Longrightarrow> entity_end (v @ u @ 59 # m) slen (length v) = Some (length v + length u)"
proof (induction u arbitrary: v)
  case Nil
  then show ?case by (simp add: entity_end.simps [of _ _ "length v"] ch_def nth_append)
next
  case (Cons c u)
  have "entity_end (v @ (c # u) @ 59 # m) slen (length v) = entity_end ((v @ [c]) @ u @ 59 # m) slen (length (v @ [c]))"
    using Cons.prems by (subst entity_end.simps) (auto simp: ch_def nth_append)
  also have "\<dots> = Some (length (v @ [c]) + length u)" using Cons.prems by (intro Cons.IH) auto
  finally show ?case by simp
qed

lemma entity_step_name:
  assumes "cstr u" "59 \<notin> set u" "hd u \<noteq> 35" "length u \<le> MAXENTLEN" "u \<noteq> []" "slen < 0"
    and "entlist (length u) = Some ents" "map_of ents u = Some c"
  shows "entity_step (38 # u @ 59 # m) slen = Some (Some c, True, length u + 1, length u + 1)"
proof -
  have "entity_end (38 # u @ 59 # m) slen 1 = Some (1 + length u)"
    using entity_end_skip [of u slen "[38]" m] assms(1,2,6) by (simp add: cstr_def)
  moreover have "ch (38 # u @ 59 # m) (1 + length u) = Some 59" by (simp add: ch_def nth_append)
  moreover have "(38 # u @ 59 # m) ! 1 \<noteq> 35" using assms(3,5) by (cases u) auto
  ultimately show ?thesis using assms(4-) by (simp add: entity_step_def Let_def)
qed

lemma entity_names:
  "map_option (\<lambda>e. map_of e [108, 116]) (entlist (length [108, 116 :: byte])) = Some (Some 60)"
  "map_option (\<lambda>e. map_of e [103, 116]) (entlist (length [103, 116 :: byte])) = Some (Some 62)"
  "map_option (\<lambda>e. map_of e [97, 109, 112]) (entlist (length [97, 109, 112 :: byte])) = Some (Some 38)"
  "map_option (\<lambda>e. map_of e [113, 117, 111, 116]) (entlist (length [113, 117, 111, 116 :: byte])) = Some (Some 34)"
  by code_simp+

lemma unentity_name:
  assumes "cstr u" "59 \<notin> set u" "hd u \<noteq> 35" "length u \<le> MAXENTLEN" "u \<noteq> []" "slen < 0"
    and "map_option (\<lambda>e. map_of e u) (entlist (length u)) = Some (Some c)"
    and "\<And>sl. sl < 0 \<Longrightarrow> unentity_write m sl = Some (out, n, found)"
  shows "unentity_write (38 # u @ 59 # m) slen = Some (c # out, Suc n, True)"
proof -
  obtain ents where "entlist (length u) = Some ents" "map_of ents u = Some c" using assms(7) by auto
  from entity_step_name [OF assms(1-6) this] show ?thesis using assms(6,8)
    by (simp add: unentity_write.simps [of "38 # _"])
qed

lemma unentity_text:
  "cstr s \<Longrightarrow> slen < 0 \<Longrightarrow>
    unentity_write (concat (map (\<lambda>c. fst (entity_write False c)) s) @ [0]) slen =
      Some (s, length s, list_ex (\<lambda>c. snd (snd (entity_write False c))) s)"
proof (induction s arbitrary: slen)
  case Nil
  then show ?case by (simp add: unentity_write.simps)
next
  case (Cons c s)
  let ?m = "concat (map (\<lambda>c. fst (entity_write False c)) s) @ [0]"
  have IH: "\<And>sl. sl < 0 \<Longrightarrow> unentity_write ?m sl = Some (s, length s, list_ex (\<lambda>c. snd (snd (entity_write False c))) s)"
    using Cons by simp
  note name = unentity_name [OF _ _ _ _ _ Cons.prems(2) _ IH]
  have w: "entity_write False 60 = ([38, 108, 116, 59], 4, True)" "entity_write False 62 = ([38, 103, 116, 59], 4, True)"
    "entity_write False 38 = ([38, 97, 109, 112, 59], 5, True)" "entity_write False 34 = ([38, 113, 117, 111, 116, 59], 6, True)"
    by (simp_all add: entity_write_def test_classes in_str_def)
  consider "c = 60" | "c = 62" | "c = 38" | "c = 34" | "c \<notin> {60, 62, 38, 34}" by blast
  then show ?case
  proof cases
    case 1
    then show ?thesis using name [of "[108, 116]" 60, OF _ _ _ _ _ entity_names(1)]
      by (simp add: w MAXENTLEN_def)
  next
    case 2
    then show ?thesis using name [of "[103, 116]" 62, OF _ _ _ _ _ entity_names(2)]
      by (simp add: w MAXENTLEN_def)
  next
    case 3
    then show ?thesis using name [of "[97, 109, 112]" 38, OF _ _ _ _ _ entity_names(3)]
      by (simp add: w MAXENTLEN_def)
  next
    case 4
    then show ?thesis using name [of "[113, 117, 111, 116]" 34, OF _ _ _ _ _ entity_names(4)]
      by (simp add: w MAXENTLEN_def)
  next
    case 5
    then have "entity_write False c = ([c], 1, False)" using Cons.prems by (simp add: entity_write_def test_classes in_str_def)
    then show ?thesis using 5 Cons.prems IH [of "slen - 1"] by (simp add: unentity_write.simps [of "c # _"] entity_step_def)
  qed
qed

section \<open>Hexadecimal text\<close>

lemma hex_value_digits: "hex_value (hd (hex_digits c)) = Some (drop_bit 4 c)" "hex_value (hex_digits c ! 1) = Some (c AND 0xf)"
    "hd (hex_digits c) \<noteq> 0" "hex_digits c ! 1 \<noteq> 0" "hd (hex_digits c) \<noteq> 58"
    "push_bit 4 (drop_bit 4 c) OR (c AND 0xf) = c"
proof -
  have "hex_value (hd (hex_digits c)) = Some (drop_bit 4 c) \<and> hex_value (hex_digits c ! 1) = Some (c AND 0xf) \<and>
    hd (hex_digits c) \<noteq> 0 \<and> hex_digits c ! 1 \<noteq> 0 \<and> hd (hex_digits c) \<noteq> 58 \<and> push_bit 4 (drop_bit 4 c) OR (c AND 0xf) = c"
    by (rule byte_all [where P = "\<lambda>c. hex_value (hd (hex_digits c)) = Some (drop_bit 4 c) \<and> hex_value (hex_digits c ! 1) = Some (c AND 0xf) \<and>
      hd (hex_digits c) \<noteq> 0 \<and> hex_digits c ! 1 \<noteq> 0 \<and> hd (hex_digits c) \<noteq> 58 \<and> push_bit 4 (drop_bit 4 c) OR (c AND 0xf) = c"]) code_simp
  then show "hex_value (hd (hex_digits c)) = Some (drop_bit 4 c)" "hex_value (hex_digits c ! 1) = Some (c AND 0xf)"
    "hd (hex_digits c) \<noteq> 0" "hex_digits c ! 1 \<noteq> 0" "hd (hex_digits c) \<noteq> 58"
    "push_bit 4 (drop_bit 4 c) OR (c AND 0xf) = c" by blast+
qed

lemma unhex_byte:
  assumes "slen < 0"
  shows "unhex_write colon (hex_digits c @ m) slen False u =
    map_option (\<lambda>(good, out, n). (good, c # out, Suc n)) (unhex_write colon m (slen - 2) False c)"
proof -
  obtain a b where ab: "hex_digits c = [a, b]" by (simp add: hex_digits_def)
  have "hex_value a = Some (drop_bit 4 c)" "hex_value b = Some (c AND 0xf)" "a \<noteq> 0" "b \<noteq> 0" "a \<noteq> 58"
    using hex_value_digits [of c] unfolding ab by simp_all
  then show ?thesis using assms hex_value_digits(6) [of c] unfolding ab
    by (cases "unhex_write colon m (slen - 2) False c") (auto simp: Let_def)
qed


text \<open>The text of a list of bytes after its first one.\<close>

definition hex_more :: "bool \<Rightarrow> byte list \<Rightarrow> byte list" where
  "hex_more colon bs = concat (map (\<lambda>b. (if colon then [58] else []) @ hex_digits b) bs)"

lemma hex_text:
  "concat (map (\<lambda>size. (if colon \<and> size \<noteq> 0 then [58] else []) @ hex_digits ((b # bs) ! size)) [0..<length (b # bs)]) =
    hex_digits b @ hex_more colon bs"
proof -
  have "map (\<lambda>i. (if colon then [58] else []) @ hex_digits (bs ! i)) [0..<length bs] = map (\<lambda>b. (if colon then [58] else []) @ hex_digits b) bs"
    by (rule nth_equalityI) auto
  then show ?thesis unfolding hex_more_def length_Cons upt_conv_Cons [OF zero_less_Suc] map_Suc_upt [symmetric]
    by (simp add: o_def)
qed

lemma unhex_write_more:
  "slen < 0 \<Longrightarrow> unhex_write colon (hex_more colon bs @ [0]) slen False u = Some (True, bs, length bs)"
proof (induction bs arbitrary: slen u)
  case Nil
  then show ?case by (simp add: hex_more_def)
next
  case (Cons b bs)
  have m: "hex_more colon (b # bs) @ [0] = (if colon then [58] else []) @ hex_digits b @ hex_more colon bs @ [0]"
    by (simp add: hex_more_def)
  have "unhex_write colon (hex_digits b @ hex_more colon bs @ [0]) sl False v = Some (True, b # bs, Suc (length bs))" if "sl < 0" for sl v
    using unhex_byte [OF that, of colon b "hex_more colon bs @ [0]" v] Cons.IH [of "sl - 2" b] that by simp
  then show ?case using Cons.prems unfolding m by (cases colon) simp_all
qed

lemma unhex_passes:
  "slen < 0 \<Longrightarrow> unhex_write colon m slen flip u = Some (good, out, n) \<Longrightarrow>
    unhex_count colon m slen flip = Some (good, n) \<and> n \<le> length out \<and> length out \<le> n + 1"
proof (induction m arbitrary: slen flip u out n)
  case (Cons c s)
  note IH = Cons.IH [of "slen - 1"]
  consider "c = 0" | "c \<noteq> 0" "colon" "c = 58" "\<not> flip" | "c \<noteq> 0" "\<not> (colon \<and> c = 58 \<and> \<not> flip)" "hex_value c = None"
    | v where "c \<noteq> 0" "\<not> (colon \<and> c = 58 \<and> \<not> flip)" "hex_value c = Some v" by fastforce
  then show ?case
  proof cases
    case 1
    then show ?thesis using Cons.prems by (auto simp: Let_def)
  next
    case 2
    then show ?thesis using Cons.prems IH [of False 0] by simp
  next
    case 3
    then show ?thesis using Cons.prems by (auto simp: Let_def)
  next
    case 4
    show ?thesis
    proof (cases flip)
      case True
      then show ?thesis using 4 Cons.prems IH [of False "u OR v"] by (auto simp: Let_def bind_eq_Some_conv)
    next
      case False
      then show ?thesis using 4 Cons.prems IH [of True "push_bit 4 (0 OR v)"] by (auto simp: Let_def)
    qed
  qed
qed simp

lemma unhex_round_trip:
  assumes "bs \<noteq> []"
  shows "unhex_write colon (hex_digits (hd bs) @ hex_more colon (tl bs) @ [0]) (-1) False 0 = Some (True, bs, length bs)"
  using assms unhex_byte [of "-1" colon "hd bs" "hex_more colon (tl bs) @ [0]" 0] unhex_write_more [of "-3" colon "tl bs"]
  by (cases bs) simp_all

lemma escape_hex_text:
  assumes "bs \<noteq> []"
  shows "apr_escape_hex True (Some bs) (length bs) colon =
      Some (APR_SUCCESS, hex_digits (hd bs) @ hex_more colon (tl bs) @ [0], Some (if colon then length bs * 3 else length bs * 2 + 1))"
    "apr_escape_hex False (Some bs) (length bs) colon = Some (APR_SUCCESS, [], Some (if colon then length bs * 3 else length bs * 2 + 1))"
    "length (hex_digits (hd bs) @ hex_more colon (tl bs) @ [0]) = (if colon then length bs * 3 else length bs * 2 + 1)"
proof -
  obtain b cs where bs: "bs = b # cs" using assms by (cases bs) auto
  show "apr_escape_hex True (Some bs) (length bs) colon =
      Some (APR_SUCCESS, hex_digits (hd bs) @ hex_more colon (tl bs) @ [0], Some (if colon then length bs * 3 else length bs * 2 + 1))"
    by (simp only: bs apr_escape_hex_def option.case Let_def hex_text) simp
  show "apr_escape_hex False (Some bs) (length bs) colon = Some (APR_SUCCESS, [], Some (if colon then length bs * 3 else length bs * 2 + 1))"
    by (simp add: apr_escape_hex_def bs)
  have "length (hex_more colon cs) = (if colon then 3 * length cs else 2 * length cs)"
    by (induction cs) (auto simp: hex_more_def hex_digits_def)
  then show "length (hex_digits (hd bs) @ hex_more colon (tl bs) @ [0]) = (if colon then length bs * 3 else length bs * 2 + 1)"
    by (simp add: bs hex_digits_def)
qed

section \<open>Properties\<close>

text \<open>The two passes of \<open>apr_escape_hex\<close>, the empty source included.\<close>

lemma hex_text_length:
  "length (concat (map (\<lambda>size. (if colon \<and> size \<noteq> 0 then [58] else []) @ hex_digits (m ! size)) [0..<n])) =
    (if colon then n * 3 - 1 else n * 2)"
  by (induction n) (auto simp: hex_digits_def)

lemma escape_hex_passes:
  assumes "n \<le> length m"
  shows "\<exists>rv out. apr_escape_hex True (Some m) n colon = Some (rv, out, Some (length out)) \<and>
    apr_escape_hex False (Some m) n colon = Some (rv, [], Some (length out))"
  using assms hex_text_length [of colon m n] by (cases colon) (auto simp: apr_escape_hex_def Let_def)

text \<open>
  C28. Buffers of the size that an escaping function answers for a NULL destination are filled exactly: for
  shells, path segments, paths, forms, entities, logs and LDAP on every source that holds a NUL and has more than
  \<open>slen\<close> readable bytes, and for hexadecimal text on every source of at least the given number of bytes, the two
  passes give the same status and the same size, and the size is the number of bytes written, the NUL included.
\<close>

theorem apr_escape_passes:
  assumes "readable m slen" "n \<le> length bs"
  shows "list_all (\<lambda>escape. \<exists>rv out. escape True = Some (rv, out, Some (length out)) \<and> escape False = Some (rv, [], Some (length out)))
    [\<lambda>dest. apr_escape_shell dest (Some m) slen, \<lambda>dest. apr_escape_path_segment dest (Some m) slen,
     \<lambda>dest. apr_escape_path dest (Some m) slen partial, \<lambda>dest. apr_escape_urlencoded dest (Some m) slen,
     \<lambda>dest. apr_escape_entity dest (Some m) slen toasc, \<lambda>dest. apr_escape_echo dest (Some m) slen quote,
     \<lambda>dest. apr_escape_ldap dest (Some m) slen flags, \<lambda>dest. apr_escape_hex dest (Some bs) n colon]"
  using shell.two_passes segment.two_passes urlencoded.two_passes entity.two_passes [of _ _ toasc] echo.two_passes [of _ _ quote]
    escape_path_passes escape_ldap_passes escape_hex_passes [OF assms(2), of colon] assms(1)
  by (simp add: apr_escape_shell_def apr_escape_path_segment_def apr_escape_urlencoded_def apr_escape_entity_def apr_escape_echo_def)

theorem apr_escape_passes_witness:
  "(\<exists>rv out. apr_escape_echo True (Some [97, 10, 255, 0]) 3 True = Some (rv, out, Some (length out)) \<and>
    apr_escape_echo False (Some [97, 10, 255, 0]) 3 True = Some (rv, [], Some (length out))) \<and>
   (\<exists>rv out. apr_escape_hex True (Some [7, 255]) 1 True = Some (rv, out, Some (length out)) \<and>
    apr_escape_hex False (Some [7, 255]) 1 True = Some (rv, [], Some (length out)))"
  using apr_escape_passes [of "[97, 10, 255, 0]" 3 1 "[7, 255]" False True True 0 True] by (simp add: readable_def)

text \<open>
  C11. What the pool variants escape for URLs comes back from \<open>apr_punescape_url\<close>: path segments, partial paths, and
  form data with \<open>+\<close> for blanks. A returned pointer is the argument or a buffer that is filled exactly.
\<close>

theorem apr_url_round_trip:
  assumes "cstr s"
  shows "list_all (\<lambda>(escape, pl). \<exists>r r'. escape = Some r \<and>
        apr_punescape_url (Some (contents (s @ [0]) r)) None None pl = Some r' \<and> contents (contents (s @ [0]) r) r' = s @ [0])
      [(apr_pescape_path_segment (Some (s @ [0])), False), (apr_pescape_path (Some (s @ [0])) True, False),
       (apr_pescape_urlencoded (Some (s @ [0])), True)]"
proof -
  have path: "apr_pescape_path (Some (s @ [0])) True = pescape (\<lambda>dest. escape_with path_write path_count dest (Some (s @ [0])) APR_ESCAPE_STRING)"
    by (simp add: apr_pescape_path_def apr_escape_path_def case_prod_unfold)
  show ?thesis
    using url_round_trip [OF assms segment_codes segment.pooled [OF assms, unfolded segment.text_of_def segment.found_in_def]]
      url_round_trip [OF assms path_codes path.pooled [OF assms, unfolded path.text_of_def path.found_in_def]]
      url_round_trip [OF assms urlencoded_codes urlencoded.pooled [OF assms, unfolded urlencoded.text_of_def urlencoded.found_in_def]]
    by (simp add: apr_pescape_path_segment_def apr_escape_path_segment_def apr_pescape_urlencoded_def apr_escape_urlencoded_def path)
qed

theorem apr_url_round_trip_witness:
  "\<exists>r r'. apr_pescape_urlencoded (Some [97, 32, 37, 0]) = Some r \<and>
    apr_punescape_url (Some (contents [97, 32, 37, 0] r)) None None True = Some r' \<and>
    contents (contents [97, 32, 37, 0] r) r' = [97, 32, 37, 0]"
  using apr_url_round_trip [of "[97, 32, 37]"] by simp

text \<open>Below 128 the flag \<open>toasc\<close> makes no difference.\<close>

lemma entity_ascii:
  assumes "\<not> toasc \<or> (\<forall>c \<in> set s. c < 128)"
  shows "concat (map (\<lambda>c. fst (entity_write toasc c)) s) = concat (map (\<lambda>c. fst (entity_write False c)) s)"
    "list_ex (\<lambda>c. snd (snd (entity_write toasc c))) s = list_ex (\<lambda>c. snd (snd (entity_write False c))) s"
proof -
  have "entity_write toasc c = entity_write False c" if "c \<in> set s" for c
    using assms that by (auto simp: entity_write_def not_le)
  then show "concat (map (\<lambda>c. fst (entity_write toasc c)) s) = concat (map (\<lambda>c. fst (entity_write False c)) s)"
    "list_ex (\<lambda>c. snd (snd (entity_write toasc c))) s = list_ex (\<lambda>c. snd (snd (entity_write False c))) s"
    by (simp_all add: list_ex_iff cong: map_cong)
qed

text \<open>
  C29. Escaping \<open><\<close>, \<open>>\<close>, \<open>&\<close> and \<open>"\<close> as entities can be undone, without \<open>toasc\<close> for every string and with \<open>toasc\<close> for
  strings of ASCII characters; and a non-empty list of bytes written as hexadecimal text, with or without colons,
  comes back from \<open>apr_punescape_hex\<close> with its length. Non-ASCII characters under \<open>toasc\<close>, whose entities the code
  cuts off, are outside this claim.
\<close>

theorem apr_entity_hex_round_trip:
  assumes "cstr s" "\<not> toasc \<or> (\<forall>c \<in> set s. c < 128)" "bs \<noteq> []"
  shows "(\<exists>r r'. apr_pescape_entity (Some (s @ [0])) toasc = Some r \<and>
      apr_punescape_entity (Some (contents (s @ [0]) r)) = Some r' \<and> contents (contents (s @ [0]) r) r' = s @ [0]) \<and>
    (\<exists>r r'. apr_pescape_hex (Some bs) (length bs) colon = Some r \<and>
      apr_punescape_hex (Some (contents bs r)) colon = Some (r', Some (length bs)) \<and> contents (contents bs r) r' = bs)"
proof
  let ?t = "concat (map (\<lambda>c. fst (entity_write False c)) s)" and ?f = "list_ex (\<lambda>c. snd (snd (entity_write False c))) s"
  have esc: "apr_pescape_entity (Some (s @ [0])) toasc = Some (if ?f then Allocated (Suc (length ?t)) (?t @ [0]) else Argument)"
    using entity.pooled [OF assms(1), of toasc] unfolding entity.text_of_def entity.found_in_def entity_ascii [OF assms(2)]
    by (simp add: apr_pescape_entity_def apr_escape_entity_def)
  have w: "unentity_write (?t @ [0]) (-1) = Some (s, length s, ?f)" by (rule unentity_text [OF assms(1)]) simp
  then have k: "unentity_count (?t @ [0]) (-1) = Some (length s, ?f)"
    using unentity_passes [of "?t @ [0]" "-1"] by (auto simp: agree_def)
  have "\<not> ?f \<Longrightarrow> ?t = s"
    by (induction s) (auto simp: entity_write_def split: if_splits prod.splits)
  then show "\<exists>r r'. apr_pescape_entity (Some (s @ [0])) toasc = Some r \<and>
      apr_punescape_entity (Some (contents (s @ [0]) r)) = Some r' \<and> contents (contents (s @ [0]) r) r' = s @ [0]"
    using esc w k
    by (cases ?f) (auto simp: apr_punescape_entity_def pescape_def apr_unescape_entity_def found_status_def APR_ESCAPE_STRING_def)
next
  let ?t = "hex_digits (hd bs) @ hex_more colon (tl bs) @ [0]"
  have "apr_pescape_hex (Some bs) (length bs) colon = Some (Allocated (length ?t) ?t)"
    using escape_hex_text [OF assms(3), of colon] by (simp add: apr_pescape_hex_def pescape_def)
  moreover have "apr_punescape_hex (Some ?t) colon = Some (Allocated (length bs) bs, Some (length bs))"
    using unhex_round_trip [OF assms(3), of colon] unhex_passes [OF _ unhex_round_trip [OF assms(3)], of colon]
    by (simp add: apr_punescape_hex_def apr_unescape_hex_def APR_ESCAPE_STRING_def)
  ultimately show "\<exists>r r'. apr_pescape_hex (Some bs) (length bs) colon = Some r \<and>
      apr_punescape_hex (Some (contents bs r)) colon = Some (r', Some (length bs)) \<and> contents (contents bs r) r' = bs"
    by simp
qed

theorem apr_entity_hex_round_trip_witness:
  "(\<exists>r r'. apr_pescape_entity (Some [60, 97, 0]) True = Some r \<and>
      apr_punescape_entity (Some (contents [60, 97, 0] r)) = Some r' \<and> contents (contents [60, 97, 0] r) r' = [60, 97, 0]) \<and>
   (\<exists>r r'. apr_pescape_hex (Some [0, 255]) (Suc (Suc 0)) True = Some r \<and>
      apr_punescape_hex (Some (contents [0, 255] r)) True = Some (r', Some (Suc (Suc 0))) \<and> contents (contents [0, 255] r) r' = [0, 255])"
  using apr_entity_hex_round_trip [of "[60, 97]" True "[0, 255]" True] by simp

section \<open>Faults\<close>

text \<open>An odd number of digits: the last one is stored past the allocation.\<close>

lemma apr_punescape_hex_overflows: "apr_punescape_hex (Some [97, 0]) False = Some (Allocated 0 [0xa0], Some 0)"
  by code_simp

text \<open>\<open>apr_snprintf\<close> with room for six bytes cuts off the semicolon, and the entity is not read back.\<close>

lemma apr_pescape_entity_no_semicolon:
  "apr_pescape_entity (Some [255, 0]) True = Some (Allocated 6 [38, 35, 50, 53, 53, 0])"
  "apr_punescape_entity (Some [38, 35, 50, 53, 53, 0]) = Some Argument"
  by code_simp+

text \<open>The pass that writes does not count the two digits of a reserved character and writes more than was asked for.\<close>

lemma apr_unescape_url_reserved_overflows:
  "apr_unescape_url False (Some [37, 50, 102, 97, 98, 0]) 3 None (Some [47]) False = Some (APR_NOTFOUND, [], Some 4)"
  "apr_unescape_url True (Some [37, 50, 102, 97, 98, 0]) 3 None (Some [47]) False = Some (APR_NOTFOUND, [37, 50, 102, 97, 98, 0], Some 6)"
  by code_simp+

text \<open>An escape or a number that reaches past \<open>slen\<close> makes the rest of the string part of the source.\<close>

lemma apr_unescape_url_past_end:
  "apr_unescape_url False (Some [37, 52, 49, 120, 121, 0]) 2 None None False = Some (APR_SUCCESS, [], Some 4)"
  by code_simp

lemma apr_unescape_entity_past_end:
  "apr_unescape_entity True (Some [38, 35, 54, 53, 59, 98, 0]) 5 = Some (APR_SUCCESS, [65, 98, 0], Some 3)"
  by code_simp

text \<open>The loops read the byte after the source before they look at \<open>slen\<close>.\<close>

lemma apr_escape_reads_past_slen: "apr_escape_shell False (Some [97]) 1 = None" "apr_escape_shell False (Some [97, 0]) 1 \<noteq> None"
  by code_simp+

end
