(* ===== verification/Apr_Getopt.thy ===== *)
theory Apr_Getopt
  imports Apr_Cpystrn "HOL-Library.Monad_Syntax"
begin

text \<open>
  The option parsers of \<^verbatim>\<open>misc/unix/getopt.c\<close>. An argument is a C string, \<open>place\<close> the rest of one, and the
  vector of arguments the array that \<open>apr_getopt_init\<close> copies. \<open>None\<close> is an access outside the vector or
  the table of options. Calls of the error function are recorded in a log: the program's name, the
  message and the text at fault.
\<close>

section \<open>State\<close>

type_synonym message = "cstring \<times> string \<times> cstring"

record apr_getopt_t =
  os_errfn :: bool
  os_ind :: int
  os_opt :: int
  os_reset :: bool
  os_argc :: int
  os_argv :: "cstring list"
  os_place :: cstring
  os_interleave :: bool
  os_skip_start :: int
  os_skip_end :: int
  os_log :: "message list"

text \<open>The entries of a table of options, up to the one with \<open>optch\<close> 0.\<close>

record apr_getopt_option_t =
  o_name :: "cstring option"
  o_optch :: int
  o_has_arg :: bool

text \<open>The status, the state, and what is stored through \<open>optch\<close> and \<open>optarg\<close> if anything is.\<close>

type_synonym parsed = "apr_status_t \<times> apr_getopt_t \<times> int option \<times> cstring option option"

definition EMSG :: cstring where "EMSG = []"

definition arg :: "cstring list \<Rightarrow> int \<Rightarrow> cstring option" where
  "arg av i = (if 0 \<le> i \<and> nat i < length av then Some (av ! nat i) else None)"

definition starts_with :: "byte \<Rightarrow> cstring \<Rightarrow> bool" where
  "starts_with c s \<longleftrightarrow> s \<noteq> [] \<and> hd s = c"

definition apr_getopt_init :: "int \<Rightarrow> nat \<Rightarrow> cstring list \<Rightarrow> apr_getopt_t" where
  "apr_getopt_init junk n av =
     \<lparr>os_errfn = True, os_ind = 1, os_opt = junk, os_reset = False, os_argc = int n, os_argv = take n av, os_place = EMSG,
      os_interleave = False, os_skip_start = 1, os_skip_end = 1, os_log = []\<rparr>"

definition report :: "apr_getopt_t \<Rightarrow> bool \<Rightarrow> string \<Rightarrow> cstring \<Rightarrow> apr_getopt_t option" where
  "report os b err s =
     (if os_errfn os \<and> b then do {
        prog \<leftarrow> arg (os_argv os) 0;
        Some (os\<lparr>os_log := os_log os @ [(apr_filepath_name_get prog, err, s)]\<rparr>)
      }
      else Some os)"

section \<open>Short options\<close>

text \<open>\<open>if (!*os->place) ++os->ind\<close>\<close>

definition next_ind :: "apr_getopt_t \<Rightarrow> apr_getopt_t" where
  "next_ind os = (if os_place os = [] then os\<lparr>os_ind := os_ind os + 1\<rparr> else os)"

text \<open>The new scanning pointer; \<open>Inl\<close> is the return of \<open>APR_EOF\<close>.\<close>

definition update_place :: "apr_getopt_t \<Rightarrow> (apr_getopt_t + apr_getopt_t) option" where
  "update_place os =
     (if os_reset os \<or> os_place os = [] then
        let os = os\<lparr>os_reset := False\<rparr> in
        if os_argc os \<le> os_ind os then Some (Inl (os\<lparr>os_place := EMSG\<rparr>))
        else do {
          a \<leftarrow> arg (os_argv os) (os_ind os);
          if \<not> starts_with 45 a then Some (Inl (os\<lparr>os_place := EMSG\<rparr>))
          else if tl a \<noteq> [] \<and> starts_with 45 (tl a) then Some (Inl (os\<lparr>os_ind := os_ind os + 1, os_place := EMSG\<rparr>))
          else Some (Inr (os\<lparr>os_place := if tl a \<noteq> [] then tl a else a\<rparr>))
        }
      else Some (Inr os))"

text \<open>\<open>strchr(opts, c)\<close>, for a \<open>c\<close> that is not NUL: the text after the letter.\<close>

fun after_letter :: "cstring \<Rightarrow> byte \<Rightarrow> cstring option" where
  "after_letter [] c = None"
| "after_letter (x # opts) c = (if x = c then Some opts else after_letter opts c)"

text \<open>The letter \<open>c\<close>, which has been stored in \<open>opt\<close>; \<open>place\<close> is after it.\<close>

definition option_letter :: "apr_getopt_t \<Rightarrow> cstring \<Rightarrow> byte \<Rightarrow> parsed option" where
  "option_letter os opts c =
     (case (if c = 58 then None else after_letter opts c) of
        None \<Rightarrow>
          if c = 45 then Some (APR_EOF, os, Some (os_opt os), None)
          else do {
            os \<leftarrow> report (next_ind os) (\<not> starts_with 58 opts) ''illegal option'' [c];
            Some (APR_BADCH, os, Some (os_opt os), None)
          }
      | Some oli \<Rightarrow>
          if \<not> starts_with 58 oli then Some (APR_SUCCESS, next_ind os, Some (os_opt os), Some None)
          else if os_place os \<noteq> [] then
            Some (APR_SUCCESS, os\<lparr>os_place := EMSG, os_ind := os_ind os + 1\<rparr>, Some (os_opt os), Some (Some (os_place os)))
          else
            let os = os\<lparr>os_ind := os_ind os + 1\<rparr> in
            if os_argc os \<le> os_ind os then
              let os = os\<lparr>os_place := EMSG\<rparr> in
              if starts_with 58 opts then Some (APR_BADARG, os, Some (os_opt os), None)
              else do {
                os \<leftarrow> report os True ''option requires an argument'' [c];
                Some (APR_BADCH, os, Some (os_opt os), None)
              }
            else do {
              a \<leftarrow> arg (os_argv os) (os_ind os);
              Some (APR_SUCCESS, os\<lparr>os_place := EMSG, os_ind := os_ind os + 1\<rparr>, Some (os_opt os), Some (Some a))
            })"

definition apr_getopt :: "apr_getopt_t \<Rightarrow> cstring \<Rightarrow> parsed option" where
  "apr_getopt os opts = do {
     u \<leftarrow> update_place os;
     case u of
       Inl os \<Rightarrow> Some (APR_EOF, os, Some (os_opt os), None)
     | Inr os \<Rightarrow>
         let c = hd (os_place os) in
         option_letter (os\<lparr>os_opt := sint c, os_place := tl (os_place os)\<rparr>) opts c
   }"

section \<open>Long options\<close>

function reverse :: "cstring list \<Rightarrow> int \<Rightarrow> int \<Rightarrow> cstring list option" where
  "reverse av start len =
     (if 2 \<le> len then do {
        a \<leftarrow> arg av start;
        b \<leftarrow> arg av (start + len - 1);
        reverse (av[nat start := b, nat (start + len - 1) := a]) (start + 1) (len - 2)
      }
      else Some av)"
  by pat_completeness auto
termination
  by (relation "measure (\<lambda>(av, start, len). nat len)") auto

declare reverse.simps [simp del]

definition permute :: "apr_getopt_t \<Rightarrow> apr_getopt_t option" where
  "permute os =
     (let len1 = os_skip_end os - os_skip_start os; len2 = os_ind os - os_skip_end os in do {
        av \<leftarrow> (if os_interleave os then do {
            av \<leftarrow> reverse (os_argv os) (os_skip_start os) (len1 + len2);
            av \<leftarrow> reverse av (os_skip_start os) len2;
            reverse av (os_skip_start os + len2) len1
          }
          else Some (os_argv os));
        Some (os\<lparr>os_argv := av, os_skip_start := os_skip_start os + len2, os_skip_end := os_skip_end os + len2\<rparr>)
      })"

text \<open>\<open>while (os->ind < os->argc && *os->argv[os->ind] != '-') os->ind++\<close>\<close>

function skip_operands :: "cstring list \<Rightarrow> int \<Rightarrow> int \<Rightarrow> int option" where
  "skip_operands av n i =
     (if i < n then do { a \<leftarrow> arg av i; if \<not> starts_with 45 a then skip_operands av n (i + 1) else Some i } else Some i)"
  by pat_completeness auto
termination
  by (relation "measure (\<lambda>(av, n, i). nat (n - i))") auto

declare skip_operands.simps [simp del]

text \<open>The searches in the table: the entry and the text after the name; \<open>Some None\<close> is no match.\<close>

fun find_long :: "apr_getopt_option_t list \<Rightarrow> cstring \<Rightarrow> (apr_getopt_option_t \<times> cstring) option option" where
  "find_long [] p = None"
| "find_long (e # opts) p =
     (if o_optch e = 0 then Some None
      else case o_name e of
        None \<Rightarrow> find_long opts p
      | Some n \<Rightarrow>
          if take (length n) p = n \<and> (drop (length n) p = [] \<or> starts_with 61 (drop (length n) p))
          then Some (Some (e, drop (length n) p)) else find_long opts p)"

fun find_short :: "apr_getopt_option_t list \<Rightarrow> byte \<Rightarrow> apr_getopt_option_t option option" where
  "find_short [] c = None"
| "find_short (e # opts) c =
     (if o_optch e = 0 then Some None else if sint c = o_optch e then Some (Some e) else find_short opts c)"

definition failed :: "apr_getopt_t \<Rightarrow> string \<Rightarrow> cstring \<Rightarrow> apr_status_t \<Rightarrow> int option \<Rightarrow> cstring option option \<Rightarrow> parsed option" where
  "failed os err s status letter oa = do { os \<leftarrow> report os True err s; Some (status, os, letter, oa) }"

definition succeeded :: "apr_getopt_t \<Rightarrow> int \<Rightarrow> cstring option \<Rightarrow> parsed option" where
  "succeeded os letter oa = do { os \<leftarrow> permute os; Some (APR_SUCCESS, os, Some letter, Some oa) }"

text \<open>A long option; \<open>p\<close> is the text after the two hyphens.\<close>

definition long_option :: "apr_getopt_t \<Rightarrow> apr_getopt_option_t list \<Rightarrow> cstring \<Rightarrow> parsed option" where
  "long_option os opts p = do {
     r \<leftarrow> find_long opts p;
     case r of
       None \<Rightarrow> failed os ''invalid option'' ([45, 45] @ p) APR_BADCH None None
     | Some (e, rest) \<Rightarrow>
         if o_has_arg e then
           if starts_with 61 rest then succeeded os (o_optch e) (Some (tl rest))
           else if os_argc os \<le> os_ind os then failed os ''missing argument'' ([45, 45] @ p) APR_BADARG (Some (o_optch e)) None
           else do {
             a \<leftarrow> arg (os_argv os) (os_ind os);
             succeeded (os\<lparr>os_ind := os_ind os + 1\<rparr>) (o_optch e) (Some a)
           }
         else if starts_with 61 rest then failed os ''erroneous argument'' ([45, 45] @ p) APR_BADARG (Some (o_optch e)) (Some None)
         else succeeded os (o_optch e) None
   }"

text \<open>The next option of a run of short ones.\<close>

definition short_option :: "apr_getopt_t \<Rightarrow> apr_getopt_option_t list \<Rightarrow> cstring \<Rightarrow> parsed option" where
  "short_option os opts p = do {
     r \<leftarrow> find_short opts (hd p);
     case r of
       None \<Rightarrow> failed os ''invalid option character'' [hd p] APR_BADCH None None
     | Some e \<Rightarrow>
         let c = hd p; letter = sint c; p = tl p in
         if o_has_arg e then
           if p \<noteq> [] then succeeded (os\<lparr>os_place := EMSG\<rparr>) letter (Some p)
           else if os_argc os \<le> os_ind os then failed os ''missing argument'' [c] APR_BADARG (Some letter) None
           else do {
             a \<leftarrow> arg (os_argv os) (os_ind os);
             succeeded (os\<lparr>os_ind := os_ind os + 1, os_place := EMSG\<rparr>) letter (Some a)
           }
         else succeeded (os\<lparr>os_place := p\<rparr>) letter None
   }"

text \<open>A new argument, once the operands before it have been skipped.\<close>

definition new_argument :: "apr_getopt_t \<Rightarrow> apr_getopt_option_t list \<Rightarrow> parsed option" where
  "new_argument os opts = do {
     a \<leftarrow> (if os_ind os < os_argc os then map_option Some (arg (os_argv os) (os_ind os)) else Some None);
     case a of
       None \<Rightarrow> Some (APR_EOF, os\<lparr>os_ind := os_skip_start os\<rparr>, None, None)
     | Some a \<Rightarrow>
         if \<not> starts_with 45 a then Some (APR_EOF, os\<lparr>os_ind := os_skip_start os\<rparr>, None, None)
         else
           let os = os\<lparr>os_ind := os_ind os + 1\<rparr>; p = tl a in
           if starts_with 45 p \<and> tl p \<noteq> [] then long_option os opts (tl p)
           else if starts_with 45 p then do {
             os \<leftarrow> permute os;
             Some (APR_EOF, os\<lparr>os_ind := os_skip_start os\<rparr>, None, None)
           }
           else if p = [] then failed os ''invalid option'' [] APR_BADCH None None
           else short_option os opts p
   }"

definition apr_getopt_long :: "apr_getopt_t \<Rightarrow> apr_getopt_option_t list \<Rightarrow> parsed option" where
  "apr_getopt_long os opts =
     (let os = (if os_reset os then os\<lparr>os_place := EMSG, os_ind := 1, os_reset := False\<rparr> else os) in
      if os_place os \<noteq> [] then short_option os opts (os_place os)
      else do {
        os \<leftarrow> (if os_interleave os then do {
            i \<leftarrow> skip_operands (os_argv os) (os_argc os) (os_ind os);
            Some (os\<lparr>os_ind := i, os_skip_end := i\<rparr>)
          }
          else Some os);
        new_argument os opts
      })"

end
