(* ===== verification/Apr_Getopt_Spec.thy ===== *)
theory Apr_Getopt_Spec
  imports Apr_Getopt "HOL-Library.Multiset"
begin

text \<open>
  What the option parsers promise. \<open>apr_getopt\<close> stays inside the vector and moves on. A program that calls
  \<open>apr_getopt_long\<close> in a loop reads exactly what a reference parser reads that works on the list of
  arguments by recursion, with no index, skip range or permutation; the operands end up behind the
  options in their order.
\<close>

section \<open>Reversing and permuting\<close>

lemma arg_middle: "arg (xs @ a # ys) (int (length xs)) = Some a"
  by (simp add: arg_def)

lemma reverse_rev: "reverse (xs @ ys @ zs) (int (length xs)) (int (length ys)) = Some (xs @ rev ys @ zs)"
proof (induction "length ys" arbitrary: xs ys zs rule: less_induct)
  case less
  show ?case
  proof (cases "2 \<le> length ys")
    case True
    then obtain a m where "ys = a # m" "m \<noteq> []" by (cases ys) (auto simp: Suc_le_eq)
    then obtain m' b where ys: "ys = a # m' @ [b]" by (cases m rule: rev_cases) auto
    have 1: "arg (xs @ ys @ zs) (int (length xs)) = Some a" using arg_middle [of xs a "m' @ b # zs"] unfolding ys by simp
    have 2: "arg (xs @ ys @ zs) (int (length xs) + int (length ys) - 1) = Some b"
      using arg_middle [of "xs @ a # m'" b zs] unfolding ys by (simp add: algebra_simps)
    have "nat (int (length xs) + int (length ys) - 1) = length (xs @ a # m')" using ys by simp
    then have "(xs @ ys @ zs)[nat (int (length xs)) := b, nat (int (length xs) + int (length ys) - 1) := a] = (xs @ [b]) @ m' @ (a # zs)"
      using ys by (simp add: list_update_append)
    moreover have "reverse ((xs @ [b]) @ m' @ (a # zs)) (int (length (xs @ [b]))) (int (length m')) = Some ((xs @ [b]) @ rev m' @ a # zs)"
      using ys by (intro less.hyps) simp
    moreover have "int (length (xs @ [b])) = int (length xs) + 1" "int (length m') = int (length ys) - 2" using ys by simp_all
    moreover have "(2 \<le> int (length ys)) = True" using True by simp
    ultimately have "reverse (xs @ ys @ zs) (int (length xs)) (int (length ys)) = Some ((xs @ [b]) @ rev m' @ a # zs)"
      unfolding reverse.simps [of "xs @ ys @ zs"] by (simp only: 1 2 if_True bind.bind_lunit)
    then show ?thesis using ys by simp
  next
    case False
    then have "rev ys = ys" by (cases ys; cases "tl ys") auto
    then show ?thesis using False by (subst reverse.simps) simp
  qed
qed

text \<open>Three reversals exchange two neighbouring blocks.\<close>

lemma permute_blocks:
  assumes "os_argv os = xs @ qs @ ps @ zs" "os_skip_start os = int (length xs)" "os_skip_end os = int (length xs + length qs)"
    "os_ind os = int (length xs + length qs + length ps)" "qs = [] \<or> os_interleave os"
  shows "permute os = Some (os\<lparr>os_argv := xs @ ps @ qs @ zs, os_skip_start := int (length xs + length ps),
    os_skip_end := int (length xs + length ps + length qs)\<rparr>)"
proof (cases "os_interleave os")
  case True
  have "reverse (xs @ (qs @ ps) @ zs) (int (length xs)) (int (length (qs @ ps))) = Some (xs @ rev (qs @ ps) @ zs)" by (rule reverse_rev)
  moreover have "reverse (xs @ rev ps @ (rev qs @ zs)) (int (length xs)) (int (length (rev ps))) = Some (xs @ rev (rev ps) @ rev qs @ zs)"
    by (rule reverse_rev)
  moreover have "reverse ((xs @ ps) @ rev qs @ zs) (int (length (xs @ ps))) (int (length (rev qs))) = Some ((xs @ ps) @ rev (rev qs) @ zs)"
    by (rule reverse_rev)
  ultimately show ?thesis using True assms by (simp add: permute_def Let_def)
next
  case False
  then show ?thesis using assms by (simp add: permute_def Let_def)
qed

section \<open>What a command line means\<close>

text \<open>
  The reference for \<open>apr_getopt_long\<close>: the options of the arguments with their values, the operands, and the
  status with which parsing ends. A run of short options is read from the text \<open>p\<close> and the arguments
  after it; the last component is what is left of them.
\<close>

type_synonym opt_list = "(int \<times> cstring option) list"

definition lookup_short :: "apr_getopt_option_t list \<Rightarrow> byte \<Rightarrow> apr_getopt_option_t option" where
  "lookup_short opts c = find (\<lambda>e. o_optch e = sint c) (takeWhile (\<lambda>e. o_optch e \<noteq> 0) opts)"

text \<open>A long option is the name alone or the name, an equals sign and a value.\<close>

definition named :: "cstring \<Rightarrow> apr_getopt_option_t \<Rightarrow> bool" where
  "named p e \<longleftrightarrow> (case o_name e of None \<Rightarrow> False | Some n \<Rightarrow> p = n \<or> take (length n + 1) p = n @ [61])"

definition lookup_long :: "apr_getopt_option_t list \<Rightarrow> cstring \<Rightarrow> apr_getopt_option_t option" where
  "lookup_long opts p = find (named p) (takeWhile (\<lambda>e. o_optch e \<noteq> 0) opts)"

definition inline_value :: "cstring \<Rightarrow> apr_getopt_option_t \<Rightarrow> cstring option" where
  "inline_value p e = (if o_name e = Some p then None else Some (drop (length (the (o_name e)) + 1) p))"

fun short_run :: "apr_getopt_option_t list \<Rightarrow> cstring \<Rightarrow> cstring list \<Rightarrow> opt_list \<times> apr_status_t option \<times> cstring list" where
  "short_run opts [] as = ([], None, as)"
| "short_run opts (c # p) as =
     (case lookup_short opts c of
        None \<Rightarrow> ([], Some APR_BADCH, as)
      | Some e \<Rightarrow>
          if o_has_arg e then
            if p \<noteq> [] then ([(sint c, Some p)], None, as)
            else case as of
              [] \<Rightarrow> ([], Some APR_BADARG, [])
            | a # as \<Rightarrow> ([(sint c, Some a)], None, as)
          else (let (rs, err, rest) = short_run opts p as in ((sint c, None) # rs, err, rest)))"

definition long_opt :: "apr_getopt_option_t list \<Rightarrow> cstring \<Rightarrow> cstring list \<Rightarrow> opt_list \<times> apr_status_t option \<times> cstring list" where
  "long_opt opts p as =
     (case lookup_long opts p of
        None \<Rightarrow> ([], Some APR_BADCH, as)
      | Some e \<Rightarrow>
          (case inline_value p e of
             Some v \<Rightarrow> if o_has_arg e then ([(o_optch e, Some v)], None, as) else ([], Some APR_BADARG, as)
           | None \<Rightarrow>
               if \<not> o_has_arg e then ([(o_optch e, None)], None, as)
               else case as of
                 [] \<Rightarrow> ([], Some APR_BADARG, [])
               | a # as \<Rightarrow> ([(o_optch e, Some a)], None, as)))"

text \<open>One argument that starts with a hyphen and is not \<open>--\<close>.\<close>

definition one_argument :: "apr_getopt_option_t list \<Rightarrow> cstring \<Rightarrow> cstring list \<Rightarrow> opt_list \<times> apr_status_t option \<times> cstring list" where
  "one_argument opts p as =
     (if p = [] then ([], Some APR_BADCH, as)
      else if starts_with 45 p then long_opt opts (tl p) as
      else short_run opts p as)"

lemma short_run_shorter: "length (snd (snd (short_run opts p as))) \<le> length as"
  by (induction opts p as rule: short_run.induct) (auto split: option.splits list.splits prod.splits)

lemma one_argument_shorter: "length (snd (snd (one_argument opts p as))) \<le> length as"
  using short_run_shorter [of opts p as]
  by (auto simp: one_argument_def long_opt_def split: option.splits list.splits prod.splits)

function parse_args :: "apr_getopt_option_t list \<Rightarrow> bool \<Rightarrow> cstring list \<Rightarrow> opt_list \<times> cstring list \<times> apr_status_t" where
  "parse_args opts il [] = ([], [], APR_EOF)"
| "parse_args opts il (a # as) =
     (if \<not> starts_with 45 a then
        if il then (let (rs, ops, st) = parse_args opts il as in (rs, a # ops, st)) else ([], a # as, APR_EOF)
      else if a = [45, 45] then ([], as, APR_EOF)
      else
        let (rs, err, rest) = one_argument opts (tl a) as in
        case err of
          Some st \<Rightarrow> (rs, [], st)
        | None \<Rightarrow> (let (rs', ops, st) = parse_args opts il rest in (rs @ rs', ops, st)))"
  by pat_completeness auto
termination
proof (relation "measure (\<lambda>(opts, il, as). length as)")
  fix opts il a as x rs y err rest
  assume "x = one_argument opts (tl a) as" "(rs, y) = x" "(err, rest) = y"
  then show "((opts, il, rest), (opts, il, a # as)) \<in> measure (\<lambda>(opts, il, as). length as)"
    using one_argument_shorter [of opts "tl a" as] by (metis in_measure case_prod_conv le_imp_less_Suc length_Cons snd_conv)
qed auto

declare parse_args.simps(2) [simp del]

text \<open>The loop of a program: it calls \<open>apr_getopt_long\<close> as long as it succeeds and keeps the options.\<close>

partial_function (option) getopt_run ::
    "apr_getopt_option_t list \<Rightarrow> apr_getopt_t \<Rightarrow> (opt_list \<times> apr_status_t \<times> apr_getopt_t) option" where
  [code]: "getopt_run opts os = do {
     (st, os, oc, oa) \<leftarrow> apr_getopt_long os opts;
     if st = APR_SUCCESS then do {
       (rs, st, os') \<leftarrow> getopt_run opts os;
       Some ((the oc, the oa) # rs, st, os')
     }
     else Some ([], st, os)
   }"

section \<open>The parser against the reference\<close>

text \<open>
  The vector as the parser sees it: the program and the options parsed so far, the operands skipped, the
  arguments being parsed and the rest.
\<close>

definition mid :: "apr_getopt_t \<Rightarrow> cstring list \<Rightarrow> cstring list \<Rightarrow> cstring list \<Rightarrow> cstring list \<Rightarrow> bool" where
  "mid os xs qs ps rest \<longleftrightarrow>
     os_argv os = xs @ qs @ ps @ rest \<and> os_skip_start os = int (length xs) \<and> os_skip_end os = int (length xs + length qs) \<and>
     os_ind os = int (length xs + length qs + length ps) \<and> (qs = [] \<or> os_interleave os) \<and>
     os_argc os = int (length (os_argv os)) \<and> \<not> os_reset os \<and> xs \<noteq> []"

definition moved :: "apr_getopt_t \<Rightarrow> cstring list \<Rightarrow> cstring list \<Rightarrow> cstring list \<Rightarrow> cstring list \<Rightarrow> cstring \<Rightarrow> apr_getopt_t" where
  "moved os xs qs ps rest p = os\<lparr>os_argv := xs @ ps @ qs @ rest, os_skip_start := int (length xs + length ps),
    os_skip_end := int (length xs + length ps + length qs), os_ind := int (length xs + length qs + length ps), os_place := p\<rparr>"

lemma moved_mid:
  "mid os xs qs ps rest \<Longrightarrow> ps' @ rest' = rest \<Longrightarrow> mid (moved os xs qs (ps @ ps') rest' p) (xs @ ps @ ps') qs [] rest'"
  "mid os xs qs ps rest \<Longrightarrow> ps' @ rest' = rest \<Longrightarrow> mset (os_argv (moved os xs qs (ps @ ps') rest' p)) = mset (os_argv os)"
  "os_place (moved os xs qs ps rest p) = p" "os_interleave (moved os xs qs ps rest p) = os_interleave os"
  by (auto simp: mid_def moved_def)

lemma report_returns:
  assumes "mid os xs qs ps rest"
  shows "\<exists>os'. report os b err s = Some os' \<and> os_argv os' = os_argv os"
proof -
  have "arg (os_argv os) 0 = Some (hd xs)" using assms by (cases xs) (auto simp: mid_def arg_def)
  then show ?thesis by (auto simp: report_def)
qed

lemma failed_returns:
  assumes "mid os xs qs ps rest"
  shows "\<exists>os'. failed os err s st oc oa = Some (st, os', oc, oa) \<and> os_argv os' = os_argv os"
  using report_returns [OF assms, of True err s] by (auto simp: failed_def)

lemma succeeded_moves:
  assumes "mid os xs qs ps rest"
  shows "succeeded (os\<lparr>os_place := p\<rparr>) oc oa = Some (APR_SUCCESS, moved os xs qs ps rest p, Some oc, Some oa)"
    "rest = a # as \<Longrightarrow> succeeded (os\<lparr>os_ind := os_ind os + 1, os_place := p\<rparr>) oc oa =
       Some (APR_SUCCESS, moved os xs qs (ps @ [a]) as p, Some oc, Some oa)"
proof -
  show "succeeded (os\<lparr>os_place := p\<rparr>) oc oa = Some (APR_SUCCESS, moved os xs qs ps rest p, Some oc, Some oa)"
    using permute_blocks [of "os\<lparr>os_place := p\<rparr>" xs qs ps rest] assms by (simp add: succeeded_def mid_def moved_def)
  show "rest = a # as \<Longrightarrow> succeeded (os\<lparr>os_ind := os_ind os + 1, os_place := p\<rparr>) oc oa =
       Some (APR_SUCCESS, moved os xs qs (ps @ [a]) as p, Some oc, Some oa)"
    using permute_blocks [of "os\<lparr>os_ind := os_ind os + 1, os_place := p\<rparr>" xs qs "ps @ [a]" as] assms
    by (simp add: succeeded_def mid_def moved_def add_ac)
qed

lemma more_args: "mid os xs qs ps rest \<Longrightarrow> os_argc os \<le> os_ind os \<longleftrightarrow> rest = []"
  "mid os xs qs ps (a # as) \<Longrightarrow> arg (os_argv os) (os_ind os) = Some a"
  using arg_middle [of "xs @ qs @ ps" a as] by (auto simp: mid_def add.assoc)

definition ends :: "apr_getopt_option_t list \<Rightarrow> bool" where
  "ends opts \<longleftrightarrow> list_ex (\<lambda>e. o_optch e = 0) opts"

text \<open>The searches of the code are those of the reference when the table has its end.\<close>

lemma find_short_lookup: "ends opts \<Longrightarrow> find_short opts c = Some (lookup_short opts c)"
  by (induction opts) (auto simp: ends_def lookup_short_def)

lemma named_iff:
  assumes "o_name e = Some n"
  shows "named p e \<longleftrightarrow> take (length n) p = n \<and> (drop (length n) p = [] \<or> starts_with 61 (drop (length n) p))"
proof (cases "drop (length n) p")
  case Nil
  then show ?thesis using assms by (auto simp: named_def starts_with_def)
next
  case (Cons a v)
  then have "p = take (length n) p @ a # v" "length (take (length n) p) = length n"
    using Cons by (metis append_take_drop_id, cases "length n \<le> length p") auto
  then obtain m where "p = m @ a # v" "length m = length n" by blast
  then show ?thesis using assms by (simp add: named_def starts_with_def) auto
qed

lemma not_named: "o_name e = None \<Longrightarrow> \<not> named p e"
  by (simp add: named_def)

lemma find_long_lookup:
  "ends opts \<Longrightarrow> find_long opts p = Some (map_option (\<lambda>e. (e, drop (length (the (o_name e))) p)) (lookup_long opts p))"
proof (induction opts)
  case Nil
  then show ?case by (simp add: ends_def)
next
  case (Cons e opts)
  then show ?case
    by (cases "o_name e") (auto simp: ends_def lookup_long_def named_iff not_named simp del: drop_eq_Nil split: if_splits)
qed

lemma inline_value_iff:
  assumes "lookup_long opts p = Some e" "t = drop (length (the (o_name e))) p"
  shows "inline_value p e = (if starts_with 61 t then Some (tl t) else None)"
proof -
  have "named p e" using assms(1) by (auto simp: lookup_long_def find_Some_iff)
  then obtain n where n: "o_name e = Some n" "p = n \<or> take (length n + 1) p = n @ [61]"
    by (auto simp: named_def split: option.splits)
  show ?thesis
  proof (cases "p = n")
    case True
    then show ?thesis using assms(2) n by (simp add: inline_value_def starts_with_def)
  next
    case False
    then have "p = (n @ [61]) @ drop (length n + 1) p" using n(2) by (metis append_take_drop_id)
    then obtain v where "p = n @ 61 # v" by (metis append_assoc append_Cons append_Nil)
    then show ?thesis using assms(2) n(1) by (simp add: inline_value_def starts_with_def)
  qed
qed

text \<open>How a call that parses a short or a long option relates to the reference.\<close>

lemma short_option_spec:
  assumes "mid os xs qs ps rest" "ends opts" "short_run opts (c # p) rest = (rs, err, rest')"
  shows "(\<exists>st os' oc oa. rs = [] \<and> err = Some st \<and> st \<noteq> APR_SUCCESS \<and> st \<noteq> APR_EOF \<and>
      short_option os opts (c # p) = Some (st, os', oc, oa) \<and> os_argv os' = os_argv os) \<or>
    (\<exists>ps' as p' oc oa rs'. ps' @ as = rest \<and> rs = (oc, oa) # rs' \<and> short_run opts p' as = (rs', err, rest') \<and> length p' \<le> length p \<and>
      short_option os opts (c # p) = Some (APR_SUCCESS, moved os xs qs (ps @ ps') as p', Some oc, Some oa))"
proof -
  obtain r where r: "find_short opts c = Some r" "lookup_short opts c = r" using find_short_lookup [OF assms(2)] by blast
  show ?thesis
  proof (cases r)
    case None
    then show ?thesis using assms(3) r failed_returns [OF assms(1)] by (fastforce simp: short_option_def)
  next
    case (Some e)
    show ?thesis
    proof (cases "o_has_arg e")
      case False
      obtain rs' where "short_run opts p rest = (rs', err, rest')" "rs = (sint c, None) # rs'"
        using assms(3) r Some False by (auto split: prod.splits)
      then show ?thesis using r Some False succeeded_moves(1) [OF assms(1), of p]
        by (intro disjI2 exI [of _ "[]"] exI [of _ rest] exI [of _ p]) (auto simp: short_option_def Let_def)
    next
      case arg: True
      consider "p \<noteq> []" | "p = []" "rest = []" | a as where "p = []" "rest = a # as" by (cases rest) auto
      then show ?thesis
      proof cases
        case 1
        then show ?thesis using r Some arg succeeded_moves(1) [OF assms(1), of "[]"] assms(3)
          by (intro disjI2 exI [of _ "[]"] exI [of _ rest] exI [of _ "[]"]) (auto simp: short_option_def Let_def EMSG_def)
      next
        case 2
        then show ?thesis using r Some arg more_args(1) [OF assms(1)] assms(3) failed_returns [OF assms(1)]
          by (intro disjI1) (fastforce simp: short_option_def Let_def)
      next
        case 3
        then show ?thesis using r Some arg more_args(1) [OF assms(1)] more_args(2) [of os xs qs ps a as]
            succeeded_moves(2) [OF assms(1) 3(2), of "[]"] assms(1,3)
          by (intro disjI2 exI [of _ "[a]"] exI [of _ as] exI [of _ "[]"]) (auto simp: short_option_def Let_def EMSG_def)
      qed
    qed
  qed
qed

lemma long_option_spec:
  assumes "mid os xs qs ps rest" "ends opts" "os_place os = []" "long_opt opts p rest = (rs, err, rest')"
  shows "(\<exists>st os' oc oa. rs = [] \<and> err = Some st \<and> st \<noteq> APR_SUCCESS \<and> st \<noteq> APR_EOF \<and>
      long_option os opts p = Some (st, os', oc, oa) \<and> os_argv os' = os_argv os) \<or>
    (\<exists>ps' oc oa. ps' @ rest' = rest \<and> rs = [(oc, oa)] \<and> err = None \<and>
      long_option os opts p = Some (APR_SUCCESS, moved os xs qs (ps @ ps') rest' [], Some oc, Some oa))"
proof -
  define r where "r = lookup_long opts p"
  note r = find_long_lookup [OF assms(2), of p, folded r_def]
  note long_opt_r = long_opt_def [of opts p, folded r_def]
  have place: "os\<lparr>os_place := []\<rparr> = os" "os\<lparr>os_ind := i, os_place := []\<rparr> = os\<lparr>os_ind := i\<rparr>" for i
    using assms(3) by (cases os; simp)+
  note moves = succeeded_moves [OF assms(1), where p = "[]", unfolded place]
  show ?thesis
  proof (cases r)
    case None
    then show ?thesis using assms(4) r failed_returns [OF assms(1)] by (fastforce simp: long_option_def long_opt_r)
  next
    case e: (Some e)
    define t where "t = drop (length (the (o_name e))) p"
    note long_opt_r = long_opt_r inline_value_iff [OF e [unfolded r_def] t_def]
    note r = r [unfolded e option.map t_def [symmetric]]
    consider (inline) "o_has_arg e" "starts_with 61 t" | (missing) "o_has_arg e" "\<not> starts_with 61 t" "rest = []"
      | (after) a as where "o_has_arg e" "\<not> starts_with 61 t" "rest = a # as"
      | (extra) "\<not> o_has_arg e" "starts_with 61 t" | (plain) "\<not> o_has_arg e" "\<not> starts_with 61 t"
      by (cases rest) auto
    then show ?thesis
    proof cases
      case inline
      then show ?thesis using assms(4) r e moves(1) by (intro disjI2 exI [of _ "[]"]) (auto simp: long_option_def long_opt_r)
    next
      case missing
      then show ?thesis using assms(4) r e more_args(1) [OF assms(1)] failed_returns [OF assms(1)]
        by (intro disjI1) (fastforce simp: long_option_def long_opt_r)
    next
      case after
      then show ?thesis using assms(1,4) r e more_args(1) [OF assms(1)] more_args(2) [of os xs qs ps a as] moves(2) [OF after(3)]
        by (intro disjI2 exI [of _ "[a]"]) (auto simp: long_option_def long_opt_r)
    next
      case extra
      then show ?thesis using assms(4) r e failed_returns [OF assms(1)] by (intro disjI1) (fastforce simp: long_option_def long_opt_r)
    next
      case plain
      then show ?thesis using assms(4) r e moves(1) by (intro disjI2 exI [of _ "[]"]) (auto simp: long_option_def long_opt_r)
    qed
  qed
qed

text \<open>
  What the rest of the loop does: it stops with an error, or it reaches the arguments after the options
  \<open>rs\<close> and goes on.
\<close>

definition run_after :: "apr_getopt_option_t list \<Rightarrow> (opt_list \<times> apr_status_t \<times> apr_getopt_t) option \<Rightarrow> apr_getopt_t \<Rightarrow>
    cstring list \<Rightarrow> opt_list \<Rightarrow> apr_status_t option \<Rightarrow> cstring list \<Rightarrow> bool" where
  "run_after opts run os qs rs err rest \<longleftrightarrow>
     (case err of
        Some st \<Rightarrow> st \<noteq> APR_EOF \<and> (\<exists>os'. run = Some (rs, st, os') \<and> mset (os_argv os') = mset (os_argv os))
      | None \<Rightarrow> \<exists>os' xs. mid os' xs qs [] rest \<and> os_place os' = [] \<and> os_interleave os' = os_interleave os \<and>
          mset (os_argv os') = mset (os_argv os) \<and> run = map_option (\<lambda>(rs', st, os). (rs @ rs', st, os)) (getopt_run opts os'))"

lemma run_after_Cons:
  assumes "run_after opts (getopt_run opts os') os' qs rs err rest" "mset (os_argv os') = mset (os_argv os)" "os_interleave os' = os_interleave os"
  shows "run_after opts (Option.bind (getopt_run opts os') (\<lambda>(rs, st, os'). Some ((oc, oa) # rs, st, os'))) os qs ((oc, oa) # rs) err rest"
proof (cases err)
  case (Some st)
  then show ?thesis using assms by (auto simp: run_after_def)
next
  case None
  then obtain os1 xs where "mid os1 xs qs [] rest" "os_place os1 = []" "os_interleave os1 = os_interleave os'" "mset (os_argv os1) = mset (os_argv os')"
    "getopt_run opts os' = map_option (\<lambda>(rs', st, os). (rs @ rs', st, os)) (getopt_run opts os1)"
    using assms(1) by (auto simp: run_after_def)
  then show ?thesis using assms(2,3) None
    by (cases "getopt_run opts os1") (auto simp: run_after_def intro!: exI [of _ os1] exI [of _ xs])
qed

lemma short_run_spec:
  assumes "mid os xs qs [] rest" "ends opts" "os_place os = p" "short_run opts p rest = (rs, err, rest')"
  shows "run_after opts (getopt_run opts os) os qs rs err rest'"
  using assms
proof (induction "length p" arbitrary: os xs p rest rs rule: less_induct)
  case less
  show ?case
  proof (cases p)
    case Nil
    then have "rs = []" "err = None" "rest' = rest" using less.prems(4) by simp_all
    then show ?thesis using less.prems(1,3) Nil
      by (auto simp: run_after_def option.map_ident option.map_id case_prod_eta intro!: exI [of _ os] exI [of _ xs])
  next
    case (Cons c q)
    have call: "apr_getopt_long os opts = short_option os opts (c # q)"
      using less.prems(1,3) Cons by (simp add: apr_getopt_long_def mid_def)
    from short_option_spec [OF less.prems(1,2), of c q rs err rest'] less.prems(4) Cons
    consider (err) st os' oc oa where "rs = []" "err = Some st" "st \<noteq> APR_SUCCESS" "st \<noteq> APR_EOF"
        "short_option os opts (c # q) = Some (st, os', oc, oa)" "os_argv os' = os_argv os"
      | (ok) ps as p' oc oa rs' where "ps @ as = rest" "rs = (oc, oa) # rs'" "short_run opts p' as = (rs', err, rest')" "length p' \<le> length q"
        "short_option os opts (c # q) = Some (APR_SUCCESS, moved os xs qs ps as p', Some oc, Some oa)"
      by auto
    then show ?thesis
    proof cases
      case err
      then show ?thesis by (subst getopt_run.simps) (simp add: call run_after_def)
    next
      case ok
      let ?os = "moved os xs qs ps as p'"
      have m: "mid ?os (xs @ ps) qs [] as" "mset (os_argv ?os) = mset (os_argv os)"
        using moved_mid(1,2) [OF less.prems(1) ok(1), of p'] by simp_all
      then have "run_after opts (getopt_run opts ?os) ?os qs rs' err rest'"
        using ok(3,4) Cons less.prems(2) by (intro less.hyps [of p']) (simp_all add: moved_mid(3))
      from run_after_Cons [OF this m(2) moved_mid(4)] show ?thesis unfolding ok(2)
        by (subst getopt_run.simps) (simp add: call ok(5))
    qed
  qed
qed


text \<open>An argument that is not an operand and not \<open>--\<close>, from the call that reads it to the next argument.\<close>

lemma one_argument_spec:
  assumes mid: "mid os xs qs ps rest" and opts: "ends opts" and place: "os_place os = []"
    and ref: "one_argument opts p rest = (rs, err, rest')"
    and call: "apr_getopt_long os0 opts =
      (if starts_with 45 p then long_option os opts (tl p)
       else if p = [] then failed os ''invalid option'' [] APR_BADCH None None else short_option os opts p)"
    and same: "os_argv os0 = os_argv os" "os_interleave os0 = os_interleave os"
  shows "run_after opts (getopt_run opts os0) os0 qs rs err rest'"
proof -
  have stop: ?thesis if "rs = []" "err = Some st" "st \<noteq> APR_SUCCESS" "st \<noteq> APR_EOF" "apr_getopt_long os0 opts = Some (st, os', oc, oa)"
      "os_argv os' = os_argv os" for st os' oc oa
    using that same by (subst getopt_run.simps) (simp add: run_after_def)
  have go: ?thesis if "ps' @ as = rest" "rs = (oc, oa) # rs'" "short_run opts p' as = (rs', err, rest')"
      "apr_getopt_long os0 opts = Some (APR_SUCCESS, moved os xs qs (ps @ ps') as p', Some oc, Some oa)" for ps' as oc oa rs' p'
  proof -
    let ?os = "moved os xs qs (ps @ ps') as p'"
    have m: "mid ?os (xs @ ps @ ps') qs [] as" "mset (os_argv ?os) = mset (os_argv os0)" "os_interleave ?os = os_interleave os0"
      using moved_mid(1,2) [OF mid that(1), of p'] moved_mid(4) same by simp_all
    from run_after_Cons [OF short_run_spec [OF m(1) opts moved_mid(3) that(3)] m(2,3)] show ?thesis
      unfolding that(2) by (subst getopt_run.simps) (simp add: that(4))
  qed
  consider (bare) "p = []" | (long) "starts_with 45 p" | (short) c q where "p = c # q" "\<not> starts_with 45 p"
    by (cases p) auto
  then show ?thesis
  proof cases
    case bare
    obtain os' where "failed os ''invalid option'' [] APR_BADCH None None = Some (APR_BADCH, os', None, None)" "os_argv os' = os_argv os"
      using failed_returns [OF mid] by blast
    then show ?thesis using bare ref call by (intro stop [of APR_BADCH os' None None]) (simp_all add: one_argument_def starts_with_def)
  next
    case long
    then have "long_opt opts (tl p) rest = (rs, err, rest')" using ref by (auto simp: one_argument_def starts_with_def)
    from long_option_spec [OF mid opts place this] show ?thesis
      using stop go [where p' = "[]" and rs' = "[]" and as = rest'] call long by auto
  next
    case short
    then have "short_run opts (c # q) rest = (rs, err, rest')" using ref by (auto simp: one_argument_def)
    from short_option_spec [OF mid opts this] show ?thesis using stop go call short by auto
  qed
qed

section \<open>Operands\<close>

abbreviation operand :: "cstring \<Rightarrow> bool" where
  "operand a \<equiv> \<not> starts_with 45 a"

lemma skip_operands_takeWhile:
  "skip_operands (xs @ as) (int (length (xs @ as))) (int (length xs)) = Some (int (length xs + length (takeWhile operand as)))"
proof (induction as arbitrary: xs)
  case Nil
  then show ?case by (subst skip_operands.simps) simp
next
  case (Cons a as)
  show ?case using Cons.IH [of "xs @ [a]"] by (subst skip_operands.simps) (simp add: arg_middle add_ac)
qed

lemma parse_args_skip:
  "parse_args opts True as = (let (rs, ops, st) = parse_args opts True (dropWhile operand as) in (rs, takeWhile operand as @ ops, st))"
  by (induction as) (auto simp: parse_args.simps(2) split: prod.splits)

text \<open>A call between two arguments skips the operands and looks at the first argument after them.\<close>

definition skipped :: "bool \<Rightarrow> cstring list \<Rightarrow> cstring list" where
  "skipped il as = (if il then takeWhile operand as else [])"

definition unskipped :: "bool \<Rightarrow> cstring list \<Rightarrow> cstring list" where
  "unskipped il as = (if il then dropWhile operand as else as)"

lemma parse_args_unskipped:
  "parse_args opts il as = (let (rs, ops, st) = parse_args opts il (unskipped il as) in (rs, skipped il as @ ops, st))"
  using parse_args_skip [of opts as] by (auto simp: skipped_def unskipped_def split: prod.splits)

lemma length_unskipped: "length (unskipped il as) \<le> length as"
  by (simp add: unskipped_def length_dropWhile_le)

lemma unskipped_operand:
  assumes "unskipped il as = a # as'" "operand a"
  shows "\<not> il"
proof
  assume "il"
  then have "dropWhile operand as = a # as'" using assms(1) by (simp add: unskipped_def)
  then show False using hd_dropWhile [of operand as] assms(2) by simp
qed

lemma getopt_long_skips:
  assumes "mid os xs qs [] as" "os_place os = []" "il = os_interleave os"
  obtains os1 where "mid os1 xs (qs @ skipped il as) [] (unskipped il as)" "os_place os1 = []" "os_interleave os1 = il"
    "os_argv os1 = os_argv os" "apr_getopt_long os opts = new_argument os1 opts"
proof
  let ?i = "int (length xs + length qs + length (skipped il as))"
  let ?os = "if il then os\<lparr>os_ind := ?i, os_skip_end := ?i\<rparr> else os"
  have argv: "os_argv os = (xs @ qs) @ as" "os_argc os = int (length ((xs @ qs) @ as))" "os_ind os = int (length (xs @ qs))"
    using assms(1) by (simp_all add: mid_def)
  have skip: "skip_operands (os_argv os) (os_argc os) (os_ind os) = Some ?i" if "il"
    unfolding argv skip_operands_takeWhile [of "xs @ qs"] using that by (simp add: skipped_def)
  have split: "skipped il as @ unskipped il as = as" by (simp add: skipped_def unskipped_def)
  then have len: "length as = length (skipped il as) + length (unskipped il as)" by (metis length_append)
  show "mid ?os xs (qs @ skipped il as) [] (unskipped il as)"
  proof (cases il)
    case True
    have "os_argv os = xs @ (qs @ skipped il as) @ unskipped il as" using argv(1) split by simp
    then show ?thesis using assms(1,3) True len by (simp add: mid_def)
  next
    case False
    then show ?thesis using assms(1) by (simp add: skipped_def unskipped_def)
  qed
  show "os_place ?os = []" "os_interleave ?os = il" "os_argv ?os = os_argv os" using assms by simp_all
  show "apr_getopt_long os opts = new_argument ?os opts"
    using assms skip by (cases il) (simp_all add: apr_getopt_long_def mid_def)
qed


section \<open>The loop\<close>

text \<open>The result of the loop from a state between two arguments, with the operands \<open>qs\<close> skipped so far.\<close>

definition loop_result :: "apr_getopt_option_t list \<Rightarrow> apr_getopt_t \<Rightarrow> cstring list \<Rightarrow> opt_list \<times> cstring list \<times> apr_status_t \<Rightarrow> bool" where
  "loop_result opts os qs r \<longleftrightarrow>
     (case r of (rs, ops, st) \<Rightarrow> \<exists>os'. getopt_run opts os = Some (rs, st, os') \<and> mset (os_argv os') = mset (os_argv os) \<and>
        (st = APR_EOF \<longrightarrow> drop (nat (os_ind os')) (os_argv os') = qs @ ops))"

lemma loop_stops:
  assumes "apr_getopt_long os opts = Some (APR_EOF, os', oc, oa)" "mset (os_argv os') = mset (os_argv os)"
    "drop (nat (os_ind os')) (os_argv os') = qs @ ops"
  shows "loop_result opts os qs ([], ops, APR_EOF)"
  using assms by (simp add: loop_result_def getopt_run.simps [of opts os])

lemma loop_goes_on:
  assumes "run_after opts (getopt_run opts os) os qs rs None rest"
    and "\<And>os' xs. mid os' xs qs [] rest \<Longrightarrow> os_place os' = [] \<Longrightarrow> os_interleave os' = os_interleave os \<Longrightarrow> loop_result opts os' qs (rs', ops, st)"
  shows "loop_result opts os qs (rs @ rs', ops, st)"
proof -
  obtain os' xs where *: "mid os' xs qs [] rest" "os_place os' = []" "os_interleave os' = os_interleave os" "mset (os_argv os') = mset (os_argv os)"
    "getopt_run opts os = map_option (\<lambda>(rs', st, os). (rs @ rs', st, os)) (getopt_run opts os')"
    using assms(1) by (auto simp: run_after_def)
  from assms(2) [OF *(1-3)] show ?thesis using *(4,5) by (auto simp: loop_result_def)
qed

lemma bare_hyphens:
  assumes "mid os xs qs [] ([45, 45] # as)"
  obtains os' where "new_argument os opts = Some (APR_EOF, os', None, None)" "mset (os_argv os') = mset (os_argv os)"
    "drop (nat (os_ind os')) (os_argv os') = qs @ as"
proof
  let ?os = "os\<lparr>os_ind := os_ind os + 1\<rparr>"
  let ?os' = "?os\<lparr>os_argv := xs @ [[45, 45]] @ qs @ as, os_skip_start := int (length xs + 1), os_skip_end := int (length xs + 1 + length qs),
    os_ind := int (length xs + 1)\<rparr>"
  have "permute ?os = Some (?os\<lparr>os_argv := xs @ [[45, 45]] @ qs @ as, os_skip_start := int (length xs + length [[45, 45] :: cstring]),
    os_skip_end := int (length xs + length [[45, 45] :: cstring] + length qs)\<rparr>)"
    using assms by (intro permute_blocks) (simp_all add: mid_def)
  then show "new_argument os opts = Some (APR_EOF, ?os', None, None)"
    using more_args(1) [OF assms] more_args(2) [OF assms] by (simp add: new_argument_def starts_with_def not_le [symmetric])
  show "mset (os_argv ?os') = mset (os_argv os)" using assms by (simp add: mid_def)
  have "nat (os_ind ?os') = length (xs @ [[45, 45] :: cstring])" by simp
  then show "drop (nat (os_ind ?os')) (os_argv ?os') = qs @ as" by simp
qed

lemma getopt_run_parses:
  assumes "mid os xs qs [] as" "os_place os = []" "ends opts"
  shows "loop_result opts os qs (parse_args opts (os_interleave os) as)"
  using assms
proof (induction "length as" arbitrary: os xs qs as rule: less_induct)
  case less
  define il where "il = os_interleave os"
  obtain os1 where m: "mid os1 xs (qs @ skipped il as) [] (unskipped il as)" and os1: "os_place os1 = []" "os_interleave os1 = il" "os_argv os1 = os_argv os"
    and call: "apr_getopt_long os opts = new_argument os1 opts"
    by (rule getopt_long_skips [OF less.prems(1,2) il_def])
  have stop: "drop (nat (os_skip_start os1)) (os_argv os1) = qs @ skipped il as @ unskipped il as" using m by (simp add: mid_def)
  have "loop_result opts os (qs @ skipped il as) (parse_args opts il (unskipped il as))"
  proof (cases "unskipped il as")
    case Nil
    then have "new_argument os1 opts = Some (APR_EOF, os1\<lparr>os_ind := os_skip_start os1\<rparr>, None, None)"
      using more_args(1) [OF m] by (simp add: new_argument_def not_le [symmetric])
    then show ?thesis using loop_stops [where os = os and qs = "qs @ skipped il as"] stop Nil os1(3) call by simp
  next
    case (Cons a rest)
    note seen = more_args(1) [OF m] more_args(2) [OF m [unfolded Cons]]
    consider (operand) "operand a" | (hyphens) "a = [45, 45]" | (option) p where "a = 45 # p" "p \<noteq> [45]" "\<not> operand a"
      by (cases a) (auto simp: starts_with_def)
    then show ?thesis
    proof cases
      case operand
      then have "new_argument os1 opts = Some (APR_EOF, os1\<lparr>os_ind := os_skip_start os1\<rparr>, None, None)"
        using seen Cons by (simp add: new_argument_def not_le [symmetric])
      then show ?thesis
        using loop_stops [where os = os and qs = "qs @ skipped il as" and ops = "a # rest"] stop Cons os1(3) call operand unskipped_operand [OF Cons operand]
        by (simp add: parse_args.simps(2))
    next
      case hyphens
      obtain os' where "new_argument os1 opts = Some (APR_EOF, os', None, None)" "mset (os_argv os') = mset (os_argv os1)"
        "drop (nat (os_ind os')) (os_argv os') = (qs @ skipped il as) @ rest"
        by (rule bare_hyphens [OF m [unfolded Cons hyphens]])
      then show ?thesis using loop_stops [of os opts os' None None "qs @ skipped il as" rest] os1(3) call Cons hyphens
        by (simp add: parse_args.simps(2) starts_with_def)
    next
      case option
      obtain rs err rest' where ref: "one_argument opts p rest = (rs, err, rest')" by (metis prod_cases3)
      have mid: "mid (os1\<lparr>os_ind := os_ind os1 + 1\<rparr>) xs (qs @ skipped il as) [a] rest" using m Cons by (simp add: mid_def)
      have after: "run_after opts (getopt_run opts os) os (qs @ skipped il as) rs err rest'"
      proof (rule one_argument_spec [OF mid less.prems(3) _ ref])
        have "tl p \<noteq> []" if "starts_with 45 p" using that option(2) by (cases p) (auto simp: starts_with_def)
        then show "apr_getopt_long os opts = (if starts_with 45 p then long_option (os1\<lparr>os_ind := os_ind os1 + 1\<rparr>) opts (tl p)
          else if p = [] then failed (os1\<lparr>os_ind := os_ind os1 + 1\<rparr>) ''invalid option'' [] APR_BADCH None None
          else short_option (os1\<lparr>os_ind := os_ind os1 + 1\<rparr>) opts p)"
          using seen Cons option call by (simp add: new_argument_def not_le [symmetric])
      qed (use os1 il_def in simp_all)
      have ref': "parse_args opts il (a # rest) = (case err of Some st \<Rightarrow> (rs, [], st)
          | None \<Rightarrow> (let (rs', ops, st) = parse_args opts il rest' in (rs @ rs', ops, st)))"
        using option ref by (simp add: parse_args.simps(2))
      show ?thesis
      proof (cases err)
        case (Some st)
        then show ?thesis using after ref' Cons by (auto simp: run_after_def loop_result_def)
      next
        case None
        obtain rs' ops st where r: "parse_args opts il rest' = (rs', ops, st)" by (metis prod_cases3)
        have "length rest' < length as"
          using one_argument_shorter [of opts p rest] ref length_unskipped [of il as] Cons by simp
        have "loop_result opts os' (qs @ skipped il as) (rs', ops, st)"
          if "mid os' xs (qs @ skipped il as) [] rest'" "os_place os' = []" "os_interleave os' = os_interleave os" for os' xs
          using less.hyps [OF \<open>length rest' < length as\<close> that(1,2) less.prems(3)] that(3) r il_def by simp
        then have "loop_result opts os (qs @ skipped il as) (rs @ rs', ops, st)" by (rule loop_goes_on [OF after [unfolded None]])
        then show ?thesis using ref' r None Cons by simp
      qed
    qed
  qed
  then show ?case unfolding il_def [symmetric] parse_args_unskipped [of opts il as]
    by (auto simp: loop_result_def split: prod.splits)
qed

text \<open>
  C16. A program that calls \<open>apr_getopt_long\<close> until it no longer succeeds gets exactly the options that the
  reference parser reads from its command line, in their order and with their arguments, and the status
  that ends them; the loop always ends. The vector is only permuted, and at the end of the options what is
  left from \<open>ind\<close> on are the operands in their order.
\<close>

theorem apr_getopt_long_correct:
  assumes "av \<noteq> []" and "list_ex (\<lambda>e. o_optch e = 0) opts"
    and "os = (apr_getopt_init junk (length av) av)\<lparr>os_interleave := il, os_errfn := errfn\<rparr>"
    and "parse_args opts il (tl av) = (rs, ops, st)"
  shows "\<exists>os'. getopt_run opts os = Some (rs, st, os') \<and> mset (os_argv os') = mset av \<and>
    (st = APR_EOF \<longrightarrow> drop (nat (os_ind os')) (os_argv os') = ops)"
proof -
  have "mid os [hd av] [] [] (tl av)" using assms(1,3) by (cases av) (auto simp: mid_def apr_getopt_init_def)
  from getopt_run_parses [OF this, of opts] show ?thesis using assms
    by (simp add: apr_getopt_init_def EMSG_def ends_def loop_result_def)
qed

theorem apr_getopt_long_correct_witness:
  "\<exists>os'. getopt_run [\<lparr>o_name = Some [97, 108, 108], o_optch = 97, o_has_arg = False\<rparr>, \<lparr>o_name = Some [111, 117, 116], o_optch = 111, o_has_arg = True\<rparr>,
       \<lparr>o_name = None, o_optch = 0, o_has_arg = False\<rparr>]
     ((apr_getopt_init 0 5 [[112], [120], [45, 97, 111], [121], [45, 45, 111, 117, 116, 61, 122]])\<lparr>os_interleave := True, os_errfn := True\<rparr>) =
       Some ([(97, None), (111, Some [121]), (111, Some [122])], APR_EOF, os') \<and>
     mset (os_argv os') = mset [[112], [120], [45, 97, 111], [121], [45, 45, 111, 117, 116, 61, 122]] \<and>
     drop (nat (os_ind os')) (os_argv os') = [[120]]"
proof -
  let ?opts = "[\<lparr>o_name = Some [97, 108, 108], o_optch = 97, o_has_arg = False\<rparr>, \<lparr>o_name = Some [111, 117, 116], o_optch = 111, o_has_arg = True\<rparr>,
    \<lparr>o_name = None, o_optch = 0, o_has_arg = False\<rparr>] :: apr_getopt_option_t list"
  let ?av = "[[112], [120], [45, 97, 111], [121], [45, 45, 111, 117, 116, 61, 122]] :: cstring list"
  have "length ?av = 5" "?av \<noteq> []" "list_ex (\<lambda>e. o_optch e = 0) ?opts" by simp_all
  moreover have "parse_args ?opts True (tl ?av) = ([(97, None), (111, Some [121]), (111, Some [122])], [[120]], APR_EOF)" by code_simp
  ultimately show ?thesis
    using apr_getopt_long_correct [of ?av ?opts, OF _ _ refl, where il = True and errfn = True and junk = 0] by (simp add: numeral_eq_Suc)
qed

section \<open>The short parser\<close>

definition in_vector :: "apr_getopt_t \<Rightarrow> bool" where
  "in_vector os \<longleftrightarrow> os_argv os \<noteq> [] \<and> os_argc os = int (length (os_argv os)) \<and> 0 \<le> os_ind os"

lemma arg_returns: "0 \<le> i \<Longrightarrow> i < int (length av) \<Longrightarrow> \<exists>a. arg av i = Some a"
  by (auto simp: arg_def)

lemma report_in_vector: "in_vector os \<Longrightarrow> \<exists>os'. report os b err s = Some os' \<and> in_vector os' \<and> os_argv os' = os_argv os \<and> os_ind os' = os_ind os"
  by (auto simp: report_def in_vector_def arg_def)

lemma update_place_in_vector:
  assumes "in_vector os"
  shows "(\<exists>os'. update_place os = Some (Inl os') \<and> in_vector os' \<and> os_argv os' = os_argv os \<and> os_ind os \<le> os_ind os') \<or>
    (\<exists>os'. update_place os = Some (Inr os') \<and> in_vector os' \<and> os_argv os' = os_argv os \<and> os_ind os \<le> os_ind os' \<and> os_place os' \<noteq> [])"
proof (cases "os_reset os \<or> os_place os = []")
  case False
  then show ?thesis using assms by (simp add: update_place_def)
next
  case new: True
  show ?thesis
  proof (cases "os_argc os \<le> os_ind os")
    case True
    then show ?thesis using assms new by (simp add: update_place_def in_vector_def)
  next
    case False
    then obtain a where a: "arg (os_argv os) (os_ind os) = Some a" using assms arg_returns [of "os_ind os" "os_argv os"] by (auto simp: in_vector_def)
    consider "\<not> starts_with 45 a" | "starts_with 45 a" "tl a \<noteq> []" "starts_with 45 (tl a)"
      | "starts_with 45 a" "\<not> (tl a \<noteq> [] \<and> starts_with 45 (tl a))" by blast
    then show ?thesis using assms new False a
      by cases (auto simp: update_place_def in_vector_def Let_def starts_with_def)
  qed
qed

lemma option_letter_in_vector:
  assumes "in_vector os"
  shows "\<exists>st os' l oa. option_letter os opts c = Some (st, os', Some l, oa) \<and> in_vector os' \<and> os_argv os' = os_argv os \<and> os_ind os \<le> os_ind os'"
proof (cases "if c = 58 then None else after_letter opts c")
  case None
  have "in_vector (next_ind os)" "os_argv (next_ind os) = os_argv os" "os_ind os \<le> os_ind (next_ind os)"
    using assms by (simp_all add: next_ind_def in_vector_def)
  then show ?thesis using None assms report_in_vector [of "next_ind os" "\<not> starts_with 58 opts" "''illegal option''" "[c]"]
    by (auto simp: option_letter_def)
next
  case (Some oli)
  show ?thesis
  proof (cases "\<not> starts_with 58 oli \<or> os_place os \<noteq> []")
    case True
    then show ?thesis using assms Some by (auto simp: option_letter_def in_vector_def next_ind_def)
  next
    case False
    let ?os = "os\<lparr>os_ind := os_ind os + 1, os_place := EMSG\<rparr>"
    have os: "in_vector ?os" using assms by (simp add: in_vector_def)
    show ?thesis
    proof (cases "os_argc os \<le> os_ind os + 1")
      case True
      then show ?thesis using False Some os report_in_vector [OF os, of True "''option requires an argument''" "[c]"]
        by (auto simp: option_letter_def Let_def)
    next
      case more: False
      then obtain a where "arg (os_argv os) (os_ind os + 1) = Some a"
        using assms arg_returns [of "os_ind os + 1" "os_argv os"] by (auto simp: in_vector_def)
      then show ?thesis using more False assms Some by (simp add: option_letter_def in_vector_def)
    qed
  qed
qed

text \<open>
  For every option string, \<open>apr_getopt\<close> reads only arguments of the vector, leaves the vector as it is
  and never moves back; it always stores a letter.
\<close>

theorem apr_getopt_safe:
  assumes "in_vector os"
  shows "\<exists>st os' l oa. apr_getopt os opts = Some (st, os', Some l, oa) \<and> in_vector os' \<and> os_argv os' = os_argv os \<and> os_ind os \<le> os_ind os'"
proof -
  consider os1 where "update_place os = Some (Inl os1)" "in_vector os1" "os_argv os1 = os_argv os" "os_ind os \<le> os_ind os1"
    | os1 where "update_place os = Some (Inr os1)" "in_vector os1" "os_argv os1 = os_argv os" "os_ind os \<le> os_ind os1"
    using update_place_in_vector [OF assms] by blast
  then show ?thesis
  proof cases
    case 1
    then show ?thesis by (simp add: apr_getopt_def)
  next
    case 2
    let ?os = "os1\<lparr>os_opt := sint (hd (os_place os1)), os_place := tl (os_place os1)\<rparr>"
    have "in_vector ?os" using 2 by (simp add: in_vector_def)
    from option_letter_in_vector [OF this, of opts "hd (os_place os1)"] show ?thesis using 2 by (auto simp: apr_getopt_def Let_def)
  qed
qed

text \<open>
  Two surprises of the code. Before the first option the letter that comes with \<open>APR_EOF\<close> is whatever the
  fresh memory holds. A reset of the long parser leaves the skip range where it was: parsed a second time, the
  operand \<open>x\<close> of \<open>p x -a\<close> is behind \<open>ind\<close>.
\<close>

lemma apr_getopt_first_eof:
  assumes "n \<le> 1"
  shows "\<exists>os'. apr_getopt (apr_getopt_init junk n av) opts = Some (APR_EOF, os', Some junk, None)"
  using assms by (auto simp: apr_getopt_def update_place_def apr_getopt_init_def EMSG_def Let_def)

lemma apr_getopt_long_reset:
  defines "opts \<equiv> [\<lparr>o_name = None, o_optch = 97, o_has_arg = False\<rparr>, \<lparr>o_name = None, o_optch = 0, o_has_arg = False\<rparr>]"
  shows "map_option (\<lambda>(rs, st, os). (rs, st, drop (nat (os_ind os)) (os_argv os)))
      (getopt_run opts ((apr_getopt_init 0 3 [[112], [120], [45, 97]])\<lparr>os_interleave := True\<rparr>)) = Some ([(97, None)], APR_EOF, [[120]])"
    "map_option (\<lambda>(rs, st, os). (rs, st, drop (nat (os_ind os)) (os_argv os)))
      (Option.bind (getopt_run opts ((apr_getopt_init 0 3 [[112], [120], [45, 97]])\<lparr>os_interleave := True\<rparr>))
        (\<lambda>(rs, st, os). getopt_run opts (os\<lparr>os_reset := True\<rparr>))) = Some ([(97, None)], APR_EOF, [])"
  unfolding opts_def by code_simp+

end
