(* ===== verification/Apr_Sha2.thy ===== *)
theory Apr_Sha2
  imports Apr_Prelude
begin

unbundle bit_operations_syntax

text \<open>
  SHA-256 of \<^verbatim>\<open>random/unix/sha2.c\<close> for a little-endian machine. The buffer of the context is an array of 64
  bytes that the transformation also uses as its 16 words \<open>W256\<close>; a word is read from and written to it
  byte by byte, the least significant first.
\<close>

section \<open>Context and words in memory\<close>

definition SHA256_BLOCK_LENGTH :: nat where "SHA256_BLOCK_LENGTH = 64"
definition SHA256_DIGEST_LENGTH :: nat where "SHA256_DIGEST_LENGTH = 32"
definition SHA256_SHORT_BLOCK_LENGTH :: nat where "SHA256_SHORT_BLOCK_LENGTH = SHA256_BLOCK_LENGTH - 8"

lemmas SHA256_lengths = SHA256_BLOCK_LENGTH_def SHA256_DIGEST_LENGTH_def SHA256_SHORT_BLOCK_LENGTH_def

type_synonym u64 = "64 word"

record SHA256_CTX =
  s_state :: "u32 list"
  s_bitcount :: u64
  s_buffer :: "byte list"

definition load32 :: "byte list \<Rightarrow> nat \<Rightarrow> u32" where
  "load32 bs j = ucast (bs ! (4 * j)) OR push_bit 8 (ucast (bs ! (4 * j + 1))) OR push_bit 16 (ucast (bs ! (4 * j + 2))) OR
     push_bit 24 (ucast (bs ! (4 * j + 3)))"

definition store32 :: "byte list \<Rightarrow> nat \<Rightarrow> u32 \<Rightarrow> byte list" where
  "store32 bs j w = bs[4 * j := ucast w, 4 * j + 1 := ucast (drop_bit 8 w), 4 * j + 2 := ucast (drop_bit 16 w), 4 * j + 3 := ucast (drop_bit 24 w)]"

text \<open>The bytes of a 64-bit integer in memory.\<close>

definition bytes64 :: "u64 \<Rightarrow> byte list" where
  "bytes64 w = map (\<lambda>i. ucast (drop_bit (8 * i) w)) [0..<8]"

text \<open>\<open>memcpy\<close> to and \<open>memset\<close> at an offset; a copy that does not fit would make the array longer.\<close>

definition MEMCPY_BCOPY :: "byte list \<Rightarrow> nat \<Rightarrow> byte list \<Rightarrow> byte list" where
  "MEMCPY_BCOPY d i s = take i d @ s @ drop (i + length s) d"

definition MEMSET_BZERO :: "byte list \<Rightarrow> nat \<Rightarrow> nat \<Rightarrow> byte list" where
  "MEMSET_BZERO d i l = MEMCPY_BCOPY d i (replicate l 0)"

definition REVERSE32 :: "u32 \<Rightarrow> u32" where
  "REVERSE32 w = (let tmp = drop_bit 16 w OR push_bit 16 w in drop_bit 8 (tmp AND 0xff00ff00) OR push_bit 8 (tmp AND 0x00ff00ff))"

definition REVERSE64 :: "u64 \<Rightarrow> u64" where
  "REVERSE64 w =
     (let tmp = drop_bit 32 w OR push_bit 32 w;
          tmp = drop_bit 8 (tmp AND 0xff00ff00ff00ff00) OR push_bit 8 (tmp AND 0x00ff00ff00ff00ff)
      in drop_bit 16 (tmp AND 0xffff0000ffff0000) OR push_bit 16 (tmp AND 0x0000ffff0000ffff))"

section \<open>The transformation\<close>

definition R_shift :: "nat \<Rightarrow> u32 \<Rightarrow> u32" where "R_shift b x = drop_bit b x"
definition S32 :: "nat \<Rightarrow> u32 \<Rightarrow> u32" where "S32 b x = drop_bit b x OR push_bit (32 - b) x"

definition Ch :: "u32 \<Rightarrow> u32 \<Rightarrow> u32 \<Rightarrow> u32" where "Ch x y z = (x AND y) XOR (NOT x AND z)"
definition Maj :: "u32 \<Rightarrow> u32 \<Rightarrow> u32 \<Rightarrow> u32" where "Maj x y z = (x AND y) XOR (x AND z) XOR (y AND z)"

definition Sigma0_256 :: "u32 \<Rightarrow> u32" where "Sigma0_256 x = S32 2 x XOR S32 13 x XOR S32 22 x"
definition Sigma1_256 :: "u32 \<Rightarrow> u32" where "Sigma1_256 x = S32 6 x XOR S32 11 x XOR S32 25 x"
definition sigma0_256 :: "u32 \<Rightarrow> u32" where "sigma0_256 x = S32 7 x XOR S32 18 x XOR R_shift 3 x"
definition sigma1_256 :: "u32 \<Rightarrow> u32" where "sigma1_256 x = S32 17 x XOR S32 19 x XOR R_shift 10 x"

definition K256 :: "u32 list" where
  "K256 =
     [0x428a2f98, 0x71374491, 0xb5c0fbcf, 0xe9b5dba5,
      0x3956c25b, 0x59f111f1, 0x923f82a4, 0xab1c5ed5,
      0xd807aa98, 0x12835b01, 0x243185be, 0x550c7dc3,
      0x72be5d74, 0x80deb1fe, 0x9bdc06a7, 0xc19bf174,
      0xe49b69c1, 0xefbe4786, 0x0fc19dc6, 0x240ca1cc,
      0x2de92c6f, 0x4a7484aa, 0x5cb0a9dc, 0x76f988da,
      0x983e5152, 0xa831c66d, 0xb00327c8, 0xbf597fc7,
      0xc6e00bf3, 0xd5a79147, 0x06ca6351, 0x14292967,
      0x27b70a85, 0x2e1b2138, 0x4d2c6dfc, 0x53380d13,
      0x650a7354, 0x766a0abb, 0x81c2c92e, 0x92722c85,
      0xa2bfe8a1, 0xa81a664b, 0xc24b8b70, 0xc76c51a3,
      0xd192e819, 0xd6990624, 0xf40e3585, 0x106aa070,
      0x19a4c116, 0x1e376c08, 0x2748774c, 0x34b0bcb5,
      0x391c0cb3, 0x4ed8aa4a, 0x5b9cca4f, 0x682e6ff3,
      0x748f82ee, 0x78a5636f, 0x84c87814, 0x8cc70208,
      0x90befffa, 0xa4506ceb, 0xbef9a3f7, 0xc67178f2]"

definition sha256_initial_hash_value :: "u32 list" where
  "sha256_initial_hash_value =
     [0x6a09e667, 0xbb67ae85, 0x3c6ef372, 0xa54ff53a, 0x510e527f, 0x9b05688c, 0x1f83d9ab, 0x5be0cd19]"

definition apr__SHA256_Init :: "SHA256_CTX" where
  "apr__SHA256_Init = \<lparr>s_state = sha256_initial_hash_value, s_bitcount = 0, s_buffer = replicate SHA256_BLOCK_LENGTH 0\<rparr>"

type_synonym registers = "u32 \<times> u32 \<times> u32 \<times> u32 \<times> u32 \<times> u32 \<times> u32 \<times> u32"

text \<open>One application of the compression function, to the word \<open>w\<close>.\<close>

definition compression :: "registers \<Rightarrow> u32 \<Rightarrow> u32 \<Rightarrow> registers" where
  "compression regs k w =
     (case regs of (a, b, c, d, e, f, g, h) \<Rightarrow>
        let T1 = h + Sigma1_256 e + Ch e f g + k + w; T2 = Sigma0_256 a + Maj a b c in
        (T1 + T2, a, b, c, d + T1, e, f, g))"

text \<open>The data of a transformation: the buffer of the context itself, or other memory.\<close>

datatype sha_data = In_buffer | At "byte list"

definition data_word :: "sha_data \<Rightarrow> byte list \<Rightarrow> nat \<Rightarrow> u32" where
  "data_word data buf j = (case data of In_buffer \<Rightarrow> load32 buf j | At bs \<Rightarrow> load32 bs j)"

function rounds_0_15 :: "sha_data \<Rightarrow> nat \<Rightarrow> registers \<Rightarrow> byte list \<Rightarrow> registers \<times> byte list" where
  "rounds_0_15 data j regs W256 =
     (let W256 = store32 W256 j (REVERSE32 (data_word data W256 j));
          regs = compression regs (K256 ! j) (load32 W256 j) in
      if j + 1 < 16 then rounds_0_15 data (j + 1) regs W256 else (regs, W256))"
  by pat_completeness auto
termination
  by (relation "measure (\<lambda>(data, j, regs, W256). 16 - j)") auto

function rounds_16_63 :: "nat \<Rightarrow> registers \<Rightarrow> byte list \<Rightarrow> registers \<times> byte list" where
  "rounds_16_63 j regs W256 =
     (let s0 = sigma0_256 (load32 W256 ((j + 1) AND 15));
          s1 = sigma1_256 (load32 W256 ((j + 14) AND 15));
          W256 = store32 W256 (j AND 15) (load32 W256 (j AND 15) + (s1 + load32 W256 ((j + 9) AND 15) + s0));
          regs = compression regs (K256 ! j) (load32 W256 (j AND 15)) in
      if j + 1 < 64 then rounds_16_63 (j + 1) regs W256 else (regs, W256))"
  by pat_completeness auto
termination
  by (relation "measure (\<lambda>(j, regs, W256). 64 - j)") auto

declare rounds_0_15.simps [simp del] rounds_16_63.simps [simp del]

definition registers_of :: "u32 list \<Rightarrow> registers" where
  "registers_of s = (s ! 0, s ! 1, s ! 2, s ! 3, s ! 4, s ! 5, s ! 6, s ! 7)"

definition add_registers :: "u32 list \<Rightarrow> registers \<Rightarrow> u32 list" where
  "add_registers s regs =
     (case regs of (a, b, c, d, e, f, g, h) \<Rightarrow>
        s[0 := s ! 0 + a, 1 := s ! 1 + b, 2 := s ! 2 + c, 3 := s ! 3 + d, 4 := s ! 4 + e, 5 := s ! 5 + f, 6 := s ! 6 + g, 7 := s ! 7 + h])"

definition apr__SHA256_Transform :: "SHA256_CTX \<Rightarrow> sha_data \<Rightarrow> SHA256_CTX" where
  "apr__SHA256_Transform context data =
     (let (regs, W256) = rounds_0_15 data 0 (registers_of (s_state context)) (s_buffer context);
          (regs, W256) = rounds_16_63 16 regs W256 in
      context\<lparr>s_state := add_registers (s_state context) regs, s_buffer := W256\<rparr>)"

section \<open>Hashing a stream\<close>

definition usedspace_of :: "SHA256_CTX \<Rightarrow> nat" where
  "usedspace_of context = unat (drop_bit 3 (s_bitcount context) mod of_nat SHA256_BLOCK_LENGTH)"

definition add_bitcount :: "SHA256_CTX \<Rightarrow> nat \<Rightarrow> SHA256_CTX" where
  "add_bitcount context len = context\<lparr>s_bitcount := s_bitcount context + push_bit 3 (of_nat len)\<rparr>"

function whole_blocks :: "SHA256_CTX \<Rightarrow> byte list \<Rightarrow> SHA256_CTX \<times> byte list" where
  "whole_blocks context data =
     (if SHA256_BLOCK_LENGTH \<le> length data then
        let context = apr__SHA256_Transform context (At data);
            context = add_bitcount context SHA256_BLOCK_LENGTH in
        whole_blocks context (drop SHA256_BLOCK_LENGTH data)
      else (context, data))"
  by pat_completeness auto
termination
  by (relation "measure (\<lambda>(context, data). length data)") (auto simp: SHA256_lengths)

declare whole_blocks.simps [simp del]

definition apr__SHA256_Update :: "SHA256_CTX \<Rightarrow> byte list \<Rightarrow> SHA256_CTX" where
  "apr__SHA256_Update context data =
     (if length data = 0 then context
      else
        let usedspace = usedspace_of context; freespace = SHA256_BLOCK_LENGTH - usedspace in
        if 0 < usedspace \<and> length data < freespace then
          add_bitcount (context\<lparr>s_buffer := MEMCPY_BCOPY (s_buffer context) usedspace data\<rparr>) (length data)
        else
          let (context, data) =
                (if 0 < usedspace then
                   let context = context\<lparr>s_buffer := MEMCPY_BCOPY (s_buffer context) usedspace (take freespace data)\<rparr>;
                       context = add_bitcount context freespace in
                   (apr__SHA256_Transform context In_buffer, drop freespace data)
                 else (context, data));
              (context, data) = whole_blocks context data in
          if 0 < length data then
            add_bitcount (context\<lparr>s_buffer := MEMCPY_BCOPY (s_buffer context) 0 data\<rparr>) (length data)
          else context)"

text \<open>The padding in the buffer before the last transformation.\<close>

definition pad_last :: "SHA256_CTX \<Rightarrow> nat \<Rightarrow> SHA256_CTX" where
  "pad_last context usedspace =
     (if 0 < usedspace then
        let context = context\<lparr>s_buffer := (s_buffer context)[usedspace := 0x80]\<rparr>; usedspace = usedspace + 1 in
        if usedspace \<le> SHA256_SHORT_BLOCK_LENGTH then
          context\<lparr>s_buffer := MEMSET_BZERO (s_buffer context) usedspace (SHA256_SHORT_BLOCK_LENGTH - usedspace)\<rparr>
        else
          let context =
                (if usedspace < SHA256_BLOCK_LENGTH then
                   context\<lparr>s_buffer := MEMSET_BZERO (s_buffer context) usedspace (SHA256_BLOCK_LENGTH - usedspace)\<rparr>
                 else context);
              context = apr__SHA256_Transform context In_buffer in
          context\<lparr>s_buffer := MEMSET_BZERO (s_buffer context) 0 SHA256_SHORT_BLOCK_LENGTH\<rparr>
      else
        context\<lparr>s_buffer := (MEMSET_BZERO (s_buffer context) 0 SHA256_SHORT_BLOCK_LENGTH)[0 := 0x80]\<rparr>)"

text \<open>\<open>for (j = 0; j < 8; j++)\<close>: the state in the byte order of the digest.\<close>

function store_digest :: "u32 list \<Rightarrow> byte list \<Rightarrow> nat \<Rightarrow> u32 list \<times> byte list" where
  "store_digest s d j =
     (if j < 8 then
        let s = s[j := REVERSE32 (s ! j)] in store_digest s (store32 d j (s ! j)) (j + 1)
      else (s, d))"
  by pat_completeness auto
termination
  by (relation "measure (\<lambda>(s, d, j). 8 - j)") auto

declare store_digest.simps [simp del]

definition zero_context :: SHA256_CTX where
  "zero_context = \<lparr>s_state = replicate 8 0, s_bitcount = 0, s_buffer = replicate SHA256_BLOCK_LENGTH 0\<rparr>"

text \<open>\<open>None\<close> is a null digest pointer; the context is cleared in any case.\<close>

definition apr__SHA256_Final :: "byte list option \<Rightarrow> SHA256_CTX \<Rightarrow> byte list option \<times> SHA256_CTX" where
  "apr__SHA256_Final digest context =
     (case digest of
        None \<Rightarrow> (None, zero_context)
      | Some d \<Rightarrow>
          let usedspace = usedspace_of context;
              context = context\<lparr>s_bitcount := REVERSE64 (s_bitcount context)\<rparr>;
              context = pad_last context usedspace;
              context = context\<lparr>s_buffer := MEMCPY_BCOPY (s_buffer context) SHA256_SHORT_BLOCK_LENGTH (bytes64 (s_bitcount context))\<rparr>;
              context = apr__SHA256_Transform context In_buffer;
              (s, d) = store_digest (s_state context) d 0 in
          (Some d, zero_context))"

definition sha2_hex_digits :: "byte list" where
  "sha2_hex_digits = [48, 49, 50, 51, 52, 53, 54, 55, 56, 57, 97, 98, 99, 100, 101, 102]"

text \<open>
  The text written to the buffer, without its NUL, and the offset of the returned pointer in it; \<open>None\<close>
  when the buffer is null. \<open>digest0\<close> is what the uninitialised local array holds.
\<close>

definition hex_byte :: "byte \<Rightarrow> cstring" where
  "hex_byte b = [sha2_hex_digits ! unat (drop_bit 4 (b AND 0xf0)), sha2_hex_digits ! unat (b AND 0x0f)]"

definition apr__SHA256_End :: "bool \<Rightarrow> byte list \<Rightarrow> SHA256_CTX \<Rightarrow> (cstring \<times> nat) option \<times> SHA256_CTX" where
  "apr__SHA256_End buffer digest0 context =
     (if buffer then
        let (digest, context) = apr__SHA256_Final (Some digest0) context; txt = concat (map hex_byte (the digest)) in
        (Some (txt, length txt), context)
      else (None, zero_context))"

definition apr__SHA256_Data :: "bool \<Rightarrow> byte list \<Rightarrow> byte list \<Rightarrow> (cstring \<times> nat) option" where
  "apr__SHA256_Data buffer digest0 data = fst (apr__SHA256_End buffer digest0 (apr__SHA256_Update apr__SHA256_Init data))"

end
