(* ===== verification/Apr_Random.thy ===== *)
theory Apr_Random
  imports Apr_Sha2 "HOL-Library.Monad_Syntax"
begin

unbundle bit_operations_syntax

text \<open>
  The random number generator of \<^verbatim>\<open>random/unix/apr_random.c\<close> and the hash objects of
  \<^verbatim>\<open>random/unix/sha2_glue.c\<close> through which it calls SHA-256. \<open>None\<close> is an access outside an array, an
  assertion that fails, or an unknown generator. Sizes are natural numbers; the generation is a 32-bit
  counter that wraps.
\<close>

section \<open>Hash objects\<close>

text \<open>A hash object with the data of type \<open>'c\<close>; \<open>finish\<close> gets the bytes at the place of the result.\<close>

record 'c apr_crypto_hash_t =
  c_init :: "'c \<Rightarrow> 'c"
  c_add :: "'c \<Rightarrow> byte list \<Rightarrow> 'c"
  c_finish :: "'c \<Rightarrow> byte list \<Rightarrow> byte list \<times> 'c"
  c_size :: nat
  c_data :: 'c

definition sha256_init :: "SHA256_CTX \<Rightarrow> SHA256_CTX" where
  "sha256_init c = apr__SHA256_Init"

definition sha256_add :: "SHA256_CTX \<Rightarrow> byte list \<Rightarrow> SHA256_CTX" where
  "sha256_add c data = apr__SHA256_Update c data"

definition sha256_finish :: "SHA256_CTX \<Rightarrow> byte list \<Rightarrow> byte list \<times> SHA256_CTX" where
  "sha256_finish c result = (case apr__SHA256_Final (Some result) c of (d, c) \<Rightarrow> (the d, c))"

text \<open>\<open>data\<close> is allocated and not set.\<close>

definition apr_crypto_sha256_new :: "SHA256_CTX \<Rightarrow> SHA256_CTX apr_crypto_hash_t" where
  "apr_crypto_sha256_new data =
     \<lparr>c_init = sha256_init, c_add = sha256_add, c_finish = sha256_finish, c_size = 256 div 8, c_data = data\<rparr>"

definition hash_init :: "'c apr_crypto_hash_t \<Rightarrow> 'c apr_crypto_hash_t" where
  "hash_init h = h\<lparr>c_data := c_init h (c_data h)\<rparr>"

definition hash_add :: "'c apr_crypto_hash_t \<Rightarrow> byte list \<Rightarrow> 'c apr_crypto_hash_t" where
  "hash_add h b = h\<lparr>c_data := c_add h (c_data h) b\<rparr>"

text \<open>The result goes to the array \<open>dst\<close> at offset \<open>i\<close>.\<close>

definition hash_finish :: "'c apr_crypto_hash_t \<Rightarrow> byte list \<Rightarrow> nat \<Rightarrow> (byte list \<times> 'c apr_crypto_hash_t) option" where
  "hash_finish h dst i =
     (if i + c_size h \<le> length dst then
        let (r, c) = c_finish h (c_data h) (take (c_size h) (drop i dst)) in
        Some (MEMCPY_BCOPY dst i r, h\<lparr>c_data := c\<rparr>)
      else None)"

definition hash_macro :: "'c apr_crypto_hash_t \<Rightarrow> byte list \<Rightarrow> nat \<Rightarrow> byte list \<Rightarrow> (byte list \<times> 'c apr_crypto_hash_t) option" where
  "hash_macro h dst i b = hash_finish (hash_add (hash_init h) b) dst i"

section \<open>State\<close>

definition APR_RANDOM_DEFAULT_POOLS :: nat where "APR_RANDOM_DEFAULT_POOLS = 32"
definition APR_RANDOM_DEFAULT_REHASH_SIZE :: nat where "APR_RANDOM_DEFAULT_REHASH_SIZE = 1024"
definition APR_RANDOM_DEFAULT_RESEED_SIZE :: nat where "APR_RANDOM_DEFAULT_RESEED_SIZE = 32"
definition APR_RANDOM_DEFAULT_G_FOR_INSECURE :: u32 where "APR_RANDOM_DEFAULT_G_FOR_INSECURE = 32"
definition APR_RANDOM_DEFAULT_G_FOR_SECURE :: u32 where "APR_RANDOM_DEFAULT_G_FOR_SECURE = 320"

lemmas APR_RANDOM_DEFAULTS =
  APR_RANDOM_DEFAULT_POOLS_def APR_RANDOM_DEFAULT_REHASH_SIZE_def APR_RANDOM_DEFAULT_RESEED_SIZE_def
  APR_RANDOM_DEFAULT_G_FOR_INSECURE_def APR_RANDOM_DEFAULT_G_FOR_SECURE_def

text \<open>A pool of entropy: an array of \<open>p_size\<close> bytes of which \<open>p_bytes\<close> are used.\<close>

record apr_random_pool_t =
  p_pool :: "byte list"
  p_bytes :: nat
  p_size :: nat

record 'c apr_random_t =
  r_pool_hash :: "'c apr_crypto_hash_t"
  r_npools :: nat
  r_pools :: "apr_random_pool_t list"
  r_next_pool :: nat
  r_generation :: u32
  r_rehash_size :: nat
  r_reseed_size :: nat
  r_key_hash :: "'c apr_crypto_hash_t"
  r_prng_hash :: "'c apr_crypto_hash_t"
  r_H :: "byte list"
  r_H_waiting :: "byte list"
  r_randomness :: "byte list"
  r_random_bytes :: nat
  r_g_for_insecure :: u32
  r_g_for_secure :: u32
  r_secure_base :: u32
  r_insecure_started :: bool
  r_secure_started :: bool

definition K_size :: "'c apr_random_t \<Rightarrow> nat" where "K_size g = c_size (r_key_hash g)"
definition B_size :: "'c apr_random_t \<Rightarrow> nat" where "B_size g = c_size (r_prng_hash g)"
definition H_size :: "'c apr_random_t \<Rightarrow> nat" where "H_size g = B_size g + K_size g"

text \<open>Whether the current \<open>H\<close> is \<open>H_waiting\<close>, and its contents.\<close>

definition waiting :: "'c apr_random_t \<Rightarrow> bool" where
  "waiting g \<longleftrightarrow> r_insecure_started g \<and> \<not> r_secure_started g"

definition H_current :: "'c apr_random_t \<Rightarrow> byte list" where
  "H_current g = (if waiting g then r_H_waiting g else r_H g)"

definition set_H_current :: "'c apr_random_t \<Rightarrow> byte list \<Rightarrow> 'c apr_random_t" where
  "set_H_current g H = (if waiting g then g\<lparr>r_H_waiting := H\<rparr> else g\<lparr>r_H := H\<rparr>)"

text \<open>\<open>apr_random_init\<close>; \<open>junk\<close> is the contents of \<open>randomness\<close>, which is not set.\<close>

definition apr_random_init ::
    "byte list \<Rightarrow> 'c apr_crypto_hash_t \<Rightarrow> 'c apr_crypto_hash_t \<Rightarrow> 'c apr_crypto_hash_t \<Rightarrow> 'c apr_random_t" where
  "apr_random_init junk pool_hash key_hash prng_hash =
     (let size = c_size pool_hash in
      \<lparr>r_pool_hash = pool_hash, r_npools = APR_RANDOM_DEFAULT_POOLS,
       r_pools = replicate APR_RANDOM_DEFAULT_POOLS \<lparr>p_pool = [], p_bytes = 0, p_size = 0\<rparr>,
       r_next_pool = 0, r_generation = 0,
       r_rehash_size = ((APR_RANDOM_DEFAULT_REHASH_SIZE + 2 * size - 1) div size div 2) * size * 2,
       r_reseed_size = APR_RANDOM_DEFAULT_RESEED_SIZE,
       r_key_hash = key_hash, r_prng_hash = prng_hash,
       r_H = replicate (c_size prng_hash + c_size key_hash) 0, r_H_waiting = replicate (c_size prng_hash + c_size key_hash) 0,
       r_randomness = take (c_size prng_hash) (junk @ replicate (c_size prng_hash) 0), r_random_bytes = 0,
       r_g_for_insecure = APR_RANDOM_DEFAULT_G_FOR_INSECURE, r_g_for_secure = APR_RANDOM_DEFAULT_G_FOR_SECURE,
       r_secure_base = 0, r_insecure_started = False, r_secure_started = False\<rparr>)"

definition apr_random_standard_new :: "byte list \<Rightarrow> SHA256_CTX \<Rightarrow> SHA256_CTX apr_random_t" where
  "apr_random_standard_new junk data =
     apr_random_init junk (apr_crypto_sha256_new data) (apr_crypto_sha256_new data) (apr_crypto_sha256_new data)"

section \<open>Forks\<close>

text \<open>The bytes of a process identifier.\<close>

definition pid_bytes :: "u32 \<Rightarrow> byte list" where
  "pid_bytes pid = [ucast pid, ucast (drop_bit 8 pid), ucast (drop_bit 16 pid), ucast (drop_bit 24 pid)]"

definition mix_pid :: "'c apr_random_t \<Rightarrow> byte list \<Rightarrow> u32 \<Rightarrow> (byte list \<times> 'c apr_random_t) option" where
  "mix_pid g H pid = do {
     let h = hash_init (r_key_hash g);
     let h = hash_add h (take (H_size g) H);
     let h = hash_add h (pid_bytes pid);
     (H, h) \<leftarrow> hash_finish h H 0;
     Some (H, g\<lparr>r_key_hash := h\<rparr>)
   }"

definition mixer :: "'c apr_random_t \<Rightarrow> u32 \<Rightarrow> 'c apr_random_t option" where
  "mixer g pid = do {
     (H, g) \<leftarrow> mix_pid g (H_current g) pid;
     let g = set_H_current g H;
     g \<leftarrow> (if waiting g then do { (H, g) \<leftarrow> mix_pid g (r_H g) pid; Some (g\<lparr>r_H := H\<rparr>) } else Some g);
     Some (g\<lparr>r_generation := r_generation g - 1, r_random_bytes := 0\<rparr>)
   }"

section \<open>Entropy\<close>

text \<open>The pools of a generation: the first, and the next ones as long as the generation has the bit before.\<close>

function rekey_pools :: "'c apr_random_t \<Rightarrow> 'c apr_crypto_hash_t \<Rightarrow> nat \<Rightarrow> ('c apr_random_t \<times> 'c apr_crypto_hash_t) option" where
  "rekey_pools g h n =
     (if n < r_npools g \<and> (n = 0 \<or> r_generation g AND push_bit (n - 1) 1 \<noteq> 0) then
        if n < length (r_pools g) \<and> p_bytes (r_pools g ! n) \<le> length (p_pool (r_pools g ! n)) then
          let p = r_pools g ! n in
          rekey_pools (g\<lparr>r_pools := (r_pools g)[n := p\<lparr>p_bytes := 0\<rparr>]\<rparr>) (hash_add h (take (p_bytes p) (p_pool p))) (n + 1)
        else None
      else Some (g, h))"
  by pat_completeness auto
termination
  by (relation "measure (\<lambda>(g, h, n). r_npools g - n)") auto

declare rekey_pools.simps [simp del]

text \<open>The next generation, with which insecure and then secure output may start.\<close>

definition start_generation :: "'c apr_random_t \<Rightarrow> 'c apr_random_t" where
  "start_generation g =
     (let g = g\<lparr>r_generation := r_generation g + 1\<rparr>;
          g = (if \<not> r_insecure_started g \<and> r_g_for_insecure g < r_generation g then
                 let g = g\<lparr>r_insecure_started := True\<rparr> in
                 if \<not> r_secure_started g then g\<lparr>r_H_waiting := r_H g, r_secure_base := r_generation g\<rparr> else g
               else g) in
      if \<not> r_secure_started g \<and> r_secure_base g + r_g_for_secure g < r_generation g
      then g\<lparr>r_secure_started := True, r_H := r_H_waiting g\<rparr> else g)"

definition rekey :: "'c apr_random_t \<Rightarrow> 'c apr_random_t option" where
  "rekey g = do {
     let h = hash_add (hash_init (r_key_hash g)) (take (H_size g) (H_current g));
     (g, h) \<leftarrow> rekey_pools g h 0;
     (H, h) \<leftarrow> hash_finish h (H_current g) (B_size g);
     Some (start_generation ((set_H_current g H)\<lparr>r_key_hash := h\<rparr>))
   }"

text \<open>\<open>for (r = 0; r < p->bytes/2; r += size)\<close>: the pool is hashed to its half, in place.\<close>

function rehash :: "'c apr_crypto_hash_t \<Rightarrow> byte list \<Rightarrow> nat \<Rightarrow> nat \<Rightarrow> (byte list \<times> 'c apr_crypto_hash_t) option" where
  "rehash h pool r half =
     (if r < half \<and> 0 < c_size h then
        if r * 2 + c_size h * 2 \<le> length pool then do {
          (pool, h) \<leftarrow> hash_macro h pool r (take (c_size h * 2) (drop (r * 2) pool));
          rehash h pool (r + c_size h) half
        }
        else None
      else if r < half then None else Some (pool, h))"
  by pat_completeness auto
termination
  by (relation "measure (\<lambda>(h, pool, r, half). half - r)") (auto simp: hash_macro_def hash_finish_def hash_add_def hash_init_def split: if_splits prod.splits)

declare rehash.simps [simp del]

definition rehash_pool :: "'c apr_crypto_hash_t \<Rightarrow> nat \<Rightarrow> apr_random_pool_t \<Rightarrow> (apr_random_pool_t \<times> 'c apr_crypto_hash_t) option" where
  "rehash_pool h rehash_size p =
     (if p_bytes p = rehash_size then do {
        (pool, h) \<leftarrow> rehash h (p_pool p) 0 (p_bytes p div 2);
        Some (p\<lparr>p_pool := pool, p_bytes := p_bytes p div 2\<rparr>, h)
      }
      else Some (p, h))"

text \<open>A larger array when the pool is full; \<open>junk\<close> is the contents of newly allocated memory.\<close>

definition pool_room :: "(nat \<Rightarrow> byte) \<Rightarrow> apr_random_pool_t \<Rightarrow> apr_random_pool_t" where
  "pool_room junk p =
     (if p_size p < p_bytes p + 1
      then p\<lparr>p_pool := take (p_bytes p) (p_pool p) @ map junk [p_bytes p..<(p_bytes p + 1) * 2], p_size := (p_bytes p + 1) * 2\<rparr>
      else p)"

text \<open>One byte of entropy.\<close>

definition add_byte :: "(nat \<Rightarrow> byte) \<Rightarrow> 'c apr_random_t \<Rightarrow> byte \<Rightarrow> 'c apr_random_t option" where
  "add_byte junk g b =
     (let i = r_next_pool g in
      if i < length (r_pools g) then do {
        let g = g\<lparr>r_next_pool := (if i + 1 = r_npools g then 0 else i + 1)\<rparr>;
        let p = pool_room junk (r_pools g ! i);
        p \<leftarrow> (if p_bytes p < length (p_pool p) then Some (p\<lparr>p_pool := (p_pool p)[p_bytes p := b], p_bytes := p_bytes p + 1\<rparr>) else None);
        (p, h) \<leftarrow> rehash_pool (r_pool_hash g) (r_rehash_size g) p;
        if p_bytes p < r_rehash_size g then Some (g\<lparr>r_pools := (r_pools g)[i := p], r_pool_hash := h\<rparr>) else None
      }
      else None)"

fun add_bytes :: "(nat \<Rightarrow> byte) \<Rightarrow> 'c apr_random_t \<Rightarrow> byte list \<Rightarrow> 'c apr_random_t option" where
  "add_bytes junk g [] = Some g"
| "add_bytes junk g (b # bs) = do { g \<leftarrow> add_byte junk g b; add_bytes junk g bs }"

text \<open>
  The index \<open>n\<close> of the loop has 32 bits and \<open>bytes\<close> has 64: from \<open>2 ^ 32\<close> bytes on the index wraps and the loop
  never ends, which is the result \<open>None\<close>.
\<close>

definition apr_random_add_entropy :: "(nat \<Rightarrow> byte) \<Rightarrow> 'c apr_random_t \<Rightarrow> byte list \<Rightarrow> 'c apr_random_t option" where
  "apr_random_add_entropy junk g entropy =
     (if length entropy < 2 ^ 32 then do {
        g \<leftarrow> add_bytes junk g entropy;
        if r_pools g = [] then None
        else if r_reseed_size g \<le> p_bytes (r_pools g ! 0) then rekey g else Some g
      }
      else None)"

section \<open>Random bytes\<close>

text \<open>A block of randomness in the array \<open>randomness\<close>.\<close>

definition apr_random_block :: "'c apr_random_t \<Rightarrow> 'c apr_random_t option" where
  "apr_random_block g = do {
     (H, h) \<leftarrow> hash_macro (r_prng_hash g) (r_H g) 0 (take (H_size g) (r_H g));
     let g = g\<lparr>r_H := H, r_prng_hash := h\<rparr>;
     (random, h) \<leftarrow> hash_macro (r_prng_hash g) (r_randomness g) 0 (take (B_size g) (r_H g));
     Some (g\<lparr>r_randomness := random, r_prng_hash := h\<rparr>)
   }"

text \<open>
  The loop that copies \<open>n\<close> more bytes; \<open>None\<close> is also a block of no bytes, with which it would not end.
\<close>

partial_function (option) random_bytes_loop :: "'c apr_random_t \<Rightarrow> byte list \<Rightarrow> nat \<Rightarrow> (byte list \<times> 'c apr_random_t) option" where
  [code]: "random_bytes_loop g out n =
     (if 0 < n then do {
        g \<leftarrow> (if r_random_bytes g = 0 then do { g \<leftarrow> apr_random_block g; Some (g\<lparr>r_random_bytes := B_size g\<rparr>) } else Some g);
        let l = min n (r_random_bytes g);
        let i = B_size g - r_random_bytes g;
        if r_random_bytes g \<le> B_size g \<and> i + l \<le> length (r_randomness g) then
          random_bytes_loop (g\<lparr>r_random_bytes := r_random_bytes g - l\<rparr>) (out @ take l (drop i (r_randomness g))) (n - l)
        else None
      }
      else Some (out, g))"

definition apr_random_bytes :: "'c apr_random_t \<Rightarrow> nat \<Rightarrow> (byte list \<times> 'c apr_random_t) option" where
  "apr_random_bytes g bytes = random_bytes_loop g [] bytes"

text \<open>The status, the bytes written and the generator.\<close>

definition apr_random_secure_bytes :: "'c apr_random_t \<Rightarrow> nat \<Rightarrow> (apr_status_t \<times> byte list \<times> 'c apr_random_t) option" where
  "apr_random_secure_bytes g bytes =
     (if \<not> r_secure_started g then Some (APR_ENOTENOUGHENTROPY, [], g)
      else do { (out, g) \<leftarrow> apr_random_bytes g bytes; Some (APR_SUCCESS, out, g) })"

definition apr_random_insecure_bytes :: "'c apr_random_t \<Rightarrow> nat \<Rightarrow> (apr_status_t \<times> byte list \<times> 'c apr_random_t) option" where
  "apr_random_insecure_bytes g bytes =
     (if \<not> r_insecure_started g then Some (APR_ENOTENOUGHENTROPY, [], g)
      else do { (out, g) \<leftarrow> apr_random_bytes g bytes; Some (APR_SUCCESS, out, g) })"

definition apr_random_barrier :: "'c apr_random_t \<Rightarrow> 'c apr_random_t" where
  "apr_random_barrier g = g\<lparr>r_secure_started := False, r_secure_base := r_generation g\<rparr>"

definition apr_random_secure_ready :: "'c apr_random_t \<Rightarrow> apr_status_t" where
  "apr_random_secure_ready r = (if \<not> r_secure_started r then APR_ENOTENOUGHENTROPY else APR_SUCCESS)"

definition apr_random_insecure_ready :: "'c apr_random_t \<Rightarrow> apr_status_t" where
  "apr_random_insecure_ready r = (if \<not> r_insecure_started r then APR_ENOTENOUGHENTROPY else APR_SUCCESS)"

section \<open>All generators\<close>

text \<open>
  The generators by their address, and the list \<open>all_random\<close> of the registered ones in the order of their
  \<open>next\<close> fields.
\<close>

record 'c random_world =
  w_gens :: "nat \<rightharpoonup> 'c apr_random_t"
  all_random :: "nat list"

definition register_random :: "'c random_world \<Rightarrow> nat \<Rightarrow> 'c apr_random_t \<Rightarrow> 'c random_world" where
  "register_random w i g = w\<lparr>w_gens := (w_gens w)(i \<mapsto> g), all_random := i # all_random w\<rparr>"

definition random_cleanup :: "'c random_world \<Rightarrow> nat \<Rightarrow> 'c random_world" where
  "random_cleanup w i = w\<lparr>all_random := remove1 i (all_random w)\<rparr>"

fun mix_all :: "(nat \<rightharpoonup> 'c apr_random_t) \<Rightarrow> u32 \<Rightarrow> nat list \<Rightarrow> (nat \<rightharpoonup> 'c apr_random_t) option" where
  "mix_all gens pid [] = Some gens"
| "mix_all gens pid (i # is) = do { r \<leftarrow> gens i; r \<leftarrow> mixer r pid; mix_all (gens(i \<mapsto> r)) pid is }"

definition apr_random_after_fork :: "'c random_world \<Rightarrow> u32 \<Rightarrow> 'c random_world option" where
  "apr_random_after_fork w pid = map_option (\<lambda>gens. w\<lparr>w_gens := gens\<rparr>) (mix_all (w_gens w) pid (all_random w))"

end
