(* ===== verification/Apr_Sha2_Spec.thy ===== *)
theory Apr_Sha2_Spec
  imports Apr_Sha2
begin

unbundle bit_operations_syntax

text \<open>
  SHA-256 against its standard. The transformation on the circular buffer is the compression of a block
  with the full message schedule, also when the block is in the buffer itself; a stream of updates keeps the
  hash of the whole blocks and the rest; the final call pads. The result depends only on the data, not on
  the pieces in which they come.
\<close>

section \<open>The standard\<close>

text \<open>
  SHA-256 as FIPS 180-4 defines it: big-endian words, rotations, a message schedule of 64 words, the
  compression of a block, and the hash of the padded message. The length that is appended is taken modulo
  \<open>2 ^ 64\<close>.
\<close>

definition be_word :: "byte list \<Rightarrow> u32" where
  "be_word bs = foldl (\<lambda>w b. push_bit 8 w OR ucast b) 0 bs"

definition be_bytes :: "nat \<Rightarrow> 'a::len word \<Rightarrow> byte list" where
  "be_bytes n w = map (\<lambda>i. ucast (drop_bit (8 * i) w)) (rev [0..<n])"

definition lower_sigma0 :: "u32 \<Rightarrow> u32" where
  "lower_sigma0 x = word_rotr 7 x XOR word_rotr 18 x XOR drop_bit 3 x"

definition lower_sigma1 :: "u32 \<Rightarrow> u32" where
  "lower_sigma1 x = word_rotr 17 x XOR word_rotr 19 x XOR drop_bit 10 x"

fun schedule :: "byte list \<Rightarrow> nat \<Rightarrow> u32" where
  "schedule M t =
     (if t < 16 then be_word (take 4 (drop (4 * t) M))
      else lower_sigma1 (schedule M (t - 2)) + schedule M (t - 7) + lower_sigma0 (schedule M (t - 15)) + schedule M (t - 16))"

declare schedule.simps [simp del]

definition sha_round :: "byte list \<Rightarrow> nat \<Rightarrow> registers \<Rightarrow> registers" where
  "sha_round M t = (\<lambda>(a, b, c, d, e, f, g, h).
     let T1 = h + (word_rotr 6 e XOR word_rotr 11 e XOR word_rotr 25 e) + ((e AND f) XOR (NOT e AND g)) + K256 ! t + schedule M t;
         T2 = (word_rotr 2 a XOR word_rotr 13 a XOR word_rotr 22 a) + ((a AND b) XOR (a AND c) XOR (b AND c)) in
     (T1 + T2, a, b, c, d + T1, e, f, g))"

definition list_of_registers :: "registers \<Rightarrow> u32 list" where
  "list_of_registers = (\<lambda>(a, b, c, d, e, f, g, h). [a, b, c, d, e, f, g, h])"

definition compress :: "u32 list \<Rightarrow> byte list \<Rightarrow> u32 list" where
  "compress H M = map2 (+) H (list_of_registers (fold (sha_round M) [0..<64] (registers_of H)))"

fun sha_blocks :: "byte list \<Rightarrow> byte list list" where
  "sha_blocks bs = (if length bs < 64 then [] else take 64 bs # sha_blocks (drop 64 bs))"

declare sha_blocks.simps [simp del]

definition sha_pad :: "byte list \<Rightarrow> byte list" where
  "sha_pad m = m @ [0x80] @ replicate ((119 - length m mod 64) mod 64) 0 @ be_bytes 8 (of_nat (8 * length m) :: u64)"

definition sha256 :: "byte list \<Rightarrow> byte list" where
  "sha256 m = concat (map (be_bytes 4) (foldl compress sha256_initial_hash_value (sha_blocks (sha_pad m))))"

section \<open>Words and bytes\<close>

lemma S32_rotr: "0 < b \<Longrightarrow> b < 32 \<Longrightarrow> S32 b x = word_rotr b x"
proof (rule bit_word_eqI)
  fix n assume b: "0 < b" "b < 32" and n: "n < LENGTH(32)"
  then have "(n + b) mod 32 = (if n + b < 32 then n + b else n + b - 32)" by (simp add: mod_if)
  then show "bit (S32 b x) n = bit (word_rotr b x) n" using b n
    by (auto simp: S32_def bit_simps add.commute [of b] dest: bit_imp_le_length)
qed

lemma sigma_rotr: "sigma0_256 x = lower_sigma0 x" "sigma1_256 x = lower_sigma1 x"
  by (simp_all add: sigma0_256_def sigma1_256_def lower_sigma0_def lower_sigma1_def S32_rotr R_shift_def)

lemma compression_round: "schedule M t = w \<Longrightarrow> compression regs (K256 ! t) w = sha_round M t regs"
  by (cases regs) (simp add: compression_def sha_round_def Sigma0_256_def Sigma1_256_def Ch_def Maj_def S32_rotr)

lemma length_store32 [simp]: "length (store32 bs j w) = length bs"
  by (simp add: store32_def)

lemma byte_position:
  assumes "n < (32 :: nat)"
  obtains m where "m < 8" "n = m \<or> n = m + 8 \<or> n = m + 16 \<or> n = m + 24"
proof -
  have "n < 8 \<or> 8 \<le> n \<and> n < 16 \<or> 16 \<le> n \<and> n < 24 \<or> 24 \<le> n \<and> n < 32" using assms by arith
  then show thesis using that [of n] that [of "n - 8"] that [of "n - 16"] that [of "n - 24"] by auto
qed

definition le_word :: "byte \<Rightarrow> byte \<Rightarrow> byte \<Rightarrow> byte \<Rightarrow> u32" where
  "le_word b0 b1 b2 b3 = ucast b0 OR push_bit 8 (ucast b1) OR push_bit 16 (ucast b2) OR push_bit 24 (ucast b3)"

lemma bit_le_word:
  assumes "m < 8"
  shows "bit (le_word b0 b1 b2 b3) m = bit b0 m" "bit (le_word b0 b1 b2 b3) (m + 8) = bit b1 m"
    "bit (le_word b0 b1 b2 b3) (m + 16) = bit b2 m" "bit (le_word b0 b1 b2 b3) (m + 24) = bit b3 m"
  using assms by (auto simp: le_word_def bit_simps dest: bit_imp_le_length)

lemma le_word_bytes: "le_word (ucast w) (ucast (drop_bit 8 w)) (ucast (drop_bit 16 w)) (ucast (drop_bit 24 w)) = w"
proof (rule bit_word_eqI)
  fix n assume "n < LENGTH(32)"
  then obtain m where m: "m < 8" "n = m \<or> n = m + 8 \<or> n = m + 16 \<or> n = m + 24" using byte_position by auto
  then show "bit (le_word (ucast w) (ucast (drop_bit 8 w)) (ucast (drop_bit 16 w)) (ucast (drop_bit 24 w))) n = bit w n"
    by (auto simp: bit_le_word bit_simps add.commute)
qed

lemma load32_le: "load32 bs j = le_word (bs ! (4 * j)) (bs ! (4 * j + 1)) (bs ! (4 * j + 2)) (bs ! (4 * j + 3))"
  by (simp add: load32_def le_word_def)

lemma load32_store32:
  assumes "4 * j + 4 \<le> length bs"
  shows "load32 (store32 bs j w) i = (if i = j then w else load32 bs i)"
proof (cases "i = j")
  case True
  then show ?thesis using assms le_word_bytes [of w] by (simp add: load32_le store32_def)
next
  case False
  have "store32 bs j w ! n = bs ! n" if "n div 4 = i" for n
    using that False by (auto simp: store32_def nth_list_update)
  from this [of "4 * i"] this [of "4 * i + 1"] this [of "4 * i + 2"] this [of "4 * i + 3"] show ?thesis
    using False by (simp add: load32_le)
qed

lemma masks32: "0xff00ff00 = (push_bit 8 (mask 8) OR push_bit 24 (mask 8) :: u32)" "0x00ff00ff = (mask 8 OR push_bit 16 (mask 8) :: u32)"
  by (simp_all add: mask_numeral)

lemma REVERSE32_le_word: "REVERSE32 (le_word b0 b1 b2 b3) = le_word b3 b2 b1 b0"
proof (rule bit_word_eqI)
  fix n assume "n < LENGTH(32)"
  then obtain m where m: "m < 8" "n = m \<or> n = m + 8 \<or> n = m + 16 \<or> n = m + 24" using byte_position by auto
  let ?w = "le_word b0 b1 b2 b3"
  have "bit (REVERSE32 ?w) m = bit ?w (m + 24)" "bit (REVERSE32 ?w) (m + 8) = bit ?w (m + 16)"
    "bit (REVERSE32 ?w) (m + 16) = bit ?w (m + 8)" "bit (REVERSE32 ?w) (m + 24) = bit ?w m"
    using m(1) unfolding REVERSE32_def Let_def masks32 by (auto simp: bit_simps add.commute dest: bit_imp_le_length)
  then show "bit (REVERSE32 ?w) n = bit (le_word b3 b2 b1 b0) n" using m by (auto simp: bit_le_word)
qed

lemma be_word_4: "be_word [b0, b1, b2, b3] = le_word b3 b2 b1 b0"
  by (simp add: be_word_def le_word_def push_bit_or or.commute or.left_commute or.assoc)

lemma be_bytes_4: "be_bytes 4 (w :: u32) = [ucast (drop_bit 24 w), ucast (drop_bit 16 w), ucast (drop_bit 8 w), ucast w]"
  by (simp add: be_bytes_def numeral_eq_Suc)

lemma REVERSE32_load32:
  assumes "4 * j + 4 \<le> length bs"
  shows "REVERSE32 (load32 bs j) = be_word (take 4 (drop (4 * j) bs))"
proof -
  have "take 4 (drop (4 * j) bs) = [bs ! (4 * j), bs ! (4 * j + 1), bs ! (4 * j + 2), bs ! (4 * j + 3)]"
    using assms by (intro nth_equalityI) (auto simp: less_Suc_eq numeral_eq_Suc)
  then show ?thesis by (simp add: load32_le REVERSE32_le_word be_word_4)
qed

section \<open>The transformation is the compression\<close>

definition keeps :: "byte list \<Rightarrow> sha_data \<Rightarrow> nat \<Rightarrow> byte list \<Rightarrow> bool" where
  "keeps M data j W \<longleftrightarrow> length W = 64 \<and> (\<forall>t < j. load32 W t = schedule M t) \<and>
     (\<forall>t. j \<le> t \<longrightarrow> t < 16 \<longrightarrow> REVERSE32 (data_word data W t) = schedule M t)"

text \<open>Storing the word \<open>j\<close> leaves the data after it as they were, also when they are in the same array.\<close>

lemma keeps_store:
  assumes "keeps M data j W" "j < 16"
  shows "keeps M data (Suc j) (store32 W j (schedule M j))"
proof -
  have "data_word data (store32 W j w) t = data_word data W t" if "t \<noteq> j" for t w
    using that assms by (cases data) (simp_all add: data_word_def load32_store32 keeps_def)
  then show ?thesis using assms by (auto simp: keeps_def load32_store32 less_Suc_eq)
qed

lemma rounds_0_15_schedule:
  assumes "keeps M data j W" "j < 16"
  shows "\<exists>W'. rounds_0_15 data j regs W = (fold (sha_round M) [j..<16] regs, W') \<and> keeps M data 16 W'"
  using assms
proof (induction "15 - j" arbitrary: j regs W)
  case 0
  then have j: "j = 15" by simp
  let ?W = "store32 W j (schedule M j)"
  have k: "keeps M data 16 ?W" using keeps_store [OF 0(2,3)] j by simp
  then have "load32 ?W j = schedule M j" using j by (simp add: keeps_def)
  then show ?case using 0(2) j k
    by (subst rounds_0_15.simps) (simp add: keeps_def compression_round)
next
  case (Suc n)
  let ?W = "store32 W j (schedule M j)"
  have "j < 15" using Suc(2) by simp
  have k: "keeps M data (Suc j) ?W" by (rule keeps_store [OF Suc(3,4)])
  then have l: "load32 ?W j = schedule M j" by (simp add: keeps_def)
  have "\<exists>W'. rounds_0_15 data (Suc j) (sha_round M j regs) ?W = (fold (sha_round M) [Suc j..<16] (sha_round M j regs), W') \<and> keeps M data 16 W'"
    using Suc(2,4) k by (intro Suc(1)) auto
  moreover have "rounds_0_15 data j regs W = rounds_0_15 data (Suc j) (sha_round M j regs) ?W"
    using Suc(3,4) l \<open>j < 15\<close> by (subst rounds_0_15.simps) (simp add: keeps_def compression_round Let_def)
  ultimately show ?case using Suc(4) by (simp add: upt_conv_Cons)
qed

text \<open>The words of the circular buffer are the last 16 of the schedule.\<close>

definition circular :: "byte list \<Rightarrow> nat \<Rightarrow> byte list \<Rightarrow> bool" where
  "circular M j W \<longleftrightarrow> length W = 64 \<and> (\<forall>t. t < j \<longrightarrow> j \<le> t + 16 \<longrightarrow> load32 W (t mod 16) = schedule M t)"

lemma and_15: "n AND 15 = n mod (16 :: nat)"
  using take_bit_eq_mask [of 4 n] by (simp add: take_bit_eq_mod mask_numeral)

lemma mod_16: "n = m + 16 \<Longrightarrow> n mod 16 = m mod (16 :: nat)"
  by simp

lemma circular_step:
  assumes "circular M j W" "16 \<le> j"
  shows "load32 W (j AND 15) + (sigma1_256 (load32 W ((j + 14) AND 15)) + load32 W ((j + 9) AND 15) + sigma0_256 (load32 W ((j + 1) AND 15))) = schedule M j"
    and "circular M (Suc j) (store32 W (j AND 15) (schedule M j))" "load32 (store32 W (j AND 15) (schedule M j)) (j AND 15) = schedule M j"
proof -
  have old: "load32 W (t mod 16) = schedule M t" if "t < j" "j \<le> t + 16" for t using assms(1) that by (simp add: circular_def)
  have e: "j mod 16 = (j - 16) mod 16" "(j + 14) mod 16 = (j - 2) mod 16" "(j + 9) mod 16 = (j - 7) mod 16" "(j + 1) mod 16 = (j - 15) mod 16"
    by (rule mod_16, use assms(2) in linarith)+
  have "load32 W (j AND 15) = schedule M (j - 16)" "load32 W ((j + 14) AND 15) = schedule M (j - 2)"
    "load32 W ((j + 9) AND 15) = schedule M (j - 7)" "load32 W ((j + 1) AND 15) = schedule M (j - 15)"
    unfolding and_15 e by (rule old; use assms(2) in linarith)+
  moreover have "schedule M j = lower_sigma1 (schedule M (j - 2)) + schedule M (j - 7) + lower_sigma0 (schedule M (j - 15)) + schedule M (j - 16)"
    using assms(2) by (subst schedule.simps) simp
  ultimately show "load32 W (j AND 15) + (sigma1_256 (load32 W ((j + 14) AND 15)) + load32 W ((j + 9) AND 15) + sigma0_256 (load32 W ((j + 1) AND 15))) = schedule M j"
    by (simp only: sigma_rotr add.commute)
  have len: "length W = 64" "4 * (j mod 16) + 4 \<le> 64" using assms(1) mod_less_divisor [of 16 j] by (simp_all add: circular_def)
  then show "load32 (store32 W (j AND 15) (schedule M j)) (j AND 15) = schedule M j" by (simp add: load32_store32 and_15)
  have "t mod 16 \<noteq> j mod 16" if "t < j" "j < t + 16" for t
  proof
    assume "t mod 16 = j mod 16"
    then have "16 dvd j - t" using that(1) mod_eq_dvd_iff_nat [of t j 16] by simp
    then show False using that dvd_imp_le [of 16 "j - t"] by simp
  qed
  then have "load32 (store32 W (j mod 16) (schedule M j)) (t mod 16) = schedule M t" if "t < Suc j" "Suc j \<le> t + 16" for t
    using that len old [of t] by (cases "t = j") (simp_all add: load32_store32)
  then show "circular M (Suc j) (store32 W (j AND 15) (schedule M j))" using len(1) by (simp add: circular_def and_15)
qed

lemma rounds_16_63_schedule:
  assumes "circular M j W" "16 \<le> j" "j < 64"
  shows "\<exists>W'. rounds_16_63 j regs W = (fold (sha_round M) [j..<64] regs, W') \<and> length W' = 64"
  using assms
proof (induction "63 - j" arbitrary: j regs W)
  case 0
  then have j: "j = 63" by simp
  show ?case using circular_step [OF 0(2,3)] j
    by (subst rounds_16_63.simps) (simp add: compression_round circular_def)
next
  case (Suc n)
  let ?W = "store32 W (j AND 15) (schedule M j)"
  note step = circular_step [OF Suc(3,4)]
  have "j < 63" using Suc(2) by simp
  have "\<exists>W'. rounds_16_63 (Suc j) (sha_round M j regs) ?W = (fold (sha_round M) [Suc j..<64] (sha_round M j regs), W') \<and> length W' = 64"
    using Suc(2,4,5) step(2) by (intro Suc(1)) auto
  moreover have "rounds_16_63 j regs W = rounds_16_63 (Suc j) (sha_round M j regs) ?W"
    using \<open>j < 63\<close> by (subst rounds_16_63.simps) (simp only: Let_def step compression_round [OF refl], simp)
  ultimately show ?case using Suc(5) by (simp add: upt_conv_Cons)
qed

lemma add_registers_list: "length H = 8 \<Longrightarrow> add_registers H regs = map2 (+) H (list_of_registers regs)"
  by (cases regs) (auto simp: add_registers_def list_of_registers_def numeral_eq_Suc length_Suc_conv)

text \<open>The block that a transformation reads.\<close>

definition block_of :: "SHA256_CTX \<Rightarrow> sha_data \<Rightarrow> byte list" where
  "block_of ctx data = (case data of In_buffer \<Rightarrow> s_buffer ctx | At bs \<Rightarrow> take 64 bs)"

definition sha_inv :: "SHA256_CTX \<Rightarrow> bool" where
  "sha_inv ctx \<longleftrightarrow> length (s_state ctx) = 8 \<and> length (s_buffer ctx) = 64"

lemma transform_compress:
  assumes "sha_inv ctx" "length (block_of ctx data) = 64"
  obtains W where "apr__SHA256_Transform ctx data =
    ctx\<lparr>s_state := compress (s_state ctx) (block_of ctx data), s_buffer := W\<rparr>" "length W = 64"
proof -
  let ?M = "block_of ctx data" and ?regs = "registers_of (s_state ctx)"
  have word: "be_word (take 4 (drop (4 * t) ?M)) = REVERSE32 (data_word data (s_buffer ctx) t)" if "t < 16" for t
  proof (cases data)
    case In_buffer
    then show ?thesis using that assms by (simp add: block_of_def data_word_def REVERSE32_load32)
  next
    case (At bs)
    then have "64 \<le> length bs" using assms(2) by (simp add: block_of_def)
    then show ?thesis using At that by (simp add: block_of_def data_word_def REVERSE32_load32 drop_take min_def)
  qed
  then have "keeps ?M data 0 (s_buffer ctx)" using assms(1) by (simp add: keeps_def sha_inv_def schedule.simps)
  then obtain W where 1: "rounds_0_15 data 0 ?regs (s_buffer ctx) = (fold (sha_round ?M) [0..<16] ?regs, W)" "keeps ?M data 16 W"
    using rounds_0_15_schedule [of ?M data 0 "s_buffer ctx" ?regs] by auto
  then have "circular ?M 16 W" by (auto simp: keeps_def circular_def)
  then obtain W' where 2: "rounds_16_63 16 (fold (sha_round ?M) [0..<16] ?regs) W = (fold (sha_round ?M) [16..<64] (fold (sha_round ?M) [0..<16] ?regs), W')"
    "length W' = 64"
    using rounds_16_63_schedule [of ?M 16 W "fold (sha_round ?M) [0..<16] ?regs", OF _ order_refl] by (auto simp del: upt_rec_numeral)
  have "[0..<64 :: nat] = [0..<16] @ [16..<64]" using upt_add_eq_append [of 0 16 48] by simp
  then have "fold (sha_round ?M) [16..<64] (fold (sha_round ?M) [0..<16] ?regs) = fold (sha_round ?M) [0..<64] ?regs"
    by (simp del: upt_rec_numeral)
  with 1 2 show thesis
    by (intro that [of W']) (simp_all add: apr__SHA256_Transform_def compress_def add_registers_list assms(1) [unfolded sha_inv_def] del: upt_rec_numeral)
qed

section \<open>Updates\<close>

lemma sha_blocks_append: "64 dvd length a \<Longrightarrow> sha_blocks (a @ b) = sha_blocks a @ sha_blocks b"
proof (induction a rule: sha_blocks.induct)
  case (1 a)
  show ?case
  proof (cases "length a < 64")
    case True
    then have "a = []" using 1(2) by (auto dest: dvd_imp_le)
    then show ?thesis by (simp add: sha_blocks.simps)
  next
    case False
    then have "64 dvd length (drop 64 a)" using 1(2) by (simp add: dvd_diff_nat)
    from 1(1) [OF False this] show ?thesis using False by (simp add: sha_blocks.simps [of "a @ b"] sha_blocks.simps [of a])
  qed
qed

lemma sha_blocks_one: "length b = 64 \<Longrightarrow> sha_blocks b = [b]" "length b < 64 \<Longrightarrow> sha_blocks b = []"
  by (simp_all add: sha_blocks.simps)

definition block_hash :: "byte list \<Rightarrow> u32 list" where
  "block_hash a = foldl compress sha256_initial_hash_value (sha_blocks a)"

lemma compress_length: "length H = 8 \<Longrightarrow> length (compress H M) = 8"
  by (simp add: compress_def list_of_registers_def split: prod.splits)

lemma length_block_hash [simp]: "length (block_hash a) = 8"
proof -
  have "length H = 8 \<Longrightarrow> length (foldl compress H Ms) = 8" for H Ms by (induction Ms arbitrary: H) (simp_all add: compress_length)
  then show ?thesis by (simp add: block_hash_def sha256_initial_hash_value_def)
qed

lemma block_hash_append: "64 dvd length a \<Longrightarrow> length b = 64 \<Longrightarrow> block_hash (a @ b) = compress (block_hash a) b"
  by (simp add: block_hash_def sha_blocks_append sha_blocks_one)

text \<open>
  A context that has absorbed \<open>a @ r\<close>: its state is the compression of the blocks of \<open>a\<close>, and the rest \<open>r\<close> is
  at the start of the buffer.
\<close>

definition absorbed :: "SHA256_CTX \<Rightarrow> byte list \<Rightarrow> byte list \<Rightarrow> bool" where
  "absorbed ctx a r \<longleftrightarrow> sha_inv ctx \<and> 64 dvd length a \<and> length r < 64 \<and> take (length r) (s_buffer ctx) = r \<and>
     s_state ctx = block_hash a \<and> s_bitcount ctx = of_nat (8 * length (a @ r))"

lemma usedspace_length:
  assumes "s_bitcount ctx = of_nat (8 * n)"
  shows "usedspace_of ctx = n mod 64"
proof -
  have "unat (s_bitcount ctx) = 8 * n mod 2 ^ 64" unfolding assms by (simp add: unat_of_nat del: of_nat_mult)
  then have "unat (drop_bit 3 (s_bitcount ctx)) = (8 * n mod 2 ^ 64) div 2 ^ 3" by (metis unat_drop_bit_eq drop_bit_eq_div)
  also have "\<dots> = n mod 2 ^ 61" using mult_mod_right [of 8 n "2 ^ 61", symmetric] by simp
  finally show ?thesis by (simp add: usedspace_of_def unat_mod SHA256_lengths mod_mod_cancel)
qed

lemma add_bitcount_length:
  "s_bitcount ctx = of_nat (8 * n) \<Longrightarrow> add_bitcount ctx l = ctx\<lparr>s_bitcount := of_nat (8 * (n + l))\<rparr>"
  by (simp add: add_bitcount_def push_bit_eq_mult algebra_simps)

text \<open>A whole block in the buffer or in other memory.\<close>

lemma absorbed_block:
  assumes "sha_inv ctx" "64 dvd length a" "s_state ctx = block_hash a"
    "block_of ctx data = b" "length b = 64"
  obtains W where "apr__SHA256_Transform ctx data =
      ctx\<lparr>s_state := block_hash (a @ b), s_buffer := W\<rparr>" "length W = 64"
proof -
  obtain W where "apr__SHA256_Transform ctx data = ctx\<lparr>s_state := compress (s_state ctx) b, s_buffer := W\<rparr>" "length W = 64"
    using transform_compress [OF assms(1), of data] assms(4,5) by metis
  then show thesis using assms by (intro that [of W]) (simp_all add: block_hash_append)
qed

lemma whole_blocks_absorb:
  assumes "absorbed ctx a []"
  shows "\<exists>ctx' a' r. whole_blocks ctx data = (ctx', r) \<and> absorbed ctx' a' [] \<and> a' @ r = a @ data \<and> length r < 64"
  using assms
proof (induction "length data" arbitrary: ctx a data rule: less_induct)
  case less
  show ?case
  proof (cases "64 \<le> length data")
    case False
    then show ?thesis using less.prems by (subst whole_blocks.simps) (simp add: SHA256_lengths)
  next
    case True
    let ?b = "take 64 data"
    obtain W where W: "apr__SHA256_Transform ctx (At data) =
        ctx\<lparr>s_state := block_hash (a @ ?b), s_buffer := W\<rparr>" "length W = 64"
      using absorbed_block [of ctx a "At data" ?b] less.prems True by (auto simp: absorbed_def block_of_def)
    let ?c = "add_bitcount (apr__SHA256_Transform ctx (At data)) 64"
    have "absorbed ?c (a @ ?b) []"
      using less.prems True W by (simp add: absorbed_def sha_inv_def add_bitcount_length [of _ "length a"])
    from less.hyps [OF _ this, of "drop 64 data"] True show ?thesis
      by (subst whole_blocks.simps) (simp add: SHA256_lengths)
  qed
qed

lemma MEMCPY_BCOPY_prefix:
  "i + length s \<le> length d \<Longrightarrow> take (i + length s) (MEMCPY_BCOPY d i s) = take i d @ s"
  "i + length s \<le> length d \<Longrightarrow> length (MEMCPY_BCOPY d i s) = length d"
  by (simp_all add: MEMCPY_BCOPY_def)

text \<open>Data that do not fill a block only go to the buffer.\<close>

lemma absorb_rest:
  assumes "absorbed ctx a r" "length r + length s < 64"
  shows "absorbed (add_bitcount (ctx\<lparr>s_buffer := MEMCPY_BCOPY (s_buffer ctx) (length r) s\<rparr>) (length s)) a (r @ s)"
  using assms MEMCPY_BCOPY_prefix [of "length r" s "s_buffer ctx"]
  by (simp add: absorbed_def sha_inv_def add_bitcount_length [of _ "length a + length r"] add.assoc)

text \<open>The data that fill the buffer.\<close>

lemma absorb_full:
  assumes "absorbed ctx a r" "length r + length s = 64"
  defines "ctx' \<equiv> add_bitcount (ctx\<lparr>s_buffer := MEMCPY_BCOPY (s_buffer ctx) (length r) s\<rparr>) (length s)"
  shows "absorbed (apr__SHA256_Transform ctx' In_buffer) (a @ r @ s) []"
proof -
  have c: "ctx' = ctx\<lparr>s_buffer := MEMCPY_BCOPY (s_buffer ctx) (length r) s, s_bitcount := of_nat (8 * (length a + length r + length s))\<rparr>"
    using assms(1) by (simp add: ctx'_def absorbed_def add_bitcount_length [of _ "length a + length r"])
  have b: "MEMCPY_BCOPY (s_buffer ctx) (length r) s = r @ s"
    using assms(1,2) by (simp add: absorbed_def sha_inv_def MEMCPY_BCOPY_def)
  obtain W where "apr__SHA256_Transform ctx' In_buffer =
      ctx'\<lparr>s_state := block_hash (a @ r @ s), s_buffer := W\<rparr>" "length W = 64"
    using absorbed_block [of ctx' a In_buffer "r @ s"] assms(1,2)
    by (auto simp: absorbed_def sha_inv_def block_of_def c b)
  then show ?thesis using assms(1,2) by (simp add: absorbed_def sha_inv_def c add.assoc)
qed

lemma update_absorbs:
  assumes "absorbed ctx a r"
  shows "\<exists>a' r'. absorbed (apr__SHA256_Update ctx data) a' r' \<and> a' @ r' = a @ r @ data"
proof -
  have used: "usedspace_of ctx = length r"
    using assms usedspace_length [of ctx "length a + length r"] by (auto simp: absorbed_def dvd_def)
  have blocks: "\<exists>a' r'. absorbed (let (ctx, data) = whole_blocks c d in
      if 0 < length data then add_bitcount (ctx\<lparr>s_buffer := MEMCPY_BCOPY (s_buffer ctx) 0 data\<rparr>) (length data) else ctx) a' r' \<and>
      a' @ r' = b @ d" if "absorbed c b []" for c b d
  proof -
    obtain c' a' r where *: "whole_blocks c d = (c', r)" "absorbed c' a' []" "a' @ r = b @ d" "length r < 64"
      using whole_blocks_absorb [OF \<open>absorbed c b []\<close>, of d] by auto
    then show ?thesis using absorb_rest [OF *(2), of r] by (cases "r = []") auto
  qed
  consider "data = []" | "data \<noteq> []" "r = []" | "data \<noteq> []" "r \<noteq> []" "length r + length data < 64"
    | "data \<noteq> []" "r \<noteq> []" "64 \<le> length r + length data" by linarith
  then show ?thesis
  proof cases
    case 1
    then show ?thesis using assms by (auto simp: apr__SHA256_Update_def)
  next
    case 2
    then show ?thesis using blocks [of ctx a data] assms used by (simp add: apr__SHA256_Update_def)
  next
    case 3
    then show ?thesis using absorb_rest [OF assms, of data] used
      by (intro exI [of _ a] exI [of _ "r @ data"]) (simp add: apr__SHA256_Update_def SHA256_lengths Let_def less_diff_conv add.commute)
  next
    case 4
    let ?s = "take (64 - length r) data"
    have "length r + length ?s = 64" using 4(3) assms by (simp add: absorbed_def)
    from blocks [OF absorb_full [OF assms this], of "drop (64 - length r) data"] 4 used show ?thesis
      by (simp add: apr__SHA256_Update_def SHA256_lengths Let_def less_diff_conv add.commute)
  qed
qed

lemma init_absorbed: "absorbed apr__SHA256_Init [] []"
  by (simp add: absorbed_def sha_inv_def apr__SHA256_Init_def block_hash_def sha256_initial_hash_value_def sha_blocks_one SHA256_lengths)

lemma updates_absorb:
  assumes "absorbed ctx a r"
  shows "\<exists>a' r'. absorbed (foldl apr__SHA256_Update ctx chunks) a' r' \<and> a' @ r' = a @ r @ concat chunks"
  using assms
proof (induction chunks arbitrary: ctx a r)
  case Nil
  then show ?case by auto
next
  case (Cons s chunks)
  obtain a' r' where 1: "absorbed (apr__SHA256_Update ctx s) a' r'" "a' @ r' = a @ r @ s" using update_absorbs [OF Cons.prems] by blast
  obtain a2 r2 where "absorbed (foldl apr__SHA256_Update (apr__SHA256_Update ctx s) chunks) a2 r2" "a2 @ r2 = a' @ r' @ concat chunks"
    using Cons.IH [OF 1(1)] by blast
  then show ?case using 1(2) by (metis append.assoc concat.simps(2) foldl_Cons)
qed

section \<open>The digest\<close>

lemma masks64:
  "0xff00ff00ff00ff00 = (push_bit 8 (mask 8) OR push_bit 24 (mask 8) OR push_bit 40 (mask 8) OR push_bit 56 (mask 8) :: u64)"
  "0x00ff00ff00ff00ff = (mask 8 OR push_bit 16 (mask 8) OR push_bit 32 (mask 8) OR push_bit 48 (mask 8) :: u64)"
  "0xffff0000ffff0000 = (push_bit 16 (mask 16) OR push_bit 48 (mask 16) :: u64)"
  "0x0000ffff0000ffff = (mask 16 OR push_bit 32 (mask 16) :: u64)"
  by (simp_all add: mask_numeral)

text \<open>The three steps exchange neighbours of 32, 8 and 16 bits.\<close>

lemma not_bit: "\<not> bit (w :: u64) (m + 64)" "\<not> bit (w :: u64) (m + 72)" "\<not> bit (w :: u64) (m + 80)" "\<not> bit (w :: u64) (m + 88)"
  by (auto dest: bit_imp_le_length)

lemma exchange_bits:
  fixes w :: u64
  assumes "m < 8"
  shows "bit (drop_bit 32 w OR push_bit 32 w) m = bit w (m + 32)"
    "bit (drop_bit 32 w OR push_bit 32 w) (m + 8) = bit w (m + 40)"
    "bit (drop_bit 32 w OR push_bit 32 w) (m + 16) = bit w (m + 48)"
    "bit (drop_bit 32 w OR push_bit 32 w) (m + 24) = bit w (m + 56)"
    "bit (drop_bit 32 w OR push_bit 32 w) (m + 32) = bit w m"
    "bit (drop_bit 32 w OR push_bit 32 w) (m + 40) = bit w (m + 8)"
    "bit (drop_bit 32 w OR push_bit 32 w) (m + 48) = bit w (m + 16)"
    "bit (drop_bit 32 w OR push_bit 32 w) (m + 56) = bit w (m + 24)"
    and "bit (drop_bit 8 (w AND 0xff00ff00ff00ff00) OR push_bit 8 (w AND 0x00ff00ff00ff00ff)) m = bit w (m + 8)"
    "bit (drop_bit 8 (w AND 0xff00ff00ff00ff00) OR push_bit 8 (w AND 0x00ff00ff00ff00ff)) (m + 8) = bit w m"
    "bit (drop_bit 8 (w AND 0xff00ff00ff00ff00) OR push_bit 8 (w AND 0x00ff00ff00ff00ff)) (m + 16) = bit w (m + 24)"
    "bit (drop_bit 8 (w AND 0xff00ff00ff00ff00) OR push_bit 8 (w AND 0x00ff00ff00ff00ff)) (m + 24) = bit w (m + 16)"
    "bit (drop_bit 8 (w AND 0xff00ff00ff00ff00) OR push_bit 8 (w AND 0x00ff00ff00ff00ff)) (m + 32) = bit w (m + 40)"
    "bit (drop_bit 8 (w AND 0xff00ff00ff00ff00) OR push_bit 8 (w AND 0x00ff00ff00ff00ff)) (m + 40) = bit w (m + 32)"
    "bit (drop_bit 8 (w AND 0xff00ff00ff00ff00) OR push_bit 8 (w AND 0x00ff00ff00ff00ff)) (m + 48) = bit w (m + 56)"
    "bit (drop_bit 8 (w AND 0xff00ff00ff00ff00) OR push_bit 8 (w AND 0x00ff00ff00ff00ff)) (m + 56) = bit w (m + 48)"
    and "bit (drop_bit 16 (w AND 0xffff0000ffff0000) OR push_bit 16 (w AND 0x0000ffff0000ffff)) m = bit w (m + 16)"
    "bit (drop_bit 16 (w AND 0xffff0000ffff0000) OR push_bit 16 (w AND 0x0000ffff0000ffff)) (m + 8) = bit w (m + 24)"
    "bit (drop_bit 16 (w AND 0xffff0000ffff0000) OR push_bit 16 (w AND 0x0000ffff0000ffff)) (m + 16) = bit w m"
    "bit (drop_bit 16 (w AND 0xffff0000ffff0000) OR push_bit 16 (w AND 0x0000ffff0000ffff)) (m + 24) = bit w (m + 8)"
    "bit (drop_bit 16 (w AND 0xffff0000ffff0000) OR push_bit 16 (w AND 0x0000ffff0000ffff)) (m + 32) = bit w (m + 48)"
    "bit (drop_bit 16 (w AND 0xffff0000ffff0000) OR push_bit 16 (w AND 0x0000ffff0000ffff)) (m + 40) = bit w (m + 56)"
    "bit (drop_bit 16 (w AND 0xffff0000ffff0000) OR push_bit 16 (w AND 0x0000ffff0000ffff)) (m + 48) = bit w (m + 32)"
    "bit (drop_bit 16 (w AND 0xffff0000ffff0000) OR push_bit 16 (w AND 0x0000ffff0000ffff)) (m + 56) = bit w (m + 40)"
  using assms unfolding masks64 by (simp_all add: bit_simps add.commute not_bit)

lemma bit_REVERSE64:
  assumes "m < 8"
  shows "bit (REVERSE64 w) m = bit w (m + 56)"
    "bit (REVERSE64 w) (m + 8) = bit w (m + 48)"
    "bit (REVERSE64 w) (m + 16) = bit w (m + 40)"
    "bit (REVERSE64 w) (m + 24) = bit w (m + 32)"
    "bit (REVERSE64 w) (m + 32) = bit w (m + 24)"
    "bit (REVERSE64 w) (m + 40) = bit w (m + 16)"
    "bit (REVERSE64 w) (m + 48) = bit w (m + 8)"
    "bit (REVERSE64 w) (m + 56) = bit w m"
  unfolding REVERSE64_def Let_def by (simp_all only: exchange_bits [OF assms])

lemma byte_eqI: "(\<And>m. m < 8 \<Longrightarrow> bit v m = bit w m) \<Longrightarrow> v = (w :: byte)"
  by (rule bit_word_eqI) simp

lemma bytes64_REVERSE64: "bytes64 (REVERSE64 w) = be_bytes 8 w"
proof -
  have "[0..<8 :: nat] = [0, 1, 2, 3, 4, 5, 6, 7]" by code_simp
  then show ?thesis unfolding bytes64_def be_bytes_def
    by simp (intro conjI byte_eqI; simp add: bit_simps bit_REVERSE64 add.commute)
qed

lemma be_bytes_length [simp]: "length (be_bytes n w) = n"
  by (simp add: be_bytes_def)

text \<open>The padding.\<close>

lemma buffer_prefix:
  assumes "length B = 64" "take (length r) B = r" "length r < 64"
  obtains x q where "B = r @ x # q" "length r + length q = 63"
proof -
  have "B = r @ drop (length r) B" using assms(2) by (metis append_take_drop_id)
  moreover obtain x q where "drop (length r) B = x # q" using assms(1,3) by (cases "drop (length r) B") auto
  ultimately have B: "B = r @ x # q" by simp
  then have "length B = length r + Suc (length q)" by simp
  with B assms(1) show thesis by (intro that [of x q]) simp_all
qed

lemma pad_last_one_block:
  assumes "sha_inv ctx" "take (length r) (s_buffer ctx) = r" "length r \<le> 55"
  obtains B where "pad_last ctx (length r) = ctx\<lparr>s_buffer := B\<rparr>" "length B = 64" "take 56 B = r @ [0x80] @ replicate (55 - length r) 0"
proof -
  obtain x q where B: "s_buffer ctx = r @ x # q" "length r + length q = 63"
    using buffer_prefix [of "s_buffer ctx" r] assms by (auto simp: sha_inv_def)
  let ?B = "r @ 0x80 # replicate (55 - length r) 0 @ drop (55 - length r) q"
  have "pad_last ctx (length r) = ctx\<lparr>s_buffer := ?B\<rparr>"
    using assms(3) B replicate_Suc [of 55 "0 :: byte"]
    by (cases "r = []") (simp_all add: pad_last_def MEMSET_BZERO_def MEMCPY_BCOPY_def SHA256_lengths list_update_append drop_Cons')
  then show thesis using assms(3) B(2) by (intro that [of ?B]) (simp_all add: take_Cons')
qed

lemma pad_last_two_blocks:
  assumes "sha_inv ctx" "take (length r) (s_buffer ctx) = r" "56 \<le> length r" "length r < 64"
  obtains B where "pad_last ctx (length r) = ctx\<lparr>s_state := compress (s_state ctx) (r @ [0x80] @ replicate (63 - length r) 0), s_buffer := B\<rparr>"
    "length B = 64" "take 56 B = replicate 56 0"
proof -
  obtain x q where B: "s_buffer ctx = r @ x # q" "length r + length q = 63"
    using buffer_prefix [of "s_buffer ctx" r] assms by (auto simp: sha_inv_def)
  let ?b = "r @ [0x80] @ replicate (63 - length r) 0"
  let ?ctx = "ctx\<lparr>s_buffer := ?b\<rparr>"
  have "sha_inv ?ctx" "length (block_of ?ctx In_buffer) = 64" using assms(1,4) by (simp_all add: sha_inv_def block_of_def)
  from transform_compress [OF this] obtain W where
    W: "apr__SHA256_Transform ?ctx In_buffer = ?ctx\<lparr>s_state := compress (s_state ctx) ?b, s_buffer := W\<rparr>" "length W = 64"
    by (auto simp: block_of_def)
  have "pad_last ctx (length r) =
      (let c = apr__SHA256_Transform ?ctx In_buffer in c\<lparr>s_buffer := MEMSET_BZERO (s_buffer c) 0 SHA256_SHORT_BLOCK_LENGTH\<rparr>)"
    using assms(3,4) B by (cases q) (auto simp: pad_last_def MEMSET_BZERO_def MEMCPY_BCOPY_def SHA256_lengths list_update_append Let_def)
  then show thesis using W by (intro that [of "replicate 56 0 @ drop 56 W"])
    (simp_all add: MEMSET_BZERO_def MEMCPY_BCOPY_def SHA256_lengths)
qed

lemma bytes_le_word:
  "ucast (le_word b0 b1 b2 b3) = b0" "ucast (drop_bit 8 (le_word b0 b1 b2 b3)) = b1"
  "ucast (drop_bit 16 (le_word b0 b1 b2 b3)) = b2" "ucast (drop_bit 24 (le_word b0 b1 b2 b3)) = b3"
  by (auto intro!: byte_eqI simp: bit_simps bit_le_word add.commute [of _ "_ :: nat"])

lemma four_elements: "4 \<le> length xs \<Longrightarrow> \<exists>x0 x1 x2 x3 q. xs = x0 # x1 # x2 # x3 # q"
  by (auto simp: numeral_eq_Suc Suc_le_length_iff)

lemma store32_prefix:
  assumes "4 * j + 4 \<le> length d"
  shows "take (4 * Suc j) (store32 d j (REVERSE32 w)) = take (4 * j) d @ be_bytes 4 w"
proof -
  define b0 b1 b2 b3 where b: "b0 = (ucast w :: byte)" "b1 = (ucast (drop_bit 8 w) :: byte)" "b2 = (ucast (drop_bit 16 w) :: byte)"
    "b3 = (ucast (drop_bit 24 w) :: byte)"
  have w: "w = le_word b0 b1 b2 b3" by (simp add: b le_word_bytes)
  have "store32 d j (REVERSE32 w) = d[4 * j := b3, 4 * j + 1 := b2, 4 * j + 2 := b1, 4 * j + 3 := b0]"
    unfolding w REVERSE32_le_word by (simp add: store32_def bytes_le_word)
  moreover have "be_bytes 4 w = [b3, b2, b1, b0]" by (simp add: be_bytes_4 b)
  moreover have "take (4 * j + 4) (d[4 * j := b3, 4 * j + 1 := b2, 4 * j + 2 := b1, 4 * j + 3 := b0]) = take (4 * j) d @ [b3, b2, b1, b0]"
  proof -
    have "4 \<le> length (drop (4 * j) d)" using assms by simp
    then obtain x0 x1 x2 x3 q where "drop (4 * j) d = x0 # x1 # x2 # x3 # q" using four_elements by blast
    then have "d = take (4 * j) d @ x0 # x1 # x2 # x3 # q" "length (take (4 * j) d) = 4 * j" using assms by (metis append_take_drop_id, simp)
    then obtain p where "d = p @ x0 # x1 # x2 # x3 # q" "length p = 4 * j" by blast
    then show ?thesis by (simp add: list_update_append)
  qed
  ultimately show ?thesis by (simp add: add.commute)
qed

lemma store_digest_bytes:
  assumes "length s = 8" "length d = 32" "j \<le> 8"
  shows "snd (store_digest s d j) = take (4 * j) d @ concat (map (be_bytes 4) (drop j s))"
  using assms
proof (induction "8 - j" arbitrary: s d j)
  case 0
  then show ?case by (subst store_digest.simps) simp
next
  case (Suc n)
  let ?s = "s[j := REVERSE32 (s ! j)]" and ?d = "store32 d j (REVERSE32 (s ! j))"
  have j: "j < 8" using Suc(2) by simp
  have "snd (store_digest s d j) = snd (store_digest ?s ?d (Suc j))" using j Suc(3) by (subst store_digest.simps) simp
  also have "\<dots> = take (4 * Suc j) ?d @ concat (map (be_bytes 4) (drop (Suc j) ?s))" using Suc(2-4) j by (intro Suc(1)) auto
  also have "take (4 * Suc j) ?d = take (4 * j) d @ be_bytes 4 (s ! j)" using Suc(4) j by (intro store32_prefix) simp
  also have "drop (Suc j) ?s = drop (Suc j) s" by simp
  finally show ?case using j Suc(3) by (simp add: Cons_nth_drop_Suc [of j s, symmetric])
qed

lemma last_transform:
  assumes "length (s_buffer ctx) = 64" "take 56 (s_buffer ctx) = p" "s_state ctx = block_hash a" "64 dvd length a" "length L = 8"
  shows "s_state (apr__SHA256_Transform (ctx\<lparr>s_buffer := MEMCPY_BCOPY (s_buffer ctx) SHA256_SHORT_BLOCK_LENGTH L\<rparr>) In_buffer) = block_hash (a @ p @ L)"
proof -
  let ?ctx = "ctx\<lparr>s_buffer := MEMCPY_BCOPY (s_buffer ctx) SHA256_SHORT_BLOCK_LENGTH L\<rparr>"
  have p: "length p = 56" using assms(1,2) by auto
  have b: "MEMCPY_BCOPY (s_buffer ctx) SHA256_SHORT_BLOCK_LENGTH L = p @ L" using assms by (simp add: MEMCPY_BCOPY_def SHA256_lengths)
  have "sha_inv ?ctx" "block_of ?ctx In_buffer = p @ L" "length (p @ L) = 64" using assms p b by (simp_all add: sha_inv_def block_of_def)
  moreover have "s_state ?ctx = block_hash a" using assms(3) by simp
  ultimately obtain W where "apr__SHA256_Transform ?ctx In_buffer = ?ctx\<lparr>s_state := block_hash (a @ p @ L), s_buffer := W\<rparr>"
    using absorbed_block [OF _ assms(4)] by metis
  then show ?thesis by simp
qed

lemma final_sha256:
  assumes "absorbed ctx a r" "length d = 32"
  shows "apr__SHA256_Final (Some d) ctx = (Some (sha256 (a @ r)), zero_context)"
proof -
  define L :: "byte list" where "L = be_bytes 8 (of_nat (8 * length (a @ r)) :: u64)"
  define ctx1 where "ctx1 = ctx\<lparr>s_bitcount := REVERSE64 (s_bitcount ctx)\<rparr>"
  have ctx1: "sha_inv ctx1" "take (length r) (s_buffer ctx1) = r" "s_state ctx1 = block_hash a" "bytes64 (s_bitcount ctx1) = L" "64 dvd length a" "length r < 64"
    using assms(1) by (simp_all add: ctx1_def absorbed_def sha_inv_def bytes64_REVERSE64 L_def)
  have L: "length L = 8" by (simp add: L_def)
  have used: "length (a @ r) mod 64 = length r" using ctx1(5,6) by (auto simp: dvd_def)
  then have usedspace: "usedspace_of ctx = length r" using assms(1) usedspace_length [of ctx "length (a @ r)"] by (simp add: absorbed_def)
  let ?ctx2 = "pad_last ctx1 (length r)"
  have "s_state (apr__SHA256_Transform (?ctx2\<lparr>s_buffer := MEMCPY_BCOPY (s_buffer ?ctx2) SHA256_SHORT_BLOCK_LENGTH (bytes64 (s_bitcount ?ctx2))\<rparr>) In_buffer) =
    block_hash (sha_pad (a @ r))"
  proof (cases "length r \<le> 55")
    case True
    obtain B where B: "?ctx2 = ctx1\<lparr>s_buffer := B\<rparr>" "length B = 64" "take 56 B = r @ [0x80] @ replicate (55 - length r) 0"
      using pad_last_one_block [OF ctx1(1,2) True] by blast
    have "(119 - length r) mod 64 = 55 - length r" using True by (simp add: mod_if)
    then have "sha_pad (a @ r) = a @ (r @ [0x80] @ replicate (55 - length r) 0) @ L" using used by (simp add: sha_pad_def L_def)
    then show ?thesis using last_transform [of ?ctx2 _ a L] B ctx1 L by simp
  next
    case False
    let ?b = "r @ [0x80] @ replicate (63 - length r) 0"
    obtain B where B: "?ctx2 = ctx1\<lparr>s_state := compress (s_state ctx1) ?b, s_buffer := B\<rparr>" "length B = 64" "take 56 B = replicate 56 0"
      using pad_last_two_blocks [OF ctx1(1,2) _ ctx1(6)] False by auto
    have b: "length ?b = 64" "s_state ?ctx2 = block_hash (a @ ?b)" using False ctx1 B(1) by (simp_all add: block_hash_append)
    have "replicate (119 - length r) (0 :: byte) = replicate (63 - length r) 0 @ replicate 56 0"
      using ctx1(6) by (simp add: replicate_add [symmetric])
    moreover have "(119 - length r) mod 64 = 119 - length r" using False by simp
    ultimately have "sha_pad (a @ r) = (a @ ?b) @ replicate 56 0 @ L" using used by (simp add: sha_pad_def L_def)
    then show ?thesis using last_transform [of ?ctx2 "replicate 56 0" "a @ ?b" L] B ctx1 L b by (simp only: ) simp
  qed
  moreover obtain s where "store_digest (block_hash (sha_pad (a @ r))) d 0 = (s, sha256 (a @ r))"
    using assms(2) store_digest_bytes [of "block_hash (sha_pad (a @ r))" d 0]
    by (cases "store_digest (block_hash (sha_pad (a @ r))) d 0") (auto simp: sha256_def block_hash_def [symmetric])
  ultimately show ?thesis using usedspace by (simp add: apr__SHA256_Final_def Let_def ctx1_def [symmetric])
qed

lemma stream_sha256:
  assumes "length d = SHA256_DIGEST_LENGTH"
  shows "apr__SHA256_Final (Some d) (foldl apr__SHA256_Update apr__SHA256_Init chunks) = (Some (sha256 (concat chunks)), zero_context)"
proof -
  obtain a r where *: "absorbed (foldl apr__SHA256_Update apr__SHA256_Init chunks) a r" "a @ r = concat chunks"
    using updates_absorb [OF init_absorbed, of chunks] by auto
  from final_sha256 [OF *(1)] assms show ?thesis by (simp add: *(2) SHA256_lengths)
qed

text \<open>
  C12. Whatever the pieces in which the data come, \<open>apr__SHA256_Init\<close>, any number of calls of
  \<open>apr__SHA256_Update\<close> and \<open>apr__SHA256_Final\<close> give the SHA-256 digest of the data as the standard
  defines it, and the context is cleared.
\<close>

theorem sha256_stream_correct:
  assumes "length d = SHA256_DIGEST_LENGTH"
  shows "apr__SHA256_Final (Some d) (foldl apr__SHA256_Update apr__SHA256_Init chunks) = (Some (sha256 (concat chunks)), zero_context)"
  by (rule stream_sha256 [OF assms])

theorem sha256_stream_correct_witness:
  "apr__SHA256_Final (Some (replicate 32 0)) (foldl apr__SHA256_Update apr__SHA256_Init [[97], [], [98, 99]]) = (Some (sha256 [97, 98, 99]), zero_context)"
  using sha256_stream_correct [of "replicate 32 0" "[[97], [], [98, 99]]"] by (simp add: SHA256_lengths)

section \<open>Hexadecimal digests\<close>

text \<open>
  \<open>apr__SHA256_Data\<close> writes the digest of its data in hexadecimal. The pointer that it returns is not the
  start of this text but its end, so as a string the result is empty.
\<close>

theorem sha256_data_correct:
  assumes "length digest0 = SHA256_DIGEST_LENGTH"
  shows "apr__SHA256_Data True digest0 data = Some (concat (map hex_byte (sha256 data)), 64)"
proof -
  have "length (sha256 data) = 32"
    by (simp add: sha256_def block_hash_def [symmetric] length_concat comp_def sum_list_triv)
  then have "length (concat (map hex_byte (sha256 data))) = 64" by (simp add: length_concat comp_def sum_list_triv hex_byte_def)
  then show ?thesis using stream_sha256 [OF assms, of "[data]"] by (simp add: apr__SHA256_Data_def apr__SHA256_End_def)
qed

section \<open>Constants\<close>

text \<open>The primes up to \<open>n\<close>: the numbers with no other divisor up to \<open>r\<close>, where \<open>n < (r + 1) ^ 2\<close>.\<close>

definition first_primes :: "int \<Rightarrow> int \<Rightarrow> int list" where
  "first_primes r n = filter (\<lambda>p. list_all (\<lambda>q. p = q \<or> p mod q \<noteq> 0) [2..r]) [2..n]"

text \<open>\<open>k\<close> is the start of the fraction of the \<open>e\<close>-th root of \<open>p\<close>, which begins with \<open>i\<close> and the 32 bits of \<open>k\<close>.\<close>

definition root_fraction :: "nat \<Rightarrow> int \<Rightarrow> u32 \<Rightarrow> bool" where
  "root_fraction e p k \<longleftrightarrow> list_ex (\<lambda>i. let n = i * 2 ^ 32 + uint k in n ^ e \<le> p * 2 ^ (32 * e) \<and> p * 2 ^ (32 * e) < (n + 1) ^ e) [1..6]"

text \<open>
  The tables are those of the standard: the first 32 bits of the fractions of the cube roots of the first 64
  primes, and of the square roots of the first 8.
\<close>

theorem sha256_constants:
  "list_all2 (root_fraction 3) (first_primes 17 311) K256" "list_all2 (root_fraction 2) (first_primes 4 19) sha256_initial_hash_value"
  by code_simp+

end
