(* ===== verification/Apr_Random_Spec.thy ===== *)
theory Apr_Random_Spec
  imports Apr_Random Apr_Sha2_Spec
begin

unbundle bit_operations_syntax

text \<open>
  What the random number generator promises. The locale \<open>crypto_hash\<close> is its view of a hash object, and the
  objects of \<open>apr_crypto_sha256_new\<close> fulfil it with SHA-256. The generator stays inside its arrays, spreads
  the entropy over its pools and uses pool \<open>n\<close> in every \<open>2 ^ n\<close>-th generation, gives out one stream of bytes, and
  without forks waits for enough entropy before it does.
\<close>

section \<open>The contract of a hash object\<close>

text \<open>
  What the generator relies on: after \<open>init\<close>, the result of \<open>finish\<close> is a function of the concatenation of all
  data added, of the size that the object says.
\<close>

locale crypto_hash =
  fixes h :: "'c apr_crypto_hash_t" and digest :: "byte list \<Rightarrow> byte list"
  assumes size_pos: "0 < c_size h"
    and digest_size: "length (digest m) = c_size h"
    and finish_digest: "length d = c_size h \<Longrightarrow> fst (c_finish h (foldl (c_add h) (c_init h c) chunks) d) = digest (concat chunks)"
begin

lemma with_data: "crypto_hash (h\<lparr>c_data := c\<rparr>) digest"
  using size_pos digest_size finish_digest by unfold_locales simp_all

lemma adds: "foldl hash_add (hash_init h) chunks = h\<lparr>c_data := foldl (c_add h) (c_init h (c_data h)) chunks\<rparr>"
  by (induction chunks rule: rev_induct) (simp_all add: hash_init_def hash_add_def)

lemma finish_chunks:
  assumes "i + c_size h \<le> length dst" "h' = foldl hash_add (hash_init h) chunks" "m = concat chunks"
  shows "\<exists>c. hash_finish h' dst i = Some (MEMCPY_BCOPY dst i (digest m), h\<lparr>c_data := c\<rparr>)"
proof -
  have "length (take (c_size h) (drop i dst)) = c_size h" using assms(1) by simp
  from finish_digest [OF this, of "c_data h" chunks] show ?thesis
    using assms by (cases "c_finish h (foldl (c_add h) (c_init h (c_data h)) chunks) (take (c_size h) (drop i dst))")
      (auto simp: hash_finish_def adds)
qed

lemma hash_macro_digest:
  "i + c_size h \<le> length dst \<Longrightarrow> \<exists>c. hash_macro h dst i b = Some (MEMCPY_BCOPY dst i (digest b), h\<lparr>c_data := c\<rparr>)"
  unfolding hash_macro_def by (rule finish_chunks [of _ _ _ "[b]"]) simp_all

end

lemma length_sha256: "length (sha256 m) = 32"
  by (simp add: sha256_def block_hash_def [symmetric] length_concat comp_def sum_list_triv)

interpretation sha: crypto_hash "apr_crypto_sha256_new data" sha256 for data
proof unfold_locales
  fix m d :: "byte list" and c chunks
  show "0 < c_size (apr_crypto_sha256_new data)" "length (sha256 m) = c_size (apr_crypto_sha256_new data)"
    by (simp_all add: apr_crypto_sha256_new_def length_sha256)
  have add: "foldl sha256_add c chunks = foldl apr__SHA256_Update c chunks" for c
    by (induction chunks arbitrary: c) (simp_all add: sha256_add_def)
  assume "length d = c_size (apr_crypto_sha256_new data)"
  then show "fst (c_finish (apr_crypto_sha256_new data)
      (foldl (c_add (apr_crypto_sha256_new data)) (c_init (apr_crypto_sha256_new data) c) chunks) d) = sha256 (concat chunks)"
    by (simp add: apr_crypto_sha256_new_def sha256_finish_def sha256_init_def add stream_sha256 SHA256_lengths)
qed

section \<open>Invariant\<close>

definition pool_ok :: "nat \<Rightarrow> apr_random_pool_t \<Rightarrow> bool" where
  "pool_ok rs p \<longleftrightarrow> length (p_pool p) = p_size p \<and> p_bytes p \<le> p_size p \<and> p_bytes p < rs"

text \<open>\<open>pd\<close>, \<open>kd\<close> and \<open>bd\<close> are the digests of the three hashes.\<close>

definition random_inv ::
    "(byte list \<Rightarrow> byte list) \<Rightarrow> (byte list \<Rightarrow> byte list) \<Rightarrow> (byte list \<Rightarrow> byte list) \<Rightarrow> 'c apr_random_t \<Rightarrow> bool" where
  "random_inv pd kd bd g \<longleftrightarrow>
     crypto_hash (r_pool_hash g) pd \<and> crypto_hash (r_key_hash g) kd \<and> crypto_hash (r_prng_hash g) bd \<and>
     r_npools g = 32 \<and> length (r_pools g) = 32 \<and> r_next_pool g < 32 \<and>
     list_all (pool_ok (r_rehash_size g)) (r_pools g) \<and>
     2 * c_size (r_pool_hash g) dvd r_rehash_size g \<and> 0 < r_rehash_size g \<and>
     length (r_H g) = H_size g \<and> length (r_H_waiting g) = H_size g \<and>
     length (r_randomness g) = B_size g \<and> r_random_bytes g \<le> B_size g"

lemma init_inv:
  assumes "crypto_hash ph pd" "crypto_hash kh kd" "crypto_hash bh bd"
  shows "random_inv pd kd bd (apr_random_init junk ph kh bh)"
proof -
  let ?s = "c_size ph"
  have s: "0 < ?s" using assms(1) by (rule crypto_hash.size_pos)
  have "(1024 + 2 * ?s - 1) div ?s div 2 = (1023 + 2 * ?s) div (?s * 2)" by (simp only: div_mult2_eq) simp
  also have "\<dots> = (1023 + 2 * ?s) div (2 * ?s)" by (simp only: mult.commute)
  also have "\<dots> = 1023 div (2 * ?s) + 1" using s by (intro div_add_self2) simp
  finally have "(1024 + 2 * ?s - 1) div ?s div 2 * ?s * 2 = 2 * ?s * (1023 div (2 * ?s) + 1)" by simp
  then show ?thesis using assms s
    by (simp add: random_inv_def apr_random_init_def Let_def APR_RANDOM_DEFAULTS pool_ok_def H_size_def B_size_def K_size_def list_all_length)
qed

lemma standard_inv: "random_inv sha256 sha256 sha256 (apr_random_standard_new junk data)"
  unfolding apr_random_standard_new_def by (intro init_inv sha.crypto_hash_axioms)

section \<open>Rehashing a pool\<close>

fun halve :: "nat \<Rightarrow> (byte list \<Rightarrow> byte list) \<Rightarrow> byte list \<Rightarrow> byte list" where
  "halve s d xs = (if s = 0 \<or> length xs < 2 * s then [] else d (take (2 * s) xs) @ halve s d (drop (2 * s) xs))"

declare halve.simps [simp del]

lemma MEMCPY_BCOPY_facts:
  assumes "i + length s \<le> length d"
  shows "length (MEMCPY_BCOPY d i s) = length d" "take (i + length s) (MEMCPY_BCOPY d i s) = take i d @ s"
    "i + length s \<le> k \<Longrightarrow> drop k (MEMCPY_BCOPY d i s) = drop k d"
  using assms by (simp_all add: MEMCPY_BCOPY_def)

lemma rehash_halves:
  assumes "crypto_hash h pd" "r \<le> half" "c_size h dvd half - r" "2 * half \<le> length pool"
  shows "\<exists>pool' c. rehash h pool r half = Some (pool', h\<lparr>c_data := c\<rparr>) \<and> length pool' = length pool \<and>
    take half pool' = take r pool @ halve (c_size h) pd (take (2 * (half - r)) (drop (2 * r) pool))"
  using assms
proof (induction "half - r" arbitrary: h pool r rule: less_induct)
  case less
  let ?s = "c_size h" and ?b = "take (c_size h * 2) (drop (r * 2) pool)"
  have s: "0 < ?s" using less.prems(1) by (rule crypto_hash.size_pos)
  show ?case
  proof (cases "r < half")
    case False
    then show ?thesis using less.prems(2)
      by (subst rehash.simps) (auto simp: halve.simps intro: exI [of _ "c_data h"])
  next
    case True
    then have le: "?s \<le> half - r" using less.prems(3) by (intro dvd_imp_le) simp_all
    then have fits: "r + ?s \<le> length pool" using True less.prems(4) by linarith
    obtain c where c: "hash_macro h pool r ?b = Some (MEMCPY_BCOPY pool r (pd ?b), h\<lparr>c_data := c\<rparr>)"
      using crypto_hash.hash_macro_digest [OF less.prems(1) fits, of ?b] by blast
    let ?p = "MEMCPY_BCOPY pool r (pd ?b)"
    have len: "length (pd ?b) = ?s" using less.prems(1) by (rule crypto_hash.digest_size)
    then have p: "length ?p = length pool" "take (r + ?s) ?p = take r pool @ pd ?b" "drop (2 * (r + ?s)) ?p = drop (2 * (r + ?s)) pool"
      using MEMCPY_BCOPY_facts [of r "pd ?b" pool] fits by simp_all
    have "?s dvd half - r - ?s" using dvd_diff_nat [OF less.prems(3) dvd_refl] .
    then have "\<exists>pool' c'. rehash (h\<lparr>c_data := c\<rparr>) ?p (r + ?s) half = Some (pool', h\<lparr>c_data := c\<rparr>\<lparr>c_data := c'\<rparr>) \<and> length pool' = length ?p \<and>
        take half pool' = take (r + ?s) ?p @ halve (c_size (h\<lparr>c_data := c\<rparr>)) pd (take (2 * (half - (r + ?s))) (drop (2 * (r + ?s)) ?p))"
      using le s True less.prems(4) p(1) crypto_hash.with_data [OF less.prems(1)] by (intro less.hyps) simp_all
    then obtain pool' c' where IH: "rehash (h\<lparr>c_data := c\<rparr>) ?p (r + ?s) half = Some (pool', h\<lparr>c_data := c'\<rparr>)" "length pool' = length pool"
        "take half pool' = take r pool @ pd ?b @ halve ?s pd (take (2 * (half - (r + ?s))) (drop (2 * (r + ?s)) pool))"
      using p by auto
    have "rehash h pool r half = Some (pool', h\<lparr>c_data := c'\<rparr>)"
      using c IH(1) True s le less.prems(4) by (subst rehash.simps) simp
    moreover have "pd ?b @ halve ?s pd (take (2 * (half - (r + ?s))) (drop (2 * (r + ?s)) pool)) = halve ?s pd (take (2 * (half - r)) (drop (2 * r) pool))"
    proof -
      let ?X = "take (2 * (half - r)) (drop (2 * r) pool)"
      have "length ?X = 2 * (half - r)" using less.prems(2,4) by simp
      then have "\<not> (?s = 0 \<or> length ?X < 2 * ?s)" using s le by simp
      moreover have "take (2 * ?s) ?X = ?b" using le by (simp add: mult.commute min_def)
      moreover have "drop (2 * ?s) ?X = take (2 * (half - (r + ?s))) (drop (2 * (r + ?s)) pool)"
        by (simp add: drop_take diff_mult_distrib2 add.commute)
      ultimately show ?thesis using halve.simps [of ?s pd ?X] by simp
    qed
    ultimately show ?thesis using IH(2,3) by auto
  qed
qed

lemma length_halve:
  assumes "0 < s" "\<And>m. length (pd m) = s" "length xs = 2 * s * k"
  shows "length (halve s pd xs) = s * k"
  using assms(3)
proof (induction k arbitrary: xs)
  case 0
  then show ?case using assms(1) by (simp add: halve.simps)
next
  case (Suc k)
  then have "length (drop (2 * s) xs) = 2 * s * k" "\<not> (s = 0 \<or> length xs < 2 * s)" using assms(1) by simp_all
  then show ?case using Suc.IH [of "drop (2 * s) xs"] assms(2) by (subst halve.simps) simp
qed

section \<open>Adding entropy\<close>

definition pool_data :: "apr_random_pool_t \<Rightarrow> byte list" where
  "pool_data p = take (p_bytes p) (p_pool p)"

lemma length_pool_data: "pool_ok rs p \<Longrightarrow> length (pool_data p) = p_bytes p"
  by (simp add: pool_ok_def pool_data_def)

text \<open>What a byte does to the contents of its pool.\<close>

definition pour :: "nat \<Rightarrow> nat \<Rightarrow> (byte list \<Rightarrow> byte list) \<Rightarrow> byte list \<Rightarrow> byte \<Rightarrow> byte list" where
  "pour rs s pd c b = (if length c + 1 = rs then halve s pd (c @ [b]) else c @ [b])"

lemma pool_room:
  assumes "pool_ok rs p"
  shows "length (p_pool (pool_room junk p)) = p_size (pool_room junk p)" "p_bytes p < p_size (pool_room junk p)"
    "p_bytes (pool_room junk p) = p_bytes p" "pool_data (pool_room junk p) = pool_data p"
  using assms by (auto simp: pool_room_def pool_ok_def pool_data_def)

lemma rehash_pool_halves:
  assumes "crypto_hash h pd" "2 * c_size h dvd rs" "0 < rs" "length (p_pool p) = p_size p" "p_bytes p \<le> p_size p" "p_bytes p \<le> rs"
  shows "\<exists>p' c. rehash_pool h rs p = Some (p', h\<lparr>c_data := c\<rparr>) \<and> pool_ok rs p' \<and>
    pool_data p' = (if p_bytes p = rs then halve (c_size h) pd (pool_data p) else pool_data p)"
proof (cases "p_bytes p = rs")
  case False
  then show ?thesis using assms by (intro exI [of _ p] exI [of _ "c_data h"]) (simp add: rehash_pool_def pool_ok_def)
next
  case True
  obtain k where k: "rs = 2 * c_size h * k" using assms(2) by (elim dvdE)
  then have half: "p_bytes p div 2 = c_size h * k" using True by simp
  obtain pool c where r: "rehash h (p_pool p) 0 (p_bytes p div 2) = Some (pool, h\<lparr>c_data := c\<rparr>)" "length pool = length (p_pool p)"
      "take (p_bytes p div 2) pool = halve (c_size h) pd (take (2 * (p_bytes p div 2)) (p_pool p))"
    using rehash_halves [OF assms(1), of 0 "p_bytes p div 2" "p_pool p"] half True k assms(4,5) by auto
  let ?p = "p\<lparr>p_pool := pool, p_bytes := p_bytes p div 2\<rparr>"
  have "pool_data ?p = halve (c_size h) pd (pool_data p)" using r(3) True k by (simp add: pool_data_def mult.assoc)
  then show ?thesis using True r(1,2) assms(3-5)
    by (intro exI [of _ ?p] exI [of _ c]) (simp add: rehash_pool_def pool_ok_def)
qed

lemma add_byte_pours:
  assumes "random_inv pd kd bd g"
  shows "\<exists>p c. add_byte junk g b = Some (g\<lparr>r_next_pool := (r_next_pool g + 1) mod 32, r_pools := (r_pools g)[r_next_pool g := p],
      r_pool_hash := (r_pool_hash g)\<lparr>c_data := c\<rparr>\<rparr>) \<and> pool_ok (r_rehash_size g) p \<and>
    pool_data p = pour (r_rehash_size g) (c_size (r_pool_hash g)) pd (pool_data (r_pools g ! r_next_pool g)) b"
proof -
  let ?h = "r_pool_hash g" and ?i = "r_next_pool g" and ?rs = "r_rehash_size g"
  define p where "p = r_pools g ! ?i"
  define p1 where "p1 = pool_room junk p"
  define p2 where "p2 = p1\<lparr>p_pool := (p_pool p1)[p_bytes p1 := b], p_bytes := p_bytes p1 + 1\<rparr>"
  have inv: "crypto_hash ?h pd" "r_npools g = 32" "length (r_pools g) = 32" "?i < 32" "2 * c_size ?h dvd ?rs" "0 < ?rs"
    using assms by (simp_all add: random_inv_def)
  have p: "pool_ok ?rs p" using assms inv(3,4) by (simp add: random_inv_def list_all_length p_def)
  note p1 = pool_room [OF p, of junk, folded p1_def]
  have p2: "length (p_pool p2) = p_size p2" "p_bytes p2 = p_bytes p + 1" "p_bytes p2 \<le> p_size p2" "pool_data p2 = pool_data p @ [b]"
    using p1 by (simp_all add: p2_def pool_data_def take_Suc_conv_app_nth)
  have "p_bytes p2 \<le> ?rs" using p p2(2) by (simp add: pool_ok_def)
  then obtain p' c where r: "rehash_pool ?h ?rs p2 = Some (p', ?h\<lparr>c_data := c\<rparr>)" "pool_ok ?rs p'"
      "pool_data p' = (if p_bytes p2 = ?rs then halve (c_size ?h) pd (pool_data p2) else pool_data p2)"
    using rehash_pool_halves [OF inv(1,5,6) p2(1,3)] by blast
  have "p1\<lparr>p_pool := (p_pool p1)[p_bytes p := b], p_bytes := Suc (p_bytes p)\<rparr> = p2" by (simp add: p2_def p1(3))
  moreover have "(if ?i + 1 = r_npools g then 0 else ?i + 1) = (?i + 1) mod 32" using inv(2,4) by auto
  ultimately have "add_byte junk g b = Some (g\<lparr>r_next_pool := (?i + 1) mod 32, r_pools := (r_pools g)[?i := p'], r_pool_hash := ?h\<lparr>c_data := c\<rparr>\<rparr>)"
    using inv(3,4) p1 r(1,2) by (simp add: add_byte_def p_def [symmetric] p1_def [symmetric] pool_ok_def Let_def)
  then show ?thesis using r(2,3) p2(2,4) length_pool_data [OF p] by (auto simp: pour_def p_def)
qed

lemma random_inv_pool:
  assumes "random_inv pd kd bd g" "pool_ok (r_rehash_size g) p"
  shows "random_inv pd kd bd (g\<lparr>r_next_pool := j mod 32, r_pools := (r_pools g)[i := p], r_pool_hash := (r_pool_hash g)\<lparr>c_data := c\<rparr>\<rparr>)"
  using assms crypto_hash.with_data [of "r_pool_hash g" pd c]
  by (auto simp: random_inv_def H_size_def B_size_def K_size_def list_all_iff dest!: set_update_subset_insert [THEN subsetD])

text \<open>The entropy goes round the pools.\<close>

fun pour_all :: "nat \<Rightarrow> nat \<Rightarrow> (byte list \<Rightarrow> byte list) \<Rightarrow> byte list list \<Rightarrow> nat \<Rightarrow> byte list \<Rightarrow> byte list list \<times> nat" where
  "pour_all rs s pd cs i [] = (cs, i)"
| "pour_all rs s pd cs i (b # bs) = pour_all rs s pd (cs[i := pour rs s pd (cs ! i) b]) ((i + 1) mod 32) bs"

definition pool_contents :: "'c apr_random_t \<Rightarrow> byte list list" where
  "pool_contents g = map pool_data (r_pools g)"

text \<open>The fields that adding to the pools does not touch.\<close>

definition same_output :: "'c apr_random_t \<Rightarrow> 'c apr_random_t \<Rightarrow> bool" where
  "same_output g g' \<longleftrightarrow> r_H g' = r_H g \<and> r_H_waiting g' = r_H_waiting g \<and> r_randomness g' = r_randomness g \<and> r_random_bytes g' = r_random_bytes g \<and>
     r_generation g' = r_generation g \<and> r_insecure_started g' = r_insecure_started g \<and> r_secure_started g' = r_secure_started g \<and>
     r_secure_base g' = r_secure_base g \<and> r_g_for_insecure g' = r_g_for_insecure g \<and> r_g_for_secure g' = r_g_for_secure g \<and>
     r_rehash_size g' = r_rehash_size g \<and> r_reseed_size g' = r_reseed_size g \<and> c_size (r_pool_hash g') = c_size (r_pool_hash g)"

lemma add_bytes_pours:
  assumes "random_inv pd kd bd g"
  shows "\<exists>g'. add_bytes junk g bs = Some g' \<and> random_inv pd kd bd g' \<and> same_output g g' \<and>
    (pool_contents g', r_next_pool g') = pour_all (r_rehash_size g) (c_size (r_pool_hash g)) pd (pool_contents g) (r_next_pool g) bs"
  using assms
proof (induction bs arbitrary: g)
  case Nil
  then show ?case by (simp add: same_output_def)
next
  case (Cons b bs)
  obtain p c where p: "add_byte junk g b = Some (g\<lparr>r_next_pool := (r_next_pool g + 1) mod 32, r_pools := (r_pools g)[r_next_pool g := p],
      r_pool_hash := (r_pool_hash g)\<lparr>c_data := c\<rparr>\<rparr>)" "pool_ok (r_rehash_size g) p"
      "pool_data p = pour (r_rehash_size g) (c_size (r_pool_hash g)) pd (pool_data (r_pools g ! r_next_pool g)) b"
    using add_byte_pours [OF Cons.prems] by blast
  define g1 where "g1 = g\<lparr>r_next_pool := (r_next_pool g + 1) mod 32, r_pools := (r_pools g)[r_next_pool g := p], r_pool_hash := (r_pool_hash g)\<lparr>c_data := c\<rparr>\<rparr>"
  have "random_inv pd kd bd g1" unfolding g1_def using random_inv_pool [OF Cons.prems p(2)] by simp
  moreover have "r_next_pool g < length (r_pools g)" using Cons.prems by (simp add: random_inv_def)
  then have "pool_contents g1 = (pool_contents g)[r_next_pool g := pour (r_rehash_size g) (c_size (r_pool_hash g)) pd (pool_contents g ! r_next_pool g) b]"
    by (simp add: g1_def pool_contents_def map_update p(3))
  moreover have "same_output g g1" "r_next_pool g1 = (r_next_pool g + 1) mod 32" by (simp_all add: g1_def same_output_def)
  ultimately show ?case using Cons.IH [of g1] p(1) [folded g1_def] by (auto simp: same_output_def)
qed

section \<open>Rekeying\<close>

text \<open>The number of pools that a generation uses: one more than its lowest bits that are set.\<close>

definition depth :: "u32 \<Rightarrow> nat" where
  "depth gen = Suc (length (takeWhile (bit gen) [0..<31]))"

lemma depth_le: "depth gen \<le> 32"
  using length_takeWhile_le [of "bit gen" "[0..<31]"] by (simp add: depth_def)

lemma depth_iff_bits:
  assumes "n < 32"
  shows "n < depth gen \<longleftrightarrow> (\<forall>m < n. bit gen m)"
proof
  let ?t = "takeWhile (bit gen) [0..<31]"
  assume "n < depth gen"
  then have le: "n \<le> length ?t" by (simp add: depth_def)
  show "\<forall>m < n. bit gen m"
  proof (intro allI impI)
    fix m assume "m < n"
    then have "m < length ?t" using le by simp
    then have "?t ! m = m" using takeWhile_nth [of m "bit gen" "[0..<31]"] length_takeWhile_le [of "bit gen" "[0..<31]"] by simp
    then show "bit gen m" using nth_mem [OF \<open>m < length ?t\<close>] set_takeWhileD [of m "bit gen" "[0..<31]"] by simp
  qed
next
  let ?t = "takeWhile (bit gen) [0..<31]"
  assume bits: "\<forall>m < n. bit gen m"
  show "n < depth gen"
  proof (rule ccontr)
    assume "\<not> n < depth gen"
    then have "length ?t < n" "length ?t < length [0..<31]" using assms by (simp_all add: depth_def)
    then show False using nth_length_takeWhile [of "bit gen" "[0..<31]"] bits by simp
  qed
qed

text \<open>Pool \<open>n\<close> is used in every \<open>2 ^ n\<close>-th generation.\<close>

lemma depth_dvd:
  assumes "n < 32"
  shows "n < depth gen \<longleftrightarrow> 2 ^ n dvd unat gen + 1"
proof -
  have "(\<forall>m < n. bit gen m) \<longleftrightarrow> take_bit n (unat gen) = mask n"
    using assms by (auto simp: bit_eq_iff bit_simps dest: bit_imp_le_length)
  also have "\<dots> \<longleftrightarrow> unat gen mod 2 ^ n = 2 ^ n - 1" by (simp add: take_bit_eq_mod mask_eq_exp_minus_1)
  also have "\<dots> \<longleftrightarrow> 2 ^ n dvd unat gen + 1" by (auto simp: dvd_eq_mod_eq_0 mod_Suc)
  finally show ?thesis using depth_iff_bits [OF assms] by simp
qed

lemma depth_step:
  assumes "n \<le> depth gen"
  shows "n < depth gen \<longleftrightarrow> n < 32 \<and> (n = 0 \<or> gen AND push_bit (n - 1) 1 \<noteq> 0)"
proof (cases "n < 32")
  case False
  then show ?thesis using depth_le [of gen] by simp
next
  case True
  show ?thesis
  proof (cases n)
    case 0
    then show ?thesis by (simp add: depth_def)
  next
    case (Suc m)
    then have "\<forall>k < m. bit gen k" using assms True depth_iff_bits [of m gen] by simp
    then show ?thesis using Suc True depth_iff_bits [of n gen]
      by (auto simp: less_Suc_eq bit_iff_and_push_bit_not_eq_0)
  qed
qed

definition emptied :: "nat \<Rightarrow> apr_random_pool_t list \<Rightarrow> apr_random_pool_t list" where
  "emptied k ps = map (\<lambda>p. p\<lparr>p_bytes := 0\<rparr>) (take k ps) @ drop k ps"

lemma rekey_pools_empties:
  assumes "n \<le> depth (r_generation g)" "r_npools g = 32" "length ps = 32" "list_all (pool_ok rs) ps" "r_pools g = emptied n ps"
  shows "rekey_pools g h n = Some (g\<lparr>r_pools := emptied (depth (r_generation g)) ps\<rparr>,
    foldl hash_add h (map pool_data (drop n (take (depth (r_generation g)) ps))))"
  using assms
proof (induction "depth (r_generation g) - n" arbitrary: n g h)
  case 0
  then have n: "n = depth (r_generation g)" by simp
  have "\<not> (n < r_npools g \<and> (n = 0 \<or> r_generation g AND push_bit (n - 1) 1 \<noteq> 0))" using depth_step [OF 0(2)] n 0(3) by simp
  then have "rekey_pools g h n = Some (g, h)" by (subst rekey_pools.simps) (simp only: if_False)
  then show ?case using 0(4,6) n by simp
next
  case (Suc k)
  let ?g = "r_generation g" and ?p = "ps ! n"
  have n: "n < depth ?g" "n < 32" using Suc(2) depth_le [of ?g] by simp_all
  then have cond: "n < 32 \<and> (n = 0 \<or> ?g AND push_bit (n - 1) 1 \<noteq> 0)" using depth_step [OF Suc(3)] by simp
  have p: "r_pools g ! n = ?p" "length (r_pools g) = 32" using Suc(5,7) n by (simp_all add: emptied_def nth_append)
  have ok: "p_bytes ?p \<le> length (p_pool ?p)" using Suc(5,6) n by (simp add: list_all_length pool_ok_def)
  have upd: "(r_pools g)[n := ?p\<lparr>p_bytes := 0\<rparr>] = emptied (Suc n) ps"
    using Suc(5,7) n by (simp add: emptied_def list_update_append take_Suc_conv_app_nth Cons_nth_drop_Suc [symmetric])
  let ?g1 = "g\<lparr>r_pools := emptied (Suc n) ps\<rparr>"
  have "rekey_pools g h n = rekey_pools ?g1 (hash_add h (pool_data ?p)) (Suc n)"
    using cond Suc(4) p ok upd n by (subst rekey_pools.simps) (simp add: pool_data_def Let_def)
  also have "\<dots> = Some (?g1\<lparr>r_pools := emptied (depth (r_generation ?g1)) ps\<rparr>,
      foldl hash_add (hash_add h (pool_data ?p)) (map pool_data (drop (Suc n) (take (depth (r_generation ?g1)) ps))))"
    using Suc(2,4-6) n by (intro Suc(1)) simp_all
  finally have "rekey_pools g h n = Some (g\<lparr>r_pools := emptied (depth ?g) ps\<rparr>,
      foldl hash_add h (pool_data ?p # map pool_data (drop (Suc n) (take (depth ?g) ps))))" by simp
  moreover have "drop n (take (depth ?g) ps) = ?p # drop (Suc n) (take (depth ?g) ps)"
    using n Suc(5) Cons_nth_drop_Suc [of n "take (depth ?g) ps"] by simp
  ultimately show ?case by simp
qed

text \<open>The state after a key change, before the next generation.\<close>

definition new_key :: "(byte list \<Rightarrow> byte list) \<Rightarrow> 'c apr_random_t \<Rightarrow> byte list" where
  "new_key kd g = take (B_size g) (H_current g) @ kd (H_current g @ concat (take (depth (r_generation g)) (pool_contents g)))"

lemma set_H_current_simps:
  "r_key_hash (set_H_current g H) = r_key_hash g" "r_generation (set_H_current g H) = r_generation g"
  "waiting (set_H_current g H) = waiting g" "r_pools (set_H_current g H) = r_pools g"
  "r_H (set_H_current g H) = (if waiting g then r_H g else H)" "r_H_waiting (set_H_current g H) = (if waiting g then H else r_H_waiting g)"
  "r_g_for_insecure (set_H_current g H) = r_g_for_insecure g" "r_g_for_secure (set_H_current g H) = r_g_for_secure g"
  "r_secure_base (set_H_current g H) = r_secure_base g" "r_insecure_started (set_H_current g H) = r_insecure_started g"
  "r_secure_started (set_H_current g H) = r_secure_started g"
  by (simp_all add: set_H_current_def waiting_def)

lemma rekey_key:
  assumes "random_inv pd kd bd g"
  shows "\<exists>c. rekey g = Some (start_generation ((set_H_current (g\<lparr>r_pools := emptied (depth (r_generation g)) (r_pools g)\<rparr>) (new_key kd g))
    \<lparr>r_key_hash := (r_key_hash g)\<lparr>c_data := c\<rparr>\<rparr>))"
proof -
  let ?d = "depth (r_generation g)" and ?h = "hash_add (hash_init (r_key_hash g)) (H_current g)"
  let ?g = "g\<lparr>r_pools := emptied ?d (r_pools g)\<rparr>"
  have inv: "crypto_hash (r_key_hash g) kd" "r_npools g = 32" "length (r_pools g) = 32" "list_all (pool_ok (r_rehash_size g)) (r_pools g)"
    "length (H_current g) = B_size g + c_size (r_key_hash g)"
    using assms by (simp_all add: random_inv_def H_current_def H_size_def K_size_def)
  have g: "H_current ?g = H_current g" "B_size ?g = B_size g" by (simp_all add: H_current_def waiting_def B_size_def)
  let ?chunks = "map pool_data (take ?d (r_pools g))"
  have pools: "rekey_pools g ?h 0 = Some (?g, foldl hash_add ?h ?chunks)"
    using rekey_pools_empties [of 0 g "r_pools g" "r_rehash_size g" ?h] inv by (simp add: emptied_def)
  obtain c where "hash_finish (foldl hash_add ?h ?chunks) (H_current g) (B_size g) =
      Some (MEMCPY_BCOPY (H_current g) (B_size g) (kd (H_current g @ concat ?chunks)), (r_key_hash g)\<lparr>c_data := c\<rparr>)"
    using crypto_hash.finish_chunks [OF inv(1), of "B_size g" "H_current g" "foldl hash_add ?h ?chunks" "H_current g # ?chunks"] inv(5) by auto
  moreover have "MEMCPY_BCOPY (H_current g) (B_size g) (kd (H_current g @ concat ?chunks)) = new_key kd g"
    using inv(5) crypto_hash.digest_size [OF inv(1)] by (simp add: MEMCPY_BCOPY_def new_key_def pool_contents_def take_map)
  ultimately show ?thesis using pools g inv(5) by (auto simp: rekey_def H_size_def K_size_def)
qed

lemma advance_fields:
  "r_generation (start_generation g) = r_generation g + 1" "r_pools (start_generation g) = r_pools g" "r_next_pool (start_generation g) = r_next_pool g"
  "r_pool_hash (start_generation g) = r_pool_hash g" "r_key_hash (start_generation g) = r_key_hash g" "r_prng_hash (start_generation g) = r_prng_hash g"
  "r_npools (start_generation g) = r_npools g" "r_rehash_size (start_generation g) = r_rehash_size g" "r_reseed_size (start_generation g) = r_reseed_size g"
  "r_randomness (start_generation g) = r_randomness g" "r_random_bytes (start_generation g) = r_random_bytes g"
  "r_g_for_insecure (start_generation g) = r_g_for_insecure g" "r_g_for_secure (start_generation g) = r_g_for_secure g"
  "B_size (start_generation g) = B_size g" "K_size (start_generation g) = K_size g" "H_size (start_generation g) = H_size g"
  "r_H (start_generation g) = r_H g \<or> r_H (start_generation g) = r_H_waiting g" "r_H_waiting (start_generation g) = r_H g \<or> r_H_waiting (start_generation g) = r_H_waiting g"
  by (simp_all add: start_generation_def Let_def B_size_def K_size_def H_size_def)

text \<open>The new key is current after the change, unless secure output starts without the insecure one before.\<close>

lemma advance_current:
  assumes "r_secure_started (start_generation g) \<longrightarrow> r_insecure_started (start_generation g)"
  shows "H_current (start_generation g) = H_current g"
  using assms by (auto simp: start_generation_def Let_def H_current_def waiting_def)

lemma random_inv_rekeyed:
  assumes "random_inv pd kd bd g" "length H = H_size g"
  shows "random_inv pd kd bd (start_generation ((set_H_current (g\<lparr>r_pools := emptied k (r_pools g)\<rparr>) H)\<lparr>r_key_hash := (r_key_hash g)\<lparr>c_data := c\<rparr>\<rparr>))"
proof -
  let ?g = "(set_H_current (g\<lparr>r_pools := emptied k (r_pools g)\<rparr>) H)\<lparr>r_key_hash := (r_key_hash g)\<lparr>c_data := c\<rparr>\<rparr>"
  have "list_all (pool_ok (r_rehash_size g)) (emptied k (r_pools g))"
    using assms(1) by (auto simp: random_inv_def emptied_def list_all_iff pool_ok_def dest: in_set_takeD in_set_dropD)
  then have "random_inv pd kd bd ?g" using assms crypto_hash.with_data [of "r_key_hash g" kd c]
    by (simp add: random_inv_def set_H_current_def H_size_def B_size_def K_size_def emptied_def)
  then show ?thesis using advance_fields(17,18) [of ?g] by (auto simp: random_inv_def advance_fields(1-16))
qed

section \<open>Output\<close>

text \<open>The blocks of the generator with the state \<open>H\<close>, where \<open>B\<close> is the size of a block.\<close>

definition next_H :: "(byte list \<Rightarrow> byte list) \<Rightarrow> nat \<Rightarrow> byte list \<Rightarrow> byte list" where
  "next_H bd B H = bd H @ drop B H"

fun prng_blocks :: "(byte list \<Rightarrow> byte list) \<Rightarrow> nat \<Rightarrow> byte list \<Rightarrow> nat \<Rightarrow> byte list" where
  "prng_blocks bd B H 0 = []"
| "prng_blocks bd B H (Suc k) = bd (bd H) @ prng_blocks bd B (next_H bd B H) k"

text \<open>The bytes of the last block that have not been given out.\<close>

definition leftover :: "'c apr_random_t \<Rightarrow> byte list" where
  "leftover g = drop (B_size g - r_random_bytes g) (r_randomness g)"

text \<open>A generator after some output.\<close>

definition after_output :: "'c apr_random_t \<Rightarrow> byte list \<Rightarrow> byte list \<Rightarrow> nat \<Rightarrow> 'c \<Rightarrow> 'c apr_random_t" where
  "after_output g H rnd n c = g\<lparr>r_H := H, r_randomness := rnd, r_random_bytes := n, r_prng_hash := (r_prng_hash g)\<lparr>c_data := c\<rparr>\<rparr>"

lemma after_output_simps [simp]:
  "after_output (after_output g H rnd n c) H' rnd' n' c' = after_output g H' rnd' n' c'"
  "r_H (after_output g H rnd n c) = H" "r_randomness (after_output g H rnd n c) = rnd" "r_random_bytes (after_output g H rnd n c) = n"
  "B_size (after_output g H rnd n c) = B_size g" "K_size (after_output g H rnd n c) = K_size g" "H_size (after_output g H rnd n c) = H_size g"
  "(after_output g H rnd n c)\<lparr>r_random_bytes := m\<rparr> = after_output g H rnd m c"
  "r_prng_hash (after_output g H rnd n c) = (r_prng_hash g)\<lparr>c_data := c\<rparr>"
  by (simp_all add: after_output_def B_size_def K_size_def H_size_def)

lemma after_output_self: "g = after_output g (r_H g) (r_randomness g) (r_random_bytes g) (c_data (r_prng_hash g))"
  by (simp add: after_output_def)

lemma random_inv_output:
  assumes "random_inv pd kd bd g" "length H = H_size g" "length rnd = B_size g" "n \<le> B_size g"
  shows "random_inv pd kd bd (after_output g H rnd n c)"
  using assms crypto_hash.with_data [of "r_prng_hash g" bd c]
  by (simp add: random_inv_def after_output_def B_size_def K_size_def H_size_def)

lemma block_output:
  assumes "random_inv pd kd bd g"
  shows "\<exists>c. apr_random_block g = Some (after_output g (next_H bd (B_size g) (r_H g)) (bd (bd (r_H g))) (r_random_bytes g) c)"
proof -
  let ?h = "r_prng_hash g" and ?H = "r_H g"
  have inv: "crypto_hash ?h bd" "length ?H = B_size g + K_size g" "length (r_randomness g) = B_size g"
    using assms by (simp_all add: random_inv_def H_size_def)
  have size: "c_size ?h = B_size g" "length (bd m) = B_size g" for m using crypto_hash.digest_size [OF inv(1)] by (simp_all add: B_size_def)
  obtain c where 1: "hash_macro ?h ?H 0 ?H = Some (MEMCPY_BCOPY ?H 0 (bd ?H), ?h\<lparr>c_data := c\<rparr>)"
    using crypto_hash.hash_macro_digest [OF inv(1), of 0 ?H ?H] inv(2) size by auto
  have H: "MEMCPY_BCOPY ?H 0 (bd ?H) = next_H bd (B_size g) ?H" by (simp add: MEMCPY_BCOPY_def next_H_def size)
  have "take (B_size g) (next_H bd (B_size g) ?H) = bd ?H" by (simp add: next_H_def size)
  moreover obtain c' where "hash_macro (?h\<lparr>c_data := c\<rparr>) (r_randomness g) 0 (bd ?H) = Some (MEMCPY_BCOPY (r_randomness g) 0 (bd (bd ?H)), ?h\<lparr>c_data := c'\<rparr>)"
    using crypto_hash.hash_macro_digest [OF crypto_hash.with_data [OF inv(1), of c], where i = 0 and dst = "r_randomness g" and b = "bd ?H"] inv(3) size by auto
  moreover have "MEMCPY_BCOPY (r_randomness g) 0 (bd (bd ?H)) = bd (bd ?H)" by (simp add: MEMCPY_BCOPY_def size inv(3))
  ultimately show ?thesis using 1 H inv(2)
    by (auto simp: apr_random_block_def after_output_def H_size_def B_size_def [symmetric] B_size_def [of "g\<lparr>r_H := _, r_prng_hash := _\<rparr>"])
qed

text \<open>The bytes \<open>out\<close> are the next ones of the stream of \<open>g\<close>, and \<open>g'\<close> goes on after them.\<close>

definition gives :: "(byte list \<Rightarrow> byte list) \<Rightarrow> 'c apr_random_t \<Rightarrow> byte list \<Rightarrow> 'c apr_random_t \<Rightarrow> bool" where
  "gives bd g out g' \<longleftrightarrow> (\<exists>k rnd n c. g' = after_output g ((next_H bd (B_size g) ^^ k) (r_H g)) rnd n c \<and>
     leftover g @ prng_blocks bd (B_size g) (r_H g) k = out @ leftover g')"

lemma prng_blocks_add: "prng_blocks bd B H (j + k) = prng_blocks bd B H j @ prng_blocks bd B ((next_H bd B ^^ j) H) k"
  by (induction j arbitrary: H) (simp_all add: funpow_swap1)

lemma gives_refl: "gives bd g [] g"
  unfolding gives_def using after_output_self [of g]
  by (intro exI [of _ 0] exI [of _ "r_randomness g"] exI [of _ "r_random_bytes g"] exI [of _ "c_data (r_prng_hash g)"]) simp

lemma gives_trans:
  assumes "gives bd g a g1" "gives bd g1 b g2"
  shows "gives bd g (a @ b) g2"
proof -
  obtain j rnd n c where 1: "g1 = after_output g ((next_H bd (B_size g) ^^ j) (r_H g)) rnd n c"
    "leftover g @ prng_blocks bd (B_size g) (r_H g) j = a @ leftover g1" using assms(1) by (auto simp: gives_def)
  obtain k rnd' n' c' where 2: "g2 = after_output g1 ((next_H bd (B_size g1) ^^ k) (r_H g1)) rnd' n' c'"
    "leftover g1 @ prng_blocks bd (B_size g1) (r_H g1) k = b @ leftover g2" using assms(2) by (auto simp: gives_def)
  have "g2 = after_output g ((next_H bd (B_size g) ^^ (k + j)) (r_H g)) rnd' n' c'" using 1(1) 2(1) by (simp add: funpow_add)
  moreover have "leftover g @ prng_blocks bd (B_size g) (r_H g) (k + j) = (a @ b) @ leftover g2"
  proof -
    have "leftover g @ prng_blocks bd (B_size g) (r_H g) (j + k) = a @ leftover g1 @ prng_blocks bd (B_size g) ((next_H bd (B_size g) ^^ j) (r_H g)) k"
      using 1(2) by (simp add: prng_blocks_add)
    then show ?thesis using 1(1) 2(2) by (simp add: add.commute)
  qed
  ultimately show ?thesis unfolding gives_def by blast
qed

lemma refill_gives:
  assumes "random_inv pd kd bd g" "r_random_bytes g = 0"
  shows "\<exists>g1. apr_random_block g = Some g1 \<and> random_inv pd kd bd (g1\<lparr>r_random_bytes := B_size g\<rparr>) \<and> B_size g1 = B_size g \<and>
    gives bd g [] (g1\<lparr>r_random_bytes := B_size g\<rparr>)"
proof -
  let ?H = "next_H bd (B_size g) (r_H g)" and ?r = "bd (bd (r_H g))"
  obtain c where c: "apr_random_block g = Some (after_output g ?H ?r (r_random_bytes g) c)" using block_output [OF assms(1)] by blast
  have inv: "crypto_hash (r_prng_hash g) bd" "length (r_H g) = B_size g + K_size g" "length (r_randomness g) = B_size g"
    using assms by (simp_all add: random_inv_def H_size_def)
  have size: "length (bd m) = B_size g" for m using crypto_hash.digest_size [OF inv(1)] by (simp add: B_size_def)
  have "random_inv pd kd bd (after_output g ?H ?r (B_size g) c)"
    using assms(1) inv(2) size by (intro random_inv_output) (simp_all add: next_H_def H_size_def)
  moreover have "gives bd g [] (after_output g ?H ?r (B_size g) c)" unfolding gives_def using assms(2) inv(3) size
    by (intro exI [of _ 1] exI [of _ ?r] exI [of _ "B_size g"] exI [of _ c]) (simp add: leftover_def)
  ultimately show ?thesis using c by simp
qed

lemma take_gives:
  assumes "random_inv pd kd bd g" "l \<le> r_random_bytes g"
  shows "gives bd g (take l (drop (B_size g - r_random_bytes g) (r_randomness g))) (g\<lparr>r_random_bytes := r_random_bytes g - l\<rparr>)"
    "random_inv pd kd bd (g\<lparr>r_random_bytes := r_random_bytes g - l\<rparr>)"
proof -
  have inv: "r_random_bytes g \<le> B_size g" using assms(1) by (simp add: random_inv_def)
  let ?g = "after_output g (r_H g) (r_randomness g) (r_random_bytes g - l) (c_data (r_prng_hash g))"
  have g: "g\<lparr>r_random_bytes := r_random_bytes g - l\<rparr> = ?g" by (simp add: after_output_def)
  have "B_size g - (r_random_bytes g - l) = l + (B_size g - r_random_bytes g)" using assms(2) inv by simp
  then have "leftover g = take l (drop (B_size g - r_random_bytes g) (r_randomness g)) @ leftover ?g"
    by (simp add: leftover_def) (metis append_take_drop_id drop_drop)
  then show "gives bd g (take l (drop (B_size g - r_random_bytes g) (r_randomness g))) (g\<lparr>r_random_bytes := r_random_bytes g - l\<rparr>)"
    unfolding g gives_def by (intro exI [of _ 0] exI [of _ "r_randomness g"] exI [of _ "r_random_bytes g - l"] exI [of _ "c_data (r_prng_hash g)"]) simp
  show "random_inv pd kd bd (g\<lparr>r_random_bytes := r_random_bytes g - l\<rparr>)" using assms(1)
    by (auto simp: random_inv_def B_size_def H_size_def K_size_def)
qed

lemma loop_gives:
  assumes "random_inv pd kd bd g"
  shows "\<exists>new g'. random_bytes_loop g out n = Some (out @ new, g') \<and> length new = n \<and> gives bd g new g' \<and> random_inv pd kd bd g'"
  using assms
proof (induction n arbitrary: g out rule: less_induct)
  case (less n)
  show ?case
  proof (cases "n = 0")
    case True
    then show ?thesis using less.prems gives_refl by (subst random_bytes_loop.simps) simp
  next
    case False
    obtain g1 where g1: "(if r_random_bytes g = 0 then do { g \<leftarrow> apr_random_block g; Some (g\<lparr>r_random_bytes := B_size g\<rparr>) } else Some g) = Some g1"
        "random_inv pd kd bd g1" "gives bd g [] g1" "0 < r_random_bytes g1"
    proof (cases "r_random_bytes g = 0")
      case True
      have "0 < B_size g" using less.prems crypto_hash.size_pos [of "r_prng_hash g" bd] by (simp add: random_inv_def B_size_def)
      then show thesis using refill_gives [OF less.prems True] True by (auto intro: that)
    next
      case False
      then show thesis using less.prems gives_refl by (intro that [of g]) simp_all
    qed
    let ?l = "min n (r_random_bytes g1)" and ?i = "B_size g1 - r_random_bytes g1"
    let ?new = "take ?l (drop ?i (r_randomness g1))" and ?g2 = "g1\<lparr>r_random_bytes := r_random_bytes g1 - ?l\<rparr>"
    have inv1: "r_random_bytes g1 \<le> B_size g1" "length (r_randomness g1) = B_size g1" using g1(2) by (simp_all add: random_inv_def)
    have l: "0 < ?l" "?l \<le> n" "length ?new = ?l" "?i + ?l \<le> length (r_randomness g1)" using False g1(4) inv1 by auto
    note t = take_gives [OF g1(2), of ?l]
    obtain rest g' where IH: "random_bytes_loop ?g2 (out @ ?new) (n - ?l) = Some ((out @ ?new) @ rest, g')" "length rest = n - ?l"
        "gives bd ?g2 rest g'" "random_inv pd kd bd g'"
      using less.IH [of "n - ?l" ?g2 "out @ ?new"] t(2) l(1) False by auto
    have "random_bytes_loop g out n = random_bytes_loop ?g2 (out @ ?new) (n - ?l)"
      using False g1(1) inv1(1) l(4) by (subst random_bytes_loop.simps) (simp add: Let_def)
    moreover have "gives bd g (?new @ rest) g'" using gives_trans [OF g1(3) gives_trans [OF t(1) IH(3)]] by simp
    ultimately show ?thesis using IH(1,2,4) l(2,3) by (intro exI [of _ "?new @ rest"] exI [of _ g']) simp
  qed
qed

section \<open>Forks\<close>

definition mixed :: "(byte list \<Rightarrow> byte list) \<Rightarrow> nat \<Rightarrow> u32 \<Rightarrow> byte list \<Rightarrow> byte list" where
  "mixed kd K pid H = kd (H @ pid_bytes pid) @ drop K H"

lemma mix_pid_mixed:
  assumes "crypto_hash (r_key_hash g) kd" "length H = H_size g"
  shows "\<exists>c. mix_pid g H pid = Some (mixed kd (K_size g) pid H, g\<lparr>r_key_hash := (r_key_hash g)\<lparr>c_data := c\<rparr>\<rparr>)"
proof -
  let ?h = "hash_add (hash_add (hash_init (r_key_hash g)) H) (pid_bytes pid)"
  obtain c where "hash_finish ?h H 0 = Some (MEMCPY_BCOPY H 0 (kd (H @ pid_bytes pid)), (r_key_hash g)\<lparr>c_data := c\<rparr>)"
    using crypto_hash.finish_chunks [OF assms(1), of 0 H ?h "[H, pid_bytes pid]"] assms(2) by (auto simp: H_size_def K_size_def)
  then show ?thesis using crypto_hash.digest_size [OF assms(1)] assms(2)
    by (auto simp: mix_pid_def mixed_def MEMCPY_BCOPY_def K_size_def)
qed

lemma length_mixed: "crypto_hash h kd \<Longrightarrow> c_size h \<le> length H \<Longrightarrow> length (mixed kd (c_size h) pid H) = length H"
  by (simp add: mixed_def crypto_hash.digest_size)

lemma waiting_updates:
  "waiting (g\<lparr>r_key_hash := h\<rparr>) = waiting g" "waiting (g\<lparr>r_H := H\<rparr>) = waiting g" "waiting (g\<lparr>r_H_waiting := H\<rparr>) = waiting g"
  by (simp_all add: waiting_def)

text \<open>A fork mixes the process identifier into the state of the output and into the one that waits.\<close>

lemma mixer_mixes:
  assumes "random_inv pd kd bd g"
  shows "\<exists>c. mixer g pid = Some (g\<lparr>r_key_hash := (r_key_hash g)\<lparr>c_data := c\<rparr>, r_H := mixed kd (K_size g) pid (r_H g),
    r_H_waiting := if waiting g then mixed kd (K_size g) pid (r_H_waiting g) else r_H_waiting g,
    r_generation := r_generation g - 1, r_random_bytes := 0\<rparr>)"
proof -
  have inv: "crypto_hash (r_key_hash g) kd" "length (r_H g) = H_size g" "length (r_H_waiting g) = H_size g"
    using assms by (simp_all add: random_inv_def)
  show ?thesis
  proof (cases "waiting g")
    case False
    obtain c where "mix_pid g (r_H g) pid = Some (mixed kd (K_size g) pid (r_H g), g\<lparr>r_key_hash := (r_key_hash g)\<lparr>c_data := c\<rparr>\<rparr>)"
      using mix_pid_mixed [OF inv(1,2)] by blast
    then show ?thesis using False by (intro exI [of _ c]) (simp add: mixer_def H_current_def set_H_current_def waiting_updates Let_def)
  next
    case True
    obtain c where 1: "mix_pid g (r_H_waiting g) pid = Some (mixed kd (K_size g) pid (r_H_waiting g), g\<lparr>r_key_hash := (r_key_hash g)\<lparr>c_data := c\<rparr>\<rparr>)"
      using mix_pid_mixed [OF inv(1,3)] by blast
    let ?g = "g\<lparr>r_key_hash := (r_key_hash g)\<lparr>c_data := c\<rparr>, r_H_waiting := mixed kd (K_size g) pid (r_H_waiting g)\<rparr>"
    have "crypto_hash (r_key_hash ?g) kd" "length (r_H ?g) = H_size ?g" "K_size ?g = K_size g"
      using inv crypto_hash.with_data [OF inv(1)] by (simp_all add: H_size_def B_size_def K_size_def)
    then obtain c' where "mix_pid ?g (r_H g) pid = Some (mixed kd (K_size g) pid (r_H g), ?g\<lparr>r_key_hash := (r_key_hash g)\<lparr>c_data := c'\<rparr>\<rparr>)"
      using mix_pid_mixed [of ?g kd "r_H g" pid] by auto
    then show ?thesis using True 1 by (intro exI [of _ c']) (simp add: mixer_def H_current_def set_H_current_def waiting_updates Let_def)
  qed
qed

lemma mixer_inv:
  assumes "random_inv pd kd bd g" "mixer g pid = Some g'"
  shows "random_inv pd kd bd g'"
proof -
  have "crypto_hash (r_key_hash g) kd" "c_size (r_key_hash g) \<le> length (r_H g)" "c_size (r_key_hash g) \<le> length (r_H_waiting g)"
    using assms(1) by (simp_all add: random_inv_def H_size_def K_size_def)
  then show ?thesis using assms mixer_mixes [OF assms(1), of pid] crypto_hash.with_data [of "r_key_hash g" kd]
    by (auto simp: random_inv_def H_size_def B_size_def K_size_def length_mixed)
qed

section \<open>Runs\<close>

datatype random_op = Add_entropy "byte list" | Secure_bytes nat | Insecure_bytes nat | Barrier | After_fork u32

fun random_step :: "(nat \<Rightarrow> byte) \<Rightarrow> 'c apr_random_t \<Rightarrow> random_op \<Rightarrow> 'c apr_random_t option" where
  "random_step junk g (Add_entropy bs) = apr_random_add_entropy junk g bs"
| "random_step junk g (Secure_bytes n) = map_option (snd \<circ> snd) (apr_random_secure_bytes g n)"
| "random_step junk g (Insecure_bytes n) = map_option (snd \<circ> snd) (apr_random_insecure_bytes g n)"
| "random_step junk g Barrier = Some (apr_random_barrier g)"
| "random_step junk g (After_fork pid) = mixer g pid"

text \<open>The calls that end: entropy is added in portions of less than \<open>2 ^ 32\<close> bytes.\<close>

fun short_op :: "random_op \<Rightarrow> bool" where
  "short_op (Add_entropy bs) \<longleftrightarrow> length bs < 2 ^ 32"
| "short_op _ \<longleftrightarrow> True"

lemma step_short: "random_step junk g op = Some g' \<Longrightarrow> short_op op"
  by (cases op) (auto simp: apr_random_add_entropy_def split: if_splits)

fun random_run :: "(nat \<Rightarrow> byte) \<Rightarrow> 'c apr_random_t \<Rightarrow> random_op list \<Rightarrow> 'c apr_random_t option" where
  "random_run junk g [] = Some g"
| "random_run junk g (op # ops) = do { g \<leftarrow> random_step junk g op; random_run junk g ops }"

lemma rekey_inv:
  assumes "random_inv pd kd bd g"
  shows "\<exists>g'. rekey g = Some g' \<and> random_inv pd kd bd g'"
proof -
  have "crypto_hash (r_key_hash g) kd" "length (H_current g) = H_size g" using assms by (simp_all add: random_inv_def H_current_def)
  then have "length (new_key kd g) = H_size g" by (simp add: new_key_def crypto_hash.digest_size H_size_def K_size_def)
  then show ?thesis using rekey_key [OF assms] random_inv_rekeyed [OF assms] by auto
qed

lemma add_entropy_inv:
  assumes "random_inv pd kd bd g" "length bs < 2 ^ 32"
  shows "\<exists>g'. apr_random_add_entropy junk g bs = Some g' \<and> random_inv pd kd bd g'"
proof -
  obtain g1 where g1: "add_bytes junk g bs = Some g1" "random_inv pd kd bd g1" using add_bytes_pours [OF assms(1)] by blast
  moreover have "r_pools g1 \<noteq> []" using g1(2) by (auto simp: random_inv_def)
  ultimately show ?thesis using rekey_inv [OF g1(2)] assms(2) by (auto simp: apr_random_add_entropy_def)
qed

lemma bytes_inv:
  assumes "random_inv pd kd bd g"
  shows "\<exists>out g'. apr_random_bytes g n = Some (out, g') \<and> length out = n \<and> gives bd g out g' \<and> random_inv pd kd bd g'"
  using loop_gives [OF assms, of "[]" n] by (auto simp: apr_random_bytes_def)

lemma random_step_inv:
  assumes "random_inv pd kd bd g" "short_op op"
  shows "\<exists>g'. random_step junk g op = Some g' \<and> random_inv pd kd bd g'"
proof (cases op)
  case (Add_entropy bs)
  then show ?thesis using add_entropy_inv [OF assms(1)] assms(2) by simp
next
  case (Secure_bytes n)
  then show ?thesis using bytes_inv [OF assms(1), of n] assms(1) by (auto simp: apr_random_secure_bytes_def)
next
  case (Insecure_bytes n)
  then show ?thesis using bytes_inv [OF assms(1), of n] assms(1) by (auto simp: apr_random_insecure_bytes_def)
next
  case Barrier
  then show ?thesis using assms(1) by (simp add: apr_random_barrier_def random_inv_def H_size_def B_size_def K_size_def)
next
  case (After_fork pid)
  then show ?thesis using mixer_mixes [OF assms(1), of pid] mixer_inv [OF assms(1), of pid] by auto
qed

lemma random_run_inv:
  assumes "random_inv pd kd bd g" "list_all short_op ops"
  shows "\<exists>g'. random_run junk g ops = Some g' \<and> random_inv pd kd bd g'"
  using assms
proof (induction ops arbitrary: g)
  case Nil
  then show ?case by simp
next
  case (Cons op ops)
  obtain g1 where "random_step junk g op = Some g1" "random_inv pd kd bd g1" using random_step_inv [OF Cons.prems(1)] Cons.prems(2) by auto
  then show ?case using Cons.IH [of g1] Cons.prems(2) by simp
qed

section \<open>Properties\<close>

text \<open>
  C13. Whatever is done with a standard generator, in any order and with any entropy given in portions of
  less than \<open>2 ^ 32\<close> bytes, no array is accessed outside its bounds, no assertion fails, every call ends, and
  the invariant of the pools, the states and the buffer holds.
\<close>

theorem apr_random_runs:
  assumes "list_all short_op ops"
  shows "\<exists>g. random_run junk (apr_random_standard_new junk0 data) ops = Some g \<and> random_inv sha256 sha256 sha256 g"
  using assms by (intro random_run_inv standard_inv)

theorem apr_random_runs_witness:
  "\<exists>g. random_run (\<lambda>_. 0) (apr_random_standard_new [] zero_context)
      [Add_entropy [1, 2, 3], Secure_bytes 4, Barrier, After_fork 7, Insecure_bytes 5] = Some g \<and>
    random_inv sha256 sha256 sha256 g"
  by (rule apr_random_runs) simp

text \<open>For a longer portion of entropy the call does not end.\<close>

lemma long_entropy_never_ends: "2 ^ 32 \<le> length bs \<Longrightarrow> apr_random_add_entropy junk g bs = None"
  by (simp add: apr_random_add_entropy_def)

lemma used_pools: "filter (\<lambda>n. 2 ^ n dvd unat gen + 1) [0..<32] = [0..<depth gen]"
proof -
  have "filter (\<lambda>n. 2 ^ n dvd unat gen + 1) [0..<32] = filter (\<lambda>n. n < depth gen) [0..<32]"
    using depth_dvd by (intro filter_cong) auto
  also have "\<dots> = filter (\<lambda>n. n < depth gen) ([0..<depth gen] @ [depth gen..<32])"
    using upt_add_eq_append [of 0 "depth gen" "32 - depth gen"] depth_le [of gen] by simp
  finally show ?thesis by (simp add: filter_empty_conv filter_True)
qed

lemma pool_data_emptied:
  assumes "length ps = 32"
  shows "map pool_data (emptied (depth gen) ps) = map (\<lambda>n. if 2 ^ n dvd unat gen + 1 then [] else map pool_data ps ! n) [0..<32]"
proof (rule nth_equalityI)
  show "length (map pool_data (emptied (depth gen) ps)) = length (map (\<lambda>n. if 2 ^ n dvd unat gen + 1 then [] else map pool_data ps ! n) [0..<32])"
    using assms by (simp add: emptied_def)
next
  fix n assume "n < length (map pool_data (emptied (depth gen) ps))"
  then have n: "n < 32" using assms by (simp add: emptied_def)
  show "map pool_data (emptied (depth gen) ps) ! n = map (\<lambda>n. if 2 ^ n dvd unat gen + 1 then [] else map pool_data ps ! n) [0..<32] ! n"
  proof (cases "n < depth gen")
    case True
    then have "2 ^ n dvd unat gen + 1" using depth_dvd [OF n] by simp
    then show ?thesis using True n assms by (simp add: emptied_def nth_append pool_data_def)
  next
    case False
    then have "\<not> 2 ^ n dvd unat gen + 1" using depth_dvd [OF n] by simp
    then show ?thesis using False n assms depth_le [of gen] by (simp add: emptied_def nth_append pool_data_def)
  qed
qed

text \<open>
  C14. A change of the key uses up pool \<open>n\<close> in every \<open>2 ^ n\<close>-th generation, and then it uses it up
  completely; the other pools keep their entropy. The new key is the hash of the current state and of
  these pools, and it is the current one afterwards, also when output starts with this generation, unless
  secure output starts before insecure output.
\<close>

theorem rekey_uses_pools:
  fixes g :: "'c apr_random_t"
  assumes "random_inv pd kd bd g"
  defines "used \<equiv> \<lambda>n. 2 ^ n dvd unat (r_generation g) + 1"
  shows "\<exists>g'. rekey g = Some g' \<and> random_inv pd kd bd g' \<and> r_generation g' = r_generation g + 1 \<and>
    pool_contents g' = map (\<lambda>n. if used n then [] else pool_contents g ! n) [0..<32] \<and>
    ((r_secure_started g' \<longrightarrow> r_insecure_started g') \<longrightarrow>
      H_current g' = take (B_size g) (H_current g) @ kd (H_current g @ concat (map ((!) (pool_contents g)) (filter used [0..<32]))))"
proof -
  let ?g1 = "\<lambda>c. (set_H_current (g\<lparr>r_pools := emptied (depth (r_generation g)) (r_pools g)\<rparr>) (new_key kd g))\<lparr>r_key_hash := (r_key_hash g)\<lparr>c_data := c\<rparr>\<rparr>"
  obtain c where c: "rekey g = Some (start_generation (?g1 c))" using rekey_key [OF assms(1)] by blast
  have len: "length (r_pools g) = 32" using assms(1) by (simp add: random_inv_def)
  then have "take (depth (r_generation g)) (pool_contents g) = map ((!) (pool_contents g)) [0..<depth (r_generation g)]"
    using depth_le [of "r_generation g"] by (intro nth_equalityI) (simp_all add: pool_contents_def)
  then have key: "new_key kd g = take (B_size g) (H_current g) @ kd (H_current g @ concat (map ((!) (pool_contents g)) (filter used [0..<32])))"
    unfolding new_key_def used_def used_pools by simp
  have "H_current (?g1 c) = new_key kd g" by (auto simp: H_current_def set_H_current_def waiting_def)
  then have "(r_secure_started (start_generation (?g1 c)) \<longrightarrow> r_insecure_started (start_generation (?g1 c))) \<longrightarrow> H_current (start_generation (?g1 c)) = new_key kd g"
    using advance_current [of "?g1 c"] by simp
  moreover have "pool_contents (start_generation (?g1 c)) = map (\<lambda>n. if used n then [] else pool_contents g ! n) [0..<32]"
    using pool_data_emptied [OF len, of "r_generation g"] by (simp add: pool_contents_def advance_fields set_H_current_simps used_def)
  moreover have "random_inv pd kd bd (start_generation (?g1 c))" using rekey_inv [OF assms(1)] c by simp
  ultimately show ?thesis using c key by (auto simp: advance_fields set_H_current_simps)
qed

theorem rekey_uses_pools_witness:
  "\<exists>g'. rekey (apr_random_standard_new [] zero_context) = Some g' \<and> random_inv sha256 sha256 sha256 g' \<and> r_generation g' = 1"
  using rekey_uses_pools [OF standard_inv [of "[]" zero_context]]
  by (auto simp: apr_random_standard_new_def apr_random_init_def Let_def)

lemma length_prng_blocks: "(\<And>m. length (bd m) = B) \<Longrightarrow> length (prng_blocks bd B H k) = k * B"
  by (induction k arbitrary: H) simp_all

lemma gives_prefix:
  assumes "gives bd g out g'" "length out = n" "\<And>m. length (bd m) = B_size g" "0 < B_size g"
  shows "out = take n (leftover g @ prng_blocks bd (B_size g) (r_H g) n)"
proof -
  obtain k where k: "leftover g @ prng_blocks bd (B_size g) (r_H g) k = out @ leftover g'" using assms(1) by (auto simp: gives_def)
  have len: "n \<le> length (prng_blocks bd (B_size g) (r_H g) n)" using assms(3,4) by (simp add: length_prng_blocks)
  show ?thesis
  proof (cases "k \<le> n")
    case True
    then have "prng_blocks bd (B_size g) (r_H g) n = prng_blocks bd (B_size g) (r_H g) k @ prng_blocks bd (B_size g) ((next_H bd (B_size g) ^^ k) (r_H g)) (n - k)"
      using prng_blocks_add [of bd "B_size g" "r_H g" k "n - k"] by simp
    then have "leftover g @ prng_blocks bd (B_size g) (r_H g) n = out @ leftover g' @ prng_blocks bd (B_size g) ((next_H bd (B_size g) ^^ k) (r_H g)) (n - k)"
      using k by simp
    then show ?thesis using assms(2) by simp
  next
    case False
    then have "prng_blocks bd (B_size g) (r_H g) k = prng_blocks bd (B_size g) (r_H g) n @ prng_blocks bd (B_size g) ((next_H bd (B_size g) ^^ n) (r_H g)) (k - n)"
      using prng_blocks_add [of bd "B_size g" "r_H g" n "k - n"] by simp
    then have "take n (leftover g @ prng_blocks bd (B_size g) (r_H g) n) = take n (out @ leftover g')" using k len by (simp flip: k)
    then show ?thesis using assms(2) by simp
  qed
qed

text \<open>
  C33. The bytes of a request are the first bytes of one stream: the rest of the last block and the blocks that
  the state generates. So it does not matter how requests divide the stream. Output changes neither
  the entropy nor the state that waits for secure output.
\<close>

theorem apr_random_bytes_stream:
  assumes "random_inv pd kd bd g"
  shows "\<exists>out g'. apr_random_bytes g n = Some (out, g') \<and> out = take n (leftover g @ prng_blocks bd (B_size g) (r_H g) n) \<and> length out = n \<and>
    (\<exists>k. leftover g @ prng_blocks bd (B_size g) (r_H g) k = out @ leftover g' \<and> r_H g' = (next_H bd (B_size g) ^^ k) (r_H g)) \<and>
    r_H_waiting g' = r_H_waiting g \<and> pool_contents g' = pool_contents g \<and> random_inv pd kd bd g'"
proof -
  obtain out g' where o: "apr_random_bytes g n = Some (out, g')" "length out = n" "gives bd g out g'" "random_inv pd kd bd g'"
    using bytes_inv [OF assms] by blast
  have h: "crypto_hash (r_prng_hash g) bd" using assms by (simp add: random_inv_def)
  have "out = take n (leftover g @ prng_blocks bd (B_size g) (r_H g) n)"
    by (rule gives_prefix [OF o(3,2)]) (simp_all add: B_size_def crypto_hash.digest_size [OF h] crypto_hash.size_pos [OF h])
  moreover have "\<exists>k. leftover g @ prng_blocks bd (B_size g) (r_H g) k = out @ leftover g' \<and> r_H g' = (next_H bd (B_size g) ^^ k) (r_H g)"
    "r_H_waiting g' = r_H_waiting g" "pool_contents g' = pool_contents g"
    using o(3) by (auto simp: gives_def after_output_def pool_contents_def)
  ultimately show ?thesis using o by blast
qed

theorem apr_random_bytes_stream_witness:
  "\<exists>out g'. apr_random_bytes (apr_random_standard_new [] zero_context) 40 = Some (out, g') \<and> length out = 40"
  using apr_random_bytes_stream [OF standard_inv [of "[]" zero_context], of 40] by blast

section \<open>When output starts\<close>

text \<open>
  Without forks the generation counts the key changes, which a run of fewer than \<open>2 ^ 32\<close> operations
  cannot let wrap; \<open>m\<close> is the number of additions of entropy.
\<close>

definition gate :: "nat \<Rightarrow> 'c apr_random_t \<Rightarrow> bool" where
  "gate m g \<longleftrightarrow> unat (r_generation g) \<le> m \<and> r_g_for_insecure g = 32 \<and> r_g_for_secure g = 320 \<and>
     unat (r_secure_base g) \<le> unat (r_generation g) \<and>
     (r_insecure_started g \<longrightarrow> 33 \<le> unat (r_secure_base g)) \<and>
     (r_secure_started g \<longrightarrow> r_insecure_started g \<and> 353 < unat (r_generation g))"

lemma gate_cong:
  assumes "gate m g" "r_generation g' = r_generation g" "r_g_for_insecure g' = r_g_for_insecure g" "r_g_for_secure g' = r_g_for_secure g"
    "r_secure_base g' = r_secure_base g" "r_insecure_started g' = r_insecure_started g" "r_secure_started g' = r_secure_started g"
  shows "gate m g'"
  using assms by (simp add: gate_def)

lemma gate_advance:
  assumes "gate m g" "m + 400 < 2 ^ 32"
  shows "gate (Suc m) (start_generation g)"
proof -
  let ?n = "unat (r_generation g)"
  have gen: "unat (r_generation g + 1) = Suc ?n" using assms by (simp add: gate_def unat_word_ariths)
  have base: "unat (r_secure_base g + 320) = unat (r_secure_base g) + 320" "unat (r_generation g + 1 + 320) = Suc ?n + 320"
    using assms gen unat_word_ariths(1) [of "r_secure_base g" 320] unat_word_ariths(1) [of "r_generation g + 1" 320]
    by (simp_all add: gate_def)
  show ?thesis using assms gen base
    by (auto simp: gate_def start_generation_def Let_def word_less_nat_alt)
qed

lemma gate_rekey:
  assumes "random_inv pd kd bd g" "gate m g" "m + 400 < 2 ^ 32" "rekey g = Some g'"
  shows "gate (Suc m) g'"
proof -
  obtain c where "g' = start_generation ((set_H_current (g\<lparr>r_pools := emptied (depth (r_generation g)) (r_pools g)\<rparr>) (new_key kd g))
    \<lparr>r_key_hash := (r_key_hash g)\<lparr>c_data := c\<rparr>\<rparr>)" using rekey_key [OF assms(1)] assms(4) by auto
  then show ?thesis by (simp only:) (intro gate_advance gate_cong [OF assms(2)] assms(3); simp add: set_H_current_simps)
qed

lemma gate_entropy:
  assumes "random_inv pd kd bd g" "gate m g" "m + 400 < 2 ^ 32" "apr_random_add_entropy junk g bs = Some g'"
  shows "gate (Suc m) g'"
proof -
  obtain g1 where g1: "add_bytes junk g bs = Some g1" "random_inv pd kd bd g1" "same_output g g1" using add_bytes_pours [OF assms(1)] by blast
  then have "gate m g1" using gate_cong [OF assms(2), of g1] by (simp add: same_output_def)
  then show ?thesis using gate_rekey [OF g1(2) _ assms(3)] g1(1) assms(4)
    by (auto simp: apr_random_add_entropy_def gate_def split: if_splits)
qed

fun is_add :: "random_op \<Rightarrow> bool" where
  "is_add (Add_entropy bs) = True"
| "is_add _ = False"

fun is_fork :: "random_op \<Rightarrow> bool" where
  "is_fork (After_fork pid) = True"
| "is_fork _ = False"

lemma gate_bytes:
  assumes "random_inv pd kd bd g" "gate m g" "apr_random_bytes g n = Some (out, g')"
  shows "gate m g'"
proof -
  have "gives bd g out g'" using bytes_inv [OF assms(1), of n] assms(3) by auto
  then show ?thesis using gate_cong [OF assms(2), of g'] by (auto simp: gives_def after_output_def)
qed

lemma gate_op:
  assumes "random_inv pd kd bd g" "gate m g" "m + 400 < 2 ^ 32" "\<not> is_fork op" "random_step junk g op = Some g'"
  shows "gate (if is_add op then Suc m else m) g'"
proof (cases op)
  case (Add_entropy bs)
  then show ?thesis using gate_entropy [OF assms(1-3)] assms(5) by simp
next
  case (Secure_bytes n)
  then show ?thesis using gate_bytes [OF assms(1,2)] assms(2,5)
    by (auto simp: apr_random_secure_bytes_def split: if_splits Option.bind_splits)
next
  case (Insecure_bytes n)
  then show ?thesis using gate_bytes [OF assms(1,2)] assms(2,5)
    by (auto simp: apr_random_insecure_bytes_def split: if_splits Option.bind_splits)
next
  case Barrier
  then show ?thesis using assms(2,5) by (auto simp: apr_random_barrier_def gate_def)
next
  case (After_fork pid)
  then show ?thesis using assms(4) by simp
qed

lemma gate_ops:
  assumes "random_inv pd kd bd g" "gate m g" "m + length ops + 400 < 2 ^ 32" "list_all (\<lambda>op. \<not> is_fork op) ops" "random_run junk g ops = Some g'"
  shows "gate (m + length (filter is_add ops)) g'"
  using assms
proof (induction ops arbitrary: g m)
  case Nil
  then show ?case by simp
next
  case (Cons op ops)
  obtain g1 where st: "random_step junk g op = Some g1" using Cons.prems(5) by (auto split: Option.bind_splits)
  have g1: "random_step junk g op = Some g1" "random_inv pd kd bd g1"
    using random_step_inv [OF Cons.prems(1) step_short [OF st], of junk] st by auto
  then have "gate (if is_add op then Suc m else m) g1" using gate_op [OF Cons.prems(1,2)] Cons.prems(3,4) by simp
  then show ?case using Cons.IH [OF g1(2), of m] Cons.IH [OF g1(2), of "Suc m"] g1(1) Cons.prems(3-5) by (cases "is_add op") simp_all
qed

lemma gate_standard: "gate 0 (apr_random_standard_new junk0 data)"
  by (simp add: gate_def apr_random_standard_new_def apr_random_init_def Let_def APR_RANDOM_DEFAULTS)

text \<open>
  C15. A standard generator in a process that does not fork gives insecure bytes only after more than 32
  additions of entropy, and secure bytes only after more than 353, 320 of them since insecure output started.
\<close>

theorem apr_random_gates:
  assumes "random_run junk (apr_random_standard_new junk0 data) ops = Some g" "list_all (\<lambda>op. \<not> is_fork op) ops" "length ops + 400 < 2 ^ 32"
  shows "(apr_random_insecure_ready g = APR_SUCCESS \<longrightarrow> 32 < length (filter is_add ops)) \<and>
    (apr_random_secure_ready g = APR_SUCCESS \<longrightarrow> 353 < length (filter is_add ops))"
proof -
  have "gate (length (filter is_add ops)) g" using gate_ops [OF standard_inv gate_standard _ assms(2,1)] assms(3) by simp
  then show ?thesis by (auto simp: gate_def apr_random_insecure_ready_def apr_random_secure_ready_def split: if_splits)
qed

theorem apr_random_gates_witness:
  "apr_random_insecure_ready (apr_random_barrier (apr_random_standard_new [] zero_context)) \<noteq> APR_SUCCESS \<and>
    apr_random_secure_ready (apr_random_barrier (apr_random_standard_new [] zero_context)) \<noteq> APR_SUCCESS"
  using apr_random_gates [of "\<lambda>_. 0" "[]" zero_context "[Barrier]"] by auto

lemma wrapped_advance:
  assumes "r_generation g = - 2" "\<not> r_insecure_started g" "\<not> r_secure_started g" "r_g_for_insecure g = 32" "r_g_for_secure g = 320"
  shows "r_secure_started (start_generation g)"
proof -
  have "(32 :: u32) < - 1" "- 1 + (320 :: u32) < - 1" "- 2 + (1 :: u32) = - 1" by code_simp+
  then show ?thesis using assms by (simp add: start_generation_def)
qed

text \<open>
  After forks this is not so. Two forks before the first key change take the generation below zero: the next
  key change lets insecure output start, the sum for secure output wraps, and that starts as well, after a
  single key change.
\<close>

theorem forks_open_the_gate:
  fixes junk0 data
  defines "g0 \<equiv> apr_random_standard_new junk0 data"
  shows "\<exists>g1 g2 g3. mixer g0 pid1 = Some g1 \<and> mixer g1 pid2 = Some g2 \<and> rekey g2 = Some g3 \<and> apr_random_secure_ready g3 = APR_SUCCESS"
proof -
  have i0: "random_inv sha256 sha256 sha256 g0" unfolding g0_def by (rule standard_inv)
  obtain g1 where 1: "mixer g0 pid1 = Some g1" "r_generation g1 = - 1" "\<not> r_insecure_started g1" "\<not> r_secure_started g1"
      "r_g_for_insecure g1 = 32" "r_g_for_secure g1 = 320"
    using mixer_mixes [OF i0, of pid1] by (auto simp: g0_def apr_random_standard_new_def apr_random_init_def Let_def APR_RANDOM_DEFAULTS)
  have i1: "random_inv sha256 sha256 sha256 g1" using mixer_inv [OF i0 1(1)] .
  obtain g2 where 2: "mixer g1 pid2 = Some g2" "r_generation g2 = - 2" "\<not> r_insecure_started g2" "\<not> r_secure_started g2"
      "r_g_for_insecure g2 = 32" "r_g_for_secure g2 = 320"
    using mixer_mixes [OF i1, of pid2] 1 by auto
  have i2: "random_inv sha256 sha256 sha256 g2" using mixer_inv [OF i1 2(1)] .
  obtain c where "rekey g2 = Some (start_generation ((set_H_current (g2\<lparr>r_pools := emptied (depth (r_generation g2)) (r_pools g2)\<rparr>) (new_key sha256 g2))
    \<lparr>r_key_hash := (r_key_hash g2)\<lparr>c_data := c\<rparr>\<rparr>))" using rekey_key [OF i2] by blast
  then show ?thesis using 1(1) 2 by (simp add: apr_random_secure_ready_def set_H_current_simps wrapped_advance)
qed

section \<open>All generators after a fork\<close>

text \<open>Every registered generator is mixed, and no other is touched.\<close>

lemma mix_all_mixes:
  assumes "distinct is" "\<And>i. i \<in> set is \<Longrightarrow> \<exists>g. gens i = Some g \<and> random_inv pd kd bd g"
  shows "\<exists>gens'. mix_all gens pid is = Some gens' \<and> (\<forall>i. gens' i = (if i \<in> set is then mixer (the (gens i)) pid else gens i))"
  using assms
proof (induction "is" arbitrary: gens)
  case Nil
  then show ?case by simp
next
  case (Cons i "is")
  obtain g where g: "gens i = Some g" "random_inv pd kd bd g" using Cons.prems(2) [of i] by auto
  obtain g' where g': "mixer g pid = Some g'" using mixer_mixes [OF g(2), of pid] by blast
  have "\<exists>gens'. mix_all (gens(i \<mapsto> g')) pid is = Some gens' \<and>
      (\<forall>j. gens' j = (if j \<in> set is then mixer (the ((gens(i \<mapsto> g')) j)) pid else (gens(i \<mapsto> g')) j))"
    using Cons.prems by (intro Cons.IH) auto
  then obtain gens' where *: "mix_all (gens(i \<mapsto> g')) pid is = Some gens'"
      "\<And>j. gens' j = (if j \<in> set is then mixer (the ((gens(i \<mapsto> g')) j)) pid else (gens(i \<mapsto> g')) j)" by blast
  then have "gens' j = (if j \<in> set (i # is) then mixer (the (gens j)) pid else gens j)" for j using Cons.prems(1) g(1) g' by auto
  then show ?case using *(1) g(1) g' by simp
qed

theorem apr_random_after_fork_mixes:
  assumes "distinct (all_random w)" "\<And>i. i \<in> set (all_random w) \<Longrightarrow> \<exists>g. w_gens w i = Some g \<and> random_inv pd kd bd g"
  shows "\<exists>w'. apr_random_after_fork w pid = Some w' \<and> all_random w' = all_random w \<and>
    (\<forall>i. w_gens w' i = (if i \<in> set (all_random w) then mixer (the (w_gens w i)) pid else w_gens w i))"
proof -
  obtain gens where "mix_all (w_gens w) pid (all_random w) = Some gens"
      "\<forall>i. gens i = (if i \<in> set (all_random w) then mixer (the (w_gens w i)) pid else w_gens w i)"
    using mix_all_mixes [of "all_random w" "w_gens w" pd kd bd pid] assms by blast
  then show ?thesis by (intro exI [of _ "w\<lparr>w_gens := gens\<rparr>"]) (simp add: apr_random_after_fork_def)
qed

lemma registered:
  "i \<notin> set (all_random w) \<Longrightarrow> distinct (all_random w) \<Longrightarrow> distinct (all_random (register_random w i g))"
  "distinct (all_random w) \<Longrightarrow> distinct (all_random (random_cleanup w i)) \<and> set (all_random (random_cleanup w i)) = set (all_random w) - {i}"
  by (simp_all add: register_random_def random_cleanup_def)

end
