(* ===== verification/Spec2Isabelle.thy ===== *)
theory Spec2Isabelle
  imports Apr_Table_Compress Apr_Codec Apr_Hash_Spec Apr_Strnatcmp Apr_Cpystrn Apr_Filepath Apr_Fnmatch_Spec Apr_Escape_Spec Apr_Getopt_Spec Apr_Random_Spec
begin

text \<open>
  Verification of the core of the Apache Portable Runtime, \<^verbatim>\<open>src/apr-1.7.0\<close>, the C library on which the
  ActiveMQ client of this repository runs.

  \<^bold>\<open>The program.\<close> APR gives portable C programs memory pools, data structures, string functions,
  encodings and wrappers of the operating system. The development models the parts that compute rather
  than call the system, in the Unix configuration with signed ASCII characters, and proves what they
  promise. The parts and how they depend on each other: tables store their entries in arrays; the
  compression and the overlap of tables sort them; \<open>apr_cstr_split\<close> and the path lists put pointers to
  the tokens of \<open>apr_strtok\<close> into arrays; the tokenizer of command lines copies with \<open>apr_cpystrn\<close>; the
  checked number conversions call \<open>apr_strtoi64\<close>.

  \<^bold>\<open>The theories.\<close>

  \<^item> \<open>Apr_Prelude\<close>: bytes, C strings, status codes, the C library functions of the sources, the store of
    blocks with \<open>memcpy\<close> and \<open>memset\<close>, and the interfaces the components share: \<open>key_filter\<close> (a tag
    compared before a key), \<open>kv_store\<close> and \<open>kv_map\<close> (bounded and unbounded finite maps, one a sublocale
    of the other).

  \<^item> \<open>Apr_Array\<close> (\<^verbatim>\<open>tables/apr_tables.c\<close>, arrays): headers whose elements are a block of the store, so
    that shared elements are shared in the model. The view of an array as a list, the locale
    \<open>growing_sequence\<close> interpreted on both pushes, append, copy, and the string concatenation
    \<open>apr_array_pstrcat\<close>, whose two passes agree.

  \<^item> \<open>Apr_Table\<close> (\<^verbatim>\<open>tables/apr_tables.c\<close>, tables): entries, checksums, the index of hash chains, get, set,
    unset, merge, add, copy, clone, overlay, clear. The invariant says that the index points to the first
    and last entry of each initial byte; every operation keeps it and refines an operation on the list
    of entries; gets, sets and unsets together are a finite map over keys without case (an interpretation
    of \<open>kv_map\<close>).

  \<^item> \<open>Apr_Table_Sort\<close>, \<open>Apr_Table_Compress\<close>: the bottom-up merge sort, equal to the stable sort by key;
    duplicate elimination, overlap, \<open>apr_table_vdo\<close> and \<open>apr_table_getm\<close>. Merging a NULL value is undefined in
    the code and \<open>None\<close> in the model.

  \<^item> \<open>Apr_Hash\<close> (\<^verbatim>\<open>tables/apr_hash.c\<close>): all functions on a heap of entries. \<open>Apr_Hash_Heap\<close> has the chains
    and iterators, \<open>Apr_Hash_Map\<close> the invariant and lookup, update and expansion, \<open>Apr_Hash_Ops\<close> iteration,
    clearing and copying, \<open>Apr_Hash_Merge\<close> merging, \<open>Apr_Hash_Spec\<close> the interpretation of \<open>kv_store\<close> and
    the properties, among them that the count is the number of keys and that the array grows with it. Loops
    along chains are partial functions, and the properties prove that they return.

  \<^item> \<open>Apr_Encode\<close>, \<open>Apr_Codec\<close> (\<^verbatim>\<open>encoding/apr_encode.c\<close>): the base64, base32 and base16 coders with their
    length queries, pool variants and statuses; equality with the encodings of RFC 4648 and round trips. The
    properties leave out the flags and texts for which \<^verbatim>\<open>apr_encode.h\<close> documents another result (padded texts
    without \<open>APR_ENCODE_RELAXED\<close>, \<open>APR_ENCODE_NOPADDING\<close> alone); lemmas at the end show what the code does there.

  \<^item> \<open>Apr_Ctype\<close>: character classes of \<^verbatim>\<open>apr_lib.h\<close>, skipping, and decimal numbers. Pointers into strings
    are the lists of the bytes from them on, so that a read past the end is visible.

  \<^item> \<open>Apr_Strnatcmp\<close> (\<^verbatim>\<open>strings/apr_strnatcmp.c\<close>): natural order; antisymmetry, numbers compare by value.

  \<^item> \<open>Apr_Strings\<close> (\<^verbatim>\<open>strings/apr_strings.c\<close>): copies, \<open>apr_pstrcatv\<close>, number reading and printing.

  \<^item> \<open>Apr_Cpystrn\<close> (\<^verbatim>\<open>strings/apr_cpystrn.c\<close>): bounded copy, the argument tokenizer, path names, the
    replacements for C library functions.

  \<^item> \<open>Apr_Cstr\<close> (\<^verbatim>\<open>strings/apr_cstr.c\<close>, \<^verbatim>\<open>strings/apr_strtok.c\<close>): tokens in place, splitting, comparison and
    checked numbers.

  \<^item> \<open>Apr_Filepath\<close> (\<^verbatim>\<open>file_io/unix/filepath.c\<close>, \<^verbatim>\<open>file_io/unix/filepath_util.c\<close>): merging paths, with the
    proof that a secure merge stays below its root, and lists of paths.

  \<^item> \<open>Apr_Fnmatch\<close>, \<open>Apr_Fnmatch_Spec\<close> (\<^verbatim>\<open>strings/apr_fnmatch.c\<close>, and \<open>apr_cstr_match_glob_list\<close>): the matcher of
    glob patterns, loop by loop, and its equality with a reference that tries every way to match. The property
    is about patterns whose brackets are closed and not empty, where \<^verbatim>\<open>apr_fnmatch.h\<close> and the code agree.

  \<^item> \<open>Apr_Escape\<close>, \<open>Apr_Escape_Spec\<close> (\<^verbatim>\<open>encoding/apr_escape.c\<close>, \<^verbatim>\<open>tools/gen_test_char.c\<close>): escaping for shells,
    URLs, XML, logs and LDAP, the inverses for URLs, entities and hexadecimal text; the locale \<open>two_pass\<close>
    says that counting and writing agree, and the inverses restore what was escaped.

  \<^item> \<open>Apr_Getopt\<close>, \<open>Apr_Getopt_Spec\<close> (\<^verbatim>\<open>misc/unix/getopt.c\<close>): the parsers of short and long options. A loop
    of calls gives what a recursive reference reads from the command line, and the permutations in place
    bring the operands behind the options in their order.

  \<^item> \<open>Apr_Sha2\<close>, \<open>Apr_Sha2_Spec\<close> (\<^verbatim>\<open>random/unix/sha2.c\<close>): SHA-256 on its buffer, which is also the circular message
    schedule, and the equality of any stream of updates with the hash of FIPS 180-4.

  \<^item> \<open>Apr_Random\<close>, \<open>Apr_Random_Spec\<close> (\<^verbatim>\<open>random/unix/apr_random.c\<close>, \<^verbatim>\<open>random/unix/sha2_glue.c\<close>): the random number
    generator. The locale \<open>crypto_hash\<close> is the contract of a hash object, interpreted by SHA-256; the generator
    keeps its invariant in every run, uses its pools in turn, gives out one stream, and starts only with
    enough entropy unless the process forks.

  \<^bold>\<open>Conventions.\<close> Unsigned integers whose wrap-around matters are words (\<open>u32\<close>); sizes and indexes are
  natural numbers; the signed numbers of the conversions are integers that wrap explicitly. A function
  that could access memory outside its objects or fail to end returns an option, and \<open>None\<close> is that
  failure; the properties say when it cannot happen. Allocation always succeeds and gives fresh memory
  with indeterminate contents. No fuel is used: loops are recursive functions with a termination proof,
  or partial functions whose results are proved to exist. Hash tables are assumed to hold fewer
  than \<open>2 ^ 31\<close> entries, since \<open>expand_array\<close> doubles a 32-bit size. Indexes of type \<open>int\<close> into strings and
  arrays stay below \<open>2 ^ 31\<close>; where the length they are compared with is an \<open>apr_size_t\<close> or \<open>apr_ssize_t\<close> (the
  encoders, the length queries of the decoders, \<open>apr_random_add_entropy\<close>) the conversion, the overflow and the
  wrap-around are part of the model and the bound is a hypothesis of the properties.

  \<^bold>\<open>Not modelled.\<close> The pool allocator (a parameter-free \<open>fresh memory\<close> stands for it), skip lists,
  formatted output, address parsing; everything that is a wrapper of system calls (files, processes, threads, locks,
  sockets, polling, shared memory, time); the versions for other systems; and the C++ libraries.
  \<open>apr_strfsize\<close> needs formatted output and \<open>apr_strtoff\<close> calls the C library.
\<close>

section \<open>Components together\<close>

text \<open>
  Names built from a common prefix without digits and a printed number are ordered by the number.
\<close>

lemma printed_numbers_in_order:
  assumes "cstr p" "list_all (\<lambda>c. \<not> apr_isdigit c) p" "0 \<le> m" "m < 2 ^ 31" "0 \<le> n" "n < 2 ^ 31"
  shows "\<exists>s t. apr_itoa junk m = Some s \<and> apr_itoa junk' n = Some t \<and> apr_strnatcmp (p @ s) (p @ t) = Some (sgn (m - n))"
proof -
  have d: "decimal k = Apr_Ctype.digits (nat k)" if "0 \<le> k" for k using that by (simp add: decimal_def)
  have "length (Apr_Ctype.digits (nat k)) \<le> 4 * 3" if "0 \<le> k" "k < 2 ^ 31" for k :: int
    using that by (intro digits_length) auto
  then have "apr_itoa junk k = Some (Apr_Ctype.digits (nat k) @ [0])" if "0 \<le> k" "k < 2 ^ 31" for junk k
    using that d [of k] toa_decimal [of k 4 junk] by (simp add: apr_itoa_def)
  moreover have "apr_strnatcmp (p @ Apr_Ctype.digits (nat m) @ [0]) (p @ Apr_Ctype.digits (nat n) @ [0]) = Some (sgn (m - n))"
    using strnatcmp0_prefix [OF assms(1,2)] strnatcmp0_numbers [of "nat m" "[]" "nat n" "[]"] assms(3,5)
    by (simp add: apr_strnatcmp_def order_of_def)
  ultimately show ?thesis using assms(3-6) by blast
qed

text \<open>
  A command line split at blanks by \<open>apr_cstr_split\<close> and one read by \<open>apr_tokenize_to_argv\<close> have the same
  words when there are no quotes and no backslashes in it.
\<close>

lemma split_token_plain:
  "34 \<notin> set s \<Longrightarrow> 39 \<notin> set s \<Longrightarrow> 92 \<notin> set s \<Longrightarrow>
    split_token 0 s = (takeWhile (\<lambda>c. \<not> blank c) s, dropWhile (\<lambda>c. \<not> blank c) s)"
  by (induction "0 :: nat" s rule: split_token.induct) (auto simp: ends_string_def blank_def)

lemma unescape_plain: "92 \<notin> set s \<Longrightarrow> unescape e s = s"
  by (induction e s rule: unescape.induct) auto

lemma tokens_are_fields:
  assumes "34 \<notin> set s" "39 \<notin> set s" "92 \<notin> set s"
  shows "tokens s = Apr_Cstr.fields [32, 9] s"
  using assms
proof (induction s rule: tokens_induct)
  case (none s)
  then show ?case using fields_none [of "[32, 9]" s] tokens_done [of s] by (simp add: blank_def)
next
  case (token s q u w rest)
  let ?t = "dropWhile blank s"
  have t: "set ?t \<subseteq> set s" by (auto dest: set_dropWhileD)
  then have q: "q = 0" "u = ?t" using token.hyps(1,2) token.prems by (auto simp: quotation_def split: list.splits if_splits)
  have p: "34 \<notin> set ?t" "39 \<notin> set ?t" "92 \<notin> set ?t" using t token.prems by auto
  have w: "w = takeWhile (\<lambda>c. \<not> blank c) ?t" "rest = dropWhile (\<lambda>c. \<not> blank c) ?t"
    using token.hyps(3) split_token_plain [OF p] unfolding q by simp_all
  have r: "set (drop 1 rest) \<subseteq> set ?t" unfolding w(2) by (auto dest!: in_set_dropD set_dropWhileD)
  have "unescape False w = w" using p(3) unfolding w(1) by (intro unescape_plain) (auto dest: set_takeWhileD)
  then have "tokens s = w # Apr_Cstr.fields [32, 9] (drop 1 rest)"
    using tokens_token [OF token.hyps(1-3)] token.IH r p by auto
  also have "\<dots> = Apr_Cstr.fields [32, 9] s"
  proof -
    have b: "(\<lambda>c. c \<in> set [32, 9]) = blank" "(\<lambda>c. c \<notin> set [32, 9]) = (\<lambda>c. \<not> blank c)" by (auto simp: blank_def)
    show ?thesis using token.hyps(1) unfolding Apr_Cstr.fields.simps [of "[32, 9]" s] Let_def b w by simp
  qed
  finally show ?case .
qed

end
